(* ===== verification/Prelude.thy ===== *)
theory Prelude imports Main "HOL-Library.Word" "HOL-Library.Monad_Syntax" begin

text \<open>
  Shared vocabulary of the development: machine words and addresses, the
  collections of rewrite rules the component theories feed, and the theory of
  singly linked chains.  A chain is what both link fields of a node build:
  the list of a bucket runs through \<open>next\<close>, a free list or a zombie list runs
  through \<open>mr_next\<close>, so all facts are stated once for an arbitrary successor
  function.
\<close>

section \<open>Words, addresses, collections of facts\<close>

type_synonym u64 = "64 word"
type_synonym u32 = "32 word"
type_synonym ptr = "64 word"

abbreviation NULL :: ptr where "NULL \<equiv> 0"

named_theorems frame \<open>what an operation leaves alone\<close>
named_theorems mem_simps \<open>evaluation of the memory primitives\<close>

lemma of_nat_u64_inj:
  assumes "(of_nat i :: u64) = of_nat j" and "i < 2 ^ 64" and "j < 2 ^ 64"
  shows "i = j"
proof -
  have "unat (of_nat i :: u64) = unat (of_nat j :: u64)" using assms(1) by simp
  then show ?thesis using assms(2,3) by (simp add: unat_of_nat take_bit_nat_eq_self)
qed

section \<open>Option as the result of a call\<close>

text \<open>
  A call that dereferences NULL or never returns has the result \<open>None\<close>;
  sequencing is the bind of the option monad.
\<close>

lemma bind_eq_Some_iff:
  "(do { x \<leftarrow> m; f x }) = Some y \<longleftrightarrow> (\<exists>x. m = Some x \<and> f x = Some y)"
  by (cases m) auto

section \<open>Chains\<close>

primrec chain :: "(ptr \<Rightarrow> ptr) \<Rightarrow> ptr \<Rightarrow> ptr list \<Rightarrow> ptr \<Rightarrow> bool" where
  "chain f p [] q \<longleftrightarrow> p = q"
| "chain f p (x # xs) q \<longleftrightarrow> p = x \<and> x \<noteq> NULL \<and> chain f (f x) xs q"

lemma chain_NULL [simp]: "chain f NULL xs q \<longleftrightarrow> xs = [] \<and> q = NULL"
  by (cases xs) auto

lemma chain_nonnull:
  "p \<noteq> NULL \<Longrightarrow> chain f p xs NULL \<longleftrightarrow> (\<exists>ys. xs = p # ys \<and> chain f (f p) ys NULL)"
  by (cases xs) auto

lemma chain_append: "chain f p (xs @ ys) q \<longleftrightarrow> (\<exists>r. chain f p xs r \<and> chain f r ys q)"
  by (induction xs arbitrary: p) auto

lemma chain_cong: "(\<And>x. x \<in> set xs \<Longrightarrow> f x = g x) \<Longrightarrow> chain f p xs q \<longleftrightarrow> chain g p xs q"
  by (induction xs arbitrary: p) auto

lemma chain_upd [simp]: "a \<notin> set xs \<Longrightarrow> chain (f(a := v)) p xs q \<longleftrightarrow> chain f p xs q"
  by (rule chain_cong) auto

lemma chain_no_NULL: "chain f p xs q \<Longrightarrow> NULL \<notin> set xs"
  by (induction xs arbitrary: p) auto

lemma chain_unique: "chain f p xs NULL \<Longrightarrow> chain f p ys NULL \<Longrightarrow> xs = ys"
proof (induction xs arbitrary: p ys)
  case Nil
  then show ?case by simp
next
  case (Cons x xs)
  then show ?case by (cases ys) auto
qed

lemma chain_suffix_unique:
  assumes "chain f p (xs @ x # ys) NULL" and "chain f p (xs' @ x # ys') NULL"
  shows "ys = ys'"
proof -
  have "chain f x (x # ys) NULL" and "chain f x (x # ys') NULL"
    using assms by (auto simp: chain_append)
  then show ?thesis using chain_unique by blast
qed

lemma chain_distinct: "chain f p xs NULL \<Longrightarrow> distinct xs"
proof (induction xs arbitrary: p)
  case Nil
  then show ?case by simp
next
  case (Cons x xs)
  have "x \<notin> set xs"
  proof
    assume "x \<in> set xs"
    then obtain us vs where xs: "xs = us @ x # vs" by (meson split_list)
    have "chain f x (x # xs) NULL" using Cons.prems by simp
    moreover have "chain f x (x # vs) NULL"
      using Cons.prems xs by (auto simp: chain_append)
    ultimately have "x # xs = x # vs" by (rule chain_unique)
    then have "length vs = length (us @ x # vs)" using xs by simp
    then show False by simp
  qed
  with Cons show ?case by auto
qed

lemma chain_hd: "chain f p xs NULL \<Longrightarrow> p = (if xs = [] then NULL else hd xs)"
  by (cases xs) auto

text \<open>The pointer to the first node of a list of nodes.\<close>

definition first_ptr :: "ptr list \<Rightarrow> ptr" where
  "first_ptr xs = (if xs = [] then NULL else hd xs)"

lemma first_ptr_simps [simp]: "first_ptr [] = NULL" "first_ptr (x # xs) = x"
  by (simp_all add: first_ptr_def)

lemma chain_first: "chain f p xs NULL \<Longrightarrow> p = first_ptr xs"
  by (simp add: chain_hd first_ptr_def)

lemma chain_snoc_end: "chain f p (xs @ [x]) q \<Longrightarrow> f x = q"
  by (auto simp: chain_append)

text \<open>Redirecting the last link of a chain splices another chain behind it.\<close>

lemma chain_splice:
  assumes "chain f p (xs @ [x]) q" and "x \<notin> set xs" and "chain f v zs NULL" and "x \<notin> set zs"
  shows "chain (f(x := v)) p (xs @ x # zs) NULL"
  using assms by (auto simp: chain_append)

end
