(* ===== verification/Node_Memory.thy ===== *)
theory Node_Memory imports Prelude begin

text \<open>
  The shared memory of the benchmark: the node structure and the pointer macros
  of \<open>test.h\<close>, the bucket heads and bucket locks of \<open>struct hash\<close>, loads and
  stores that fail on NULL, and the well-formedness \<open>buckets\<close> of the buckets:
  every bucket is a NULL-terminated chain of nodes with strictly increasing
  keys, and no two buckets share a node.
\<close>

section \<open>Nodes, buckets and pointers\<close>

text \<open>
  \<open>struct node\<close>: the field \<open>next\<close> is called \<open>nxt\<close> here.  Keys are C ints; the
  list code only compares them, so they are integers, and the conversions of
  the hash function are written out where it is modelled.  \<open>rc\<close> and \<open>gc\<close> are
  unsigned longs and keep their width.
\<close>

record node_t =
  key :: int
  nxt :: ptr
  mr_next :: ptr
  rc :: u64
  gc :: u64

text \<open>
  \<open>struct hash\<close>: the arrays \<open>heads\<close> and \<open>locks\<close>, indexed by the bucket; \<open>node\<close> is the
  memory the node pointers point into.
\<close>

record mem =
  node :: "ptr \<Rightarrow> node_t"
  heads :: "nat \<Rightarrow> ptr"
  locks :: "nat \<Rightarrow> u64"

text \<open>The low bit of a node pointer is a mark: \<open>clean_pointer\<close> clears it, \<open>mark_pointer\<close> adds it.\<close>

definition clean_pointer :: "ptr \<Rightarrow> ptr" where
  "clean_pointer p = and p (- 2)"

definition mark_pointer :: "ptr \<Rightarrow> ptr" where
  "mark_pointer p = p + 1"

text \<open>Node addresses are even, so cleaning a pointer to a node changes nothing.\<close>

lemma clean_even: "even p \<Longrightarrow> clean_pointer p = p"
proof -
  assume "even (p :: ptr)"
  then have "bit p n \<Longrightarrow> bit (- 2 :: ptr) n" for n
    by (cases n) (auto simp: bit_simps bit_0 dest: bit_imp_le_length)
  then have "and p (- 2) = p" by (intro bit_eqI) (auto simp: bit_and_iff)
  then show ?thesis by (simp add: clean_pointer_def)
qed

section \<open>Loads and stores\<close>

text \<open>
  A \<open>node_t **\<close> is the address of a bucket head or of the \<open>next\<close> field of a
  node.  A load or a store through a NULL node pointer is a crash, the result
  \<open>None\<close>.
\<close>

datatype loc = Head nat | Next ptr

definition rd :: "'w mem_scheme \<Rightarrow> ptr \<Rightarrow> node_t option" where
  "rd s p = (if p = NULL then None else Some (node s p))"

definition wr :: "ptr \<Rightarrow> (node_t \<Rightarrow> node_t) \<Rightarrow> 'w mem_scheme \<Rightarrow> 'w mem_scheme option" where
  "wr p f s = (if p = NULL then None else Some (s\<lparr>node := (node s)(p := f (node s p))\<rparr>))"

fun get_loc :: "'w mem_scheme \<Rightarrow> loc \<Rightarrow> ptr option" where
  "get_loc s (Head b) = Some (heads s b)"
| "get_loc s (Next p) = map_option nxt (rd s p)"

fun set_loc :: "loc \<Rightarrow> ptr \<Rightarrow> 'w mem_scheme \<Rightarrow> 'w mem_scheme option" where
  "set_loc (Head b) v s = Some (s\<lparr>heads := (heads s)(b := v)\<rparr>)"
| "set_loc (Next p) v s = wr p (\<lambda>n. n\<lparr>nxt := v\<rparr>) s"

lemma rd_simps [mem_simps]:
  "rd s NULL = None" "p \<noteq> NULL \<Longrightarrow> rd s p = Some (node s p)"
  by (auto simp: rd_def)

lemma wr_simps [mem_simps]:
  "wr NULL f s = None"
  "p \<noteq> NULL \<Longrightarrow> wr p f s = Some (s\<lparr>node := (node s)(p := f (node s p))\<rparr>)"
  by (auto simp: wr_def)

abbreviation nxts :: "'w mem_scheme \<Rightarrow> ptr \<Rightarrow> ptr" where
  "nxts s \<equiv> \<lambda>p. nxt (node s p)"

abbreviation mrs :: "'w mem_scheme \<Rightarrow> ptr \<Rightarrow> ptr" where
  "mrs s \<equiv> \<lambda>p. mr_next (node s p)"

abbreviation keyof :: "'w mem_scheme \<Rightarrow> ptr \<Rightarrow> int" where
  "keyof s \<equiv> \<lambda>p. key (node s p)"

section \<open>Well-formed buckets and the set a bucket stands for\<close>

definition keys_of :: "'w mem_scheme \<Rightarrow> ptr list \<Rightarrow> int set" where
  "keys_of s xs = keyof s ` set xs"

definition buckets :: "'w mem_scheme \<Rightarrow> (nat \<Rightarrow> ptr list) \<Rightarrow> bool" where
  "buckets s L \<longleftrightarrow>
     (\<forall>b. chain (nxts s) (heads s b) (L b) NULL) \<and>
     (\<forall>b. sorted_wrt (<) (map (keyof s) (L b))) \<and>
     (\<forall>b c. b \<noteq> c \<longrightarrow> set (L b) \<inter> set (L c) = {})"

definition linked :: "(nat \<Rightarrow> ptr list) \<Rightarrow> ptr set" where
  "linked L = (\<Union>b. set (L b))"

definition bucket_keys :: "'w mem_scheme \<Rightarrow> nat \<Rightarrow> int set" where
  "bucket_keys s b = {k. \<exists>xs. chain (nxts s) (heads s b) xs NULL \<and> k \<in> keys_of s xs}"

lemma buckets_chain: "buckets s L \<Longrightarrow> chain (nxts s) (heads s b) (L b) NULL"
  by (simp add: buckets_def)

lemma buckets_sorted: "buckets s L \<Longrightarrow> sorted_wrt (<) (map (keyof s) (L b))"
  by (simp add: buckets_def)

lemma buckets_disjoint: "buckets s L \<Longrightarrow> b \<noteq> c \<Longrightarrow> set (L b) \<inter> set (L c) = {}"
  by (simp add: buckets_def)

lemma buckets_distinct: "buckets s L \<Longrightarrow> distinct (L b)"
  by (rule chain_distinct [OF buckets_chain])

lemma linkedI: "p \<in> set (L b) \<Longrightarrow> p \<in> linked L"
  by (auto simp: linked_def)

lemma linked_upd: "linked (L(b := xs)) = set xs \<union> (\<Union>c\<in>- {b}. set (L c))"
  by (auto simp: linked_def split: if_splits)

lemma linked_not_NULL: "buckets s L \<Longrightarrow> NULL \<notin> linked L"
  using chain_no_NULL [OF buckets_chain] by (auto simp: linked_def)

lemma bucket_keys_eq:
  assumes "buckets s L"
  shows "bucket_keys s b = keys_of s (L b)"
proof -
  have "xs = L b" if "chain (nxts s) (heads s b) xs NULL" for xs
    using chain_unique [OF that buckets_chain [OF assms]] .
  then show ?thesis unfolding bucket_keys_def using buckets_chain [OF assms] by blast
qed

text \<open>
  The link that leads to the rest of a bucket once the nodes \<open>xs\<close> are passed:
  what \<open>prev\<close> holds in the writers' loops.
\<close>

definition loc_of :: "nat \<Rightarrow> ptr list \<Rightarrow> loc" where
  "loc_of b xs = (if xs = [] then Head b else Next (last xs))"

lemma loc_of_simps [simp]: "loc_of b [] = Head b" "loc_of b (xs @ [x]) = Next x"
  by (simp_all add: loc_of_def)

text \<open>
  Redirecting that link to \<open>v\<close> replaces the rest of the bucket by the chain
  that starts at \<open>v\<close>; every other bucket keeps its nodes.
\<close>

lemma buckets_updI:
  assumes "chain (nxts s') (heads s' b) ws NULL"
    and "\<And>c. c \<noteq> b \<Longrightarrow> chain (nxts s') (heads s' c) (L c) NULL"
    and "sorted_wrt (<) (map (keyof s') ws)"
    and "\<And>c. c \<noteq> b \<Longrightarrow> sorted_wrt (<) (map (keyof s') (L c))"
    and "\<And>c. c \<noteq> b \<Longrightarrow> set ws \<inter> set (L c) = {}"
    and "\<And>c d. c \<noteq> d \<Longrightarrow> set (L c) \<inter> set (L d) = {}"
  shows "buckets s' (L(b := ws))"
proof -
  have "set ((L(b := ws)) c) \<inter> set ((L(b := ws)) d) = {}" if "c \<noteq> d" for c d
    using that assms(5) [of c] assms(5) [of d] assms(6) [of c d] by (auto simp: Int_commute)
  then show ?thesis unfolding buckets_def using assms(1-4) by simp
qed

lemma set_loc_splice:
  assumes L: "buckets s L" and b: "L b = xs @ ys"
    and zs: "chain (nxts s) v zs NULL"
    and sorted: "sorted_wrt (<) (map (keyof s) (xs @ zs))"
    and fresh: "set zs \<inter> set xs = {}" "\<And>c. c \<noteq> b \<Longrightarrow> set zs \<inter> set (L c) = {}"
  shows "\<exists>s'. set_loc (loc_of b xs) v s = Some s' \<and> buckets s' (L(b := xs @ zs))"
proof -
  have d: "set (xs @ zs) \<inter> set (L c) = {}" if "c \<noteq> b" for c
    using fresh(2) [OF that] buckets_disjoint [OF L that] b by auto
  show ?thesis
  proof (cases xs rule: rev_cases)
    case Nil
    have "buckets (s\<lparr>heads := (heads s)(b := v)\<rparr>) (L(b := zs))"
      by (rule buckets_updI) (use Nil zs sorted d L in \<open>simp_all add: buckets_def\<close>)
    then show ?thesis using Nil by simp
  next
    case (snoc us x)
    have c: "chain (nxts s) (heads s b) (us @ x # ys) NULL"
      using buckets_chain [OF L, of b] b snoc by simp
    have x: "x \<noteq> NULL" "x \<notin> set us"
      using c chain_distinct [OF c] by (auto simp: chain_append)
    let ?s' = "s\<lparr>node := (node s)(x := (node s x)\<lparr>nxt := v\<rparr>)\<rparr>"
    have n: "nxts ?s' = (nxts s)(x := v)" and k: "keyof ?s' = keyof s" by auto
    have "chain (nxts ?s') (heads s b) (us @ x # zs) NULL"
      unfolding n using c x fresh(1) snoc zs by (auto simp: chain_append)
    moreover have "chain (nxts ?s') (heads s c) (L c) NULL" if "c \<noteq> b" for c
      unfolding n using d [OF that] buckets_chain [OF L] snoc by simp
    ultimately have "buckets ?s' (L(b := us @ x # zs))"
      by (intro buckets_updI) (use sorted d L snoc k in \<open>simp_all add: buckets_def\<close>)
    then show ?thesis using x snoc by (simp add: mem_simps)
  qed
qed

text \<open>The two uses: linking a prepared node, and unlinking a node.\<close>

lemma link_node:
  assumes B: "buckets s L" and L: "L b = us @ vs" and n: "n \<notin> linked L" "n \<noteq> NULL"
    and nx: "nxt (node s n) = (if vs = [] then NULL else hd vs)"
    and lt: "\<forall>x\<in>set us. keyof s x < keyof s n" and gt: "\<forall>x\<in>set vs. keyof s n < keyof s x"
  shows "\<exists>s'. set_loc (loc_of b us) n s = Some s' \<and> buckets s' (L(b := us @ n # vs))"
proof (rule set_loc_splice [OF B L])
  have c: "chain (nxts s) (heads s b) (us @ vs) NULL" using buckets_chain [OF B, of b] L by simp
  then obtain r where r: "chain (nxts s) r vs NULL" by (auto simp: chain_append)
  then have "r = nxt (node s n)" unfolding nx by (rule chain_hd)
  then show "chain (nxts s) n (n # vs) NULL" using r n by simp
  have "sorted_wrt (<) (map (keyof s) (us @ vs))" using buckets_sorted [OF B, of b] L by simp
  then show "sorted_wrt (<) (map (keyof s) (us @ n # vs))"
    using lt gt by (auto simp: sorted_wrt_append)
  have nb: "n \<notin> set (L c)" for c using n(1) by (auto simp: linked_def)
  then show "set (n # vs) \<inter> set us = {}" using chain_distinct [OF c] L nb [of b] by auto
  show "set (n # vs) \<inter> set (L c) = {}" if "c \<noteq> b" for c
    using buckets_disjoint [OF B that] L nb [of c] by auto
qed

lemma unlink_node:
  assumes B: "buckets s L" and L: "L b = xs @ y # ys"
  shows "\<exists>s'. set_loc (loc_of b xs) (nxt (node s y)) s = Some s' \<and> buckets s' (L(b := xs @ ys))"
proof (rule set_loc_splice [OF B L])
  have c: "chain (nxts s) (heads s b) (xs @ y # ys) NULL" using buckets_chain [OF B, of b] L by simp
  then show "chain (nxts s) (nxt (node s y)) ys NULL" by (auto simp: chain_append)
  have "sorted_wrt (<) (map (keyof s) (xs @ y # ys))" using buckets_sorted [OF B, of b] L by simp
  then show "sorted_wrt (<) (map (keyof s) (xs @ ys))" by (auto simp: sorted_wrt_append)
  show "set ys \<inter> set xs = {}" using chain_distinct [OF c] by auto
  show "set ys \<inter> set (L c) = {}" if "c \<noteq> b" for c
    using buckets_disjoint [OF B that] L by auto
qed

lemma linked_split: "linked L = set (L b) \<union> (\<Union>c\<in>- {b}. set (L c))"
  by (auto simp: linked_def)

lemma linked_unlink:
  assumes B: "buckets s L" and L: "L b = xs @ y # ys"
  shows "linked L = insert y (linked (L(b := xs @ ys)))" "y \<notin> linked (L(b := xs @ ys))" "y \<noteq> NULL"
    "nxt (node s y) \<in> insert NULL (linked (L(b := xs @ ys)))"
proof -
  have c: "chain (nxts s) (heads s b) (xs @ y # ys) NULL" using buckets_chain [OF B, of b] L by simp
  show "linked L = insert y (linked (L(b := xs @ ys)))"
    using L by (auto simp: linked_upd linked_split [of L b])
  show "y \<notin> linked (L(b := xs @ ys))"
    using chain_distinct [OF c] buckets_disjoint [OF B, of b] L by (auto simp: linked_upd)
  show "y \<noteq> NULL" using c by (auto simp: chain_append)
  have "nxt (node s y) \<in> insert NULL (set ys)" using c by (cases ys) (auto simp: chain_append)
  then show "nxt (node s y) \<in> insert NULL (linked (L(b := xs @ ys)))" by (auto simp: linked_upd)
qed

lemma linked_link: "L b = us @ vs \<Longrightarrow> linked (L(b := us @ n # vs)) = insert n (linked L)"
  by (auto simp: linked_upd linked_split [of L b])

section \<open>Frames\<close>

text \<open>
  What the memory reclamation code promises the list code: the bucket heads, the
  bucket locks and the keys and links of the nodes of \<open>A\<close> are as before.  The
  plain allocator writes nothing but \<open>mr_next\<close> fields.
\<close>

definition keeps :: "ptr set \<Rightarrow> 'w mem_scheme \<Rightarrow> 'w mem_scheme \<Rightarrow> bool" where
  "keeps A s s' \<longleftrightarrow> heads s' = heads s \<and> locks s' = locks s \<and>
     (\<forall>p\<in>A. key (node s' p) = key (node s p) \<and> nxt (node s' p) = nxt (node s p))"

definition mr_only :: "'w mem_scheme \<Rightarrow> 'w mem_scheme \<Rightarrow> bool" where
  "mr_only s s' \<longleftrightarrow> heads s' = heads s \<and> locks s' = locks s \<and>
     (\<forall>p. node s' p = (node s p)\<lparr>mr_next := mr_next (node s' p)\<rparr>)"

lemma keeps_refl [simp]: "keeps A s s"
  by (simp add: keeps_def)

lemma keeps_trans: "keeps A s t \<Longrightarrow> keeps A t u \<Longrightarrow> keeps A s u"
  by (simp add: keeps_def)

lemma keeps_mono: "keeps A s t \<Longrightarrow> B \<subseteq> A \<Longrightarrow> keeps B s t"
  by (auto simp: keeps_def)

lemma mr_only_refl [simp]: "mr_only s s"
  by (simp add: mr_only_def)

lemma mr_only_trans:
  assumes "mr_only s t" and "mr_only t u"
  shows "mr_only s u"
  unfolding mr_only_def
proof (intro conjI allI)
  show "heads u = heads s" "locks u = locks s" using assms by (simp_all add: mr_only_def)
  fix p
  have "node u p = (node t p)\<lparr>mr_next := mr_next (node u p)\<rparr>"
    "node t p = (node s p)\<lparr>mr_next := mr_next (node t p)\<rparr>"
    using assms by (simp_all add: mr_only_def)
  then show "node u p = (node s p)\<lparr>mr_next := mr_next (node u p)\<rparr>"
    by (metis node_t.surjective node_t.update_convs(3))
qed

lemma mr_only_node:
  assumes "mr_only s s'"
  shows "key (node s' p) = key (node s p)" "nxt (node s' p) = nxt (node s p)"
    "rc (node s' p) = rc (node s p)" "gc (node s' p) = gc (node s p)"
proof -
  have "node s' p = (node s p)\<lparr>mr_next := mr_next (node s' p)\<rparr>"
    using assms by (simp add: mr_only_def)
  then show "key (node s' p) = key (node s p)" "nxt (node s' p) = nxt (node s p)"
    "rc (node s' p) = rc (node s p)" "gc (node s' p) = gc (node s p)"
    by (metis node_t.select_convs node_t.surjective node_t.update_convs(3))+
qed

lemma mr_only_heads: "mr_only s s' \<Longrightarrow> heads s' = heads s"
  by (simp add: mr_only_def)

lemma mr_only_keeps: "mr_only s s' \<Longrightarrow> keeps A s s'"
  by (simp add: keeps_def mr_only_node mr_only_heads) (simp add: mr_only_def)

lemma buckets_keeps:
  assumes "buckets s L" and "keeps (linked L) s s'"
  shows "buckets s' L"
proof -
  have k: "keyof s' p = keyof s p" "nxts s' p = nxts s p" if "p \<in> set (L b)" for p b
    using assms(2) linkedI [of p L b, OF that] by (auto simp: keeps_def)
  have "chain (nxts s') (heads s' b) (L b) NULL" for b
    using assms chain_cong [of "L b" "nxts s'" "nxts s"] k(2) by (auto simp: keeps_def buckets_def)
  moreover have "map (keyof s') (L b) = map (keyof s) (L b)" for b
    using k(1) by simp
  ultimately show ?thesis using assms(1) unfolding buckets_def by metis
qed

end
