(* ===== verification/Atomics.thy ===== *)
theory Atomics imports Prelude begin

text \<open>
  The read-modify-write primitives of \<open>atomic.h\<close>, as functions from the old
  content of the cell to the returned value and the new content.  The barriers
  of the file are in \<open>Store_Buffers\<close>.
\<close>

definition atomic_cmpxchg4 :: "u64 \<Rightarrow> u64 \<Rightarrow> u64 \<Rightarrow> u64 \<times> u64" where
  "atomic_cmpxchg4 cell oldval newval = (cell, if cell = oldval then newval else cell)"

definition CAS :: "u64 \<Rightarrow> u64 \<Rightarrow> u64 \<Rightarrow> bool \<times> u64" where
  "CAS cell oldval newval =
     (case atomic_cmpxchg4 cell oldval newval of (r, cell') \<Rightarrow> (r = oldval, cell'))"

definition atomic_read4 :: "u64 \<Rightarrow> u64" where
  "atomic_read4 cell = cell"

definition atomic_xadd4 :: "u64 \<Rightarrow> u64 \<Rightarrow> u64 \<times> u64" where
  "atomic_xadd4 cell addend = (cell, cell + addend)"

definition atomic_xchg4 :: "u64 \<Rightarrow> u64 \<Rightarrow> u64 \<times> u64" where
  "atomic_xchg4 cell v = (cell, v)"

definition atomic_set4 :: "u64 \<Rightarrow> u64 \<Rightarrow> u64" where
  "atomic_set4 cell newvalue = snd (atomic_xchg4 cell newvalue)"

lemma CAS_simps [mem_simps]:
  "CAS c c v = (True, v)" "c \<noteq> old \<Longrightarrow> CAS c old v = (False, c)"
  by (simp_all add: CAS_def atomic_cmpxchg4_def)

end
