(* ===== verification/Allocator.thy ===== *)
theory Allocator imports Node_Memory Atomics begin

text \<open>
  \<open>allocator_malloc.c\<close>: the free list every reclamation scheme gives its nodes
  back to.  A thread keeps a private list \<open>lfl\<close> of free nodes, chained through
  \<open>mr_next\<close>; every hundredth free pushes it onto the shared \<open>freelist\<close>, and a
  thread that runs out takes the whole shared list.  The record holds the shared
  list and the private variables of the thread that runs the operations; the
  configurations the Makefile builds have one updater.

  \<open>calloc\<close> is modelled by the list \<open>pool\<close> of the addresses it will hand out, in
  order; an empty pool is an exhausted memory, where it returns NULL.
\<close>

section \<open>State\<close>

record alloc = mem +
  pool :: "ptr list"
  freelist :: ptr
  frct :: int
  lfl :: ptr
  lfl_tail :: ptr
  lcnt :: int
  nbmallocs :: nat
  nbfl :: int

definition zero_node :: node_t where
  "zero_node = \<lparr>key = 0, nxt = NULL, mr_next = NULL, rc = 0, gc = 0\<rparr>"

definition calloc_node :: "'w alloc_scheme \<Rightarrow> ptr \<times> 'w alloc_scheme" where
  "calloc_node s = (case pool s of
       [] \<Rightarrow> (NULL, s)
     | p # ps \<Rightarrow> (p, s\<lparr>pool := ps, node := (node s)(p := zero_node)\<rparr>))"

definition libc_free :: "ptr \<Rightarrow> 'w alloc_scheme \<Rightarrow> 'w alloc_scheme option" where
  "libc_free p s = Some (if p = NULL then s else s\<lparr>pool := pool s @ [p]\<rparr>)"

section \<open>The default allocator\<close>

text \<open>
  The loop of \<open>get_free\<close> that takes the shared list: it ends when the list is
  empty or the compare-and-swap succeeds.
\<close>

partial_function (option) steal :: "'w alloc_scheme \<Rightarrow> 'w alloc_scheme option" where
  "steal s =
     (let s = s\<lparr>lfl := freelist s\<rparr> in
      if lfl s = NULL then Some s
      else case CAS (freelist s) (lfl s) NULL of (ok, v) \<Rightarrow>
        if ok then Some (s\<lparr>freelist := v\<rparr>) else steal (s\<lparr>freelist := v\<rparr>))"

definition get_free :: "'w alloc_scheme \<Rightarrow> (ptr \<times> 'w alloc_scheme) option" where
  "get_free s = do {
     s \<leftarrow> (if lfl s = NULL then steal s else Some s);
     if lfl s = NULL then Some (NULL, s)
     else do {
       n \<leftarrow> rd s (lfl s);
       Some (lfl s, s\<lparr>lfl := mr_next n\<rparr>)
     }
   }"

abbreviation AMORT_FREE_ON :: int where "AMORT_FREE_ON \<equiv> 100"

partial_function (option) push_loop :: "'w alloc_scheme \<Rightarrow> 'w alloc_scheme option" where
  "push_loop s = do {
     t \<leftarrow> rd s (lfl_tail s);
     case CAS (freelist s) (mr_next t) (lfl s) of (ok, v) \<Rightarrow>
       let s = s\<lparr>freelist := v\<rparr> in
       if ok then Some s
       else do {
         s \<leftarrow> wr (lfl_tail s) (\<lambda>n. n\<lparr>mr_next := freelist s\<rparr>) s;
         push_loop s
       }
   }"

definition add_free :: "ptr \<Rightarrow> 'w alloc_scheme \<Rightarrow> 'w alloc_scheme option" where
  "add_free p s = do {
     let s = (if lfl_tail s = NULL then s\<lparr>lfl_tail := p\<rparr> else s);
     s \<leftarrow> wr p (\<lambda>n. n\<lparr>mr_next := lfl s\<rparr>) s;
     let s = s\<lparr>lfl := p, lcnt := lcnt s + 1\<rparr>;
     if AMORT_FREE_ON \<le> lcnt s then do {
       s \<leftarrow> wr (lfl_tail s) (\<lambda>n. n\<lparr>mr_next := freelist s\<rparr>) s;
       s \<leftarrow> push_loop s;
       Some (s\<lparr>lfl_tail := NULL, lfl := NULL, lcnt := 0\<rparr>)
     } else Some s
   }"

definition new_node :: "'w alloc_scheme \<Rightarrow> (ptr \<times> 'w alloc_scheme) option" where
  "new_node s = do {
     (n, s) \<leftarrow> get_free s;
     if n = NULL then (case calloc_node s of (n, s) \<Rightarrow> Some (n, s\<lparr>nbmallocs := nbmallocs s + 1\<rparr>))
     else Some (n, s)
   }"

definition free_node :: "ptr \<Rightarrow> 'w alloc_scheme \<Rightarrow> 'w alloc_scheme option" where
  "free_node n s = do {
     s \<leftarrow> add_free n s;
     Some (s\<lparr>nbfl := nbfl s + 1\<rparr>)
   }"

section \<open>Initialisation and disposal\<close>

text \<open>The Makefile does not define \<open>PREALLOCAT\<close>, so \<open>prealloc\<close> is empty.\<close>

definition prealloc :: "'w alloc_scheme \<Rightarrow> 'w alloc_scheme" where
  "prealloc s = s"

definition init_allocator :: "'w alloc_scheme \<Rightarrow> 'w alloc_scheme" where
  "init_allocator s = prealloc (s\<lparr>freelist := NULL, frct := 0\<rparr>)"

text \<open>\<open>free_nodes\<close> follows \<open>next\<close>, not \<open>mr_next\<close>.\<close>

partial_function (option) free_nodes ::
    "(ptr \<Rightarrow> 'w alloc_scheme \<Rightarrow> 'w alloc_scheme option) \<Rightarrow> ptr \<Rightarrow> 'w alloc_scheme \<Rightarrow>
     'w alloc_scheme option" where
  "free_nodes f nodes s =
     (if nodes = NULL then Some s
      else do {
        n \<leftarrow> rd s nodes;
        let temp = nxt n;
        s \<leftarrow> f nodes s;
        free_nodes f temp s
      })"

definition fnd :: "ptr \<Rightarrow> 'w alloc_scheme \<Rightarrow> 'w alloc_scheme option" where
  "fnd n s = free_node n s"

definition allocator_thread_free :: "'w alloc_scheme \<Rightarrow> 'w alloc_scheme option" where
  "allocator_thread_free s = do {
     s \<leftarrow> free_nodes fnd (lfl s) s;
     Some (s\<lparr>lfl := NULL, lfl_tail := NULL\<rparr>)
   }"

definition delete_allocator :: "'w alloc_scheme \<Rightarrow> 'w alloc_scheme option" where
  "delete_allocator s = do {
     s \<leftarrow> free_nodes libc_free (freelist s) s;
     Some (s\<lparr>freelist := NULL\<rparr>)
   }"

section \<open>The alternatives behind \<open>SIMPLE_AMORT_FREE\<close> and \<open>SIMPLE_ALLOC\<close>\<close>

definition add_free_amort :: "ptr \<Rightarrow> 'w alloc_scheme \<Rightarrow> 'w alloc_scheme option" where
  "add_free_amort p s = do {
     s \<leftarrow> wr p (\<lambda>n. n\<lparr>mr_next := lfl s\<rparr>) s;
     let s = s\<lparr>lfl := p, lcnt := lcnt s + 1\<rparr>;
     if AMORT_FREE_ON \<le> lcnt s \<and> freelist s = NULL then
       (case CAS (freelist s) NULL (lfl s) of (ok, v) \<Rightarrow>
          let s = s\<lparr>freelist := v\<rparr> in
          if ok then Some (s\<lparr>lfl := NULL, lcnt := 0\<rparr>) else Some s)
     else Some s
   }"

definition get_free_simple :: "'w alloc_scheme \<Rightarrow> (ptr \<times> 'w alloc_scheme) option" where
  "get_free_simple s =
     (if lfl s \<noteq> NULL then do { n \<leftarrow> rd s (lfl s); Some (lfl s, s\<lparr>lfl := mr_next n\<rparr>) }
      else Some (lfl s, s))"

definition add_free_simple :: "ptr \<Rightarrow> 'w alloc_scheme \<Rightarrow> 'w alloc_scheme option" where
  "add_free_simple p s = do {
     s \<leftarrow> wr p (\<lambda>n. n\<lparr>mr_next := lfl s\<rparr>) s;
     Some (s\<lparr>lfl := p\<rparr>)
   }"

section \<open>The invariant\<close>

text \<open>
  \<open>A\<close> is the set of nodes in use (linked into a bucket, or held by the updater
  or by a reclamation scheme), \<open>F\<close> the private free list and \<open>G\<close> the shared one.
  The tail pointer may be stale: \<open>get_free\<close> pops a node without looking at it,
  so it may name a node in use; it never names a node of the shared list.
\<close>

definition alloc_inv :: "'w alloc_scheme \<Rightarrow> ptr set \<Rightarrow> ptr list \<Rightarrow> ptr list \<Rightarrow> bool" where
  "alloc_inv s A F G \<longleftrightarrow>
     chain (mrs s) (lfl s) F NULL \<and> chain (mrs s) (freelist s) G NULL \<and>
     distinct (pool s) \<and> NULL \<notin> set (pool s) \<and> NULL \<notin> A \<and>
     set F \<inter> set G = {} \<and> set F \<inter> set (pool s) = {} \<and> set G \<inter> set (pool s) = {} \<and>
     A \<inter> (set F \<union> set G \<union> set (pool s)) = {} \<and>
     lfl_tail s \<notin> set G \<and> lfl_tail s \<notin> set (pool s) \<and> lcnt s < AMORT_FREE_ON"

definition alloc_ok :: "'w alloc_scheme \<Rightarrow> ptr set \<Rightarrow> bool" where
  "alloc_ok s A \<longleftrightarrow> (\<exists>F G. alloc_inv s A F G)"

lemma alloc_okI: "alloc_inv s A F G \<Longrightarrow> alloc_ok s A"
  by (auto simp: alloc_ok_def)

lemma alloc_ok_Set: "alloc_ok s A \<Longrightarrow> NULL \<notin> A"
  by (auto simp: alloc_ok_def alloc_inv_def)

lemma alloc_inv_Nil_iff: "alloc_inv s A F G \<Longrightarrow> lfl s = NULL \<longleftrightarrow> F = []"
  by (cases F) (auto simp: alloc_inv_def)

text \<open>Only the \<open>mr_next\<close> fields and the allocator's own variables matter to it.\<close>

lemma alloc_inv_cong:
  assumes "alloc_inv s A F G" and "\<And>p. mr_next (node s' p) = mr_next (node s p)"
    and "pool s' = pool s" "freelist s' = freelist s" "lfl s' = lfl s" "lfl_tail s' = lfl_tail s"
      "lcnt s' = lcnt s"
  shows "alloc_inv s' A F G"
  using assms by (simp add: alloc_inv_def)

lemma alloc_ok_cong:
  assumes "alloc_ok s A" and "\<And>p. mr_next (node s' p) = mr_next (node s p)"
    and "pool s' = pool s" "freelist s' = freelist s" "lfl s' = lfl s" "lfl_tail s' = lfl_tail s"
      "lcnt s' = lcnt s"
  shows "alloc_ok s' A"
  using assms alloc_inv_cong unfolding alloc_ok_def by blast

section \<open>Taking a node\<close>

lemma steal_eq: "steal s = Some (s\<lparr>lfl := freelist s, freelist := NULL\<rparr>)"
proof (cases "freelist s = NULL")
  case True
  then have "s\<lparr>lfl := freelist s, freelist := NULL\<rparr> = s\<lparr>lfl := freelist s\<rparr>"
    by (metis alloc.ext_inject alloc.surjective alloc.update_convs(2) alloc.update_convs(4))
  with True show ?thesis by (subst steal.simps) (simp add: Let_def)
next
  case False
  then show ?thesis by (subst steal.simps) (simp add: Let_def mem_simps)
qed

lemma get_free_inv:
  assumes "alloc_inv s A F G"
  shows "\<exists>n s'. get_free s = Some (n, s') \<and>
    (if F @ G = [] then n = NULL \<and> alloc_inv s' A [] []
     else n = hd (F @ G) \<and> n \<noteq> NULL \<and>
       alloc_inv s' (insert n A) (tl (if F = [] then G else F)) (if F = [] then [] else G)) \<and>
    node s' = node s \<and> heads s' = heads s \<and> locks s' = locks s \<and> pool s' = pool s"
proof (cases F)
  case (Cons x F')
  then have x: "lfl s = x" "x \<noteq> NULL" using assms by (auto simp: alloc_inv_def)
  have "get_free s = Some (x, s\<lparr>lfl := mr_next (node s x)\<rparr>)"
    using x by (simp add: get_free_def mem_simps)
  moreover have "alloc_inv (s\<lparr>lfl := mr_next (node s x)\<rparr>) (insert x A) F' G"
    using assms Cons x chain_distinct [of "mrs s" "lfl s" F] by (auto simp: alloc_inv_def)
  ultimately show ?thesis using Cons x by simp
next
  case Nil
  then have l: "lfl s = NULL" using assms alloc_inv_Nil_iff by blast
  let ?s = "s\<lparr>lfl := freelist s, freelist := NULL\<rparr>"
  show ?thesis
  proof (cases G)
    case Nil
    then have "freelist s = NULL" using assms by (auto simp: alloc_inv_def)
    then have "get_free s = Some (NULL, ?s)" by (simp add: get_free_def l steal_eq)
    moreover have "alloc_inv ?s A [] []"
      using assms \<open>F = []\<close> Nil \<open>freelist s = NULL\<close> by (auto simp: alloc_inv_def)
    ultimately show ?thesis using \<open>F = []\<close> Nil by simp
  next
    case (Cons y G')
    then have y: "freelist s = y" "y \<noteq> NULL" using assms by (auto simp: alloc_inv_def)
    have "get_free s = Some (y, ?s\<lparr>lfl := mr_next (node s y)\<rparr>)"
      using y by (simp add: get_free_def l steal_eq mem_simps)
    moreover have "alloc_inv (?s\<lparr>lfl := mr_next (node s y)\<rparr>) (insert y A) G' []"
      using assms Cons y \<open>F = []\<close> chain_distinct [of "mrs s" "freelist s" G]
      by (auto simp: alloc_inv_def)
    ultimately show ?thesis using \<open>F = []\<close> Cons y by simp
  qed
qed

text \<open>
  \<open>new_node\<close> recycles the first free node, without touching it, as long as
  there is one; else it takes the next node of the system, zeroed; with the
  memory exhausted it returns NULL.
\<close>

lemma new_node_recycles:
  assumes inv: "alloc_inv s A F G" and ne: "F @ G \<noteq> []"
  shows "\<exists>s'. new_node s = Some (hd (F @ G), s') \<and> hd (F @ G) \<noteq> NULL \<and> hd (F @ G) \<notin> A \<and>
    alloc_ok s' (insert (hd (F @ G)) A) \<and>
    node s' = node s \<and> heads s' = heads s \<and> locks s' = locks s \<and> pool s' = pool s"
proof -
  have "hd (F @ G) \<in> set F \<union> set G" using ne hd_in_set [OF ne] by simp
  then have "hd (F @ G) \<notin> A" using inv by (auto simp: alloc_inv_def)
  then show ?thesis
    using get_free_inv [OF inv] ne unfolding new_node_def alloc_ok_def by fastforce
qed

lemma new_node_callocs:
  assumes inv: "alloc_inv s A [] []" and p: "pool s = p # ps"
  shows "\<exists>s'. new_node s = Some (p, s') \<and> p \<noteq> NULL \<and> p \<notin> A \<and> alloc_ok s' (insert p A) \<and>
    node s' = (node s)(p := zero_node) \<and> heads s' = heads s \<and> locks s' = locks s \<and> pool s' = ps"
proof -
  obtain s1 where s1: "get_free s = Some (NULL, s1)" "alloc_inv s1 A [] []"
    and k: "node s1 = node s" "heads s1 = heads s" "locks s1 = locks s" "pool s1 = pool s"
    using get_free_inv [OF inv] by auto
  let ?s' = "s1\<lparr>pool := ps, node := (node s1)(p := zero_node), nbmallocs := nbmallocs s1 + 1\<rparr>"
  have "new_node s = Some (p, ?s')" using s1 k p by (simp add: new_node_def calloc_node_def)
  moreover have "alloc_inv ?s' (insert p A) [] []"
    using s1(2) k p by (auto simp: alloc_inv_def)
  moreover have "p \<noteq> NULL" "p \<notin> A" using inv p by (auto simp: alloc_inv_def)
  ultimately show ?thesis using k by (auto simp: alloc_ok_def)
qed

lemma new_node_exhausted:
  assumes inv: "alloc_inv s A [] []" and p: "pool s = []"
  shows "\<exists>s'. new_node s = Some (NULL, s') \<and> alloc_ok s' A \<and>
    node s' = node s \<and> heads s' = heads s \<and> locks s' = locks s \<and> pool s' = []"
proof -
  obtain s1 where s1: "get_free s = Some (NULL, s1)" "alloc_inv s1 A [] []"
    and k: "node s1 = node s" "heads s1 = heads s" "locks s1 = locks s" "pool s1 = pool s"
    using get_free_inv [OF inv] by auto
  have "new_node s = Some (NULL, s1\<lparr>nbmallocs := nbmallocs s1 + 1\<rparr>)"
    using s1 k p by (simp add: new_node_def calloc_node_def)
  moreover have "alloc_ok (s1\<lparr>nbmallocs := nbmallocs s1 + 1\<rparr>) A"
    by (rule alloc_okI [OF alloc_inv_cong [OF s1(2)]]) simp_all
  ultimately show ?thesis using k p by auto
qed

lemma new_node_ok:
  assumes "alloc_ok s A"
  shows "\<exists>n s'. new_node s = Some (n, s') \<and> keeps A s s' \<and> set (pool s') \<subseteq> set (pool s) \<and>
    (if n = NULL then alloc_ok s' A else n \<notin> A \<and> alloc_ok s' (insert n A)) \<and>
    (\<forall>p. p \<notin> set (pool s) \<longrightarrow> node s' p = node s p) \<and> n \<notin> set (pool s') \<and>
    (\<forall>p\<in>set (pool s) - set (pool s'). node s' p = zero_node)"
proof -
  obtain F G where inv: "alloc_inv s A F G" using assms by (auto simp: alloc_ok_def)
  show ?thesis
  proof (cases "F @ G = []")
    case False
    moreover from False have "hd (F @ G) \<notin> set (pool s)"
      using inv hd_in_set [OF False] by (auto simp: alloc_inv_def)
    ultimately show ?thesis using new_node_recycles [OF inv False] by (auto simp: keeps_def)
  next
    case True
    then have inv': "alloc_inv s A [] []" using inv by simp
    show ?thesis
    proof (cases "pool s")
      case Nil
      then show ?thesis using new_node_exhausted [OF inv' Nil] by (auto simp: keeps_def)
    next
      case (Cons p ps)
      then have "p \<notin> set ps" using inv by (auto simp: alloc_inv_def)
      then show ?thesis using new_node_callocs [OF inv' Cons] Cons
        by (auto simp: keeps_def)
    qed
  qed
qed

section \<open>Giving a node back\<close>

lemma push_loop_eq:
  assumes "lfl_tail s \<noteq> NULL" and "mr_next (node s (lfl_tail s)) = freelist s"
  shows "push_loop s = Some (s\<lparr>freelist := lfl s\<rparr>)"
  using assms by (subst push_loop.simps) (simp add: mem_simps)

text \<open>What \<open>add_free\<close> has done before the test of the counter, and what the flush does.\<close>

definition pushed :: "ptr \<Rightarrow> 'w alloc_scheme \<Rightarrow> 'w alloc_scheme" where
  "pushed p s = s\<lparr>lfl_tail := (if lfl_tail s = NULL then p else lfl_tail s),
     node := (node s)(p := (node s p)\<lparr>mr_next := lfl s\<rparr>), lfl := p, lcnt := lcnt s + 1\<rparr>"

definition flushed :: "'w alloc_scheme \<Rightarrow> 'w alloc_scheme" where
  "flushed s = s\<lparr>node := (node s)(lfl_tail s := (node s (lfl_tail s))\<lparr>mr_next := freelist s\<rparr>),
     freelist := lfl s, lfl_tail := NULL, lfl := NULL, lcnt := 0\<rparr>"

lemma add_free_eq:
  assumes "p \<noteq> NULL"
  shows "add_free p s =
    Some (if AMORT_FREE_ON \<le> lcnt s + 1 then flushed (pushed p s) else pushed p s)"
  using assms by (auto simp: add_free_def pushed_def flushed_def mem_simps push_loop_eq Let_def)

lemma pushed_inv:
  assumes inv: "alloc_inv s (insert p A) F G" and p: "p \<notin> A"
  shows "chain (mrs (pushed p s)) p (p # F) NULL"
    and "chain (mrs (pushed p s)) (freelist s) G NULL"
    and "lcnt s + 1 < AMORT_FREE_ON \<Longrightarrow> alloc_inv (pushed p s) A (p # F) G"
proof -
  have m: "mrs (pushed p s) = (mrs s)(p := lfl s)" by (auto simp: pushed_def)
  have pF: "p \<notin> set F" "p \<notin> set G" "p \<noteq> NULL" using inv by (auto simp: alloc_inv_def)
  show 1: "chain (mrs (pushed p s)) p (p # F) NULL"
    unfolding m using inv pF by (simp add: alloc_inv_def)
  show 2: "chain (mrs (pushed p s)) (freelist s) G NULL"
    unfolding m using inv pF by (simp add: alloc_inv_def)
  show "alloc_inv (pushed p s) A (p # F) G" if "lcnt s + 1 < AMORT_FREE_ON"
  proof -
    have "lfl (pushed p s) = p" "freelist (pushed p s) = freelist s" "pool (pushed p s) = pool s"
      "lfl_tail (pushed p s) \<in> {p, lfl_tail s}" "lcnt (pushed p s) = lcnt s + 1"
      by (simp_all add: pushed_def)
    then show ?thesis using inv p pF that 1 2 unfolding alloc_inv_def by auto
  qed
qed

text \<open>
  The flush redirects the \<open>mr_next\<close> of the tail and publishes the private list.
  Where the tail is the last node of the private list nothing is lost; a stale
  tail cuts the list behind it, or leaves the old shared list unreachable.
\<close>

definition flush_list :: "ptr \<Rightarrow> ptr list \<Rightarrow> ptr list \<Rightarrow> ptr list" where
  "flush_list t F G =
     (if t \<in> set F then takeWhile (\<lambda>q. q \<noteq> t) F @ t # G else F)"

lemma set_flush_list: "set (flush_list t F G) \<subseteq> set F \<union> set G"
  by (auto simp: flush_list_def dest: set_takeWhileD)

lemma flushed_inv:
  assumes F: "chain (mrs s) (lfl s) F NULL" and G: "chain (mrs s) (freelist s) G NULL"
    and t: "lfl_tail s \<notin> set G"
  shows "chain (mrs (flushed s)) (freelist (flushed s)) (flush_list (lfl_tail s) F G) NULL"
proof -
  let ?t = "lfl_tail s"
  have m: "mrs (flushed s) = (mrs s)(?t := freelist s)" by (auto simp: flushed_def)
  have f: "freelist (flushed s) = lfl s" by (simp add: flushed_def)
  show ?thesis
  proof (cases "?t \<in> set F")
    case False
    then show ?thesis unfolding m f using F by (simp add: flush_list_def)
  next
    case True
    then obtain us vs where us: "F = us @ ?t # vs" "?t \<notin> set us" by (meson split_list_first)
    then have "takeWhile (\<lambda>q. q \<noteq> ?t) F = us" by (subst us(1)) (subst takeWhile_append2; auto)
    moreover have "chain (mrs s) (lfl s) us ?t" "?t \<noteq> NULL"
      using F us(1) by (auto simp: chain_append)
    then have "chain ((mrs s)(?t := freelist s)) (lfl s) (us @ ?t # G) NULL"
      using us(2) G t by (auto simp: chain_append)
    ultimately show ?thesis unfolding m f using True by (simp add: flush_list_def)
  qed
qed

lemma add_free_flush:
  assumes inv: "alloc_inv s (insert p A) F G" and p: "p \<notin> A" and l: "AMORT_FREE_ON \<le> lcnt s + 1"
  shows "\<exists>s'. add_free p s = Some s' \<and> mr_only s s' \<and> pool s' = pool s \<and>
    alloc_inv s' A [] (flush_list (if lfl_tail s = NULL then p else lfl_tail s) (p # F) G)"
proof -
  note P = pushed_inv [OF inv p]
  have pn: "p \<noteq> NULL" using inv by (auto simp: alloc_inv_def)
  let ?s = "pushed p s"
  define t where "t = (if lfl_tail s = NULL then p else lfl_tail s)"
  define G' where "G' = flush_list t (p # F) G"
  have e: "lfl ?s = p" "freelist ?s = freelist s" "pool ?s = pool s" "lfl_tail ?s = t"
    by (simp_all add: pushed_def t_def)
  have t: "t \<notin> set G" using inv by (auto simp: alloc_inv_def t_def)
  have G: "chain (mrs (flushed ?s)) (freelist (flushed ?s)) G' NULL"
    using flushed_inv [of ?s "p # F" G] P(1,2) t e unfolding G'_def by simp
  have "set G' \<subseteq> insert p (set F \<union> set G)"
    using set_flush_list [of t "p # F" G] unfolding G'_def by auto
  then have dis: "set G' \<inter> set (pool s) = {}" "set G' \<inter> A = {}" "NULL \<notin> set G'"
    using inv p chain_no_NULL [OF G] unfolding alloc_inv_def by blast+
  have f: "lfl (flushed ?s) = NULL" "lfl_tail (flushed ?s) = NULL" "pool (flushed ?s) = pool s"
    "lcnt (flushed ?s) = 0"
    using e by (simp_all add: flushed_def)
  have "alloc_inv (flushed ?s) A [] G'"
    using G dis inv unfolding alloc_inv_def f by auto
  moreover have "mr_only s (flushed ?s)" "pool (flushed ?s) = pool s"
    by (simp_all add: mr_only_def pushed_def flushed_def)
  ultimately show ?thesis using l pn by (simp add: add_free_eq G'_def t_def)
qed

lemma add_free_plain:
  assumes inv: "alloc_inv s (insert p A) F G" and p: "p \<notin> A" and l: "lcnt s + 1 < AMORT_FREE_ON"
  shows "\<exists>s'. add_free p s = Some s' \<and> mr_only s s' \<and> pool s' = pool s \<and> alloc_inv s' A (p # F) G"
proof -
  have "p \<noteq> NULL" using inv by (auto simp: alloc_inv_def)
  moreover have "mr_only s (pushed p s)" "pool (pushed p s) = pool s"
    by (simp_all add: mr_only_def pushed_def)
  ultimately show ?thesis using pushed_inv(3) [OF inv p l] l by (simp add: add_free_eq)
qed

lemma add_free_ok:
  assumes "alloc_ok s (insert p A)" and p: "p \<notin> A"
  shows "\<exists>s'. add_free p s = Some s' \<and> alloc_ok s' A \<and> mr_only s s' \<and> pool s' = pool s"
proof -
  obtain F G where inv: "alloc_inv s (insert p A) F G" using assms(1) by (auto simp: alloc_ok_def)
  show ?thesis
  proof (cases "lcnt s + 1 < AMORT_FREE_ON")
    case True
    then show ?thesis using add_free_plain [OF inv p] by (auto intro: alloc_okI)
  next
    case False
    then have "AMORT_FREE_ON \<le> lcnt s + 1" by simp
    then show ?thesis using add_free_flush [OF inv p] by (auto intro: alloc_okI)
  qed
qed

lemma free_node_ok:
  assumes "alloc_ok s (insert p A)" and "p \<notin> A"
  shows "\<exists>s'. free_node p s = Some s' \<and> alloc_ok s' A \<and> mr_only s s' \<and> pool s' = pool s"
proof -
  obtain s1 where s1: "add_free p s = Some s1" "alloc_ok s1 A" "mr_only s s1" "pool s1 = pool s"
    using add_free_ok [OF assms] by blast
  let ?s = "s1\<lparr>nbfl := nbfl s1 + 1\<rparr>"
  have "free_node p s = Some ?s" using s1 by (simp add: free_node_def)
  moreover have "alloc_ok ?s A" using s1(2) by (rule alloc_ok_cong) simp_all
  moreover have "mr_only s ?s" using s1(3) by (simp add: mr_only_def)
  ultimately show ?thesis using s1(4) by simp
qed

section \<open>The addresses the allocator deals in\<close>

text \<open>Every address it hands out or keeps comes from a fixed set \<open>U\<close>.\<close>

definition alloc_within :: "'w alloc_scheme \<Rightarrow> ptr set \<Rightarrow> ptr set \<Rightarrow> bool" where
  "alloc_within s A U \<longleftrightarrow> (\<exists>F G. alloc_inv s A F G \<and> A \<union> set F \<union> set G \<union> set (pool s) \<subseteq> U)"

lemma alloc_within_ok: "alloc_within s A U \<Longrightarrow> alloc_ok s A"
  by (auto simp: alloc_within_def alloc_ok_def)

lemma alloc_within_sub: "alloc_within s A U \<Longrightarrow> A \<subseteq> U"
  by (auto simp: alloc_within_def)

lemma alloc_within_cong:
  assumes "alloc_within s A U" and "\<And>p. mr_next (node s' p) = mr_next (node s p)"
    and "pool s' = pool s" "freelist s' = freelist s" "lfl s' = lfl s" "lfl_tail s' = lfl_tail s"
      "lcnt s' = lcnt s"
  shows "alloc_within s' A U"
proof -
  obtain F G where i: "alloc_inv s A F G" "A \<union> set F \<union> set G \<union> set (pool s) \<subseteq> U"
    using assms(1) by (auto simp: alloc_within_def)
  have "alloc_inv s' A F G" using i(1) assms(2-) by (rule alloc_inv_cong)
  then show ?thesis using i(2) assms(3) unfolding alloc_within_def by metis
qed

lemma new_node_within:
  assumes "alloc_within s A U"
  shows "\<exists>n s'. new_node s = Some (n, s') \<and> keeps A s s' \<and>
    set (pool s) \<subseteq> insert n (set (pool s')) \<and>
    (if n = NULL then alloc_within s' A U
     else n \<notin> A \<and> alloc_within s' (insert n A) U \<and>
       (if n \<in> set (pool s) then node s' = (node s)(n := zero_node) else node s' = node s))"
proof -
  obtain F G where inv: "alloc_inv s A F G" and U: "A \<union> set F \<union> set G \<union> set (pool s) \<subseteq> U"
    using assms by (auto simp: alloc_within_def)
  obtain m s1 where m: "get_free s = Some (m, s1)"
    "if F @ G = [] then m = NULL \<and> alloc_inv s1 A [] []
     else m = hd (F @ G) \<and> m \<noteq> NULL \<and>
       alloc_inv s1 (insert m A) (tl (if F = [] then G else F)) (if F = [] then [] else G)"
    "node s1 = node s" "heads s1 = heads s" "locks s1 = locks s" "pool s1 = pool s"
    using get_free_inv [OF inv] by blast
  show ?thesis
  proof (cases "F @ G = []")
    case False
    let ?F = "if F = [] then G else F"
    have i: "m = hd (F @ G)" "m \<noteq> NULL" "alloc_inv s1 (insert m A) (tl ?F) (if F = [] then [] else G)"
      using m(2) False by auto
    have "m \<in> set F \<union> set G" unfolding i(1) using False hd_in_set [OF False] by simp
    then have mU: "m \<in> U" "m \<notin> A" "m \<notin> set (pool s)" using inv U by (auto simp: alloc_inv_def)
    have "set (tl ?F) \<subseteq> set F \<union> set G" by (cases F; cases G) auto
    then have "alloc_within s1 (insert m A) U"
      unfolding alloc_within_def using i(3) U mU(1) m(6)
      by (intro exI [of _ "tl ?F"] exI [of _ "if F = [] then [] else G"]) (auto split: if_splits)
    moreover have "new_node s = Some (m, s1)" using m(1) i(2) by (simp add: new_node_def)
    ultimately show ?thesis using i(2) mU m by (auto simp: keeps_def)
  next
    case True
    then have inv': "alloc_inv s A [] []" using inv by simp
    show ?thesis
    proof (cases "pool s")
      case Nil
      let ?s' = "s1\<lparr>nbmallocs := nbmallocs s1 + 1\<rparr>"
      have s1: "m = NULL" "alloc_inv s1 A [] []" using m(2) True by simp_all
      have "new_node s = Some (NULL, ?s')" using m s1(1) Nil by (simp add: new_node_def calloc_node_def)
      moreover have "alloc_inv ?s' A [] []" using s1(2) by (rule alloc_inv_cong) simp_all
      then have "alloc_within ?s' A U"
        unfolding alloc_within_def using U m(6) by (intro exI [of _ "[]"]) simp
      ultimately show ?thesis using m(3-6) by (auto simp: keeps_def)
    next
      case (Cons p ps)
      let ?s' = "s1\<lparr>pool := ps, node := (node s1)(p := zero_node), nbmallocs := nbmallocs s1 + 1\<rparr>"
      have "new_node s = Some (p, ?s')" using m True Cons by (simp add: new_node_def calloc_node_def)
      moreover have "alloc_inv ?s' (insert p A) [] []"
        using m True Cons by (auto simp: alloc_inv_def)
      then have "alloc_within ?s' (insert p A) U"
        unfolding alloc_within_def using U Cons by (intro exI [of _ "[]"]) auto
      moreover have "p \<noteq> NULL" "p \<notin> A" using inv' Cons by (auto simp: alloc_inv_def)
      ultimately show ?thesis using m Cons by (auto simp: keeps_def)
    qed
  qed
qed

lemma free_node_within:
  assumes "alloc_within s (insert p A) U" and "p \<notin> A"
  shows "\<exists>s'. free_node p s = Some s' \<and> alloc_within s' A U \<and> mr_only s s' \<and> pool s' = pool s"
proof -
  obtain F G where inv: "alloc_inv s (insert p A) F G" and U: "insert p A \<union> set F \<union> set G \<union> set (pool s) \<subseteq> U"
    using assms by (auto simp: alloc_within_def)
  obtain s1 where s1: "add_free p s = Some s1" "alloc_within s1 A U" "mr_only s s1" "pool s1 = pool s"
  proof (cases "lcnt s + 1 < AMORT_FREE_ON")
    case True
    then obtain s1 where "add_free p s = Some s1" "mr_only s s1" "pool s1 = pool s" "alloc_inv s1 A (p # F) G"
      using add_free_plain [OF inv assms(2)] by blast
    moreover from this have "alloc_within s1 A U"
      unfolding alloc_within_def using U by (intro exI [of _ "p # F"] exI [of _ G]) auto
    ultimately show ?thesis using that by blast
  next
    case False
    let ?G = "flush_list (if lfl_tail s = NULL then p else lfl_tail s) (p # F) G"
    have "AMORT_FREE_ON \<le> lcnt s + 1" using False by simp
    then obtain s1 where s: "add_free p s = Some s1" "mr_only s s1" "pool s1 = pool s" "alloc_inv s1 A [] ?G"
      using add_free_flush [OF inv assms(2)] by blast
    have "set ?G \<subseteq> insert p (set F \<union> set G)"
      using set_flush_list [of "if lfl_tail s = NULL then p else lfl_tail s" "p # F" G] by auto
    then have "A \<union> set [] \<union> set ?G \<union> set (pool s1) \<subseteq> U" using U s(3) by auto
    then have "alloc_within s1 A U" using s(4) unfolding alloc_within_def by blast
    then show ?thesis using that s by blast
  qed
  let ?s = "s1\<lparr>nbfl := nbfl s1 + 1\<rparr>"
  have "free_node p s = Some ?s" using s1 by (simp add: free_node_def)
  moreover have "alloc_within ?s A U" using s1(2) by (rule alloc_within_cong) simp_all
  moreover have "mr_only s ?s" using s1(3) by (simp add: mr_only_def)
  ultimately show ?thesis using s1(4) by simp
qed

end
