(* ===== verification/Allocator_Properties.thy ===== *)
theory Allocator_Properties imports Allocator begin

text \<open>
  What callers of \<open>allocator_malloc.c\<close> can rely on, and the behaviours that need
  care: freed memory is recycled last in, first out with all its fields, the
  flush keeps every node exactly while the tail pointer is current, and the
  disposal functions walk the wrong link.
\<close>

section \<open>Allocation\<close>

text \<open>
  (\<open>new_node\<close>): the node returned is not in use, joins the nodes in use, and
  no node known before changes; the answer is NULL only when the free lists and
  the memory of the system are both empty.
\<close>

theorem new_node_fresh:
  assumes "alloc_inv s A F G"
  shows "\<exists>n s'. new_node s = Some (n, s') \<and> (n = NULL \<longleftrightarrow> F @ G @ pool s = []) \<and> n \<notin> A \<and>
    alloc_ok s' (if n = NULL then A else insert n A) \<and> heads s' = heads s \<and> locks s' = locks s \<and>
    (\<forall>p. p \<notin> set (pool s) \<longrightarrow> node s' p = node s p)"
proof (cases "F @ G = []")
  case False
  then show ?thesis using new_node_recycles [OF assms False] by auto
next
  case True
  then have inv: "alloc_inv s A [] []" using assms by simp
  show ?thesis
  proof (cases "pool s")
    case Nil
    then show ?thesis using new_node_exhausted [OF inv Nil] True inv by (auto simp: alloc_inv_def)
  next
    case (Cons p ps)
    then show ?thesis using new_node_callocs [OF inv Cons] True by auto
  qed
qed

lemma new_node_fresh_witness:
  "\<exists>n s'. new_node (init_allocator \<lparr>node = (\<lambda>_. zero_node), heads = (\<lambda>_. NULL), locks = (\<lambda>_. 0),
     pool = [64], freelist = NULL, frct = 0, lfl = NULL, lfl_tail = NULL, lcnt = 0,
     nbmallocs = 0, nbfl = 0\<rparr>) = Some (n, s') \<and> n \<noteq> NULL"
proof -
  let ?s = "init_allocator \<lparr>node = (\<lambda>_. zero_node), heads = (\<lambda>_. NULL), locks = (\<lambda>_. 0),
     pool = [64], freelist = NULL, frct = 0, lfl = NULL, lfl_tail = NULL, lcnt = 0,
     nbmallocs = 0, nbfl = 0\<rparr> :: alloc"
  have "alloc_inv ?s {} [] []" by (simp add: alloc_inv_def init_allocator_def prealloc_def)
  from new_node_fresh [OF this] show ?thesis by (auto simp: init_allocator_def prealloc_def)
qed

section \<open>Recycling\<close>

lemma hd_flush_list: "hd (flush_list t (p # F) G) = p" "flush_list t (p # F) G \<noteq> []"
  by (auto simp: flush_list_def)

lemma free_node_head:
  assumes inv: "alloc_inv s (insert p A) F G" and p: "p \<notin> A"
  shows "\<exists>s' F' G'. free_node p s = Some s' \<and> alloc_inv s' A F' G' \<and> mr_only s s' \<and>
    pool s' = pool s \<and> F' @ G' \<noteq> [] \<and> hd (F' @ G') = p"
proof -
  obtain s1 F' G' where s1: "add_free p s = Some s1" "alloc_inv s1 A F' G'" "mr_only s s1"
    "pool s1 = pool s" "F' @ G' \<noteq> []" "hd (F' @ G') = p"
  proof (cases "lcnt s + 1 < AMORT_FREE_ON")
    case True
    then show ?thesis using that [of _ "p # F" G] add_free_plain [OF inv p True] by auto
  next
    case False
    then have "AMORT_FREE_ON \<le> lcnt s + 1" by simp
    then show ?thesis using that [of _ "[]"] add_free_flush [OF inv p] hd_flush_list [of _ p F G]
      by fastforce
  qed
  let ?s = "s1\<lparr>nbfl := nbfl s1 + 1\<rparr>"
  have "alloc_inv ?s A F' G'" using s1(2) by (rule alloc_inv_cong) simp_all
  moreover have "mr_only s ?s" using s1(3) by (simp add: mr_only_def)
  ultimately show ?thesis using s1
    by (rule_tac exI [of _ ?s], rule_tac exI [of _ F'], rule_tac exI [of _ G']) (simp add: free_node_def)
qed

text \<open>
  C23 (recycling): a node just freed is the next one handed out, flushed or not,
  and comes back with its key, link, reference count and generation.
\<close>

theorem free_then_new:
  assumes "alloc_ok s (insert p A)" and "p \<notin> A"
  shows "\<exists>s' s''. free_node p s = Some s' \<and> new_node s' = Some (p, s'') \<and> alloc_ok s'' (insert p A) \<and>
    (\<forall>q. node s'' q = (node s q)\<lparr>mr_next := mr_next (node s'' q)\<rparr>)"
proof -
  obtain F G where inv: "alloc_inv s (insert p A) F G" using assms(1) by (auto simp: alloc_ok_def)
  obtain s' F' G' where s': "free_node p s = Some s'" "alloc_inv s' A F' G'" "mr_only s s'"
    "F' @ G' \<noteq> []" "hd (F' @ G') = p"
    using free_node_head [OF inv assms(2)] by blast
  obtain s'' where "new_node s' = Some (p, s'')" "alloc_ok s'' (insert p A)" "node s'' = node s'"
    using new_node_recycles [OF s'(2,4)] s'(5) by auto
  moreover have "\<forall>q. node s' q = (node s q)\<lparr>mr_next := mr_next (node s' q)\<rparr>"
    using s'(3) by (simp add: mr_only_def)
  ultimately show ?thesis using s'(1) by auto
qed

text \<open>A small allocator state for the witnesses: some nodes in use, the rest as given.\<close>

definition demo_alloc :: "ptr \<Rightarrow> ptr \<Rightarrow> int \<Rightarrow> (ptr \<Rightarrow> node_t) \<Rightarrow> alloc" where
  "demo_alloc p t n g = \<lparr>node = g, heads = (\<lambda>_. NULL), locks = (\<lambda>_. 0), pool = [],
     freelist = p, frct = 0, lfl = NULL, lfl_tail = t, lcnt = n, nbmallocs = 0, nbfl = 0\<rparr>"

lemma demo_alloc_inv:
  assumes "p \<notin> A" "t \<noteq> p \<or> p = NULL" "NULL \<notin> A" "n < AMORT_FREE_ON" "p \<noteq> NULL \<longrightarrow> mr_next (g p) = NULL"
  shows "alloc_inv (demo_alloc p t n g) A [] (if p = NULL then [] else [p])"
  using assms by (auto simp: alloc_inv_def demo_alloc_def)

lemma free_then_new_witness:
  "\<exists>s' s''. free_node 64 (demo_alloc NULL NULL 0 (\<lambda>_. zero_node)) = Some s' \<and>
     new_node s' = Some (64, s'') \<and> alloc_ok s'' {64}"
proof -
  have "alloc_ok (demo_alloc NULL NULL 0 (\<lambda>_. zero_node)) {64}"
    by (rule alloc_okI [OF demo_alloc_inv]) simp_all
  from free_then_new [OF this] show ?thesis by auto
qed

section \<open>The flush\<close>

text \<open>
  (the flush, with a current tail): when the hundredth free since the last
  flush finds the tail pointer at the last node of the private list, or the
  private list empty and no tail, the shared list becomes the new node, the
  private list and the old shared list, in this order.
\<close>

theorem flush_conserves:
  assumes "alloc_inv s (insert p A) F G" and "p \<notin> A" and "AMORT_FREE_ON \<le> lcnt s + 1"
    and "lfl_tail s = (if F = [] then NULL else last F)"
  shows "\<exists>s'. add_free p s = Some s' \<and> mr_only s s' \<and> alloc_inv s' A [] (p # F @ G)"
proof -
  have "flush_list (if lfl_tail s = NULL then p else lfl_tail s) (p # F) G = p # F @ G"
  proof (cases F rule: rev_cases)
    case Nil
    then show ?thesis using assms(4) by (simp add: flush_list_def)
  next
    case (snoc us t)
    have c: "chain (mrs s) (lfl s) (us @ [t]) NULL" using assms(1) snoc by (simp add: alloc_inv_def)
    then have t: "t \<noteq> NULL" "t \<notin> set us" using chain_distinct [OF c] chain_no_NULL [OF c] by auto
    have pt: "p \<noteq> t" using assms(1) snoc by (auto simp: alloc_inv_def)
    have "takeWhile (\<lambda>q. q \<noteq> t) (us @ [t]) = us" using t(2) by (subst takeWhile_append2) auto
    then show ?thesis using snoc t assms(4) pt by (simp add: flush_list_def)
  qed
  then show ?thesis using add_free_flush [OF assms(1-3)] by auto
qed

lemma flush_conserves_witness:
  "\<exists>s'. add_free 64 (demo_alloc 128 NULL 99 (\<lambda>_. zero_node)) = Some s' \<and> alloc_inv s' {} [] [64, 128]"
proof -
  have "alloc_inv (demo_alloc 128 NULL 99 (\<lambda>_. zero_node)) {64} [] [128]"
    using demo_alloc_inv [of 128 "{64}" NULL 99 "\<lambda>_. zero_node"] by (simp add: zero_node_def)
  from flush_conserves [of _ 64 "{}", OF this] show ?thesis by (auto simp: demo_alloc_def)
qed

text \<open>How a tail gets stale: the first node freed since a flush is taken back.\<close>

lemma stale_tail_arises:
  assumes "p \<noteq> NULL" and "lfl_tail s = NULL" and "lcnt s + 1 < AMORT_FREE_ON"
  shows "\<exists>s' s''. free_node p s = Some s' \<and> new_node s' = Some (p, s'') \<and> lfl_tail s'' = p \<and>
    lcnt s'' = lcnt s + 1"
  using assms by (simp add: free_node_def add_free_eq pushed_def new_node_def get_free_def mem_simps)

text \<open>
  (the flush, with a stale tail): \<open>get_free\<close> never looks at the tail, so the
  node it names can be one already handed out again.  The flush then links the
  shared list behind that node and overwrites \<open>freelist\<close>: every node of the
  old shared list is lost to the allocator.
\<close>

theorem stale_tail_leaks:
  assumes "alloc_inv s (insert p A) F G" and "p \<notin> A" and "AMORT_FREE_ON \<le> lcnt s + 1"
    and "lfl_tail s \<in> A"
  shows "\<exists>s'. add_free p s = Some s' \<and> alloc_inv s' A [] (p # F)"
proof -
  have "lfl_tail s \<notin> set (p # F)" "lfl_tail s \<noteq> NULL" using assms by (auto simp: alloc_inv_def)
  then have "flush_list (if lfl_tail s = NULL then p else lfl_tail s) (p # F) G = p # F"
    by (simp add: flush_list_def)
  then show ?thesis using add_free_flush [OF assms(1-3)] by auto
qed

text \<open>
  Here 64 was freed and taken back (\<open>stale_tail_arises\<close>), the counter is full and
  the shared list holds 128.
\<close>

lemma stale_tail_leaks_witness:
  "\<exists>s'. add_free 192 (demo_alloc 128 64 99 (\<lambda>_. zero_node)) = Some s' \<and> alloc_inv s' {64} [] [192]"
proof -
  have "alloc_inv (demo_alloc 128 64 99 (\<lambda>_. zero_node)) (insert 192 {64}) [] [128]"
    using demo_alloc_inv [of 128 "insert 192 {64}" 64 99 "\<lambda>_. zero_node"] by (simp add: zero_node_def)
  from stale_tail_leaks [OF this] show ?thesis by (auto simp: demo_alloc_def)
qed

section \<open>Disposal\<close>

text \<open>
  C?? (\<open>delete_allocator\<close> walks \<open>next\<close>): free lists are chained through \<open>mr_next\<close>
  and a deleted node keeps its \<open>next\<close>, so disposing of a free list whose first
  node once preceded \<open>q\<close> in a bucket gives \<open>q\<close>, in use, back to the system.
\<close>

theorem delete_allocator_frees_linked:
  assumes "alloc_inv s A F (p # G)" and "nxt (node s p) = q" and "q \<in> A" and "nxt (node s q) = NULL"
  shows "\<exists>s'. delete_allocator s = Some s' \<and> freelist s' = NULL \<and> pool s' = pool s @ [p, q]"
proof -
  have p: "freelist s = p" "p \<noteq> NULL" "q \<noteq> NULL" using assms by (auto simp: alloc_inv_def)
  have e: "free_nodes libc_free NULL t = Some t" for t :: "'a alloc_scheme"
    by (simp add: free_nodes.simps)
  have "free_nodes libc_free q t = Some (t\<lparr>pool := pool t @ [q]\<rparr>)" if "nxt (node t q) = NULL"
    for t :: "'a alloc_scheme"
    using that p e by (subst free_nodes.simps) (simp add: mem_simps Let_def libc_free_def)
  then have "free_nodes libc_free p s = Some (s\<lparr>pool := pool s @ [p, q]\<rparr>)"
    using p assms by (subst free_nodes.simps) (simp add: mem_simps Let_def libc_free_def)
  then show ?thesis using p by (simp add: delete_allocator_def)
qed

lemma delete_allocator_frees_linked_witness:
  "\<exists>s'. delete_allocator (demo_alloc 64 NULL 0 ((\<lambda>_. zero_node)(64 := zero_node\<lparr>nxt := 128\<rparr>))) = Some s' \<and>
     freelist s' = NULL \<and> pool s' = [64, 128]"
proof -
  let ?s = "demo_alloc 64 NULL 0 ((\<lambda>_. zero_node)(64 := zero_node\<lparr>nxt := 128\<rparr>))"
  have "alloc_inv ?s {128} [] [64]"
    using demo_alloc_inv [of 64 "{128}" NULL 0 "(\<lambda>_. zero_node)(64 := zero_node\<lparr>nxt := 128\<rparr>)"]
    by (simp add: zero_node_def)
  from delete_allocator_frees_linked [OF this, of 128] show ?thesis
    by (simp add: demo_alloc_def zero_node_def)
qed

text \<open>
  (\<open>allocator_thread_free\<close>): the function gives the private list to
  \<open>free_node\<close>, which pushes onto that same list; the node ends up linked to
  itself and, the private list being reset afterwards, in no list at all.
\<close>

theorem thread_free_loses:
  assumes "alloc_inv s A [p] G" and "nxt (node s p) = NULL" and "lfl_tail s = p"
    and "lcnt s + 1 < AMORT_FREE_ON"
  shows "\<exists>s'. allocator_thread_free s = Some s' \<and> mr_next (node s' p) = p \<and> lfl s' = NULL \<and>
    freelist s' = freelist s \<and> lcnt s' = lcnt s + 1"
proof -
  have p: "lfl s = p" "p \<noteq> NULL" using assms by (auto simp: alloc_inv_def)
  have e: "free_nodes fnd NULL t = Some t" for t :: "'a alloc_scheme"
    by (simp add: free_nodes.simps)
  have "free_nodes fnd p s = Some ((pushed p s)\<lparr>nbfl := nbfl s + 1\<rparr>)"
    using p assms(2,4) e
    by (subst free_nodes.simps) (simp add: mem_simps Let_def fnd_def free_node_def add_free_eq pushed_def)
  then show ?thesis using p assms(3) by (simp add: allocator_thread_free_def pushed_def)
qed

lemma thread_free_loses_witness:
  "\<exists>s'. allocator_thread_free ((demo_alloc NULL 64 1 (\<lambda>_. zero_node))\<lparr>lfl := 64\<rparr>) = Some s' \<and>
     mr_next (node s' 64) = 64 \<and> lfl s' = NULL"
proof -
  have "alloc_inv ((demo_alloc NULL 64 1 (\<lambda>_. zero_node))\<lparr>lfl := 64\<rparr>) {} [64] []"
    by (simp add: alloc_inv_def demo_alloc_def zero_node_def)
  from thread_free_loses [OF this] show ?thesis by (auto simp: demo_alloc_def zero_node_def)
qed

end
