(* ===== verification/Allocator_Threads.thy ===== *)
theory Allocator_Threads imports Allocator_Properties begin

text \<open>
  The allocator with its thread-local variables, for any number of threads.  First
  whole calls: whatever threads allocate and free, with stale tails as they come,
  no node is handed out twice.  Then single accesses: a flush through a stale tail
  is not atomic, and a schedule of two threads gets one node twice.
\<close>

section \<open>Thread-local storage\<close>

record tls =
  t_lfl :: ptr
  t_tail :: ptr
  t_lcnt :: int
  t_nbmallocs :: nat
  t_nbfl :: int

record talloc = alloc +
  tls :: "nat \<Rightarrow> tls"

definition switch_in :: "nat \<Rightarrow> talloc \<Rightarrow> talloc" where
  "switch_in t s = s\<lparr>lfl := t_lfl (tls s t), lfl_tail := t_tail (tls s t), lcnt := t_lcnt (tls s t),
     nbmallocs := t_nbmallocs (tls s t), nbfl := t_nbfl (tls s t)\<rparr>"

definition switch_out :: "nat \<Rightarrow> talloc \<Rightarrow> talloc" where
  "switch_out t s = s\<lparr>tls := (tls s)(t := \<lparr>t_lfl = lfl s, t_tail = lfl_tail s, t_lcnt = lcnt s,
     t_nbmallocs = nbmallocs s, t_nbfl = nbfl s\<rparr>)\<rparr>"

definition thread_new :: "nat \<Rightarrow> talloc \<Rightarrow> (ptr \<times> talloc) option" where
  "thread_new t s = map_option (\<lambda>(n, s). (n, switch_out t s)) (new_node (switch_in t s))"

definition thread_free :: "nat \<Rightarrow> ptr \<Rightarrow> talloc \<Rightarrow> talloc option" where
  "thread_free t p s = map_option (switch_out t) (free_node p (switch_in t s))"

section \<open>The invariant\<close>

text \<open>\<open>F t\<close> is the private list of thread \<open>t\<close>, \<open>G\<close> the shared one, \<open>A\<close> what is in use.\<close>

definition mt_inv :: "talloc \<Rightarrow> ptr set \<Rightarrow> (nat \<Rightarrow> ptr list) \<Rightarrow> ptr list \<Rightarrow> bool" where
  "mt_inv s A F G \<longleftrightarrow>
     (\<forall>t. chain (mrs s) (t_lfl (tls s t)) (F t) NULL) \<and> chain (mrs s) (freelist s) G NULL \<and>
     (\<forall>t u. t \<noteq> u \<longrightarrow> set (F t) \<inter> set (F u) = {}) \<and> (\<forall>t. set (F t) \<inter> set G = {}) \<and>
     (\<forall>t. set (F t) \<inter> (A \<union> set (pool s)) = {}) \<and> set G \<inter> (A \<union> set (pool s)) = {} \<and>
     A \<inter> set (pool s) = {} \<and> distinct (pool s) \<and> NULL \<notin> set (pool s) \<and> NULL \<notin> A"

definition mt_ok :: "talloc \<Rightarrow> ptr set \<Rightarrow> bool" where
  "mt_ok s A \<longleftrightarrow> (\<exists>F G. mt_inv s A F G)"

lemma mt_ok_cong:
  assumes "mt_ok s A" and "\<And>p. mr_next (node s' p) = mr_next (node s p)"
    and "pool s' = pool s" "freelist s' = freelist s" "tls s' = tls s"
  shows "mt_ok s' A"
  using assms by (simp add: mt_ok_def mt_inv_def)

lemma switch_simps [simp]:
  "node (switch_in t s) = node s" "freelist (switch_in t s) = freelist s" "pool (switch_in t s) = pool s"
  "tls (switch_in t s) = tls s" "lfl (switch_in t s) = t_lfl (tls s t)"
  "lfl_tail (switch_in t s) = t_tail (tls s t)" "lcnt (switch_in t s) = t_lcnt (tls s t)"
  "node (switch_out t s) = node s" "freelist (switch_out t s) = freelist s"
  "pool (switch_out t s) = pool s" "t_lfl (tls (switch_out t s) t) = lfl s"
  "u \<noteq> t \<Longrightarrow> tls (switch_out t s) u = tls s u"
  by (simp_all add: switch_in_def switch_out_def)

lemma mt_outI:
  assumes "chain (mrs s) (lfl s) X NULL" and "\<And>u. u \<noteq> t \<Longrightarrow> chain (mrs s) (t_lfl (tls s u)) (F u) NULL"
    and "chain (mrs s) (freelist s) G NULL"
    and "\<And>u. u \<noteq> t \<Longrightarrow> set (F u) \<inter> (set X \<union> set G \<union> A \<union> set (pool s)) = {}"
    and "\<And>u v. u \<noteq> t \<Longrightarrow> v \<noteq> t \<Longrightarrow> u \<noteq> v \<Longrightarrow> set (F u) \<inter> set (F v) = {}"
    and "set X \<inter> (set G \<union> A \<union> set (pool s)) = {}" and "set G \<inter> (A \<union> set (pool s)) = {}"
    and "A \<inter> set (pool s) = {}" "distinct (pool s)" "NULL \<notin> set (pool s)" "NULL \<notin> A"
  shows "mt_inv (switch_out t s) A (F(t := X)) G"
  unfolding mt_inv_def
proof (intro conjI allI impI)
  show "chain (mrs (switch_out t s)) (t_lfl (tls (switch_out t s) u)) ((F(t := X)) u) NULL" for u
    using assms(1,2) by (cases "u = t") simp_all
  show "set ((F(t := X)) u) \<inter> set ((F(t := X)) v) = {}" if "u \<noteq> v" for u v
    using that assms(4) [of u] assms(4) [of v] assms(5) [of u v] by (cases "u = t"; cases "v = t") auto
  show "set ((F(t := X)) u) \<inter> set G = {}" for u using assms(4,6) by (cases "u = t") auto
  show "set ((F(t := X)) u) \<inter> (A \<union> set (pool (switch_out t s))) = {}" for u
    using assms(4,6) by (cases "u = t") auto
qed (use assms in auto)

section \<open>Whole calls\<close>

lemma thread_new_ok:
  assumes inv: "mt_inv s A F G"
  shows "\<exists>n s'. thread_new t s = Some (n, s') \<and>
    (if n = NULL then mt_ok s' A \<and> pool s = [] else n \<notin> A \<and> mt_ok s' (insert n A))"
proof -
  let ?s = "switch_in t s"
  have ch: "chain (mrs s) (t_lfl (tls s u)) (F u) NULL" "chain (mrs s) (freelist s) G NULL" for u
    using inv by (auto simp: mt_inv_def)
  have dis: "u \<noteq> v \<Longrightarrow> set (F u) \<inter> set (F v) = {}" "set (F u) \<inter> set G = {}"
    "set (F u) \<inter> (A \<union> set (pool s)) = {}" "set G \<inter> (A \<union> set (pool s)) = {}" "A \<inter> set (pool s) = {}"
    "distinct (pool s)" "NULL \<notin> set (pool s)" "NULL \<notin> A" for u v
    using inv by (auto simp: mt_inv_def)
  have take: ?thesis
    if l: "get_free ?s = Some (y, s1)" "y \<noteq> NULL" "s1 = ?s\<lparr>lfl := mr_next (node s y), freelist := g\<rparr>"
      "chain (mrs s) y (y # Y) NULL" "chain (mrs s) g G' NULL"
      "set (y # Y) \<subseteq> set (F t) \<union> set G" "set G' \<subseteq> set G" "set (y # Y) \<inter> set G' = {}" for y Y G' g s1
  proof -
    have yY: "y \<notin> set Y" using chain_distinct [OF l(4)] by simp
    have new: "thread_new t s = Some (y, switch_out t s1)" using l(1,2) by (simp add: thread_new_def new_node_def)
    have "mt_inv (switch_out t s1) (insert y A) (F(t := Y)) G'"
    proof (rule mt_outI)
      have sub: "set Y \<subseteq> set (F t) \<union> set G" "y \<in> set (F t) \<union> set G" using l(6) by auto
      show "chain (mrs s1) (lfl s1) Y NULL" using l(3,4) by simp
      show "chain (mrs s1) (freelist s1) G' NULL" using l(3,5) by simp
      show "chain (mrs s1) (t_lfl (tls s1 u)) (F u) NULL" for u using ch(1) l(3) by simp
      show "set (F u) \<inter> (set Y \<union> set G' \<union> insert y A \<union> set (pool s1)) = {}" if "u \<noteq> t" for u
        using dis(1) [OF that] dis(2,3) [of u] sub l(3,7) by auto
      show "set Y \<inter> (set G' \<union> insert y A \<union> set (pool s1)) = {}"
        using dis(3) [of t] dis(4) sub l(3,8) yY by auto
      show "set G' \<inter> (insert y A \<union> set (pool s1)) = {}" using dis(4) l(3,7,8) by auto
      show "insert y A \<inter> set (pool s1) = {}" using dis(3) [of t] dis(4,5) sub(2) l(3) by auto
    qed (use dis l(2,3) in auto)
    moreover have "y \<notin> A" using dis(3) [of t] dis(4) l(6) by auto
    ultimately show ?thesis using new l(2) by (auto simp: mt_ok_def)
  qed
  show ?thesis
  proof (cases "F t")
    case (Cons y Y)
    then have y: "t_lfl (tls s t) = y" "y \<noteq> NULL" using ch(1) [of t] by auto
    show ?thesis
      by (rule take [of y "?s\<lparr>lfl := mr_next (node s y)\<rparr>" "freelist s" Y G])
        (use y ch(1) [of t] ch(2) dis(2) [of t] Cons in \<open>auto simp: get_free_def mem_simps switch_in_def\<close>)
  next
    case Nil
    then have l: "t_lfl (tls s t) = NULL" using ch(1) [of t] by simp
    let ?s1 = "?s\<lparr>lfl := freelist s, freelist := NULL\<rparr>"
    show ?thesis
    proof (cases G)
      case (Cons y Y)
      then have y: "freelist s = y" "y \<noteq> NULL" using ch(2) by auto
      show ?thesis
        by (rule take [of y "?s1\<lparr>lfl := mr_next (node s y)\<rparr>" NULL Y "[]"])
          (use y ch(2) Cons l in \<open>auto simp: get_free_def steal_eq mem_simps switch_in_def\<close>)
    next
      case empty: Nil
      then have f: "freelist s = NULL" using ch(2) by simp
      have g: "get_free ?s = Some (NULL, ?s1)" using l f by (simp add: get_free_def steal_eq)
      have base: "mt_inv (switch_out t (?s1\<lparr>pool := P, node := N, nbmallocs := m\<rparr>)) B (F(t := [])) []"
        if "\<And>u. u \<noteq> t \<Longrightarrow> chain (\<lambda>p. mr_next (N p)) (t_lfl (tls s u)) (F u) NULL"
          "\<And>u. u \<noteq> t \<Longrightarrow> set (F u) \<inter> (B \<union> set P) = {}" "B \<inter> set P = {}" "distinct P" "NULL \<notin> set P"
          "NULL \<notin> B" for P N m B
        by (rule mt_outI) (use that f dis(1) in auto)
      show ?thesis
      proof (cases "pool s")
        case Nil
        let ?s2 = "?s1\<lparr>nbmallocs := nbmallocs ?s1 + 1\<rparr>"
        have "thread_new t s = Some (NULL, switch_out t ?s2)"
          using g Nil by (simp add: thread_new_def new_node_def calloc_node_def)
        moreover have "?s2 = ?s1\<lparr>pool := pool s, node := node s, nbmallocs := nbmallocs ?s1 + 1\<rparr>"
          by (simp add: switch_in_def)
        then have "mt_ok (switch_out t ?s2) A"
          using base [of "node s" A "pool s"] ch dis Nil unfolding mt_ok_def by (metis Un_empty_right list.set(1))
        ultimately show ?thesis using Nil by auto
      next
        case (Cons p ps)
        let ?s2 = "?s1\<lparr>pool := ps, node := (node s)(p := zero_node), nbmallocs := nbmallocs ?s1 + 1\<rparr>"
        have p: "p \<noteq> NULL" "p \<notin> A" "p \<notin> set ps" "distinct ps" "NULL \<notin> set ps" "A \<inter> set ps = {}"
          "p \<notin> set (F u)" "set (F u) \<inter> (A \<union> set ps) = {}" for u
          using dis(3) [of u] dis(5-8) Cons by auto
        have "thread_new t s = Some (p, switch_out t ?s2)"
          using g Cons p(1) by (simp add: thread_new_def new_node_def calloc_node_def switch_in_def)
        moreover have "mt_inv (switch_out t ?s2) (insert p A) (F(t := [])) []"
        proof (rule base)
          show "chain (\<lambda>q. mr_next (((node s)(p := zero_node)) q)) (t_lfl (tls s u)) (F u) NULL" for u
            using ch(1) [of u] p(7) [of u] chain_cong [of "F u" "\<lambda>q. mr_next (((node s)(p := zero_node)) q)" "mrs s"]
            by fastforce
        qed (use p dis(8) in auto)
        ultimately show ?thesis using p(1,2) by (auto simp: mt_ok_def)
      qed
    qed
  qed
qed

text \<open>
  A flush through the tail \<open>x\<close>, wherever it is: the list that holds \<open>x\<close> continues
  with the old shared list, every other list stays.
\<close>

lemma flush_chain:
  assumes "chain f h H NULL" and "chain f g G NULL" and "set H \<inter> set G = {}"
  shows "chain (f(x := g)) h (flush_list x H G) NULL"
proof (cases "x \<in> set H")
  case False
  then show ?thesis using assms(1) by (simp add: flush_list_def)
next
  case True
  then obtain us vs where us: "H = us @ x # vs" "x \<notin> set us" by (meson split_list_first)
  then have "takeWhile (\<lambda>q. q \<noteq> x) H = us" by (subst us(1)) (subst takeWhile_append2; auto)
  moreover have "chain f h us x" "x \<noteq> NULL" using assms(1) us(1) by (auto simp: chain_append)
  moreover have "x \<notin> set G" using True assms(3) by auto
  ultimately show ?thesis using us(2) assms(2) True by (simp add: flush_list_def chain_append)
qed

lemma flush_list_out: "x \<notin> set H \<Longrightarrow> flush_list x H G = H"
  by (simp add: flush_list_def)

lemma thread_free_ok:
  assumes inv: "mt_inv s A F G" and p: "p \<in> A"
  shows "\<exists>s'. thread_free t p s = Some s' \<and> mt_ok s' (A - {p})"
proof -
  let ?s = "pushed p (switch_in t s)" and ?B = "A - {p}"
  have ch: "chain (mrs s) (t_lfl (tls s u)) (F u) NULL" "chain (mrs s) (freelist s) G NULL" for u
    using inv by (auto simp: mt_inv_def)
  have dis: "u \<noteq> v \<Longrightarrow> set (F u) \<inter> set (F v) = {}" "set (F u) \<inter> set G = {}"
    "set (F u) \<inter> (A \<union> set (pool s)) = {}" "set G \<inter> (A \<union> set (pool s)) = {}" "A \<inter> set (pool s) = {}"
    "distinct (pool s)" "NULL \<notin> set (pool s)" "NULL \<notin> A" for u v
    using inv by (auto simp: mt_inv_def)
  have pn: "p \<noteq> NULL" "p \<notin> set (F u)" "p \<notin> set G" "p \<notin> set (pool s)" for u
    using p dis(3) [of u] dis(4,5,8) by auto
  have m: "mrs ?s = (mrs s)(p := t_lfl (tls s t))" by (auto simp: pushed_def)
  have k: "pool ?s = pool s" "freelist ?s = freelist s" "tls ?s = tls s" "lfl ?s = p"
    by (simp_all add: pushed_def)
  have own: "chain (mrs ?s) p (p # F t) NULL" unfolding m using ch(1) [of t] pn by simp
  have shared: "chain (mrs ?s) (freelist s) G NULL" unfolding m using ch(2) pn by simp
  have others: "chain (mrs ?s) (t_lfl (tls s u)) (F u) NULL" for u unfolding m using ch(1) [of u] pn by simp
  show ?thesis
  proof (cases "AMORT_FREE_ON \<le> t_lcnt (tls s t) + 1")
    case False
    let ?r = "?s\<lparr>nbfl := nbfl ?s + 1\<rparr>"
    have "thread_free t p s = Some (switch_out t ?r)"
      using False pn(1) by (simp add: thread_free_def free_node_def add_free_eq pushed_def)
    moreover have "mt_inv (switch_out t ?r) ?B (F(t := p # F t)) G"
    proof (rule mt_outI)
      show "set (F u) \<inter> (set (p # F t) \<union> set G \<union> ?B \<union> set (pool ?r)) = {}" if "u \<noteq> t" for u
        using dis(1) [OF that] dis(2,3) [of u] pn(2) [of u] k(1) by auto
      show "set (p # F t) \<inter> (set G \<union> ?B \<union> set (pool ?r)) = {}"
        using dis(2,3) [of t] pn k(1) by auto
      show "set G \<inter> (?B \<union> set (pool ?r)) = {}" "?B \<inter> set (pool ?r) = {}"
        using dis(4,5) k(1) by auto
    qed (use own shared others k dis(1,6-8) in simp_all)
    ultimately show ?thesis by (auto simp: mt_ok_def)
  next
    case True
    let ?x = "lfl_tail ?s" and ?r = "(flushed ?s)\<lparr>nbfl := nbfl ?s + 1\<rparr>"
    have e: "thread_free t p s = Some (switch_out t ?r)"
      using True pn(1) by (simp add: thread_free_def free_node_def add_free_eq pushed_def flushed_def)
    have mr: "mrs ?r = (mrs ?s)(?x := freelist s)" by (auto simp: flushed_def pushed_def)
    have kr: "pool ?r = pool s" "freelist ?r = p" "tls ?r = tls s" "lfl ?r = NULL"
      by (simp_all add: flushed_def pushed_def)
    have pG: "set (p # F t) \<inter> set G = {}" using dis(2) pn by auto
    let ?F = "\<lambda>u. flush_list ?x (F u) G"
    have sub: "set (?F u) \<subseteq> set (F u) \<union> set G" "set (flush_list ?x (p # F t) G) \<subseteq> insert p (set (F t) \<union> set G)" for u
      using set_flush_list [of ?x "F u" G] set_flush_list [of ?x "p # F t" G] by auto
    have "mt_inv (switch_out t ?r) ?B (?F(t := [])) (flush_list ?x (p # F t) G)"
    proof (rule mt_outI)
      show "chain (mrs ?r) (freelist ?r) (flush_list ?x (p # F t) G) NULL"
        unfolding mr kr by (rule flush_chain [OF own shared pG])
      show "chain (mrs ?r) (t_lfl (tls ?r u)) (?F u) NULL" for u
        unfolding mr kr by (rule flush_chain [OF others shared dis(2)])
      show "set (?F u) \<inter> set (?F v) = {}" if "u \<noteq> t" "v \<noteq> t" "u \<noteq> v" for u v
      proof (cases "?x \<in> set (F u)")
        case True
        then have "?F v = F v" using dis(1) [OF that(3)] by (auto intro: flush_list_out)
        then show ?thesis using sub(1) [of u] dis(1) [OF that(3)] dis(2) [of v] by auto
      next
        case False
        then have "?F u = F u" by (rule flush_list_out)
        then show ?thesis using sub(1) [of v] dis(1) [OF that(3)] dis(2) [of u] by auto
      qed
      show "set (?F u) \<inter> (set [] \<union> set (flush_list ?x (p # F t) G) \<union> ?B \<union> set (pool ?r)) = {}"
        if u: "u \<noteq> t" for u
      proof -
        have "set (?F u) \<inter> set (flush_list ?x (p # F t) G) = {}"
        proof (cases "?x \<in> set (F u)")
          case True
          then have "?x \<notin> set (p # F t)" using dis(1) [OF u] pn by auto
          then have "flush_list ?x (p # F t) G = p # F t" by (rule flush_list_out)
          then show ?thesis using sub(1) [of u] dis(1) [OF u] dis(2) [of t] pn by auto
        next
          case False
          then have "?F u = F u" by (rule flush_list_out)
          then show ?thesis using sub(2) dis(1) [OF u] dis(2) [of u] pn by auto
        qed
        then show ?thesis using sub(1) [of u] dis(3) [of u] dis(4) kr by auto
      qed
      show "set (flush_list ?x (p # F t) G) \<inter> (?B \<union> set (pool ?r)) = {}"
        using sub(2) dis(3) [of t] dis(4) pn kr by auto
    qed (use kr dis in auto)
    then show ?thesis using e by (auto simp: mt_ok_def)
  qed
qed

section \<open>What a call does to memory\<close>

text \<open>Node addresses are even, so every pointer in memory is.\<close>

definition even_mem :: "talloc \<Rightarrow> bool" where
  "even_mem s \<longleftrightarrow> (\<forall>p. even (mr_next (node s p)) \<and> even (nxt (node s p))) \<and> (\<forall>b. even (heads s b)) \<and>
     even (freelist s) \<and> (\<forall>t. even (t_lfl (tls s t)) \<and> even (t_tail (tls s t))) \<and> (\<forall>p\<in>set (pool s). even p)"

lemma get_free_mem:
  assumes "get_free s = Some (n, s')"
  shows "node s' = node s" "heads s' = heads s" "locks s' = locks s" "pool s' = pool s" "alloc.more s' = alloc.more s"
    "lfl_tail s' = lfl_tail s"
    "(n = NULL \<and> lfl s' = NULL \<and> freelist s' = NULL) \<or> (n \<in> {lfl s, freelist s} \<and> lfl s' = mr_next (node s n) \<and>
       freelist s' \<in> {freelist s, NULL})"
  using assms by (auto simp: get_free_def steal_eq rd_def split: if_splits)

lemma thread_new_mem:
  assumes "thread_new t s = Some (n, s')"
  shows "heads s' = heads s" "locks s' = locks s"
    "(pool s' = pool s \<and> node s' = node s) \<or> (pool s = n # pool s' \<and> node s' = (node s)(n := zero_node))"
    "even_mem s \<Longrightarrow> even n \<and> even_mem s'"
proof -
  obtain m s1 where g: "get_free (switch_in t s) = Some (m, s1)"
    and n: "(n, s') = (if m = NULL then case calloc_node s1 of (m, s) \<Rightarrow> (m, switch_out t (s\<lparr>nbmallocs := nbmallocs s + 1\<rparr>))
      else (m, switch_out t s1))"
    using assms by (auto simp: thread_new_def new_node_def bind_eq_Some_iff split: if_splits prod.splits)
  note G = get_free_mem [OF g]
  have tl: "tls s1 = tls s" using G(5) by (cases s1; cases s) (simp add: switch_in_def)
  have s': "s' = switch_out t s1 \<and> n = m \<or>
      (\<exists>k. s' = switch_out t (s1\<lparr>nbmallocs := k\<rparr>) \<and> n = NULL) \<or>
      (\<exists>k ps. pool s1 = n # ps \<and> s' = switch_out t (s1\<lparr>pool := ps, node := (node s1)(n := zero_node), nbmallocs := k\<rparr>))"
    using n by (auto simp: calloc_node_def split: if_splits list.splits prod.splits)
  show "heads s' = heads s" "locks s' = locks s"
    using s' G(2,3) by (auto simp: switch_out_def switch_in_def)
  show "(pool s' = pool s \<and> node s' = node s) \<or> (pool s = n # pool s' \<and> node s' = (node s)(n := zero_node))"
    using s' G(1,4) by (auto simp: switch_out_def)
  assume e: "even_mem s"
  then have x: "even (lfl s1)" "even (freelist s1)" "even (lfl_tail s1)" "even m" "even_mem s"
    using G(6,7) by (auto simp: even_mem_def)
  show "even n \<and> even_mem s'"
    using s' x G(1-4) tl unfolding even_mem_def by (auto simp: switch_out_def zero_node_def switch_in_def)
qed

lemma thread_free_mem:
  assumes "thread_free t p s = Some s'"
  shows "mr_only s s'" "pool s' = pool s" "even_mem s \<Longrightarrow> even p \<Longrightarrow> even_mem s'"
proof -
  let ?s = "switch_in t s"
  have p: "p \<noteq> NULL"
  proof
    assume "p = NULL"
    then have "thread_free t p s = None" by (simp add: thread_free_def free_node_def add_free_def mem_simps Let_def)
    then show False using assms by simp
  qed
  have s': "s' = switch_out t ((pushed p ?s)\<lparr>nbfl := nbfl (pushed p ?s) + 1\<rparr>) \<or>
      s' = switch_out t ((flushed (pushed p ?s))\<lparr>nbfl := nbfl (flushed (pushed p ?s)) + 1\<rparr>)"
    using assms p by (auto simp: thread_free_def free_node_def add_free_eq split: if_splits)
  show "pool s' = pool s" using s' by (auto simp: switch_out_def pushed_def flushed_def switch_in_def)
  show "mr_only s s'" using s' by (auto simp: mr_only_def switch_out_def pushed_def flushed_def switch_in_def)
  show "even_mem s'" if "even_mem s" "even p"
    using s' that by (auto simp: even_mem_def switch_out_def pushed_def flushed_def switch_in_def)
qed

section \<open>Sequences of calls\<close>

text \<open>Calls of any threads; a thread frees only what is in use.\<close>

datatype mcall = New nat | Free nat ptr

fun mrun :: "mcall list \<Rightarrow> ptr set \<Rightarrow> talloc \<Rightarrow> (ptr set \<times> talloc) option" where
  "mrun [] A s = Some (A, s)"
| "mrun (New t # cs) A s = do {
     (n, s) \<leftarrow> thread_new t s;
     mrun cs (if n = NULL then A else insert n A) s
   }"
| "mrun (Free t p # cs) A s =
     (if p \<notin> A then Some (A, s) else do { s \<leftarrow> thread_free t p s; mrun cs (A - {p}) s })"

lemma mrun_ok: "mt_ok s A \<Longrightarrow> \<exists>A' s'. mrun cs A s = Some (A', s') \<and> mt_ok s' A'"
proof (induction cs A s rule: mrun.induct)
  case (1 A s)
  then show ?case by simp
next
  case (2 t cs A s)
  obtain n s' where n: "thread_new t s = Some (n, s')"
    "if n = NULL then mt_ok s' A \<and> pool s = [] else n \<notin> A \<and> mt_ok s' (insert n A)"
    using 2(2) thread_new_ok unfolding mt_ok_def by metis
  then show ?case using 2(1) [of "(n, s')" n s'] by (auto split: if_splits)
next
  case (3 t p cs A s)
  show ?case
  proof (cases "p \<in> A")
    case True
    obtain s' where "thread_free t p s = Some s'" "mt_ok s' (A - {p})"
      using 3(2) thread_free_ok [OF _ True] unfolding mt_ok_def by metis
    then show ?thesis using 3(1) True by simp
  qed (use 3 in simp)
qed

text \<open>
  C22 (no node twice): start from any state where the private lists, the shared
  list, the memory of the system and the nodes in use are apart, and let any
  number of threads allocate and free, one call after the other.  No call fails,
  and what the next allocation returns is in nobody's use; it is NULL only when
  the system is out of memory.
\<close>

theorem threads_never_share:
  assumes "mt_ok s A"
  shows "\<exists>A' s' n s''. mrun cs A s = Some (A', s') \<and> thread_new t s' = Some (n, s'') \<and> n \<notin> A' \<and>
    (n = NULL \<longrightarrow> pool s' = [])"
proof -
  obtain A' s' where r: "mrun cs A s = Some (A', s')" "mt_ok s' A'" using mrun_ok [OF assms] by blast
  then obtain F G where inv: "mt_inv s' A' F G" by (auto simp: mt_ok_def)
  then have nA: "NULL \<notin> A'" by (simp add: mt_inv_def)
  obtain n s'' where "thread_new t s' = Some (n, s'')"
    "if n = NULL then mt_ok s'' A' \<and> pool s' = [] else n \<notin> A' \<and> mt_ok s'' (insert n A')"
    using thread_new_ok [OF inv, of t] by blast
  then show ?thesis using r(1) nA by (cases "n = NULL") auto
qed

section \<open>The initial state\<close>

definition init_talloc :: "ptr list \<Rightarrow> talloc" where
  "init_talloc ps = init_allocator \<lparr>node = (\<lambda>_. zero_node), heads = (\<lambda>_. NULL), locks = (\<lambda>_. 0),
     pool = ps, freelist = NULL, frct = 0, lfl = NULL, lfl_tail = NULL, lcnt = 0, nbmallocs = 0, nbfl = 0,
     tls = (\<lambda>_. \<lparr>t_lfl = NULL, t_tail = NULL, t_lcnt = 0, t_nbmallocs = 0, t_nbfl = 0\<rparr>)\<rparr>"

lemma init_talloc_ok: "distinct ps \<Longrightarrow> NULL \<notin> set ps \<Longrightarrow> mt_ok (init_talloc ps) {}"
  unfolding mt_ok_def
  by (rule exI [of _ "\<lambda>_. []"], rule exI [of _ "[]"])
    (simp add: mt_inv_def init_talloc_def init_allocator_def prealloc_def)

text \<open>Thread 0 takes two nodes, thread 1 frees one, thread 2 takes the next.\<close>

lemma threads_never_share_witness:
  "\<exists>A' s' n s''. mrun [New 0, New 0, Free 1 64] {} (init_talloc [64, 128, 192]) = Some (A', s') \<and>
     thread_new 2 s' = Some (n, s'') \<and> n \<notin> A'"
proof -
  have "mt_ok (init_talloc [64, 128, 192]) {}" by (rule init_talloc_ok) simp_all
  from threads_never_share [OF this, of "[New 0, New 0, Free 1 64]" 2] show ?thesis by blast
qed

end
