(* ===== verification/Allocator_Machine.thy ===== *)
theory Allocator_Machine imports Allocator_Threads begin

text \<open>
  The allocator one access to shared memory at a time, for any number of threads.
  Undisturbed, a thread does what the calls of \<open>Allocator\<close> do; interleaved, a flush
  through a stale tail hands out a node twice.
\<close>

section \<open>The machine\<close>

text \<open>
  \<open>am_use\<close> are the nodes in use and \<open>am_twice\<close> remembers that a node in use was
  handed out: both are observations, not variables of the program.  The program
  counters \<open>A_get\<close> to \<open>A_calloc\<close> are those of \<open>new_node\<close>, the others of \<open>free_node\<close>; in
  \<open>A_flush\<close> the shared list is read and the tail linked to it, in \<open>A_push\<close> the link is
  read back and compared.
\<close>

datatype apc = A_idle | A_get | A_load | A_cas | A_pop | A_calloc | A_own ptr | A_flush | A_push | A_crash

record amach =
  am_sh :: talloc
  am_pc :: "nat \<Rightarrow> apc"
  am_use :: "ptr set"
  am_twice :: bool

definition put :: "nat \<Rightarrow> talloc \<Rightarrow> apc \<Rightarrow> amach \<Rightarrow> amach" where
  "put t s pc c = c\<lparr>am_sh := switch_out t s, am_pc := (am_pc c)(t := pc)\<rparr>"

definition got :: "ptr \<Rightarrow> amach \<Rightarrow> amach" where
  "got n c = (if n = NULL then c
     else c\<lparr>am_use := insert n (am_use c), am_twice := (am_twice c \<or> n \<in> am_use c)\<rparr>)"

definition arun :: "nat \<Rightarrow> amach \<Rightarrow> amach" where
  "arun t c = (let s = switch_in t (am_sh c) in case am_pc c t of
     A_idle \<Rightarrow> c
   | A_get \<Rightarrow> put t s (if lfl s = NULL then A_load else A_pop) c
   | A_load \<Rightarrow> put t (s\<lparr>lfl := freelist s\<rparr>) (if freelist s = NULL then A_calloc else A_cas) c
   | A_cas \<Rightarrow> (case CAS (freelist s) (lfl s) NULL of (ok, v) \<Rightarrow>
       put t (s\<lparr>freelist := v\<rparr>) (if ok then A_pop else A_load) c)
   | A_pop \<Rightarrow> (case rd s (lfl s) of
       None \<Rightarrow> put t s A_crash c
     | Some n \<Rightarrow> got (lfl s) (put t (s\<lparr>lfl := mr_next n\<rparr>) A_idle c))
   | A_calloc \<Rightarrow> (case calloc_node s of (n, s) \<Rightarrow>
       got n (put t (s\<lparr>nbmallocs := nbmallocs s + 1\<rparr>) A_idle c))
   | A_own p \<Rightarrow>
       (let s = (if lfl_tail s = NULL then s\<lparr>lfl_tail := p\<rparr> else s) in
        case wr p (\<lambda>n. n\<lparr>mr_next := lfl s\<rparr>) s of
          None \<Rightarrow> put t s A_crash c
        | Some s \<Rightarrow>
            (let s = s\<lparr>lfl := p, lcnt := lcnt s + 1\<rparr> in
             if AMORT_FREE_ON \<le> lcnt s then put t s A_flush c
             else put t (s\<lparr>nbfl := nbfl s + 1\<rparr>) A_idle c))
   | A_flush \<Rightarrow> (case wr (lfl_tail s) (\<lambda>n. n\<lparr>mr_next := freelist s\<rparr>) s of
       None \<Rightarrow> put t s A_crash c
     | Some s \<Rightarrow> put t s A_push c)
   | A_push \<Rightarrow> (case rd s (lfl_tail s) of
       None \<Rightarrow> put t s A_crash c
     | Some m \<Rightarrow> (case CAS (freelist s) (mr_next m) (lfl s) of (ok, v) \<Rightarrow>
         if ok then put t (s\<lparr>freelist := v, lfl_tail := NULL, lfl := NULL, lcnt := 0, nbfl := nbfl s + 1\<rparr>) A_idle c
         else put t (s\<lparr>freelist := v\<rparr>) A_flush c))
   | A_crash \<Rightarrow> c)"

text \<open>A call begins when its thread is idle; what is freed is in use until then.\<close>

datatype aact = Call_new nat | Call_free nat ptr | Run nat

fun astep :: "aact \<Rightarrow> amach \<Rightarrow> amach" where
  "astep (Call_new t) c = (if am_pc c t = A_idle then c\<lparr>am_pc := (am_pc c)(t := A_get)\<rparr> else c)"
| "astep (Call_free t p) c = (if am_pc c t = A_idle \<and> p \<in> am_use c
     then c\<lparr>am_pc := (am_pc c)(t := A_own p), am_use := am_use c - {p}\<rparr> else c)"
| "astep (Run t) c = arun t c"

primrec aexec :: "aact list \<Rightarrow> amach \<Rightarrow> amach" where
  "aexec [] c = c"
| "aexec (a # as) c = aexec as (astep a c)"

lemma aexec_append: "aexec (as @ bs) c = aexec bs (aexec as c)"
  by (induction as arbitrary: c) simp_all

definition init_amach :: "ptr list \<Rightarrow> amach" where
  "init_amach ps = \<lparr>am_sh = init_talloc ps, am_pc = (\<lambda>_. A_idle), am_use = {}, am_twice = False\<rparr>"

section \<open>Undisturbed\<close>

lemma arun_new:
  assumes idle: "am_pc c t = A_idle" and n: "thread_new t (am_sh c) = Some (n, s')"
  shows "\<exists>k\<le>4. aexec (Call_new t # replicate k (Run t)) c = got n (c\<lparr>am_sh := s'\<rparr>)"
proof -
  obtain s pc us tw where c: "c = \<lparr>am_sh = s, am_pc = pc, am_use = us, am_twice = tw\<rparr>" by (cases c)
  obtain no he lo po fr fc lf lt lc nm nf tl where s: "s = \<lparr>node = no, heads = he, locks = lo, pool = po,
      freelist = fr, frct = fc, lfl = lf, lfl_tail = lt, lcnt = lc, nbmallocs = nm, nbfl = nf, tls = tl\<rparr>"
    by (cases s) blast
  note ev = arun_def put_def Let_def mem_simps got_def switch_in_def switch_out_def calloc_node_def
  note nw = thread_new_def new_node_def get_free_def steal_eq
  have i: "pc t = A_idle" using idle by (simp add: c)
  have pc: "(pc(t := x))(t := A_idle) = pc" "pc(t := A_idle) = pc" for x using i by auto
  consider "t_lfl (tl t) \<noteq> NULL" | "t_lfl (tl t) = NULL" "fr \<noteq> NULL" | "t_lfl (tl t) = NULL" "fr = NULL"
    by blast
  then show ?thesis
  proof cases
    case 1
    have "aexec (Call_new t # [Run t, Run t]) c = got n (c\<lparr>am_sh := s'\<rparr>)"
      using 1 n i by (auto simp: c s ev nw pc split: list.splits)
    then show ?thesis by (intro exI [of _ 2]) (simp add: numeral_2_eq_2)
  next
    case 2
    have "aexec (Call_new t # [Run t, Run t, Run t, Run t]) c = got n (c\<lparr>am_sh := s'\<rparr>)"
      using 2 n i by (auto simp: c s ev nw pc split: list.splits)
    then show ?thesis by (intro exI [of _ 4]) (simp add: eval_nat_numeral)
  next
    case 3
    have "aexec (Call_new t # [Run t, Run t, Run t]) c = got n (c\<lparr>am_sh := s'\<rparr>)"
      using 3 n i by (auto simp: c s ev nw pc split: list.splits)
    then show ?thesis by (intro exI [of _ 3]) (simp add: eval_nat_numeral)
  qed
qed

lemma arun_free:
  assumes idle: "am_pc c t = A_idle" and p: "p \<in> am_use c" "p \<noteq> NULL"
    and f: "thread_free t p (am_sh c) = Some s'"
  shows "\<exists>k\<le>3. aexec (Call_free t p # replicate k (Run t)) c = c\<lparr>am_sh := s', am_use := am_use c - {p}\<rparr>"
proof -
  obtain s pc us tw where c: "c = \<lparr>am_sh = s, am_pc = pc, am_use = us, am_twice = tw\<rparr>" by (cases c)
  obtain no he lo po fr fc lf lt lc nm nf tl where s: "s = \<lparr>node = no, heads = he, locks = lo, pool = po,
      freelist = fr, frct = fc, lfl = lf, lfl_tail = lt, lcnt = lc, nbmallocs = nm, nbfl = nf, tls = tl\<rparr>"
    by (cases s) blast
  note ev = arun_def put_def Let_def mem_simps switch_in_def switch_out_def
  note fr = thread_free_def free_node_def add_free_eq pushed_def flushed_def
  have i: "pc t = A_idle" using idle by (simp add: c)
  have pc: "(pc(t := x))(t := A_idle) = pc" "pc(t := A_idle) = pc" for x using i by auto
  show ?thesis
  proof (cases "AMORT_FREE_ON \<le> t_lcnt (tl t) + 1")
    case False
    have "aexec (Call_free t p # [Run t]) c = c\<lparr>am_sh := s', am_use := am_use c - {p}\<rparr>"
      using False f i p by (cases "t_tail (tl t) = NULL") (simp_all add: c s ev fr pc)
    then show ?thesis by (intro exI [of _ 1]) simp
  next
    case True
    have "aexec (Call_free t p # [Run t, Run t, Run t]) c = c\<lparr>am_sh := s', am_use := am_use c - {p}\<rparr>"
      using True f i p by (cases "t_tail (tl t) = NULL") (simp_all add: c s ev fr pc)
    then show ?thesis by (intro exI [of _ 3]) (simp add: eval_nat_numeral)
  qed
qed

text \<open>
  (undisturbed, the machine is the code of \<open>Allocator\<close>): from a state where
  everything is apart, an idle thread that allocates is done after at most four
  steps and one that frees after at most three, with the memory that \<open>new_node\<close> and
  \<open>free_node\<close> leave, and no node in use was handed out.
\<close>

theorem undisturbed_calls:
  assumes "am_pc c t = A_idle" and "mt_ok (am_sh c) (am_use c)"
  shows "(\<exists>k\<le>4. \<exists>n s'. thread_new t (am_sh c) = Some (n, s') \<and> n \<notin> am_use c \<and>
      aexec (Call_new t # replicate k (Run t)) c =
        c\<lparr>am_sh := s', am_use := (if n = NULL then am_use c else insert n (am_use c))\<rparr>) \<and>
    (p \<in> am_use c \<longrightarrow> (\<exists>k\<le>3. \<exists>s'. thread_free t p (am_sh c) = Some s' \<and>
      aexec (Call_free t p # replicate k (Run t)) c = c\<lparr>am_sh := s', am_use := am_use c - {p}\<rparr>))"
proof (intro conjI impI)
  obtain F G where inv: "mt_inv (am_sh c) (am_use c) F G" using assms(2) by (auto simp: mt_ok_def)
  then have nn: "NULL \<notin> am_use c" by (simp add: mt_inv_def)
  obtain n s' where n: "thread_new t (am_sh c) = Some (n, s')"
    "if n = NULL then mt_ok s' (am_use c) \<and> pool (am_sh c) = [] else n \<notin> am_use c \<and> mt_ok s' (insert n (am_use c))"
    using thread_new_ok [OF inv, of t] by blast
  have "got n (c\<lparr>am_sh := s'\<rparr>) =
      c\<lparr>am_sh := s', am_use := (if n = NULL then am_use c else insert n (am_use c))\<rparr>"
    using n(2) by (cases c) (simp add: got_def split: if_splits)
  moreover have "n \<notin> am_use c" using n(2) nn by (auto split: if_splits)
  ultimately show "\<exists>k\<le>4. \<exists>n s'. thread_new t (am_sh c) = Some (n, s') \<and> n \<notin> am_use c \<and>
      aexec (Call_new t # replicate k (Run t)) c =
        c\<lparr>am_sh := s', am_use := (if n = NULL then am_use c else insert n (am_use c))\<rparr>"
    using arun_new [OF assms(1) n(1)] n(1) by metis
  assume p: "p \<in> am_use c"
  moreover have "p \<noteq> NULL" using p nn by auto
  moreover obtain s'' where "thread_free t p (am_sh c) = Some s''"
    using thread_free_ok [OF inv p, of t] by blast
  ultimately show "\<exists>k\<le>3. \<exists>s'. thread_free t p (am_sh c) = Some s' \<and>
      aexec (Call_free t p # replicate k (Run t)) c = c\<lparr>am_sh := s', am_use := am_use c - {p}\<rparr>"
    using arun_free [OF assms(1)] by metis
qed

lemma undisturbed_calls_witness:
  "\<exists>k\<le>4. \<exists>s'. aexec (Call_new 0 # replicate k (Run 0)) (init_amach [64]) =
     (init_amach [64])\<lparr>am_sh := s', am_use := {64}\<rparr>"
proof -
  have "mt_ok (am_sh (init_amach [64])) (am_use (init_amach [64]))"
    unfolding init_amach_def by simp (rule init_talloc_ok; simp)
  moreover have "am_pc (init_amach [64]) 0 = A_idle" by (simp add: init_amach_def)
  ultimately obtain k n s' where "k \<le> 4" "thread_new 0 (am_sh (init_amach [64])) = Some (n, s')"
    "aexec (Call_new 0 # replicate k (Run 0)) (init_amach [64]) = (init_amach [64])\<lparr>am_sh := s',
       am_use := (if n = NULL then am_use (init_amach [64]) else insert n (am_use (init_amach [64])))\<rparr>"
    using undisturbed_calls by blast
  moreover have "map_option fst (thread_new 0 (am_sh (init_amach [64]))) = Some 64"
    by (simp add: init_amach_def init_talloc_def init_allocator_def prealloc_def thread_new_def new_node_def
        get_free_def steal_eq calloc_node_def switch_in_def)
  ultimately show ?thesis by (auto simp: init_amach_def)
qed

section \<open>A node handed out twice\<close>

text \<open>\<open>churn t p\<close>: thread \<open>t\<close> frees \<open>p\<close> and gets it back.\<close>

definition churn :: "nat \<Rightarrow> ptr \<Rightarrow> aact list" where
  "churn t p = [Call_free t p, Run t, Call_new t, Run t, Run t]"

definition churned :: "nat \<Rightarrow> ptr \<Rightarrow> nat \<Rightarrow> amach \<Rightarrow> amach" where
  "churned t p n c = (let s = am_sh c; l = tls s t in
     if n = 0 then c else c\<lparr>am_sh := s\<lparr>node := (node s)(p := (node s p)\<lparr>mr_next := NULL\<rparr>), lfl := NULL,
       lfl_tail := p, lcnt := t_lcnt l + int n, nbmallocs := t_nbmallocs l, nbfl := t_nbfl l + int n,
       tls := (tls s)(t := \<lparr>t_lfl = NULL, t_tail = p, t_lcnt = t_lcnt l + int n,
         t_nbmallocs = t_nbmallocs l, t_nbfl = t_nbfl l + int n\<rparr>)\<rparr>\<rparr>)"

lemma churn_once:
  assumes "am_pc c t = A_idle" and "p \<in> am_use c" and "p \<noteq> NULL" and "t_lfl (tls (am_sh c) t) = NULL"
    and "t_tail (tls (am_sh c) t) \<in> {NULL, p}" and "t_lcnt (tls (am_sh c) t) < 99" and "\<not> am_twice c"
  shows "aexec (churn t p) c = churned t p (Suc 0) c"
proof -
  obtain s pc us tw where c: "c = \<lparr>am_sh = s, am_pc = pc, am_use = us, am_twice = tw\<rparr>" by (cases c)
  obtain no he lo po fr fc lf lt lc nm nf tl where s: "s = \<lparr>node = no, heads = he, locks = lo, pool = po,
      freelist = fr, frct = fc, lfl = lf, lfl_tail = lt, lcnt = lc, nbmallocs = nm, nbfl = nf, tls = tl\<rparr>"
    by (cases s) blast
  have i: "pc t = A_idle" using assms(1) by (simp add: c)
  have pc: "(pc(t := x))(t := A_idle) = pc" "pc(t := A_idle) = pc" for x using i by auto
  have us: "insert p us = us" using assms(2) by (auto simp: c)
  have tl: "t_tail (tl t) = NULL \<or> t_tail (tl t) = p" and l: "t_lfl (tl t) = NULL" and lc: "t_lcnt (tl t) < 99"
    and tw: "\<not> tw" and up: "p \<in> us"
    using assms by (auto simp: c s)
  note ev = churn_def churned_def c s arun_def put_def Let_def mem_simps switch_in_def switch_out_def got_def pc us
  from tl show ?thesis
  proof
    assume "t_tail (tl t) = NULL"
    then show ?thesis using i l lc tw up assms(3) by (simp add: ev)
  next
    assume "t_tail (tl t) = p"
    then show ?thesis using i l lc tw up assms(3) by (simp add: ev)
  qed
qed

lemma churn_many:
  assumes "am_pc c t = A_idle" and "p \<in> am_use c" and "p \<noteq> NULL" and "t_lfl (tls (am_sh c) t) = NULL"
    and "t_tail (tls (am_sh c) t) \<in> {NULL, p}" and "t_lcnt (tls (am_sh c) t) + int n \<le> 99" and "\<not> am_twice c"
  shows "aexec (concat (replicate n (churn t p))) c = churned t p n c"
  using assms
proof (induction n arbitrary: c)
  case 0
  then show ?case by (simp add: churned_def)
next
  case (Suc n)
  let ?c = "churned t p (Suc 0) c"
  have k: "am_pc ?c = am_pc c" "am_use ?c = am_use c" "am_twice ?c = am_twice c"
    "t_lfl (tls (am_sh ?c) t) = NULL" "t_tail (tls (am_sh ?c) t) = p"
    "t_lcnt (tls (am_sh ?c) t) = t_lcnt (tls (am_sh c) t) + 1"
    using Suc.prems(4) by (simp_all add: churned_def Let_def)
  have "aexec (churn t p) c = ?c" using Suc.prems by (intro churn_once) auto
  moreover have "aexec (concat (replicate n (churn t p))) ?c = churned t p n ?c"
    using Suc.prems by (intro Suc.IH) (auto simp: k)
  moreover have "churned t p n ?c = churned t p (Suc n) c"
    using Suc.prems(4) by (simp add: churned_def Let_def add.assoc)
  ultimately show ?case by (simp add: aexec_append)
qed

text \<open>
  Thread 0 uses 64 again and again, so its tail is 64, and takes 128; thread 1
  fills the shared list with 192.  Then thread 1 frees 64 to its own list, and
  thread 0, freeing 128, flushes: it links 64, now in the list of thread 1, to the
  shared list, and stops.  Thread 1 gets 64, then 192 through that link, then the
  shared list: 192 again.
\<close>

definition twice_prelude :: "aact list" where
  "twice_prelude =
     [Call_new 0, Run 0, Run 0, Run 0] @ concat (replicate 99 (churn 0 64)) @
     [Call_new 0, Run 0, Run 0, Run 0, Call_new 1, Run 1, Run 1, Run 1] @
     concat (replicate 99 (churn 1 192)) @ [Call_free 1 192, Run 1, Run 1, Run 1]"

definition twice_race :: "aact list" where
  "twice_race =
     [Call_free 1 64, Run 1, Call_free 0 128, Run 0, Run 0,
      Call_new 1, Run 1, Run 1, Call_new 1, Run 1, Run 1,
      Call_new 1, Run 1, Run 1, Run 1, Run 1]"

lemma aeval: "aexec as c = d \<Longrightarrow> P d \<Longrightarrow> P (aexec as c)"
  by simp

lemma aeval_step: "astep a c = c' \<Longrightarrow> aexec as c' = d \<Longrightarrow> aexec (a # as) c = d"
  by simp

lemma aeval_churn:
  assumes "churned t p n c = c'" and "aexec as c' = d" 
    and "am_pc c t = A_idle" and "p \<in> am_use c" and "p \<noteq> NULL" and "t_lfl (tls (am_sh c) t) = NULL"
    and "t_tail (tls (am_sh c) t) \<in> {NULL, p}" and "t_lcnt (tls (am_sh c) t) + int n \<le> 99" and "\<not> am_twice c"
  shows "aexec (concat (replicate n (churn t p)) @ as) c = d"
  using churn_many [OF assms(3-9)] assms(1,2) by (simp add: aexec_append)

lemmas amach_eval = arun_def put_def got_def mem_simps switch_in_def switch_out_def calloc_node_def
  churned_def init_amach_def init_talloc_def init_allocator_def prealloc_def zero_node_def

text \<open>
  C21 (a node handed out twice): with three nodes of memory and two threads that
  free only what they hold, the default allocator gives a node in use to
  a second allocation.
\<close>

theorem allocated_twice:
  "am_twice (aexec (twice_prelude @ twice_race) (init_amach [64, 192, 128]))"
  unfolding twice_prelude_def twice_race_def append_assoc append_Cons append_Nil
  apply (rule aeval [where P = am_twice])
   apply ((rule aeval_step, (simp add: amach_eval Let_def; fail))+)
   apply (rule aeval_churn, (simp add: amach_eval Let_def; fail))
          apply ((rule aeval_step, (simp add: amach_eval Let_def; fail))+)
          apply (rule aeval_churn, (simp add: amach_eval Let_def; fail))
                 apply ((rule aeval_step, (simp add: amach_eval Let_def; fail))+)
                 apply (rule aexec.simps(1))
                apply (simp_all add: zero_node_def)
  done

end
