(* ===== verification/Allocator_Variants.thy ===== *)
theory Allocator_Variants imports Allocator_Properties begin

text \<open>
  The three allocators of \<open>allocator_malloc.c\<close> side by side, in one thread: each is a
  stack of free nodes on top of \<open>calloc\<close>, the default one between two flushes.  Then
  \<open>PREALLOCAT\<close>, which fills the stack before the threads start.
\<close>

section \<open>Calls of a thread\<close>

text \<open>\<open>new_node\<close> and \<open>free_node\<close> over whichever \<open>get_free\<close> and \<open>add_free\<close> are compiled in.\<close>

definition new_with ::
    "('w alloc_scheme \<Rightarrow> (ptr \<times> 'w alloc_scheme) option) \<Rightarrow> 'w alloc_scheme \<Rightarrow> (ptr \<times> 'w alloc_scheme) option" where
  "new_with get s = do {
     (n, s) \<leftarrow> get s;
     if n = NULL then (case calloc_node s of (n, s) \<Rightarrow> Some (n, s\<lparr>nbmallocs := nbmallocs s + 1\<rparr>))
     else Some (n, s)
   }"

definition free_with ::
    "(ptr \<Rightarrow> 'w alloc_scheme \<Rightarrow> 'w alloc_scheme option) \<Rightarrow> ptr \<Rightarrow> 'w alloc_scheme \<Rightarrow> 'w alloc_scheme option" where
  "free_with add n s = do {
     s \<leftarrow> add n s;
     Some (s\<lparr>nbfl := nbfl s + 1\<rparr>)
   }"

lemma default_calls: "new_with get_free = new_node" "free_with add_free = free_node"
  by (simp_all add: fun_eq_iff new_with_def new_node_def free_with_def free_node_def)

text \<open>A script of calls: \<open>None\<close> takes a node, \<open>Some p\<close> frees \<open>p\<close>; the result are the nodes taken.\<close>

primrec script ::
    "('w alloc_scheme \<Rightarrow> (ptr \<times> 'w alloc_scheme) option) \<Rightarrow>
     (ptr \<Rightarrow> 'w alloc_scheme \<Rightarrow> 'w alloc_scheme option) \<Rightarrow> ptr option list \<Rightarrow> 'w alloc_scheme \<Rightarrow> ptr list option" where
  "script get add [] s = Some []"
| "script get add (c # cs) s = (case c of
     None \<Rightarrow> do {
       (n, s) \<leftarrow> new_with get s;
       ns \<leftarrow> script get add cs s;
       Some (n # ns)
     }
   | Some p \<Rightarrow> do {
       s \<leftarrow> free_with add p s;
       script get add cs s
     })"

text \<open>
  The reference: \<open>A\<close> in use, \<open>X\<close> the stack, \<open>ps\<close> what \<open>calloc\<close> has.  \<open>None\<close> is a
  script that frees what it does not have.
\<close>

fun stack_script :: "ptr option list \<Rightarrow> ptr set \<Rightarrow> ptr list \<Rightarrow> ptr list \<Rightarrow> ptr list option" where
  "stack_script [] A X ps = Some []"
| "stack_script (None # cs) A (x # X) ps = map_option (Cons x) (stack_script cs (insert x A) X ps)"
| "stack_script (None # cs) A [] (p # ps) = map_option (Cons p) (stack_script cs (insert p A) [] ps)"
| "stack_script (None # cs) A [] [] = map_option (Cons NULL) (stack_script cs A [] [])"
| "stack_script (Some p # cs) A X ps = (if p \<in> A then stack_script cs (A - {p}) (p # X) ps else None)"

definition frees :: "ptr option list \<Rightarrow> nat" where
  "frees cs = length (filter (\<lambda>c. c \<noteq> None) cs)"

text \<open>An allocator that is a stack, for \<open>n\<close> more calls of \<open>free_node\<close>.\<close>

locale free_stack =
  fixes get :: "'w alloc_scheme \<Rightarrow> (ptr \<times> 'w alloc_scheme) option"
    and add :: "ptr \<Rightarrow> 'w alloc_scheme \<Rightarrow> 'w alloc_scheme option"
    and rep :: "'w alloc_scheme \<Rightarrow> ptr set \<Rightarrow> ptr list \<Rightarrow> ptr list \<Rightarrow> nat \<Rightarrow> bool"
  assumes pop: "rep s A (x # X) ps n \<Longrightarrow> \<exists>s'. new_with get s = Some (x, s') \<and> rep s' (insert x A) X ps n"
    and fresh: "rep s A [] (p # ps) n \<Longrightarrow> \<exists>s'. new_with get s = Some (p, s') \<and> rep s' (insert p A) [] ps n"
    and exhausted: "rep s A [] [] n \<Longrightarrow> \<exists>s'. new_with get s = Some (NULL, s') \<and> rep s' A [] [] n"
    and push: "rep s A X ps (Suc n) \<Longrightarrow> p \<in> A \<Longrightarrow>
      \<exists>s'. free_with add p s = Some s' \<and> rep s' (A - {p}) (p # X) ps n"
begin

lemma script_stack:
  "rep s A X ps n \<Longrightarrow> frees cs \<le> n \<Longrightarrow> stack_script cs A X ps = Some ns \<Longrightarrow> script get add cs s = Some ns"
proof (induction cs A X ps arbitrary: s n ns rule: stack_script.induct)
  case (1 A X ps)
  then show ?case by simp
next
  case (2 cs A x X ps)
  obtain s' where "new_with get s = Some (x, s')" "rep s' (insert x A) X ps n" using pop [OF 2(2)] by blast
  then show ?case using 2(1) [of s' n] 2(3,4) by (auto simp: frees_def)
next
  case (3 cs A p ps)
  obtain s' where "new_with get s = Some (p, s')" "rep s' (insert p A) [] ps n" using fresh [OF 3(2)] by blast
  then show ?case using 3(1) [of s' n] 3(3,4) by (auto simp: frees_def)
next
  case (4 cs A)
  obtain s' where "new_with get s = Some (NULL, s')" "rep s' A [] [] n" using exhausted [OF 4(2)] by blast
  then show ?case using 4(1) [of s' n] 4(3,4) by (auto simp: frees_def)
next
  case (5 p cs A X ps)
  then obtain m where m: "n = Suc m" "frees cs \<le> m" and p: "p \<in> A" "stack_script cs (A - {p}) (p # X) ps = Some ns"
    by (cases n) (auto simp: frees_def split: if_splits)
  obtain s' where "free_with add p s = Some s'" "rep s' (A - {p}) (p # X) ps m"
    using push [OF 5(2) [unfolded m(1)] p(1)] by blast
  then show ?case using 5(1) [OF p(1) _ m(2) p(2)] by simp
qed

end

section \<open>The three allocators\<close>

definition apart :: "ptr set \<Rightarrow> ptr list \<Rightarrow> ptr list \<Rightarrow> bool" where
  "apart A X ps \<longleftrightarrow> distinct ps \<and> NULL \<notin> set ps \<and> NULL \<notin> A \<and> A \<inter> (set X \<union> set ps) = {} \<and> set X \<inter> set ps = {}"

definition simple_rep :: "'w alloc_scheme \<Rightarrow> ptr set \<Rightarrow> ptr list \<Rightarrow> ptr list \<Rightarrow> nat \<Rightarrow> bool" where
  "simple_rep s A X ps n \<longleftrightarrow> pool s = ps \<and> chain (mrs s) (lfl s) X NULL \<and> apart A X ps"

definition amort_rep :: "'w alloc_scheme \<Rightarrow> ptr set \<Rightarrow> ptr list \<Rightarrow> ptr list \<Rightarrow> nat \<Rightarrow> bool" where
  "amort_rep s A X ps n \<longleftrightarrow> (\<exists>F G. X = F @ G \<and> pool s = ps \<and> chain (mrs s) (lfl s) F NULL \<and>
     chain (mrs s) (freelist s) G NULL \<and> set F \<inter> set G = {} \<and> apart A X ps)"

definition default_rep :: "'w alloc_scheme \<Rightarrow> ptr set \<Rightarrow> ptr list \<Rightarrow> ptr list \<Rightarrow> nat \<Rightarrow> bool" where
  "default_rep s A X ps n \<longleftrightarrow> (\<exists>F G. X = F @ G \<and> pool s = ps \<and> alloc_inv s A F G \<and> lcnt s + int n < AMORT_FREE_ON)"

lemma chain_zero: "p \<notin> set xs \<Longrightarrow> chain (\<lambda>q. mr_next ((f(p := n)) q)) h xs NULL = chain (\<lambda>q. mr_next (f q)) h xs NULL"
  by (rule chain_cong) auto

interpretation simple: free_stack get_free_simple add_free_simple simple_rep
proof
  fix s :: "'w alloc_scheme" and A X ps n x p
  show "\<exists>s'. new_with get_free_simple s = Some (x, s') \<and> simple_rep s' (insert x A) X ps n"
    if r: "simple_rep s A (x # X) ps n"
  proof -
    have c: "lfl s = x" "x \<noteq> NULL" "chain (mrs s) (mr_next (node s x)) X NULL" "x \<notin> set X"
      using r chain_distinct [of "mrs s" "lfl s" "x # X"] by (auto simp: simple_rep_def)
    then have "new_with get_free_simple s = Some (x, s\<lparr>lfl := mr_next (node s x)\<rparr>)"
      by (simp add: new_with_def get_free_simple_def mem_simps)
    then show ?thesis using r c by (auto simp: simple_rep_def apart_def)
  qed
  show "\<exists>s'. new_with get_free_simple s = Some (p, s') \<and> simple_rep s' (insert p A) [] ps n"
    if r: "simple_rep s A [] (p # ps) n"
    using r by (auto simp: simple_rep_def apart_def new_with_def get_free_simple_def calloc_node_def)
  show "\<exists>s'. new_with get_free_simple s = Some (NULL, s') \<and> simple_rep s' A [] [] n"
    if r: "simple_rep s A [] [] n"
    using r by (auto simp: simple_rep_def apart_def new_with_def get_free_simple_def calloc_node_def)
  show "\<exists>s'. free_with add_free_simple p s = Some s' \<and> simple_rep s' (A - {p}) (p # X) ps n"
    if r: "simple_rep s A X ps (Suc n)" "p \<in> A"
  proof -
    have p: "p \<noteq> NULL" "p \<notin> set X" "p \<notin> set ps" using r by (auto simp: simple_rep_def apart_def)
    then have "free_with add_free_simple p s =
        Some (s\<lparr>node := (node s)(p := (node s p)\<lparr>mr_next := lfl s\<rparr>), lfl := p, nbfl := nbfl s + 1\<rparr>)"
      by (simp add: free_with_def add_free_simple_def mem_simps)
    moreover have "chain (\<lambda>q. mr_next (((node s)(p := (node s p)\<lparr>mr_next := lfl s\<rparr>)) q)) (lfl s) X NULL"
      unfolding chain_zero [OF p(2)] using r(1) by (simp add: simple_rep_def)
    ultimately show ?thesis using r p by (auto simp: simple_rep_def apart_def)
  qed
qed

interpretation amort: free_stack get_free add_free_amort amort_rep
proof
  fix s :: "'w alloc_scheme" and A X ps n x p
  show "\<exists>s'. new_with get_free s = Some (x, s') \<and> amort_rep s' (insert x A) X ps n"
    if r: "amort_rep s A (x # X) ps n"
  proof -
    obtain F G where c: "x # X = F @ G" "pool s = ps" "chain (mrs s) (lfl s) F NULL" "chain (mrs s) (freelist s) G NULL"
      "set F \<inter> set G = {}" "apart A (x # X) ps"
      using r by (auto simp: amort_rep_def)
    show ?thesis
    proof (cases F)
      case (Cons y F')
      then have y: "y = x" "X = F' @ G" "lfl s = x" "x \<noteq> NULL" "chain (mrs s) (mr_next (node s x)) F' NULL" "x \<notin> set F'"
        using c chain_distinct [OF c(3)] by auto
      have "x \<notin> set G" using c(5) Cons y(1) by auto
      then have "amort_rep (s\<lparr>lfl := mr_next (node s x)\<rparr>) (insert x A) X ps n"
        unfolding amort_rep_def using c(2,4,5,6) Cons y by (intro exI [of _ F'] exI [of _ G]) (auto simp: apart_def)
      moreover have "new_with get_free s = Some (x, s\<lparr>lfl := mr_next (node s x)\<rparr>)"
        using y(3,4) by (simp add: new_with_def get_free_def mem_simps)
      ultimately show ?thesis by blast
    next
      case Nil
      then have y: "G = x # X" "freelist s = x" "x \<noteq> NULL" "lfl s = NULL" "chain (mrs s) (mr_next (node s x)) X NULL" "x \<notin> set X"
        using c chain_distinct [OF c(4)] by auto
      have "amort_rep (s\<lparr>lfl := mr_next (node s x), freelist := NULL\<rparr>) (insert x A) X ps n"
        unfolding amort_rep_def using c(2,6) y by (intro exI [of _ X] exI [of _ "[]"]) (auto simp: apart_def)
      moreover have "new_with get_free s = Some (x, s\<lparr>lfl := mr_next (node s x), freelist := NULL\<rparr>)"
        using y(2-4) by (simp add: new_with_def get_free_def steal_eq mem_simps)
      ultimately show ?thesis by blast
    qed
  qed
  show "\<exists>s'. new_with get_free s = Some (p, s') \<and> amort_rep s' (insert p A) [] ps n"
    if r: "amort_rep s A [] (p # ps) n"
    using r by (auto simp: amort_rep_def apart_def new_with_def get_free_def steal_eq calloc_node_def)
  show "\<exists>s'. new_with get_free s = Some (NULL, s') \<and> amort_rep s' A [] [] n"
    if r: "amort_rep s A [] [] n"
    using r by (auto simp: amort_rep_def apart_def new_with_def get_free_def steal_eq calloc_node_def)
  show "\<exists>s'. free_with add_free_amort p s = Some s' \<and> amort_rep s' (A - {p}) (p # X) ps n"
    if r: "amort_rep s A X ps (Suc n)" "p \<in> A"
  proof -
    obtain F G where c: "X = F @ G" "pool s = ps" "chain (mrs s) (lfl s) F NULL" "chain (mrs s) (freelist s) G NULL"
      "set F \<inter> set G = {}" "apart A X ps"
      using r by (auto simp: amort_rep_def)
    have p: "p \<noteq> NULL" "p \<notin> set F" "p \<notin> set G" "p \<notin> set ps" "apart (A - {p}) (p # X) ps"
      using r(2) c(1,6) by (auto simp: apart_def)
    let ?N = "(node s)(p := (node s p)\<lparr>mr_next := lfl s\<rparr>)"
    have ch: "chain (\<lambda>q. mr_next (?N q)) (lfl s) F NULL" "chain (\<lambda>q. mr_next (?N q)) (freelist s) G NULL"
      unfolding chain_zero [OF p(2)] chain_zero [OF p(3)] using c(3,4) .
    let ?s = "s\<lparr>node := ?N, lfl := p, lcnt := lcnt s + 1, nbfl := nbfl s + 1\<rparr>"
    have "free_with add_free_amort p s = Some (if AMORT_FREE_ON \<le> lcnt s + 1 \<and> freelist s = NULL
        then ?s\<lparr>freelist := p, lfl := NULL, lcnt := 0\<rparr> else ?s)"
      using p(1) by (auto simp: free_with_def add_free_amort_def mem_simps Let_def)
    moreover have "amort_rep ?s (A - {p}) (p # X) ps n"
      unfolding amort_rep_def using c(1,2,5) p ch by (intro exI [of _ "p # F"] exI [of _ G]) simp
    moreover have "amort_rep (?s\<lparr>freelist := p, lfl := NULL, lcnt := 0\<rparr>) (A - {p}) (p # X) ps n" if "freelist s = NULL"
    proof -
      have "G = []" using c(4) that by simp
      then show ?thesis
        unfolding amort_rep_def using c(1,2) p ch by (intro exI [of _ "[]"] exI [of _ "p # F"]) simp
    qed
    ultimately show ?thesis by auto
  qed
qed

lemma get_free_lcnt: "get_free s = Some (n, s') \<Longrightarrow> lcnt s' = lcnt s"
  by (auto simp: get_free_def steal_eq rd_def split: if_splits)

interpretation default: free_stack get_free add_free default_rep
proof
  fix s :: "'w alloc_scheme" and A X ps n x p
  show "\<exists>s'. new_with get_free s = Some (x, s') \<and> default_rep s' (insert x A) X ps n"
    if r: "default_rep s A (x # X) ps n"
  proof -
    obtain F G where c: "x # X = F @ G" "pool s = ps" "alloc_inv s A F G" "lcnt s + int n < AMORT_FREE_ON"
      using r by (auto simp: default_rep_def)
    have h: "F @ G \<noteq> []" "hd (F @ G) = x" using c(1) by (metis list.discI, metis list.sel(1))
    obtain s' where g: "get_free s = Some (x, s')" "x \<noteq> NULL"
      "alloc_inv s' (insert x A) (tl (if F = [] then G else F)) (if F = [] then [] else G)" "pool s' = ps"
      using get_free_inv [OF c(3)] h c(2) by auto
    have "X = tl (if F = [] then G else F) @ (if F = [] then [] else G)" using c(1) by (cases F) auto
    then have "default_rep s' (insert x A) X ps n"
      unfolding default_rep_def using g c(4) get_free_lcnt [OF g(1)] by (intro exI conjI) auto
    then show ?thesis using g(1,2) by (simp add: new_with_def)
  qed
  show "\<exists>s'. new_with get_free s = Some (p, s') \<and> default_rep s' (insert p A) [] ps n"
    if r: "default_rep s A [] (p # ps) n"
  proof -
    have c: "pool s = p # ps" "alloc_inv s A [] []" "lcnt s + int n < AMORT_FREE_ON" using r by (auto simp: default_rep_def)
    obtain s1 where g: "get_free s = Some (NULL, s1)" "alloc_inv s1 A [] []" "pool s1 = p # ps"
      using get_free_inv [OF c(2)] c(1) by auto
    let ?s = "s1\<lparr>pool := ps, node := (node s1)(p := zero_node), nbmallocs := nbmallocs s1 + 1\<rparr>"
    have "new_with get_free s = Some (p, ?s)" using g(1,3) by (simp add: new_with_def calloc_node_def)
    moreover have "alloc_inv ?s (insert p A) [] []" using g(2,3) by (auto simp: alloc_inv_def)
    ultimately show ?thesis using c(3) get_free_lcnt [OF g(1)] by (auto simp: default_rep_def)
  qed
  show "\<exists>s'. new_with get_free s = Some (NULL, s') \<and> default_rep s' A [] [] n"
    if r: "default_rep s A [] [] n"
  proof -
    have c: "pool s = []" "alloc_inv s A [] []" "lcnt s + int n < AMORT_FREE_ON" using r by (auto simp: default_rep_def)
    obtain s1 where g: "get_free s = Some (NULL, s1)" "alloc_inv s1 A [] []" "pool s1 = []"
      using get_free_inv [OF c(2)] c(1) by auto
    let ?s = "s1\<lparr>nbmallocs := nbmallocs s1 + 1\<rparr>"
    have "new_with get_free s = Some (NULL, ?s)" using g(1,3) by (simp add: new_with_def calloc_node_def)
    moreover have "alloc_inv ?s A [] []" by (rule alloc_inv_cong [OF g(2)]) simp_all
    ultimately show ?thesis using c(3) g(3) get_free_lcnt [OF g(1)] by (auto simp: default_rep_def)
  qed
  show "\<exists>s'. free_with add_free p s = Some s' \<and> default_rep s' (A - {p}) (p # X) ps n"
    if r: "default_rep s A X ps (Suc n)" "p \<in> A"
  proof -
    obtain F G where c: "X = F @ G" "pool s = ps" "alloc_inv s A F G" "lcnt s + int (Suc n) < AMORT_FREE_ON"
      using r by (auto simp: default_rep_def)
    have p: "p \<noteq> NULL" "insert p (A - {p}) = A" using r(2) c(3) by (auto simp: alloc_inv_def)
    have l: "lcnt s + 1 < AMORT_FREE_ON" using c(4) by simp
    have "alloc_inv (pushed p s) (A - {p}) (p # F) G" by (rule pushed_inv(3)) (use c(3) p l in simp_all)
    then have "alloc_inv ((pushed p s)\<lparr>nbfl := nbfl s + 1\<rparr>) (A - {p}) (p # F) G" by (rule alloc_inv_cong) simp_all
    then have "default_rep ((pushed p s)\<lparr>nbfl := nbfl s + 1\<rparr>) (A - {p}) (p # X) ps n"
      unfolding default_rep_def using c by (intro exI [of _ "p # F"] exI [of _ G]) (simp add: pushed_def)
    moreover have "free_with add_free p s = Some ((pushed p s)\<lparr>nbfl := nbfl s + 1\<rparr>)"
      using p(1) l by (simp add: free_with_def add_free_eq pushed_def)
    ultimately show ?thesis by blast
  qed
qed

text \<open>
  C24 (the allocators agree): in one thread that frees only what it took, the
  \<open>SIMPLE_ALLOC\<close> and the \<open>SIMPLE_AMORT_FREE\<close> allocator hand out the nodes a stack would,
  flushed or not, and the default one does until its hundredth free.
\<close>

theorem variants_agree:
  assumes "stack_script cs {} [] (pool s) = Some ns" and "distinct (pool s)" "NULL \<notin> set (pool s)"
    and "lfl s = NULL" "freelist s = NULL" "lfl_tail s = NULL" "lcnt s = 0"
  shows "script get_free_simple add_free_simple cs s = Some ns \<and> script get_free add_free_amort cs s = Some ns \<and>
    (frees cs < 100 \<longrightarrow> script get_free add_free cs s = Some ns)"
proof (intro conjI impI)
  have a: "apart {} [] (pool s)" using assms(2,3) by (simp add: apart_def)
  have "simple_rep s {} [] (pool s) (frees cs)" using a assms(4) by (simp add: simple_rep_def)
  then show "script get_free_simple add_free_simple cs s = Some ns"
    by (rule simple.script_stack [OF _ order_refl assms(1)])
  have "amort_rep s {} [] (pool s) (frees cs)" using a assms(4,5) by (simp add: amort_rep_def)
  then show "script get_free add_free_amort cs s = Some ns"
    by (rule amort.script_stack [OF _ order_refl assms(1)])
  assume "frees cs < 100"
  then have "default_rep s {} [] (pool s) (frees cs)"
    using assms(2-7) by (simp add: default_rep_def alloc_inv_def)
  then show "script get_free add_free cs s = Some ns"
    by (rule default.script_stack [OF _ order_refl assms(1)])
qed

lemma variants_agree_witness:
  "script get_free add_free [None, None, Some 64, None] (demo_alloc NULL NULL 0 (\<lambda>_. zero_node)\<lparr>pool := [64, 128]\<rparr>) =
     Some [64, 128, 64]"
proof -
  let ?s = "demo_alloc NULL NULL 0 (\<lambda>_. zero_node)\<lparr>pool := [64, 128]\<rparr>"
  have "stack_script [None, None, Some 64, None] {} [] (pool ?s) = Some [64, 128, 64]" by (simp add: demo_alloc_def)
  from variants_agree [OF this] show ?thesis by (simp add: demo_alloc_def frees_def)
qed

section \<open>\<open>PREALLOCAT\<close>\<close>

definition NBPRE :: nat where "NBPRE = 100000"

text \<open>The loop of \<open>prealloc\<close> in a build with \<open>PREALLOCAT\<close>, for \<open>k\<close> nodes.\<close>

primrec prealloc_loop :: "nat \<Rightarrow> 'w alloc_scheme \<Rightarrow> 'w alloc_scheme option" where
  "prealloc_loop 0 s = Some s"
| "prealloc_loop (Suc k) s = (case calloc_node s of (n, s) \<Rightarrow> do {
     s \<leftarrow> free_node n s;
     prealloc_loop k s
   })"

definition prealloc_on :: "'w alloc_scheme \<Rightarrow> 'w alloc_scheme option" where
  "prealloc_on s = prealloc_loop NBPRE s"

definition init_allocator_on :: "'w alloc_scheme \<Rightarrow> 'w alloc_scheme option" where
  "init_allocator_on s = prealloc_on (s\<lparr>freelist := NULL, frct := 0\<rparr>)"

text \<open>
  During the loop the tail is current: it is the first node freed since the last flush,
  and the counter is the length of the private list.
\<close>

definition filling :: "'w alloc_scheme \<Rightarrow> ptr list \<Rightarrow> ptr list \<Rightarrow> bool" where
  "filling s F G \<longleftrightarrow> alloc_inv s {} F G \<and> lcnt s = int (length F) \<and> lfl_tail s = (if F = [] then NULL else last F)"

lemma filling_step:
  assumes f: "filling s F G" and p: "pool s = p # ps"
  shows "\<exists>s'. prealloc_loop (Suc k) s = prealloc_loop k s' \<and> pool s' = ps \<and>
    (if length F < 99 then filling s' (p # F) G else filling s' [] (p # F @ G))"
proof -
  let ?s = "s\<lparr>pool := ps, node := (node s)(p := zero_node)\<rparr>"
  have inv: "alloc_inv s {} F G" and l: "lcnt s = int (length F)" and t: "lfl_tail s = (if F = [] then NULL else last F)"
    using f by (simp_all add: filling_def)
  have pn: "p \<noteq> NULL" "p \<notin> set F" "p \<notin> set G" using inv p by (auto simp: alloc_inv_def)
  have i: "alloc_inv ?s (insert p {}) F G"
    using inv p chain_zero [OF pn(2), of "node s" zero_node "lfl s"] chain_zero [OF pn(3), of "node s" zero_node "freelist s"]
    by (auto simp: alloc_inv_def)
  have loop: "prealloc_loop (Suc k) s = prealloc_loop k (s1\<lparr>nbfl := nbfl s1 + 1\<rparr>)" if "add_free p ?s = Some s1" for s1
    using p that by (simp add: calloc_node_def free_node_def)
  show ?thesis
  proof (cases "length F < 99")
    case True
    then have lt: "lcnt ?s + 1 < AMORT_FREE_ON" using l by simp
    have "add_free p ?s = Some (pushed p ?s)" using add_free_eq [OF pn(1), of ?s] lt by simp
    note l1 = loop [OF this]
    let ?t = "pushed p ?s\<lparr>nbfl := nbfl (pushed p ?s) + 1\<rparr>"
    have "chain (mrs s) (lfl s) F NULL" using inv by (simp add: alloc_inv_def)
    from chain_no_NULL [OF this] have "F \<noteq> [] \<Longrightarrow> last F \<noteq> NULL" by (metis last_in_set)
    moreover have "alloc_inv ?t {} (p # F) G"
      by (rule alloc_inv_cong [OF pushed_inv(3) [OF i _ lt]]) simp_all
    ultimately have "filling ?t (p # F) G" using l t by (auto simp: filling_def pushed_def)
    moreover have "pool ?t = ps" by (simp add: pushed_def)
    ultimately show ?thesis using l1 True by auto
  next
    case False
    then have ge: "AMORT_FREE_ON \<le> lcnt ?s + 1" using l by simp
    have "\<exists>s1. add_free p ?s = Some s1 \<and> mr_only ?s s1 \<and> alloc_inv s1 {} [] (p # F @ G)"
      by (rule flush_conserves [OF i _ ge]) (use t in simp_all)
    moreover have "add_free p ?s = Some (flushed (pushed p ?s))" using add_free_eq [OF pn(1), of ?s] ge by simp
    ultimately have s1: "add_free p ?s = Some (flushed (pushed p ?s))" "alloc_inv (flushed (pushed p ?s)) {} [] (p # F @ G)"
      by auto
    let ?t = "flushed (pushed p ?s)\<lparr>nbfl := nbfl (flushed (pushed p ?s)) + 1\<rparr>"
    have "alloc_inv ?t {} [] (p # F @ G)" by (rule alloc_inv_cong [OF s1(2)]) simp_all
    then have "filling ?t [] (p # F @ G)" "pool ?t = ps" by (simp_all add: filling_def flushed_def pushed_def)
    then show ?thesis using loop [OF s1(1)] False by auto
  qed
qed

lemma filling_loop:
  "filling s F G \<Longrightarrow> length F < 100 \<Longrightarrow> k \<le> length (pool s) \<Longrightarrow>
   \<exists>s' F' G'. prealloc_loop k s = Some s' \<and> filling s' F' G' \<and> pool s' = drop k (pool s) \<and>
     F' @ G' = rev (take k (pool s)) @ F @ G \<and> length F' = (length F + k) mod 100"
proof (induction k arbitrary: s F G)
  case 0
  then show ?case by (intro exI [of _ s] exI [of _ F] exI [of _ G]) simp
next
  case (Suc k)
  obtain p ps where p: "pool s = p # ps" using Suc.prems(3) by (cases "pool s") auto
  obtain s1 where s1: "prealloc_loop (Suc k) s = prealloc_loop k s1" "pool s1 = ps"
    "if length F < 99 then filling s1 (p # F) G else filling s1 [] (p # F @ G)"
    using filling_step [OF Suc.prems(1) p, of k] by blast
  have k: "k \<le> length (pool s1)" using Suc.prems(3) p s1(2) by simp
  show ?case
  proof (cases "length F < 99")
    case True
    then have "filling s1 (p # F) G" "length (p # F) < 100" using s1(3) by simp_all
    from Suc.IH [OF this k] show ?thesis using s1(1,2) p by auto
  next
    case False
    then have "length F = 99" "filling s1 [] (p # F @ G)" "length ([] :: ptr list) < 100" using s1(3) Suc.prems(2) by simp_all
    from Suc.IH [OF this(2,3) k] show ?thesis using s1(1,2) p \<open>length F = 99\<close> by auto
  qed
qed

text \<open>
  (\<open>PREALLOCAT\<close>): with memory for it, \<open>init_allocator\<close> puts \<open>NBPRE\<close> nodes on the
  free lists, all of them on the shared one, the last first.
\<close>

theorem prealloc_fills:
  assumes "distinct (pool s)" "NULL \<notin> set (pool s)" "NBPRE \<le> length (pool s)"
    and "lfl s = NULL" "lfl_tail s = NULL" "lcnt s = 0"
  shows "\<exists>s'. init_allocator_on s = Some s' \<and> alloc_inv s' {} [] (rev (take NBPRE (pool s))) \<and>
    pool s' = drop NBPRE (pool s) \<and> lcnt s' = 0 \<and> lfl_tail s' = NULL"
proof -
  let ?s = "s\<lparr>freelist := NULL, frct := 0\<rparr>"
  have "filling ?s [] []" "NBPRE \<le> length (pool ?s)" using assms by (simp_all add: filling_def alloc_inv_def)
  from filling_loop [OF this(1) _ this(2)] obtain s' F' G' where s':
    "prealloc_loop NBPRE ?s = Some s'" "filling s' F' G'" "pool s' = drop NBPRE (pool s)"
    "F' @ G' = rev (take NBPRE (pool s))" "length F' = NBPRE mod 100"
    by auto
  have "length F' = 0" unfolding s'(5) NBPRE_def by simp
  then have "F' = []" by simp
  then show ?thesis using s' by (auto simp: filling_def init_allocator_on_def prealloc_on_def)
qed

lemma prealloc_fills_witness:
  "\<exists>s'. init_allocator_on (demo_alloc NULL NULL 0 (\<lambda>_. zero_node)\<lparr>pool := map (\<lambda>i. of_nat (64 * Suc i)) [0..<NBPRE]\<rparr>) = Some s' \<and>
     pool s' = []"
proof -
  let ?ps = "map (\<lambda>i. of_nat (64 * Suc i)) [0..<NBPRE] :: ptr list"
  let ?s = "demo_alloc NULL NULL 0 (\<lambda>_. zero_node)\<lparr>pool := ?ps\<rparr>"
  have b: "64 * Suc i < 2 ^ 64" if "i < NBPRE" for i using that by (simp add: NBPRE_def)
  have inj: "(of_nat (64 * Suc i) :: ptr) = of_nat (64 * Suc j) \<longleftrightarrow> i = j" if "i < NBPRE" "j < NBPRE" for i j
    using of_nat_u64_inj [OF _ b [OF that(1)] b [OF that(2)]] by auto
  have "distinct ?ps" unfolding distinct_map using inj by (auto simp: inj_on_def simp del: of_nat_Suc of_nat_mult mult_Suc_right)
  moreover have "NULL \<notin> set ?ps"
  proof
    assume "NULL \<in> set ?ps"
    then obtain i where i: "i < NBPRE" "(of_nat (64 * Suc i) :: ptr) = of_nat 0" by auto
    then show False using of_nat_u64_inj [OF i(2) b [OF i(1)]] by simp
  qed
  ultimately show ?thesis using prealloc_fills [of ?s] by (auto simp: demo_alloc_def)
qed

end
