(* ===== verification/List_Writer.thy ===== *)
theory List_Writer imports Node_Memory begin

text \<open>
  \<open>list_writer.c\<close>: \<open>insert\<close> and \<open>delete\<close> on a bucket, the updater's half of the
  benchmark.  The file is linked with one reclamation scheme, which supplies
  \<open>init_new_node\<close> and \<open>free_node_later\<close>, and compiled with one lock, which
  supplies \<open>lock_wlock\<close> and \<open>lock_wunlock\<close>: they are arguments of the
  definitions, and the two locales below are what the file relies on.
\<close>

section \<open>The operations\<close>

text \<open>A lock operation rewrites the lock word of its bucket; \<open>None\<close> is a lock never obtained.\<close>

definition lock_op :: "(u64 \<Rightarrow> u64 option) \<Rightarrow> nat \<Rightarrow> 'w mem_scheme \<Rightarrow> 'w mem_scheme option" where
  "lock_op f b s = do {
     l \<leftarrow> f (locks s b);
     Some (s\<lparr>locks := (locks s)(b := l)\<rparr>)
   }"

text \<open>
  The loop of \<open>delete\<close>.  \<open>gclock\<close> is the macro \<open>GCLOCK\<close>: with it the lock is
  released, which bumps its counter, before the node is given away.
\<close>

partial_function (option) delete_loop ::
    "(u64 \<Rightarrow> u64 option) \<Rightarrow> bool \<Rightarrow> (ptr \<Rightarrow> 'w mem_scheme \<Rightarrow> 'w mem_scheme option) \<Rightarrow>
     int \<Rightarrow> nat \<Rightarrow> loc \<Rightarrow> ptr \<Rightarrow> 'w mem_scheme \<Rightarrow> (int \<times> 'w mem_scheme) option" where
  "delete_loop wunlock gclock free_node_later k b prev cur s =
     (if cur = NULL then do { s \<leftarrow> lock_op wunlock b s; Some (0, s) }
      else do {
        n \<leftarrow> rd s cur;
        if k \<le> key n then
          if key n \<noteq> k then do { s \<leftarrow> lock_op wunlock b s; Some (0, s) }
          else do {
            s \<leftarrow> set_loc prev (nxt n) s;
            if gclock then do {
              s \<leftarrow> lock_op wunlock b s;
              s \<leftarrow> free_node_later cur s;
              Some (1, s)
            } else do {
              s \<leftarrow> free_node_later cur s;
              s \<leftarrow> lock_op wunlock b s;
              Some (1, s)
            }
          }
        else do {
          cur' \<leftarrow> get_loc s (Next cur);
          delete_loop wunlock gclock free_node_later k b (Next cur) cur' s
        }
      })"

definition delete ::
    "(u64 \<Rightarrow> u64 option) \<Rightarrow> (u64 \<Rightarrow> u64 option) \<Rightarrow> bool \<Rightarrow>
     (ptr \<Rightarrow> 'w mem_scheme \<Rightarrow> 'w mem_scheme option) \<Rightarrow>
     int \<Rightarrow> nat \<Rightarrow> 'w mem_scheme \<Rightarrow> (int \<times> 'w mem_scheme) option" where
  "delete wlock wunlock gclock free_node_later k b s =
     (if heads s b = NULL then Some (0, s)
      else do {
        s \<leftarrow> lock_op wlock b s;
        delete_loop wunlock gclock free_node_later k b (Head b) (heads s b) s
      })"

text \<open>The loop of \<open>insert\<close>: whether the key is there, and the final \<open>prev\<close> and \<open>cur\<close>.\<close>

partial_function (option) insert_loop ::
    "int \<Rightarrow> loc \<Rightarrow> ptr \<Rightarrow> 'w mem_scheme \<Rightarrow> (bool \<times> loc \<times> ptr) option" where
  "insert_loop k prev cur s =
     (if cur = NULL then Some (False, prev, cur)
      else do {
        n \<leftarrow> rd s cur;
        if k \<le> key n then
          if key n = k then Some (True, prev, cur) else Some (False, prev, cur)
        else insert_loop k (Next cur) (nxt n) s
      })"

definition insert_w ::
    "(u64 \<Rightarrow> u64 option) \<Rightarrow> (u64 \<Rightarrow> u64 option) \<Rightarrow>
     ('w mem_scheme \<Rightarrow> (ptr \<times> 'w mem_scheme) option) \<Rightarrow>
     int \<Rightarrow> nat \<Rightarrow> 'w mem_scheme \<Rightarrow> (int \<times> 'w mem_scheme) option" where
  "insert_w wlock wunlock init_new_node k b s = do {
     s \<leftarrow> lock_op wlock b s;
     (dup, prev, cur) \<leftarrow> insert_loop k (Head b) (heads s b) s;
     if dup then do { s \<leftarrow> lock_op wunlock b s; Some (0, s) }
     else do {
       (new, s) \<leftarrow> init_new_node s;
       s \<leftarrow> wr new (\<lambda>n. n\<lparr>key := k\<rparr>) s;
       s \<leftarrow> wr new (\<lambda>n. n\<lparr>nxt := cur\<rparr>) s;
       s \<leftarrow> set_loc prev new s;
       s \<leftarrow> lock_op wunlock b s;
       Some (1, s)
     }
   }"

section \<open>What the file relies on\<close>

text \<open>
  The lock: from a free lock word, acquiring returns, and releasing what was
  acquired leaves it free again.
\<close>

locale bucket_lock =
  fixes wlock wunlock :: "u64 \<Rightarrow> u64 option"
    and lock_free :: "u64 \<Rightarrow> bool"
  assumes acquire_release:
    "lock_free l \<Longrightarrow> \<exists>l' l''. wlock l = Some l' \<and> wunlock l' = Some l'' \<and> lock_free l''"

text \<open>
  The reclamation scheme: \<open>rinv s A\<close> is its invariant when \<open>A\<close> are the nodes in
  use.  A new node is not in use; a node handed to \<open>free_node_later\<close> is no longer
  linked but its \<open>next\<close> still leads into the list.  Neither operation disturbs
  the list, and the list's own stores do not disturb the scheme.
\<close>

locale reclaimer =
  fixes init_new_node :: "'w mem_scheme \<Rightarrow> (ptr \<times> 'w mem_scheme) option"
    and free_node_later :: "ptr \<Rightarrow> 'w mem_scheme \<Rightarrow> 'w mem_scheme option"
    and rinv :: "'w mem_scheme \<Rightarrow> ptr set \<Rightarrow> bool"
  assumes init_new: "rinv s A \<Longrightarrow> init_new_node s = Some (n, s') \<Longrightarrow> keeps A s s' \<and>
      (n \<noteq> NULL \<longrightarrow> n \<notin> A \<and> rinv s' (insert n A))"
    and free_later: "rinv s (insert p A) \<Longrightarrow> p \<notin> A \<Longrightarrow> p \<noteq> NULL \<Longrightarrow>
      nxt (node s p) \<in> insert NULL A \<Longrightarrow>
      \<exists>s'. free_node_later p s = Some s' \<and> keeps A s s' \<and> rinv s' A"
    and rinv_heads: "rinv s A \<Longrightarrow> rinv (s\<lparr>heads := h\<rparr>) A"
    and rinv_locks: "rinv s A \<Longrightarrow> rinv (s\<lparr>locks := l\<rparr>) A"
    and rinv_nxt: "rinv s A \<Longrightarrow> rinv (s\<lparr>node := (node s)(p := (node s p)\<lparr>nxt := v\<rparr>)\<rparr>) A"
    and rinv_key: "rinv s A \<Longrightarrow> rinv (s\<lparr>node := (node s)(p := (node s p)\<lparr>key := k\<rparr>)\<rparr>) A"

section \<open>Facts about sorted buckets and the memory primitives\<close>

lemma filter_sorted_mid:
  assumes "sorted_wrt (<) (map f (xs @ y # ys))" and "f y = (k :: int)"
  shows "filter (\<lambda>p. f p \<noteq> k) (xs @ y # ys) = xs @ ys"
proof -
  have "\<forall>x\<in>set xs. f x \<noteq> k" "\<forall>x\<in>set ys. f x \<noteq> k"
    using assms by (auto simp: sorted_wrt_append)
  then show ?thesis using assms(2) by (simp add: filter_id_conv)
qed

lemma set_loc_effect:
  assumes "set_loc l v s = Some s'"
  shows "keyof s' = keyof s" "locks s' = locks s"
    "l \<noteq> Next q \<Longrightarrow> nxt (node s' q) = nxt (node s q)"
  using assms by (cases l; auto simp: wr_def split: if_splits)+

lemma buckets_locks [simp]: "buckets (s\<lparr>locks := l\<rparr>) L \<longleftrightarrow> buckets s L"
  by (simp add: buckets_def)

lemma buckets_unlinked:
  assumes "buckets s L" and "n \<notin> linked L"
  shows "buckets (s\<lparr>node := (node s)(n := x)\<rparr>) L"
  using assms by (intro buckets_keeps [OF assms(1)]) (auto simp: keeps_def)

lemma loc_of_neq:
  "y \<notin> set xs \<Longrightarrow> loc_of b xs \<noteq> Next y"
  by (auto simp: loc_of_def)

lemma keys_of_simps [simp]:
  "keys_of s [] = {}" "keys_of s (x # xs) = insert (keyof s x) (keys_of s xs)"
  "keys_of s (xs @ ys) = keys_of s xs \<union> keys_of s ys"
  by (auto simp: keys_of_def)

definition writer_ok ::
    "('w mem_scheme \<Rightarrow> ptr set \<Rightarrow> bool) \<Rightarrow> (u64 \<Rightarrow> bool) \<Rightarrow> 'w mem_scheme \<Rightarrow> (nat \<Rightarrow> ptr list) \<Rightarrow> bool"
where
  "writer_ok rinv lock_free s L \<longleftrightarrow>
     buckets s L \<and> rinv s (linked L) \<and> (\<forall>b. lock_free (locks s b))"

text \<open>The search of \<open>insert\<close> stops between the smaller keys and the others.\<close>

lemma insert_loop_spec:
  assumes "chain (nxts s) cur ys NULL" and "sorted_wrt (<) (map (keyof s) ys)"
  shows "\<exists>us vs. ys = us @ vs \<and> (\<forall>x\<in>set us. keyof s x < k) \<and> (\<forall>x\<in>set vs. k \<le> keyof s x) \<and>
    insert_loop k (loc_of b xs) cur s =
      Some (k \<in> keys_of s ys, loc_of b (xs @ us), if vs = [] then NULL else hd vs)"
  using assms
proof (induction ys arbitrary: xs cur)
  case Nil
  then have "cur = NULL" by simp
  then show ?case by (simp add: insert_loop.simps)
next
  case (Cons y ys)
  then have c: "cur = y" "y \<noteq> NULL" "chain (nxts s) (nxt (node s y)) ys NULL" by auto
  have gt: "\<forall>x\<in>set ys. keyof s y < keyof s x" using Cons.prems(2) by simp
  show ?case
  proof (cases "k \<le> keyof s y")
    case True
    then have "k \<notin> keys_of s ys" using gt by (auto simp: keys_of_def)
    then show ?thesis using True c gt
      by (intro exI [of _ "[]"] exI [of _ "y # ys"])
        (auto simp: insert_loop.simps [of k _ y] mem_simps)
  next
    case False
    obtain us vs where IH: "ys = us @ vs" "\<forall>x\<in>set us. keyof s x < k" "\<forall>x\<in>set vs. k \<le> keyof s x"
      "insert_loop k (loc_of b (xs @ [y])) (nxt (node s y)) s =
        Some (k \<in> keys_of s ys, loc_of b ((xs @ [y]) @ us), if vs = [] then NULL else hd vs)"
      using Cons.IH [OF c(3), of "xs @ [y]"] Cons.prems(2) by auto
    then show ?thesis using False c
      by (intro exI [of _ "y # us"] exI [of _ vs])
        (auto simp: insert_loop.simps [of k _ y] mem_simps)
  qed
qed

section \<open>The writer over any lock and any reclamation scheme\<close>

locale list_writer =
  reclaimer init_new_node free_node_later rinv + bucket_lock wlock wunlock lock_free
  for init_new_node :: "'w mem_scheme \<Rightarrow> (ptr \<times> 'w mem_scheme) option"
    and free_node_later and rinv and wlock wunlock and lock_free
begin

lemma rinv_set_loc: "set_loc l v s = Some s' \<Longrightarrow> rinv s A \<Longrightarrow> rinv s' A"
  by (cases l) (auto simp: wr_def rinv_heads rinv_nxt split: if_splits)

lemma lock_op_Some:
  "f (locks s b) = Some l \<Longrightarrow> lock_op f b s = Some (s\<lparr>locks := (locks s)(b := l)\<rparr>)"
  by (simp add: lock_op_def)

lemma delete_loop_found:
  assumes B: "buckets s L" and L: "L b = xs @ y # ys" and R: "rinv s (linked L)" and k: "keyof s y = k"
    and u: "wunlock (locks s b) = Some l''" "lock_free l''" and o: "\<forall>c. c \<noteq> b \<longrightarrow> lock_free (locks s c)"
  shows "\<exists>s'. delete_loop wunlock gclock free_node_later k b (loc_of b xs) y s = Some (1, s') \<and>
    writer_ok rinv lock_free s' (L(b := xs @ ys)) \<and> (\<forall>p\<in>linked L - {y}. keyof s' p = keyof s p)"
proof -
  let ?L = "L(b := xs @ ys)"
  have c: "chain (nxts s) (heads s b) (xs @ y # ys) NULL" using buckets_chain [OF B, of b] L by simp
  then have yx: "y \<notin> set xs" using chain_distinct by fastforce
  obtain s1 where s1: "set_loc (loc_of b xs) (nxt (node s y)) s = Some s1" "buckets s1 ?L"
    using unlink_node [OF B L] by blast
  note eff = set_loc_effect [OF s1(1)] and lk = linked_unlink [OF B L]
  have n: "nxt (node s1 y) \<in> insert NULL (linked ?L)"
    using lk(4) eff(3) [OF loc_of_neq [OF yx]] by simp
  have r1: "rinv s1 (insert y (linked ?L))" using rinv_set_loc [OF s1(1) R] lk(1) by simp
  let ?u = "\<lambda>s::'w mem_scheme. s\<lparr>locks := (locks s)(b := l'')\<rparr>"
  obtain s2 where s2: "free_node_later y s1 = Some s2" "keeps (linked ?L) s1 s2" "rinv s2 (linked ?L)"
    using free_later [OF r1 lk(2,3) n] by blast
  obtain s3 where s3: "free_node_later y (?u s1) = Some s3" "keeps (linked ?L) (?u s1) s3"
    "rinv s3 (linked ?L)"
    using free_later [OF rinv_locks [OF r1] lk(2,3)] n by fastforce
  define s' where "s' = (if gclock then s3 else ?u s2)"
  have l2: "locks s2 = locks s" using s2(2) eff(2) by (simp add: keeps_def)
  have step: "delete_loop wunlock gclock free_node_later k b (loc_of b xs) y s = Some (1, s')"
    using lk(3) k s1(1) u(1) eff(2) s2(1) s3(1) l2
    by (subst delete_loop.simps) (simp add: mem_simps lock_op_def s'_def)
  have "buckets s2 ?L" "buckets s3 ?L"
    using buckets_keeps [OF s1(2) s2(2)] buckets_keeps [OF _ s3(2)] s1(2) by simp_all
  moreover have "locks s3 = (locks s)(b := l'')" using s3(2) eff(2) by (simp add: keeps_def)
  ultimately have "writer_ok rinv lock_free s' ?L"
    using s2(3) s3(3) u(2) o l2 by (auto simp: writer_ok_def s'_def rinv_locks)
  moreover have "\<forall>p\<in>linked ?L. keyof s' p = keyof s p"
    using s2(2) s3(2) eff(1) by (auto simp: keeps_def s'_def fun_eq_iff)
  ultimately show ?thesis using step lk(1) by auto
qed

lemma unlocked_ok:
  assumes "buckets s L" "rinv s (linked L)" "lock_free l''" "\<forall>c. c \<noteq> b \<longrightarrow> lock_free (locks s c)"
  shows "writer_ok rinv lock_free (s\<lparr>locks := (locks s)(b := l'')\<rparr>) L"
  using assms by (auto simp: writer_ok_def rinv_locks)

lemma delete_loop_spec:
  assumes B: "buckets s L" and R: "rinv s (linked L)"
    and u: "wunlock (locks s b) = Some l''" "lock_free l''" and o: "\<forall>c. c \<noteq> b \<longrightarrow> lock_free (locks s c)"
    and "L b = xs @ ys" "\<forall>x\<in>set xs. keyof s x < k"
  shows "\<exists>s'. delete_loop wunlock gclock free_node_later k b (loc_of b xs)
      (if ys = [] then NULL else hd ys) s = Some (if k \<in> keys_of s (L b) then 1 else 0, s') \<and>
    writer_ok rinv lock_free s' (L(b := filter (\<lambda>p. keyof s p \<noteq> k) (L b))) \<and>
    (\<forall>p\<in>linked (L(b := filter (\<lambda>p. keyof s p \<noteq> k) (L b))). keyof s' p = keyof s p)"
  using assms(6,7)
proof (induction ys arbitrary: xs)
  case Nil
  then have "k \<notin> keys_of s (L b)" "filter (\<lambda>p. keyof s p \<noteq> k) (L b) = L b"
    by (auto simp: keys_of_def filter_id_conv)
  moreover have "delete_loop wunlock gclock free_node_later k b (loc_of b xs) NULL s =
      Some (0, s\<lparr>locks := (locks s)(b := l'')\<rparr>)"
    using u(1) by (subst delete_loop.simps) (simp add: lock_op_def)
  ultimately show ?case using unlocked_ok [OF B R u(2) o] by simp
next
  case (Cons y ys)
  have c: "chain (nxts s) (heads s b) (xs @ y # ys) NULL"
    using buckets_chain [OF B, of b] Cons.prems(1) by simp
  then have y: "y \<noteq> NULL" and cy: "chain (nxts s) (nxt (node s y)) ys NULL"
    by (auto simp: chain_append)
  note nx = chain_hd [OF cy]
  have so: "sorted_wrt (<) (map (keyof s) (xs @ y # ys))"
    using buckets_sorted [OF B, of b] Cons.prems(1) by simp
  consider "k < keyof s y" | "keyof s y = k" | "keyof s y < k" by linarith
  then show ?case
  proof cases
    case 1
    then have "\<forall>x\<in>set (L b). keyof s x \<noteq> k"
      using so Cons.prems by (auto simp: sorted_wrt_append)
    then have "k \<notin> keys_of s (L b)" "filter (\<lambda>p. keyof s p \<noteq> k) (L b) = L b"
      by (auto simp: keys_of_def filter_id_conv)
    moreover have "delete_loop wunlock gclock free_node_later k b (loc_of b xs) y s =
        Some (0, s\<lparr>locks := (locks s)(b := l'')\<rparr>)"
      using u(1) y 1 by (subst delete_loop.simps) (simp add: lock_op_def mem_simps)
    ultimately show ?thesis using unlocked_ok [OF B R u(2) o] by simp
  next
    case 2
    have f: "filter (\<lambda>p. keyof s p \<noteq> k) (L b) = xs @ ys"
      using filter_sorted_mid [OF so, of k] 2 Cons.prems(1) by simp
    have "y \<notin> linked (L(b := xs @ ys))"
      using chain_distinct [OF c] buckets_disjoint [OF B, of b] Cons.prems(1)
      by (auto simp: linked_upd)
    moreover have "linked (L(b := xs @ ys)) \<subseteq> linked L"
      using Cons.prems(1) by (auto simp: linked_upd linked_split [of L b])
    moreover have "k \<in> keys_of s (L b)" using 2 Cons.prems(1) by auto
    ultimately show ?thesis
      using delete_loop_found [OF B Cons.prems(1) R 2 u o, of gclock] unfolding f by fastforce
  next
    case 3
    have "delete_loop wunlock gclock free_node_later k b (loc_of b xs) y s =
        delete_loop wunlock gclock free_node_later k b (loc_of b (xs @ [y]))
          (if ys = [] then NULL else hd ys) s"
      using y 3 nx by (subst delete_loop.simps) (simp add: mem_simps)
    then show ?thesis using Cons.IH [of "xs @ [y]"] Cons.prems 3 by simp
  qed
qed

lemma delete_spec:
  assumes ok: "writer_ok rinv lock_free s L"
  shows "\<exists>s'. delete wlock wunlock gclock free_node_later k b s =
      Some (if k \<in> keys_of s (L b) then 1 else 0, s') \<and>
    writer_ok rinv lock_free s' (L(b := filter (\<lambda>p. keyof s p \<noteq> k) (L b))) \<and>
    (\<forall>p\<in>linked (L(b := filter (\<lambda>p. keyof s p \<noteq> k) (L b))). keyof s' p = keyof s p)"
proof -
  have B: "buckets s L" and R: "rinv s (linked L)" and o: "\<forall>b. lock_free (locks s b)"
    using ok by (auto simp: writer_ok_def)
  show ?thesis
  proof (cases "heads s b = NULL")
    case True
    then have "L b = []" using buckets_chain [OF B, of b] by simp
    then have "L(b := filter (\<lambda>p. keyof s p \<noteq> k) (L b)) = L" by auto
    then show ?thesis using True ok \<open>L b = []\<close> by (simp add: delete_def)
  next
    case False
    obtain l' l'' where l: "wlock (locks s b) = Some l'" "wunlock l' = Some l''" "lock_free l''"
      using acquire_release o by blast
    let ?s = "s\<lparr>locks := (locks s)(b := l')\<rparr>"
    have h: "heads s b = (if L b = [] then NULL else hd (L b))"
      by (rule chain_hd [OF buckets_chain [OF B]])
    have "delete wlock wunlock gclock free_node_later k b s =
        delete_loop wunlock gclock free_node_later k b (loc_of b [])
          (if L b = [] then NULL else hd (L b)) ?s"
      using False l(1) h by (simp add: delete_def lock_op_def)
    moreover have "buckets ?s L" "rinv ?s (linked L)" using B R by (simp_all add: rinv_locks)
    ultimately show ?thesis
      using delete_loop_spec [of ?s L b l'' "[]" "L b" k gclock] l o by (simp add: keys_of_def)
  qed
qed

lemma insert_present_spec:
  assumes ok: "writer_ok rinv lock_free s L" and k: "k \<in> keys_of s (L b)"
  shows "\<exists>l. insert_w wlock wunlock init_new_node k b s = Some (0, s\<lparr>locks := l\<rparr>) \<and>
    writer_ok rinv lock_free (s\<lparr>locks := l\<rparr>) L"
proof -
  have B: "buckets s L" and R: "rinv s (linked L)" and o: "\<forall>b. lock_free (locks s b)"
    using ok by (auto simp: writer_ok_def)
  obtain l' l'' where l: "wlock (locks s b) = Some l'" "wunlock l' = Some l''" "lock_free l''"
    using acquire_release o by blast
  let ?s = "s\<lparr>locks := (locks s)(b := l')\<rparr>"
  have "insert_loop k (Head b) (heads s b) ?s \<in> {Some (True, p, c) |p c. True}"
    using insert_loop_spec [of ?s "heads s b" "L b" k b "[]"] buckets_chain [OF B]
      buckets_sorted [OF B] k by (auto simp: keys_of_def)
  then have "insert_w wlock wunlock init_new_node k b s =
      Some (0, s\<lparr>locks := (locks s)(b := l'')\<rparr>)"
    using l by (auto simp: insert_w_def lock_op_def)
  then show ?thesis using unlocked_ok [OF B R l(3), of b] o by blast
qed

lemma insert_absent_spec:
  assumes ok: "writer_ok rinv lock_free s L" and k: "k \<notin> keys_of s (L b)"
  shows "\<exists>l. if \<exists>n s2. init_new_node (s\<lparr>locks := l\<rparr>) = Some (n, s2) \<and> n \<noteq> NULL
    then \<exists>n s' us vs. n \<notin> linked L \<and> insert_w wlock wunlock init_new_node k b s = Some (1, s') \<and>
       L b = us @ vs \<and> writer_ok rinv lock_free s' (L(b := us @ n # vs)) \<and> keyof s' n = k \<and>
       (\<forall>p\<in>linked L. keyof s' p = keyof s p)
    else insert_w wlock wunlock init_new_node k b s = None"
proof -
  have B: "buckets s L" and R: "rinv s (linked L)" and o: "\<forall>b. lock_free (locks s b)"
    using ok by (auto simp: writer_ok_def)
  obtain l' l'' where l: "wlock (locks s b) = Some l'" "wunlock l' = Some l''" "lock_free l''"
    using acquire_release o by blast
  let ?s = "s\<lparr>locks := (locks s)(b := l')\<rparr>"
  obtain us vs where uv: "L b = us @ vs" "\<forall>x\<in>set us. keyof s x < k" "\<forall>x\<in>set vs. k \<le> keyof s x"
    and loop: "insert_loop k (Head b) (heads s b) ?s =
      Some (False, loc_of b us, if vs = [] then NULL else hd vs)"
    using insert_loop_spec [of ?s "heads s b" "L b" k b "[]"] buckets_chain [OF B]
      buckets_sorted [OF B] k by (auto simp: keys_of_def)
  let ?c = "if vs = [] then NULL else hd vs"
  show ?thesis
  proof (cases "\<exists>n s2. init_new_node ?s = Some (n, s2) \<and> n \<noteq> NULL")
    case False
    then have "insert_w wlock wunlock init_new_node k b s = None"
      using l loop by (cases "init_new_node ?s") (auto simp: insert_w_def lock_op_def mem_simps)
    then show ?thesis using False by (intro exI [of _ "(locks s)(b := l')"]) (subst if_not_P)
  next
    case True
    then obtain n s2 where n: "init_new_node ?s = Some (n, s2)" "keeps (linked L) ?s s2"
      and nn: "n \<noteq> NULL" and nf: "n \<notin> linked L" "rinv s2 (insert n (linked L))"
      using init_new [OF rinv_locks [OF R]] by blast
    define s3 where "s3 = s2\<lparr>node := (node s2)(n := (node s2 n)\<lparr>key := k\<rparr>)\<rparr>"
    define s4 where "s4 = s3\<lparr>node := (node s3)(n := (node s3 n)\<lparr>nxt := ?c\<rparr>)\<rparr>"
    let ?L = "L(b := us @ n # vs)"
    have w: "wr n (\<lambda>m. m\<lparr>key := k\<rparr>) s2 = Some s3" "wr n (\<lambda>m. m\<lparr>nxt := ?c\<rparr>) s3 = Some s4"
      using nn by (simp_all add: mem_simps s3_def s4_def)
    have k4: "keyof s4 n = k" "nxt (node s4 n) = ?c" "locks s4 = locks s2"
      by (simp_all add: s3_def s4_def)
    have kx: "keyof s4 x = keyof s x" if "x \<in> linked L" for x
      using n(2) nf(1) that by (auto simp: keeps_def s3_def s4_def)
    have "buckets s2 L" using buckets_keeps [of ?s L s2] B n(2) by simp
    then have "buckets s4 L" unfolding s4_def s3_def by (intro buckets_unlinked nf)
    moreover have "\<forall>x\<in>set us. keyof s4 x < keyof s4 n" "\<forall>x\<in>set vs. keyof s4 n < keyof s4 x"
      using uv k kx k4 linkedI [of _ L b] by (fastforce simp: keys_of_def)+
    ultimately obtain s5 where s5: "set_loc (loc_of b us) n s4 = Some s5" "buckets s5 ?L"
      using link_node [OF _ uv(1) nf(1) nn] k4 by metis
    note eff = set_loc_effect [OF s5(1)]
    have "rinv s3 (insert n (linked L))" unfolding s3_def by (rule rinv_key [OF nf(2)])
    then have "rinv s4 (insert n (linked L))" unfolding s4_def by (rule rinv_nxt)
    then have r5: "rinv s5 (linked ?L)"
      unfolding linked_link [of L b, OF uv(1)] by (rule rinv_set_loc [OF s5(1)])
    have k5: "keyof s5 p = keyof s4 p" for p using fun_cong [OF eff(1), of p] by simp
    have l5: "locks s5 = (locks s)(b := l')" using eff(2) k4(3) n(2) by (simp add: keeps_def)
    have "insert_w wlock wunlock init_new_node k b s = Some (1, s5\<lparr>locks := (locks s5)(b := l'')\<rparr>)"
      using l n(1) loop w s5(1) l5 by (simp add: insert_w_def lock_op_def)
    moreover have "writer_ok rinv lock_free (s5\<lparr>locks := (locks s5)(b := l'')\<rparr>) ?L"
      by (rule unlocked_ok [OF s5(2) r5 l(3)]) (use l5 o in simp)
    ultimately have "\<exists>n s' us vs. n \<notin> linked L \<and>
       insert_w wlock wunlock init_new_node k b s = Some (1, s') \<and>
       L b = us @ vs \<and> writer_ok rinv lock_free s' (L(b := us @ n # vs)) \<and> keyof s' n = k \<and>
       (\<forall>p\<in>linked L. keyof s' p = keyof s p)"
      using uv(1) k4(1) kx k5 nf(1)
      by (rule_tac exI [of _ n], rule_tac exI [of _ "s5\<lparr>locks := (locks s5)(b := l'')\<rparr>"],
          rule_tac exI [of _ us], rule_tac exI [of _ vs]) simp
    then show ?thesis using True by (intro exI [of _ "(locks s)(b := l')"]) (subst if_P)
  qed
qed

text \<open>The same in terms of the sets the buckets stand for.\<close>

lemma delete_set:
  assumes ok: "writer_ok rinv lock_free s L"
  shows "\<exists>s' L'. delete wlock wunlock gclock free_node_later k b s =
      Some (if k \<in> bucket_keys s b then 1 else 0, s') \<and> writer_ok rinv lock_free s' L' \<and>
    bucket_keys s' = (bucket_keys s)(b := bucket_keys s b - {k})"
proof -
  let ?L = "L(b := filter (\<lambda>p. keyof s p \<noteq> k) (L b))"
  obtain s' where s': "delete wlock wunlock gclock free_node_later k b s =
      Some (if k \<in> keys_of s (L b) then 1 else 0, s')" "writer_ok rinv lock_free s' ?L"
    "\<forall>p\<in>linked ?L. keyof s' p = keyof s p"
    using delete_spec [OF ok] by blast
  have B: "buckets s L" "buckets s' ?L" using ok s'(2) by (auto simp: writer_ok_def)
  have k: "keyof s' p = keyof s p" if "p \<in> set (?L c)" for p c
    using s'(3) linkedI [of p ?L c] that by blast
  have "keys_of s' (?L c) = keys_of s (?L c)" for c
    unfolding keys_of_def by (rule image_cong) (use k in auto)
  then have "bucket_keys s' c = ((bucket_keys s)(b := bucket_keys s b - {k})) c" for c
    unfolding bucket_keys_eq [OF B(2)] by (auto simp: bucket_keys_eq [OF B(1)] keys_of_def)
  then show ?thesis using s' by (auto simp: bucket_keys_eq [OF B(1)])
qed

lemma insert_present_set:
  assumes ok: "writer_ok rinv lock_free s L" and k: "k \<in> bucket_keys s b"
  shows "\<exists>s'. insert_w wlock wunlock init_new_node k b s = Some (0, s') \<and>
    writer_ok rinv lock_free s' L \<and> bucket_keys s' = bucket_keys s"
proof -
  have B: "buckets s L" using ok by (simp add: writer_ok_def)
  then have "k \<in> keys_of s (L b)" using k by (simp add: bucket_keys_eq)
  then show ?thesis using insert_present_spec [OF ok] by (fastforce simp: bucket_keys_def keys_of_def)
qed

lemma insert_absent_set:
  assumes ok: "writer_ok rinv lock_free s L" and k: "k \<notin> bucket_keys s b"
  shows "\<exists>l. if \<exists>n s2. init_new_node (s\<lparr>locks := l\<rparr>) = Some (n, s2) \<and> n \<noteq> NULL
    then \<exists>s' L'. insert_w wlock wunlock init_new_node k b s = Some (1, s') \<and>
       writer_ok rinv lock_free s' L' \<and>
       bucket_keys s' = (bucket_keys s)(b := insert k (bucket_keys s b))
    else insert_w wlock wunlock init_new_node k b s = None"
proof -
  have B: "buckets s L" using ok by (simp add: writer_ok_def)
  then have k': "k \<notin> keys_of s (L b)" using k by (simp add: bucket_keys_eq)
  obtain l where r: "if \<exists>n s2. init_new_node (s\<lparr>locks := l\<rparr>) = Some (n, s2) \<and> n \<noteq> NULL
    then \<exists>n s' us vs. n \<notin> linked L \<and> insert_w wlock wunlock init_new_node k b s = Some (1, s') \<and>
       L b = us @ vs \<and> writer_ok rinv lock_free s' (L(b := us @ n # vs)) \<and> keyof s' n = k \<and>
       (\<forall>p\<in>linked L. keyof s' p = keyof s p)
    else insert_w wlock wunlock init_new_node k b s = None"
    using insert_absent_spec [OF ok k'] by blast
  show ?thesis
  proof (cases "\<exists>n s2. init_new_node (s\<lparr>locks := l\<rparr>) = Some (n, s2) \<and> n \<noteq> NULL")
    case False
    then show ?thesis using r by (intro exI [of _ l]) (simp only: if_False)
  next
    case True
    then obtain n s' us vs where s': "insert_w wlock wunlock init_new_node k b s = Some (1, s')"
      "L b = us @ vs" "writer_ok rinv lock_free s' (L(b := us @ n # vs))" "keyof s' n = k"
      "\<forall>p\<in>linked L. keyof s' p = keyof s p"
      using r by (simp only: if_True) blast
    have B': "buckets s' (L(b := us @ n # vs))" using s'(3) by (simp add: writer_ok_def)
    have e: "keys_of s' xs = keys_of s xs" if "set xs \<subseteq> linked L" for xs
      using s'(5) that unfolding keys_of_def by (intro image_cong) auto
    have sub: "set (L c) \<subseteq> linked L" "set us \<subseteq> linked L" "set vs \<subseteq> linked L" for c
      using s'(2) linked_split [of L b] by (auto simp: linkedI)
    have "bucket_keys s' c = ((bucket_keys s)(b := insert k (bucket_keys s b))) c" for c
      unfolding bucket_keys_eq [OF B'] using s'(2,4) sub by (simp add: bucket_keys_eq [OF B] e)
    then have "bucket_keys s' = (bucket_keys s)(b := insert k (bucket_keys s b))" by blast
    then show ?thesis using True s'(1,3) by (intro exI [of _ l]) (subst if_P, auto)
  qed
qed

end

end
