(* ===== verification/Locks.thy ===== *)
theory Locks imports Atomics List_Writer begin

text \<open>
  The bucket locks of \<open>lock.h\<close>, one group of definitions per build macro.  An
  operation maps the lock word to the new lock word; \<open>None\<close> is a call that does
  not return (a spin on a word nobody else changes) or aborts.  A reader's
  \<open>lock_rlock\<close> returns the value kept in \<open>__loc_val\<close>; its \<open>lock_runlock\<close> is the
  test whether that value is still current (\<open>False\<close> is the jump to
  \<open>search_retry\<close>).  Each writer lock is an instance of the interface
  \<open>bucket_lock\<close> the list code relies on.
\<close>

section \<open>Definitions\<close>

text \<open>\<open>LSPIN\<close>: POSIX spin locks, free as 0 and held as 1.\<close>

definition spin_init :: u64 where "spin_init = 0"

definition spin_lock :: "u64 \<Rightarrow> u64 option" where
  "spin_lock l = (if l = 0 then Some 1 else None)"

definition spin_trylock :: "u64 \<Rightarrow> bool \<times> u64" where
  "spin_trylock l = (l = 0, if l = 0 then 1 else l)"

definition spin_unlock :: "u64 \<Rightarrow> u64 option" where
  "spin_unlock l = Some 0"

text \<open>
  \<open>RWLOCK\<close>: POSIX read-write locks.  The word counts the readers inside; all bits
  set is a writer.  The same \<open>pthread_rwlock_unlock\<close> releases either.
\<close>

definition rw_init :: u64 where "rw_init = 0"

definition rw_rdlock :: "u64 \<Rightarrow> u64 option" where
  "rw_rdlock l = (if l = - 1 then None else Some (l + 1))"

definition rw_wrlock :: "u64 \<Rightarrow> u64 option" where
  "rw_wrlock l = (if l = 0 then Some (- 1) else None)"

definition rw_unlock :: "u64 \<Rightarrow> u64 option" where
  "rw_unlock l = (if l = 0 then None else if l = - 1 then Some 0 else Some (l - 1))"

text \<open>\<open>LOCK_CLASSIC\<close>: test-and-set; unlocking a word that is not 1 aborts.\<close>

definition classic_init :: u64 where "classic_init = 0"

partial_function (option) lock_lock :: "u64 \<Rightarrow> u64 option" where
  "lock_lock l = (case atomic_xchg4 l 1 of (old, l') \<Rightarrow> if old \<noteq> 0 then lock_lock l' else Some l')"

definition lock_unlock :: "u64 \<Rightarrow> u64 option" where
  "lock_unlock l = (if l \<noteq> 1 then None else Some 0)"

text \<open>\<open>SEQLOCK\<close>: the counter is odd while a writer is inside.\<close>

definition seq_init :: u64 where "seq_init = 0"

definition seq_rlock :: "u64 \<Rightarrow> u64 option" where
  "seq_rlock l = (if and l 1 \<noteq> 0 then None else Some l)"

definition seq_runlock :: "u64 \<Rightarrow> u64 \<Rightarrow> bool" where
  "seq_runlock loc_val l = (loc_val = l)"

definition seq_wlock :: "u64 \<Rightarrow> u64 option" where
  "seq_wlock l = Some (l + 1)"

definition seq_wunlock :: "u64 \<Rightarrow> u64 option" where
  "seq_wunlock l = Some (l + 1)"

text \<open>\<open>SEQLOCK\<close> without \<open>ONE_WRITER\<close>: wait for an even counter, then claim it.\<close>

partial_function (option) seqm_wlock :: "u64 \<Rightarrow> u64 option" where
  "seqm_wlock l =
     (let old = l in
      if and old 1 \<noteq> 0 then seqm_wlock l
      else case CAS l old (old + 1) of (succ, l') \<Rightarrow>
        if \<not> succ then seqm_wlock l'
        else if and l' 1 \<noteq> 0 then Some l' else None)"

definition seqm_wunlock :: "u64 \<Rightarrow> u64 option" where
  "seqm_wunlock l = Some (snd (atomic_xadd4 l 1))"

text \<open>\<open>GCLOCK\<close> with one writer: readers sample, the writer bumps when it is done.\<close>

definition gc_init :: u64 where "gc_init = 0"

definition gc_rlock :: "u64 \<Rightarrow> u64 option" where
  "gc_rlock l = Some l"

definition gc_runlock :: "u64 \<Rightarrow> u64 \<Rightarrow> bool" where
  "gc_runlock loc_val l = (loc_val = l)"

definition gc_wlock :: "u64 \<Rightarrow> u64 option" where
  "gc_wlock l = Some l"

definition gc_wunlock :: "u64 \<Rightarrow> u64 option" where
  "gc_wunlock l = Some (l + 1)"

text \<open>\<open>GCLOCK\<close> with many writers: bit 0 is the lock, the bits above it the counter.\<close>

definition gcm_rlock :: "u64 \<Rightarrow> u64 option" where
  "gcm_rlock l = Some (drop_bit 1 l)"

definition gcm_runlock :: "u64 \<Rightarrow> u64 \<Rightarrow> bool" where
  "gcm_runlock loc_val l = (loc_val = drop_bit 1 l)"

partial_function (option) gcm_wlock :: "u64 \<Rightarrow> u64 option" where
  "gcm_wlock l =
     (let old = l in
      if and old 1 \<noteq> 0 then gcm_wlock l
      else case CAS l old (or old 1) of (succ, l') \<Rightarrow>
        if \<not> succ then gcm_wlock l'
        else if and l' 1 \<noteq> 0 then Some l' else None)"

definition gcm_wunlock :: "u64 \<Rightarrow> u64 option" where
  "gcm_wunlock l = Some (snd (atomic_xadd4 l 1))"

text \<open>The default build with \<open>ONE_WRITER\<close>: no lock word, only a barrier on release.\<close>

definition none_wlock :: "u64 \<Rightarrow> u64 option" where
  "none_wlock l = Some l"

definition none_wunlock :: "u64 \<Rightarrow> u64 option" where
  "none_wunlock l = Some l"

section \<open>Arithmetic of the lock words\<close>

lemma and_one_even: "and (l :: u64) 1 = 0 \<longleftrightarrow> even l"
  by (simp add: and_one_eq even_iff_mod_2_eq_zero)

lemma even_or_one: "even (l :: u64) \<Longrightarrow> or l 1 = l + 1"
  by (simp add: or_one_eq)

lemma seqm_wlock_eq: "even l \<Longrightarrow> seqm_wlock l = Some (l + 1)"
  by (subst seqm_wlock.simps) (simp add: and_one_even mem_simps)

lemma gcm_wlock_eq: "even l \<Longrightarrow> gcm_wlock l = Some (l + 1)"
  by (subst gcm_wlock.simps) (simp add: and_one_even mem_simps even_or_one)

lemma lock_lock_eq: "lock_lock 0 = Some 1"
  by (subst lock_lock.simps) (simp add: atomic_xchg4_def)

section \<open>The writer locks as instances of the interface\<close>

interpretation spin: bucket_lock spin_lock spin_unlock "\<lambda>l. l = 0"
  by unfold_locales (simp add: spin_lock_def spin_unlock_def)

interpretation rw: bucket_lock rw_wrlock rw_unlock "\<lambda>l. l = 0"
  by unfold_locales (simp add: rw_wrlock_def rw_unlock_def)

interpretation classic: bucket_lock lock_lock lock_unlock "\<lambda>l. l = 0"
  by unfold_locales (simp add: lock_lock_eq lock_unlock_def)

interpretation seq1: bucket_lock seq_wlock seq_wunlock even
  by unfold_locales (simp add: seq_wlock_def seq_wunlock_def)

interpretation seqm: bucket_lock seqm_wlock seqm_wunlock even
  by unfold_locales (simp add: seqm_wlock_eq seqm_wunlock_def atomic_xadd4_def)

interpretation gc1: bucket_lock gc_wlock gc_wunlock "\<lambda>_. True"
  by unfold_locales (simp add: gc_wlock_def gc_wunlock_def)

interpretation gcm: bucket_lock gcm_wlock gcm_wunlock even
  by unfold_locales (simp add: gcm_wlock_eq gcm_wunlock_def atomic_xadd4_def)

interpretation none: bucket_lock none_wlock none_wunlock "\<lambda>_. True"
  by unfold_locales (simp add: none_wlock_def none_wunlock_def)

end
