(* ===== verification/Lock_Properties.thy ===== *)
theory Lock_Properties imports Locks begin

text \<open>
  What the locks of \<open>lock.h\<close> guarantee: when an acquisition returns, what the
  validation of an optimistic reader detects, and mutual exclusion of the
  compare-and-swap locks under any interleaving.
\<close>

section \<open>When an acquisition returns\<close>

lemma seqm_wlock_even: "seqm_wlock l = Some l' \<Longrightarrow> even l \<and> l' = l + 1"
proof (induction l l' rule: seqm_wlock.raw_induct [rotated, consumes 1, case_names 1])
  case (1 f l l')
  then show ?case
    by (auto simp: Let_def and_one_even mem_simps split: if_splits)
qed

lemma gcm_wlock_even: "gcm_wlock l = Some l' \<Longrightarrow> even l \<and> l' = or l 1"
proof (induction l l' rule: gcm_wlock.raw_induct [rotated, consumes 1, case_names 1])
  case (1 f l l')
  then show ?case
    by (auto simp: Let_def and_one_even mem_simps split: if_splits)
qed

lemma lock_lock_free: "lock_lock l = Some l' \<Longrightarrow> l' = 1"
proof (induction l l' rule: lock_lock.raw_induct [rotated, consumes 1, case_names 1])
  case (1 f l l')
  then show ?case by (auto simp: atomic_xchg4_def split: if_splits)
qed

lemma lock_lock_was_free: "lock_lock l = Some l' \<Longrightarrow> l = 0"
proof (induction l l' rule: lock_lock.raw_induct [rotated, consumes 1, case_names 1])
  case (1 f l l')
  then show ?case using 1(1) [of 1] by (auto simp: atomic_xchg4_def split: if_splits)
qed

text \<open>
  (the spinning loops): on a word nobody else changes, each acquisition
  returns exactly when the lock is free, with the word marked as held.
\<close>

theorem acquisition_returns:
  "seqm_wlock l = (if even l then Some (l + 1) else None) \<and>
   gcm_wlock l = (if even l then Some (l + 1) else None) \<and>
   lock_lock l = (if l = 0 then Some 1 else None)"
proof (intro conjI)
  have "seqm_wlock l = None" if "odd l" using that seqm_wlock_even [of l] by (cases "seqm_wlock l") auto
  then show "seqm_wlock l = (if even l then Some (l + 1) else None)" by (simp add: seqm_wlock_eq)
  have "gcm_wlock l = None" if "odd l" using that gcm_wlock_even [of l] by (cases "gcm_wlock l") auto
  then show "gcm_wlock l = (if even l then Some (l + 1) else None)" by (simp add: gcm_wlock_eq)
  have "lock_lock l = None" if "l \<noteq> 0" using that lock_lock_was_free [of l] by (cases "lock_lock l") auto
  then show "lock_lock l = (if l = 0 then Some 1 else None)" by (simp add: lock_lock_eq)
qed

section \<open>Validation of optimistic readers\<close>

text \<open>Complete critical sections of writers, one after another.\<close>

primrec sections :: "(u64 \<Rightarrow> u64 option) \<Rightarrow> (u64 \<Rightarrow> u64 option) \<Rightarrow> nat \<Rightarrow> u64 \<Rightarrow> u64 option" where
  "sections wlock wunlock 0 l = Some l"
| "sections wlock wunlock (Suc n) l = do {
     l \<leftarrow> wlock l;
     l \<leftarrow> wunlock l;
     sections wlock wunlock n l
   }"

text \<open>
  A lock that readers validate against counts the sections: \<open>sec\<close> is the count
  the word stands for, modulo \<open>period\<close>.
\<close>

locale counting_lock = bucket_lock wlock wunlock lock_free
  for wlock wunlock :: "u64 \<Rightarrow> u64 option" and lock_free :: "u64 \<Rightarrow> bool" +
  fixes rlock :: "u64 \<Rightarrow> u64 option"
    and runlock :: "u64 \<Rightarrow> u64 \<Rightarrow> bool"
    and sec :: "u64 \<Rightarrow> nat"
    and period :: nat
  assumes section_counts: "lock_free l \<Longrightarrow> wlock l = Some l' \<Longrightarrow> wunlock l' = Some l'' \<Longrightarrow>
      sec l'' = (sec l + 1) mod period"
    and rlock_returns: "lock_free l \<Longrightarrow> \<exists>v. rlock l = Some v"
    and validates: "lock_free l \<Longrightarrow> lock_free l' \<Longrightarrow> rlock l = Some v \<Longrightarrow> runlock v l' \<longleftrightarrow> sec l' = sec l"
    and sec_bound: "sec l < period"
begin

lemma sections_sec:
  "lock_free l \<Longrightarrow> \<exists>l'. sections wlock wunlock n l = Some l' \<and> lock_free l' \<and> sec l' = (sec l + n) mod period"
proof (induction n arbitrary: l)
  case 0
  then show ?case by (simp add: sec_bound)
next
  case (Suc n)
  obtain l1 l2 where l: "wlock l = Some l1" "wunlock l1 = Some l2" "lock_free l2"
    using acquire_release [OF Suc.prems] by blast
  obtain l' where "sections wlock wunlock n l2 = Some l'" "lock_free l'" "sec l' = (sec l2 + n) mod period"
    using Suc.IH [OF l(3)] by blast
  then show ?case using l section_counts [OF Suc.prems l(1,2)] by (simp add: mod_simps)
qed

lemma validation:
  assumes "lock_free l"
  shows "\<exists>v l'. rlock l = Some v \<and> sections wlock wunlock n l = Some l' \<and>
    (runlock v l' \<longleftrightarrow> n mod period = 0)"
proof -
  obtain l' where l: "sections wlock wunlock n l = Some l'" "lock_free l'" "sec l' = (sec l + n) mod period"
    using sections_sec [OF assms] by blast
  obtain v where v: "rlock l = Some v" using rlock_returns [OF assms] by blast
  have "(sec l + n) mod period = sec l \<longleftrightarrow> (sec l + n) mod period = sec l mod period"
    using sec_bound [of l] by simp
  also have "\<dots> \<longleftrightarrow> n mod period = 0"
    by (simp add: mod_eq_dvd_iff_nat dvd_eq_mod_eq_0)
  finally show ?thesis using l v validates [OF assms l(2) v] by simp
qed

end

lemma unat_plus_1: "unat (l + 1 :: u64) = (unat l + 1) mod 2 ^ 64"
  by (simp add: unat_word_ariths)

lemma unat_even: "even (l :: u64) \<longleftrightarrow> even (unat l)"
  by transfer (simp add: even_nat_iff)

lemma unat_bound: "unat (l :: u64) < 2 ^ 64"
  using unsigned_less [of l, where 'a = nat] by simp

lemma unat_plus_2:
  assumes "even (l :: u64)"
  shows "unat (l + 2) div 2 = (unat l div 2 + 1) mod 2 ^ 63"
proof -
  obtain k where k: "unat l = 2 * k" using assms by (auto simp: unat_even elim: evenE)
  have "unat (l + 2) = (2 * k + 2) mod 2 ^ 64" by (simp add: unat_word_ariths k)
  also have "\<dots> = 2 * ((k + 1) mod 2 ^ 63)" by (simp add: mult_mod_right)
  finally show ?thesis using k by simp
qed

lemma unat_half_eq: "even (l :: u64) \<Longrightarrow> even l' \<Longrightarrow> unat l div 2 = unat l' div 2 \<longleftrightarrow> l = l'"
  by (metis dvd_mult_div_cancel unat_even word_unat_eq_iff)

lemma unat_half: "unat (drop_bit 1 (l :: u64)) = unat l div 2"
  unfolding unat_drop_bit_eq by (simp add: drop_bit_eq_div)

lemmas half_simps = unat_plus_2 unat_half_eq [symmetric] less_mult_imp_div_less [of _ "2 ^ 63" 2]

lemma half_bound: "unat (l :: u64) div 2 < 2 ^ 63"
  using unat_bound [of l] by simp

interpretation seq1: counting_lock seq_wlock seq_wunlock even seq_rlock seq_runlock "\<lambda>l. unat l div 2" "2 ^ 63"
proof unfold_locales
  show "seq_wlock l = Some l' \<Longrightarrow> seq_wunlock l' = Some l'' \<Longrightarrow> even l \<Longrightarrow>
      unat l'' div 2 = (unat l div 2 + 1) mod 2 ^ 63" for l l' l''
    using unat_plus_2 [of l] by (auto simp: seq_wlock_def seq_wunlock_def add.assoc)
qed (use half_bound in \<open>auto simp: seq_rlock_def seq_runlock_def and_one_even unat_half_eq split: if_splits\<close>)

interpretation seqm: counting_lock seqm_wlock seqm_wunlock even seq_rlock seq_runlock "\<lambda>l. unat l div 2" "2 ^ 63"
proof unfold_locales
  show "seqm_wlock l = Some l' \<Longrightarrow> seqm_wunlock l' = Some l'' \<Longrightarrow> even l \<Longrightarrow>
      unat l'' div 2 = (unat l div 2 + 1) mod 2 ^ 63" for l l' l''
    using unat_plus_2 [of l] by (auto simp: seqm_wlock_eq seqm_wunlock_def atomic_xadd4_def add.assoc)
qed (use half_bound in \<open>auto simp: seq_rlock_def seq_runlock_def and_one_even unat_half_eq split: if_splits\<close>)

interpretation gc1: counting_lock gc_wlock gc_wunlock "\<lambda>_. True" gc_rlock gc_runlock unat "2 ^ 64"
  by unfold_locales (use unat_bound in \<open>auto simp: gc_wlock_def gc_wunlock_def gc_rlock_def
      gc_runlock_def unat_plus_1 word_unat_eq_iff\<close>)

interpretation gcm: counting_lock gcm_wlock gcm_wunlock even gcm_rlock gcm_runlock "\<lambda>l. unat l div 2" "2 ^ 63"
proof unfold_locales
  show "gcm_wlock l = Some l' \<Longrightarrow> gcm_wunlock l' = Some l'' \<Longrightarrow> even l \<Longrightarrow>
      unat l'' div 2 = (unat l div 2 + 1) mod 2 ^ 63" for l l' l''
    using unat_plus_2 [of l] by (auto simp: gcm_wlock_eq gcm_wunlock_def atomic_xadd4_def add.assoc)
next
  show "gcm_rlock l = Some v \<Longrightarrow> gcm_runlock v l' \<longleftrightarrow> unat l' div 2 = unat l div 2" for l l' v
    by (auto simp: gcm_rlock_def gcm_runlock_def word_unat_eq_iff unat_half simp del: One_nat_def)
qed (use half_bound in \<open>simp_all add: gcm_rlock_def\<close>)

text \<open>
  (validation detects writers): a reader that found a free lock and validates
  it after \<open>n\<close> complete critical sections succeeds exactly when no section ran, up
  to the wrap of the counter after 2^63 sections (2^64 with \<open>GCLOCK\<close> and one
  writer).
\<close>

theorem validation_detects_sections:
  assumes "even l"
  shows
    "(\<exists>v l'. seq_rlock l = Some v \<and> sections seq_wlock seq_wunlock n l = Some l' \<and>
       seq_runlock v l' = (n mod 2 ^ 63 = 0)) \<and>
     (\<exists>v l'. seq_rlock l = Some v \<and> sections seqm_wlock seqm_wunlock n l = Some l' \<and>
       seq_runlock v l' = (n mod 2 ^ 63 = 0)) \<and>
     (\<exists>v l'. gc_rlock l = Some v \<and> sections gc_wlock gc_wunlock n l = Some l' \<and>
       gc_runlock v l' = (n mod 2 ^ 64 = 0)) \<and>
     (\<exists>v l'. gcm_rlock l = Some v \<and> sections gcm_wlock gcm_wunlock n l = Some l' \<and>
       gcm_runlock v l' = (n mod 2 ^ 63 = 0))"
  by (intro conjI seq1.validation seqm.validation gc1.validation gcm.validation assms TrueI)

section \<open>Writers that compete\<close>

text \<open>
  The \<open>lock_wlock\<close> of the builds with several writers, one access to the word at a
  time: read it, wait while it is odd, claim it by compare-and-swap, and release
  it by adding one.  \<open>claim\<close> is what the swap writes: the old value plus one
  (\<open>SEQLOCK\<close>) or with bit 0 set (\<open>GCLOCK\<close>).  \<open>completed\<close> is a ghost counter.
\<close>

datatype lpc = L_out | L_read | L_cas u64 | L_in

record lock_sys =
  word :: u64
  pcs :: "nat \<Rightarrow> lpc"
  completed :: nat

inductive lock_step :: "(u64 \<Rightarrow> u64) \<Rightarrow> lock_sys \<Rightarrow> lock_sys \<Rightarrow> bool" for claim where
  enter: "pcs c i = L_out \<Longrightarrow> lock_step claim c (c\<lparr>pcs := (pcs c)(i := L_read)\<rparr>)"
| sample: "pcs c i = L_read \<Longrightarrow>
    lock_step claim c (c\<lparr>pcs := (pcs c)(i := if and (word c) 1 \<noteq> 0 then L_read else L_cas (word c))\<rparr>)"
| swap: "pcs c i = L_cas old \<Longrightarrow> CAS (word c) old (claim old) = (ok, w) \<Longrightarrow>
    lock_step claim c (c\<lparr>word := w, pcs := (pcs c)(i := if ok then L_in else L_read)\<rparr>)"
| leave: "pcs c i = L_in \<Longrightarrow>
    lock_step claim c (c\<lparr>word := snd (atomic_xadd4 (word c) 1), pcs := (pcs c)(i := L_out),
      completed := completed c + 1\<rparr>)"

definition lock_start :: lock_sys where
  "lock_start = \<lparr>word = 0, pcs = (\<lambda>_. L_out), completed = 0\<rparr>"

inductive lock_reach :: "(u64 \<Rightarrow> u64) \<Rightarrow> lock_sys \<Rightarrow> lock_sys \<Rightarrow> bool" for claim where
  refl: "lock_reach claim c c"
| step: "lock_reach claim c d \<Longrightarrow> lock_step claim d e \<Longrightarrow> lock_reach claim c e"

definition busy :: "lock_sys \<Rightarrow> bool" where
  "busy c \<longleftrightarrow> (\<exists>i. pcs c i = L_in)"

definition lock_inv :: "lock_sys \<Rightarrow> bool" where
  "lock_inv c \<longleftrightarrow> (\<forall>i v. pcs c i = L_cas v \<longrightarrow> even v) \<and>
     (\<forall>i j. pcs c i = L_in \<longrightarrow> pcs c j = L_in \<longrightarrow> i = j) \<and>
     word c = of_nat (2 * completed c + (if busy c then 1 else 0))"

lemma busy_word: "lock_inv c \<Longrightarrow> busy c \<longleftrightarrow> odd (word c)"
  by (simp add: lock_inv_def)

lemma not_busy_upd:
  assumes "pcs c i \<noteq> L_in" and "pcs d = (pcs c)(i := x)" and "x \<noteq> L_in"
  shows "busy d \<longleftrightarrow> busy c"
  using assms unfolding busy_def by (metis fun_upd_apply)

lemma lock_inv_step:
  assumes "lock_step claim c d" and "lock_inv c" and claim: "\<And>v. even v \<Longrightarrow> claim v = v + 1"
  shows "lock_inv d"
  using assms(1,2)
proof (cases rule: lock_step.cases)
  case (enter i)
  then have "busy d \<longleftrightarrow> busy c" by (intro not_busy_upd [where i = i]) auto
  then show ?thesis using enter assms(2) by (simp add: lock_inv_def)
next
  case (sample i)
  then have "busy d \<longleftrightarrow> busy c" by (intro not_busy_upd [where i = i]) (auto split: if_splits)
  then show ?thesis using sample assms(2) by (simp add: lock_inv_def and_one_even)
next
  case (swap i old ok w)
  have old: "even old" using swap assms(2) by (simp add: lock_inv_def)
  show ?thesis
  proof (cases "word c = old")
    case True
    then have "\<not> busy c" using old busy_word [OF assms(2)] by simp
    moreover have "ok" "w = old + 1" using swap(3) True claim [OF old] by (simp_all add: mem_simps)
    moreover from this have "busy d" using swap(1) by (auto simp: busy_def)
    ultimately show ?thesis using swap True assms(2) by (auto simp: lock_inv_def busy_def)
  next
    case False
    then have "ok = False" "w = word c" using swap(3) by (simp_all add: mem_simps)
    moreover from this have "busy d \<longleftrightarrow> busy c"
      using swap(1,2) by (intro not_busy_upd [where i = i]) auto
    ultimately show ?thesis using swap assms(2) by (simp add: lock_inv_def)
  qed
next
  case (leave i)
  then have "busy c" by (auto simp: busy_def)
  moreover have "\<not> busy d" using leave assms(2) by (auto simp: busy_def lock_inv_def)
  ultimately show ?thesis using leave assms(2) by (auto simp: lock_inv_def atomic_xadd4_def)
qed

lemma lock_inv_reach:
  assumes "lock_reach claim c d" and "lock_inv c" and "\<And>v. even v \<Longrightarrow> claim v = v + 1"
  shows "lock_inv d"
  using assms(1,2) by induction (use lock_inv_step assms(3) in blast)+

lemma lock_start_inv: "lock_inv lock_start"
  by (simp add: lock_start_def lock_inv_def busy_def)

definition seq_claim :: "u64 \<Rightarrow> u64" where "seq_claim old = old + 1"

definition gc_claim :: "u64 \<Rightarrow> u64" where "gc_claim old = or old 1"

lemma claims: "even v \<Longrightarrow> seq_claim v = v + 1" "even v \<Longrightarrow> gc_claim v = v + 1"
  by (simp_all add: seq_claim_def gc_claim_def even_or_one)

lemma completed_mono: "lock_reach claim c d \<Longrightarrow> completed c \<le> completed d"
  by (induction rule: lock_reach.induct) (auto elim!: lock_step.cases)

text \<open>
  C16 (mutual exclusion): with any number of threads, in any interleaving of
  their accesses to the lock word, at most one is in its critical section; so it
  is for both builds.
\<close>

theorem mutual_exclusion:
  assumes "lock_reach claim lock_start c" and "claim \<in> {seq_claim, gc_claim}"
    and "pcs c i = L_in" and "pcs c j = L_in"
  shows "i = j"
proof -
  have "lock_inv c" using assms(1,2) claims by (auto intro: lock_inv_reach lock_start_inv)
  then show ?thesis using assms(3,4) by (simp add: lock_inv_def)
qed

text \<open>
  (the counter): the lock word is twice the number of completed sections,
  plus one while a writer is inside, modulo 2^64.
\<close>

theorem lock_word_counts:
  assumes "lock_reach claim lock_start c" and "claim \<in> {seq_claim, gc_claim}"
  shows "word c = of_nat (2 * completed c + (if busy c then 1 else 0))"
proof -
  have "lock_inv c" using assms claims by (auto intro: lock_inv_reach lock_start_inv)
  then show ?thesis by (simp add: lock_inv_def)
qed

lemma half_of_nat: "unat (drop_bit 1 (of_nat (2 * n + (if b then 1 else 0)) :: u64)) = n mod 2 ^ 63"
proof -
  let ?x = "2 * n + (if b then 1 else 0)"
  have "unat (of_nat m :: u64) = m mod (2 * 2 ^ 63)" for m by (simp add: unat_of_nat take_bit_eq_mod)
  then have "unat (of_nat ?x :: u64) = ?x mod (2 * 2 ^ 63)" .
  also have "\<dots> = 2 * (?x div 2 mod 2 ^ 63) + ?x mod 2" by (rule mod_mult2_eq)
  finally have "unat (of_nat ?x :: u64) div 2 = ?x div 2 mod 2 ^ 63" by simp
  moreover have "?x div 2 = n" by simp
  ultimately show ?thesis unfolding unat_half by simp
qed

lemma same_count:
  assumes "lock_inv c" "lock_inv d" "drop_bit 1 (word c) = drop_bit 1 (word d)"
    and "completed c \<le> completed d" "completed d - completed c < 2 ^ 63"
  shows "completed d = completed c"
proof -
  have "unat (drop_bit 1 (word c)) = completed c mod 2 ^ 63" if "lock_inv c" for c
    using that half_of_nat by (simp add: lock_inv_def)
  then have "completed d mod 2 ^ 63 = completed c mod 2 ^ 63" using assms(1-3) by metis
  then have "2 ^ 63 dvd completed d - completed c" using assms(4) by (simp add: mod_eq_dvd_iff_nat)
  then show ?thesis using assms(4,5) by (meson dvd_imp_le le_antisym le_less_trans less_irrefl
      not_gr_zero diff_is_0_eq)
qed

text \<open>
  (optimistic readers and competing writers, \<open>GCLOCK\<close>): if a reader's sample
  is still valid later, and fewer than 2^63 sections ran, no section was
  completed in between.
\<close>

theorem validated_gc_read:
  assumes "lock_reach claim lock_start c" and "lock_reach claim c d"
    and "claim \<in> {seq_claim, gc_claim}" and "completed d - completed c < 2 ^ 63"
    and "gcm_rlock (word c) = Some v" and "gcm_runlock v (word d)"
  shows "completed d = completed c"
proof -
  have c: "lock_inv c" using assms(1,3) claims by (auto intro: lock_inv_reach lock_start_inv)
  have d: "lock_inv d" using lock_inv_reach [OF assms(2) c] assms(3) claims by auto
  show ?thesis using same_count [OF c d _ completed_mono [OF assms(2)] assms(4)] assms(5,6)
    by (simp add: gcm_rlock_def gcm_runlock_def)
qed

text \<open>
  (the same for \<open>SEQLOCK\<close>): moreover no writer was inside at either moment.
\<close>

theorem validated_seq_read:
  assumes "lock_reach claim lock_start c" and "lock_reach claim c d"
    and "claim \<in> {seq_claim, gc_claim}" and "completed d - completed c < 2 ^ 63"
    and "seq_rlock (word c) = Some v" and "seq_runlock v (word d)"
  shows "completed d = completed c \<and> \<not> busy c \<and> \<not> busy d"
proof -
  have c: "lock_inv c" using assms(1,3) claims by (auto intro: lock_inv_reach lock_start_inv)
  have d: "lock_inv d" using lock_inv_reach [OF assms(2) c] assms(3) claims by auto
  have "word c = word d" "even (word c)"
    using assms(5,6) by (auto simp: seq_rlock_def seq_runlock_def and_one_even split: if_splits)
  then show ?thesis using same_count [OF c d _ completed_mono [OF assms(2)] assms(4)]
      busy_word [OF c] busy_word [OF d] by simp
qed

section \<open>Witnesses\<close>

lemma validation_witness:
  "\<exists>v l'. gcm_rlock 6 = Some v \<and> sections gcm_wlock gcm_wunlock 3 6 = Some l' \<and> \<not> gcm_runlock v l'"
  using validation_detects_sections [of 6 3] by simp

text \<open>One writer enters, reads the word and claims it.\<close>

lemma one_inside:
  "\<exists>c. lock_reach gc_claim lock_start c \<and> pcs c 0 = L_in \<and> word c = 1 \<and> completed c = 0"
proof -
  let ?c1 = "lock_start\<lparr>pcs := (pcs lock_start)(0 := L_read)\<rparr>"
  let ?c2 = "?c1\<lparr>pcs := (pcs ?c1)(0 := if and (word ?c1) 1 \<noteq> 0 then L_read else L_cas (word ?c1))\<rparr>"
  let ?c3 = "?c2\<lparr>word := 1, pcs := (pcs ?c2)(0 := if True then L_in else L_read)\<rparr>"
  have "lock_step gc_claim lock_start ?c1" by (rule lock_step.enter) (simp add: lock_start_def)
  moreover have "lock_step gc_claim ?c1 ?c2" by (rule lock_step.sample) simp
  moreover have "lock_step gc_claim ?c2 ?c3"
    by (rule lock_step.swap [of _ _ 0]) (simp_all add: lock_start_def CAS_simps gc_claim_def)
  ultimately have "lock_reach gc_claim lock_start ?c3" by (meson lock_reach.intros)
  then show ?thesis by (rule exI [of _ ?c3, OF conjI]) (simp add: lock_start_def)
qed

lemma mutual_exclusion_witness:
  "\<exists>c. lock_reach gc_claim lock_start c \<and> (\<exists>!i. pcs c i = L_in)"
  using one_inside mutual_exclusion [of gc_claim] by (metis insertCI)

lemma lock_word_counts_witness: "\<exists>c. lock_reach gc_claim lock_start c \<and> busy c \<and> word c = 1"
proof -
  obtain c where c: "lock_reach gc_claim lock_start c" "pcs c 0 = L_in" "completed c = 0"
    using one_inside by blast
  then have "busy c" by (auto simp: busy_def)
  then show ?thesis using c lock_word_counts [OF c(1)] by auto
qed

lemma validated_gc_read_witness:
  "\<exists>c d. lock_reach gc_claim c d \<and> pcs c 0 = L_out \<and> pcs d 0 = L_in \<and> completed d = completed c"
proof -
  obtain c where c: "lock_reach gc_claim lock_start c" "pcs c 0 = L_in" "word c = 1" "completed c = 0"
    using one_inside by blast
  have "completed c = completed lock_start"
    by (rule validated_gc_read [OF lock_reach.refl c(1), of 0])
      (use c in \<open>simp_all add: lock_start_def gcm_rlock_def gcm_runlock_def drop_bit_eq_div\<close>)
  then show ?thesis using c by (intro exI [of _ lock_start] exI [of _ c]) (simp add: lock_start_def)
qed

lemma validated_seq_read_witness:
  "\<exists>c d. lock_reach seq_claim c d \<and> pcs d 0 = L_read \<and> completed d = completed c \<and> \<not> busy d"
proof -
  let ?c = "lock_start\<lparr>pcs := (pcs lock_start)(0 := L_read)\<rparr>"
  have "lock_step seq_claim lock_start ?c" by (rule lock_step.enter) (simp add: lock_start_def)
  then have r: "lock_reach seq_claim lock_start ?c" by (meson lock_reach.intros)
  have "completed ?c = completed lock_start \<and> \<not> busy lock_start \<and> \<not> busy ?c"
    by (rule validated_seq_read [OF lock_reach.refl r, of 0])
      (simp_all add: lock_start_def seq_rlock_def seq_runlock_def)
  then show ?thesis using r by (intro exI [of _ lock_start] exI [of _ ?c]) simp
qed

end
