(* ===== verification/Gecos.thy ===== *)
theory Gecos imports Allocator Locks begin

text \<open>
  The reclamation half of \<open>list_gecos.c\<close>: a deleted node gets its generation
  bumped and goes straight to the free list, where the next \<open>insert\<close> may pick it
  up while readers still hold it.  With the one-writer lock macros this is an
  instance of the interface of \<open>list_writer.c\<close>.
\<close>

section \<open>Definitions\<close>

definition free_node_later :: "ptr \<Rightarrow> 'w alloc_scheme \<Rightarrow> 'w alloc_scheme option" where
  "free_node_later n s = do {
     s \<leftarrow> wr n (\<lambda>m. m\<lparr>gc := gc m + 1\<rparr>) s;
     free_node n s
   }"

definition osa_new_node :: "'w alloc_scheme \<Rightarrow> (ptr \<times> 'w alloc_scheme) option" where
  "osa_new_node s = new_node s"

definition init_new_node :: "'w alloc_scheme \<Rightarrow> (ptr \<times> 'w alloc_scheme) option" where
  "init_new_node s = osa_new_node s"

text \<open>
  The variant behind \<open>OSA_BEST\<close> keeps one node back in the thread-local
  \<open>free_later\<close>.
\<close>

record osa = alloc +
  free_later :: ptr

definition osa_free_node_later :: "ptr \<Rightarrow> 'w osa_scheme \<Rightarrow> 'w osa_scheme option" where
  "osa_free_node_later n s = do {
     s \<leftarrow> (if free_later s \<noteq> NULL then do {
             s \<leftarrow> free_node (free_later s) s;
             wr n (\<lambda>m. m\<lparr>gc := gc m + 1\<rparr>) s
           } else Some s);
     Some (s\<lparr>free_later := n\<rparr>)
   }"

section \<open>The generation of a node\<close>

lemma alloc_ok_node:
  assumes "alloc_ok s A" and "\<And>p. mr_next (g p) = mr_next (node s p)"
  shows "alloc_ok (s\<lparr>node := g\<rparr>) A"
  using assms by (intro alloc_ok_cong [OF assms(1)]) simp_all

text \<open>Retiring a node bumps its generation, and nobody else's, and frees it.\<close>

lemma free_node_later_eff:
  assumes ok: "alloc_ok s (insert p A)" and p: "p \<notin> A" "p \<noteq> NULL"
  shows "\<exists>s'. free_node_later p s = Some s' \<and> alloc_ok s' A \<and> pool s' = pool s \<and>
    heads s' = heads s \<and> locks s' = locks s \<and>
    (\<forall>q. key (node s' q) = key (node s q) \<and> nxt (node s' q) = nxt (node s q) \<and>
         rc (node s' q) = rc (node s q) \<and>
         gc (node s' q) = (if q = p then gc (node s p) + 1 else gc (node s q)))"
proof -
  let ?s = "s\<lparr>node := (node s)(p := (node s p)\<lparr>gc := gc (node s p) + 1\<rparr>)\<rparr>"
  have "alloc_ok ?s (insert p A)" using ok by (rule alloc_ok_node) simp
  then obtain s' where s': "free_node p ?s = Some s'" "alloc_ok s' A" "mr_only ?s s'"
    "pool s' = pool s"
    using free_node_ok p(1) by fastforce
  have "locks s' = locks s" using s'(3) by (simp add: mr_only_def)
  then show ?thesis
    using s' p(2) mr_only_node [OF s'(3)] mr_only_heads [OF s'(3)]
    by (simp add: free_node_later_def mem_simps)
qed

section \<open>Instances of the list writer\<close>

interpretation gecos: list_writer init_new_node free_node_later alloc_ok
  none_wlock none_wunlock "\<lambda>_. True"
proof unfold_locales
  fix s :: "'w alloc_scheme" and A n s'
  assume "alloc_ok s A" "init_new_node s = Some (n, s')"
  then show "keeps A s s' \<and> (n \<noteq> NULL \<longrightarrow> n \<notin> A \<and> alloc_ok s' (insert n A))"
    using new_node_ok [of s A] unfolding init_new_node_def osa_new_node_def by (auto split: if_splits)
next
  fix s :: "'w alloc_scheme" and A p
  assume "alloc_ok s (insert p A)" "p \<notin> A" "p \<noteq> NULL" "nxt (node s p) \<in> insert NULL A"
  then show "\<exists>s'. free_node_later p s = Some s' \<and> keeps A s s' \<and> alloc_ok s' A"
    using free_node_later_eff [of s p A] by (auto simp: keeps_def)
qed (auto intro: alloc_ok_cong)

section \<open>The variant that keeps one node back\<close>

lemma new_node_free_later: "new_node s = Some (n, s') \<Longrightarrow> free_later s' = free_later s"
  by (auto simp: new_node_def get_free_def calloc_node_def steal_eq rd_def
      split: list.splits if_splits option.splits)

lemma free_node_free_later: "free_node p s = Some s' \<Longrightarrow> free_later s' = free_later s"
proof (cases "p = NULL")
  case True
  then show "free_node p s = Some s' \<Longrightarrow> ?thesis"
    by (simp add: free_node_def add_free_def mem_simps Let_def)
next
  case False
  then show "free_node p s = Some s' \<Longrightarrow> ?thesis"
    by (auto simp: free_node_def add_free_eq pushed_def flushed_def)
qed

text \<open>The node kept back is neither in use nor in a free list.\<close>

definition osa_inv :: "'w osa_scheme \<Rightarrow> ptr set \<Rightarrow> bool" where
  "osa_inv s A \<longleftrightarrow> free_later s \<notin> A \<and>
     alloc_ok s (if free_later s = NULL then A else insert (free_later s) A)"

lemma osa_free_node_later_first:
  "free_later s = NULL \<Longrightarrow> osa_free_node_later p s = Some (s\<lparr>free_later := p\<rparr>)"
  by (simp add: osa_free_node_later_def)

text \<open>
  A later call frees the node kept back and bumps the generation of the one it
  keeps, whose turn to be freed has not come.
\<close>

lemma osa_free_node_later_eff:
  assumes q: "free_later s = q" "q \<noteq> NULL" and ok: "alloc_ok s (insert q (insert p A))"
    and p: "p \<notin> A" "p \<noteq> NULL" "q \<notin> insert p A"
  shows "\<exists>s'. osa_free_node_later p s = Some s' \<and> alloc_ok s' (insert p A) \<and> pool s' = pool s \<and>
    heads s' = heads s \<and> locks s' = locks s \<and> free_later s' = p \<and>
    (\<forall>x. key (node s' x) = key (node s x) \<and> nxt (node s' x) = nxt (node s x) \<and>
         gc (node s' x) = (if x = p then gc (node s p) + 1 else gc (node s x)))"
proof -
  obtain s1 where s1: "free_node q s = Some s1" "alloc_ok s1 (insert p A)" "mr_only s s1"
    "pool s1 = pool s"
    using free_node_ok [OF ok p(3)] by blast
  let ?s = "s1\<lparr>node := (node s1)(p := (node s1 p)\<lparr>gc := gc (node s1 p) + 1\<rparr>), free_later := p\<rparr>"
  have "osa_free_node_later p s = Some ?s"
    using q s1(1) p(2) by (simp add: osa_free_node_later_def mem_simps)
  moreover have "alloc_ok ?s (insert p A)" using s1(2) by (rule alloc_ok_cong) simp_all
  moreover have "locks s1 = locks s" using s1(3) by (simp add: mr_only_def)
  ultimately show ?thesis using s1(4) mr_only_node [OF s1(3)] mr_only_heads [OF s1(3)] by simp
qed

interpretation osa: list_writer init_new_node osa_free_node_later osa_inv
  none_wlock none_wunlock "\<lambda>_. True"
proof unfold_locales
  fix s :: "'w osa_scheme" and A n s'
  assume i: "osa_inv s A" and n: "init_new_node s = Some (n, s')"
  let ?A = "if free_later s = NULL then A else insert (free_later s) A"
  have n: "new_node s = Some (n, s')" using n by (simp add: init_new_node_def osa_new_node_def)
  have "alloc_ok s ?A" using i by (simp add: osa_inv_def)
  then have k: "keeps ?A s s'"
    "if n = NULL then alloc_ok s' ?A else n \<notin> ?A \<and> alloc_ok s' (insert n ?A)"
    using new_node_ok [of s ?A] n by auto
  have "n \<noteq> NULL \<longrightarrow> n \<notin> A \<and> osa_inv s' (insert n A)"
    using k(2) i unfolding osa_inv_def new_node_free_later [OF n]
    by (auto simp: insert_commute split: if_splits)
  then show "keeps A s s' \<and> (n \<noteq> NULL \<longrightarrow> n \<notin> A \<and> osa_inv s' (insert n A))"
    using keeps_mono [OF k(1), of A] by (auto simp: subset_iff)
next
  fix s :: "'w osa_scheme" and A p
  assume i: "osa_inv s (insert p A)" and p: "p \<notin> A" "p \<noteq> NULL"
  show "\<exists>s'. osa_free_node_later p s = Some s' \<and> keeps A s s' \<and> osa_inv s' A"
  proof (cases "free_later s = NULL")
    case True
    then have "osa_inv (s\<lparr>free_later := p\<rparr>) A"
      using i p unfolding osa_inv_def by (auto intro: alloc_ok_cong)
    then show ?thesis using True by (simp add: osa_free_node_later_first keeps_def)
  next
    case False
    then obtain s' where "osa_free_node_later p s = Some s'" "alloc_ok s' (insert p A)"
      "heads s' = heads s" "locks s' = locks s" "free_later s' = p"
      "\<forall>x. key (node s' x) = key (node s x) \<and> nxt (node s' x) = nxt (node s x)"
      using osa_free_node_later_eff [OF refl False _ p(1,2)] i unfolding osa_inv_def by fastforce
    then show ?thesis using p by (auto simp: osa_inv_def keeps_def)
  qed
qed (auto simp: osa_inv_def intro: alloc_ok_cong)

end
