(* ===== verification/Gecos_Search.thy ===== *)
theory Gecos_Search imports Gecos begin

text \<open>
  The concurrent half of \<open>list_gecos.c\<close>: readers run \<open>search\<close> without any lock
  while the updater runs the \<open>insert\<close> and \<open>delete\<close> of \<open>list_writer.c\<close>.  Every
  step makes at most one access to the shared memory that another thread can
  observe; a schedule is a list of actors.
\<close>

section \<open>The reader\<close>

text \<open>The three versions of \<open>search\<close> the preprocessor selects.\<close>

datatype version = Default | GECOS_R | GECOS_B

text \<open>
  The program points of \<open>search\<close>: \<open>R_start\<close> is the label \<open>retry\<close>, \<open>R_key\<close> the head
  of the loop with \<open>cur\<close> not NULL, \<open>R_next\<close> the label \<open>relink\<close>.  \<open>R_prev\<close> is the
  test of \<open>prev\<close> in the \<open>GECOS_B\<close> version.  \<open>R_fault\<close> is a crash: the
  dereference of NULL, or of \<open>prev\<close> before it was assigned.
\<close>

datatype rpc = R_start | R_head_gc | R_head_chk | R_key | R_next | R_next_gc
  | R_chk_next | R_chk_gc | R_prev | R_fault | R_ret int

record reader =
  r_key :: int
  r_bucket :: nat
  r_pc :: rpc
  cur :: ptr
  next_node :: ptr
  prev_node :: "ptr option"
  cur_gc :: u64
  next_gc :: u64
  prev_gc :: u64
  cur_key :: int
  nbretry :: nat
  nbrelink :: nat
  nbreprev :: nat

definition search_init :: "int \<Rightarrow> nat \<Rightarrow> reader" where
  "search_init k b = \<lparr>r_key = k, r_bucket = b, r_pc = R_start, cur = NULL, next_node = NULL,
     prev_node = None, cur_gc = 0, next_gc = 0, prev_gc = 0, cur_key = 0,
     nbretry = 0, nbrelink = 0, nbreprev = 0\<rparr>"

definition retry :: "reader \<Rightarrow> reader" where
  "retry r = r\<lparr>nbretry := nbretry r + 1, r_pc := R_start\<rparr>"

definition deref :: "'w mem_scheme \<Rightarrow> ptr \<Rightarrow> (node_t \<Rightarrow> reader) \<Rightarrow> reader \<Rightarrow> reader" where
  "deref s p f r = (case rd s p of None \<Rightarrow> r\<lparr>r_pc := R_fault\<rparr> | Some n \<Rightarrow> f n)"

text \<open>
  What follows the validation of \<open>cur\<close>: return if the key is reached, else
  move on; the loop ends when the next node is NULL.
\<close>

definition advance :: "version \<Rightarrow> reader \<Rightarrow> reader" where
  "advance v r =
     (if r_key r \<le> cur_key r then r\<lparr>r_pc := R_ret (if cur_key r = r_key r then 1 else 0)\<rparr>
      else (let r = (if v = GECOS_B then r\<lparr>prev_node := Some (cur r), prev_gc := cur_gc r\<rparr> else r) in
        r\<lparr>cur := next_node r, cur_gc := next_gc r,
          r_pc := (if next_node r = NULL then R_ret 0 else R_key)\<rparr>))"

definition search_step :: "version \<Rightarrow> 'w mem_scheme \<Rightarrow> reader \<Rightarrow> reader" where
  "search_step v s r = (case r_pc r of
     R_start \<Rightarrow>
       (let c = heads s (r_bucket r) in
        r\<lparr>cur := c, r_pc := (if c = NULL then R_ret 0 else R_head_gc)\<rparr>)
   | R_head_gc \<Rightarrow> deref s (cur r) (\<lambda>n. r\<lparr>cur_gc := gc n, r_pc := R_head_chk\<rparr>) r
   | R_head_chk \<Rightarrow>
       r\<lparr>r_pc := (if cur r \<noteq> heads s (r_bucket r) then R_start else R_key)\<rparr>
   | R_key \<Rightarrow> deref s (cur r) (\<lambda>n. r\<lparr>cur_key := key n, r_pc := R_next\<rparr>) r
   | R_next \<Rightarrow> deref s (cur r) (\<lambda>n. r\<lparr>next_node := nxt n,
       r_pc := (if nxt n \<noteq> NULL then R_next_gc else R_chk_next)\<rparr>) r
   | R_next_gc \<Rightarrow> deref s (next_node r) (\<lambda>n. r\<lparr>next_gc := gc n, r_pc := R_chk_next\<rparr>) r
   | R_chk_next \<Rightarrow> deref s (cur r) (\<lambda>n.
       if next_node r \<noteq> nxt n then
         (if v = Default then retry r else r\<lparr>nbrelink := nbrelink r + 1, r_pc := R_next\<rparr>)
       else r\<lparr>r_pc := R_chk_gc\<rparr>) r
   | R_chk_gc \<Rightarrow> deref s (cur r) (\<lambda>n.
       if cur_gc r \<noteq> gc n then (if v = GECOS_B then r\<lparr>r_pc := R_prev\<rparr> else retry r)
       else advance v r) r
   | R_prev \<Rightarrow> (case prev_node r of
       None \<Rightarrow> r\<lparr>r_pc := R_fault\<rparr>
     | Some p \<Rightarrow> deref s p (\<lambda>n.
         if prev_gc r = gc n then
           r\<lparr>cur := p, cur_gc := prev_gc r, nbreprev := nbreprev r + 1, r_pc := R_key\<rparr>
         else retry r) r)
   | R_fault \<Rightarrow> r
   | R_ret x \<Rightarrow> r)"

section \<open>The updater\<close>

text \<open>
  The updater runs \<open>delete\<close> and \<open>insert\<close> one memory access at a time.  Its reads
  of the list are of its own data; what readers can observe are the stores at
  \<open>D_unlink\<close>, \<open>D_bump\<close>, \<open>I_key\<close>, \<open>I_next\<close> and \<open>I_link\<close>.  The free list is not
  shared with readers, so \<open>D_free\<close> and \<open>I_alloc\<close> are single steps.
\<close>

datatype wpc = W_idle | D_test | D_loop | D_unlink | D_bump | D_free
  | I_loop | I_alloc | I_key | I_next | I_link | W_crash

record writer =
  w_key :: int
  w_bucket :: nat
  w_pc :: wpc
  w_prev :: loc
  w_cur :: ptr
  w_new :: ptr
  w_ret :: int

definition finish :: "int \<Rightarrow> writer \<Rightarrow> writer" where
  "finish x w = w\<lparr>w_ret := x, w_pc := W_idle\<rparr>"

definition store ::
    "'w alloc_scheme option \<Rightarrow> writer \<Rightarrow> 'w alloc_scheme \<Rightarrow> writer \<Rightarrow> 'w alloc_scheme \<times> writer" where
  "store m w' s w = (case m of None \<Rightarrow> (s, w\<lparr>w_pc := W_crash\<rparr>) | Some s' \<Rightarrow> (s', w'))"

definition writer_step :: "'w alloc_scheme \<Rightarrow> writer \<Rightarrow> 'w alloc_scheme \<times> writer" where
  "writer_step s w = (case w_pc w of
     W_idle \<Rightarrow> (s, w)
   | D_test \<Rightarrow> (s,
       if heads s (w_bucket w) = NULL then finish 0 w
       else w\<lparr>w_prev := Head (w_bucket w), w_cur := heads s (w_bucket w), w_pc := D_loop\<rparr>)
   | D_loop \<Rightarrow> (s,
       if w_cur w = NULL then finish 0 w
       else let n = node s (w_cur w) in
         if w_key w \<le> key n then (if key n \<noteq> w_key w then finish 0 w else w\<lparr>w_pc := D_unlink\<rparr>)
         else w\<lparr>w_prev := Next (w_cur w), w_cur := nxt n\<rparr>)
   | D_unlink \<Rightarrow> store (set_loc (w_prev w) (nxt (node s (w_cur w))) s) (w\<lparr>w_pc := D_bump\<rparr>) s w
   | D_bump \<Rightarrow> store (wr (w_cur w) (\<lambda>m. m\<lparr>gc := gc m + 1\<rparr>) s) (w\<lparr>w_pc := D_free\<rparr>) s w
   | D_free \<Rightarrow> store (free_node (w_cur w) s) (finish 1 w) s w
   | I_loop \<Rightarrow> (s,
       if w_cur w = NULL then w\<lparr>w_pc := I_alloc\<rparr>
       else let n = node s (w_cur w) in
         if w_key w \<le> key n then (if key n = w_key w then finish 0 w else w\<lparr>w_pc := I_alloc\<rparr>)
         else w\<lparr>w_prev := Next (w_cur w), w_cur := nxt n\<rparr>)
   | I_alloc \<Rightarrow> (case init_new_node s of
       None \<Rightarrow> (s, w\<lparr>w_pc := W_crash\<rparr>)
     | Some (n, s') \<Rightarrow> (s', w\<lparr>w_new := n, w_pc := I_key\<rparr>))
   | I_key \<Rightarrow> store (wr (w_new w) (\<lambda>m. m\<lparr>key := w_key w\<rparr>) s) (w\<lparr>w_pc := I_next\<rparr>) s w
   | I_next \<Rightarrow> store (wr (w_new w) (\<lambda>m. m\<lparr>nxt := w_cur w\<rparr>) s) (w\<lparr>w_pc := I_link\<rparr>) s w
   | I_link \<Rightarrow> store (set_loc (w_prev w) (w_new w) s) (finish 1 w) s w
   | W_crash \<Rightarrow> (s, w))"

definition start_delete :: "int \<Rightarrow> nat \<Rightarrow> writer \<Rightarrow> writer" where
  "start_delete k b w = (if w_pc w = W_idle then w\<lparr>w_key := k, w_bucket := b, w_pc := D_test\<rparr> else w)"

definition start_insert :: "'w mem_scheme \<Rightarrow> int \<Rightarrow> nat \<Rightarrow> writer \<Rightarrow> writer" where
  "start_insert s k b w = (if w_pc w = W_idle
     then w\<lparr>w_key := k, w_bucket := b, w_prev := Head b, w_cur := heads s b, w_pc := I_loop\<rparr> else w)"

section \<open>The system and its schedules\<close>

datatype actor = Start_delete int nat | Start_insert int nat | Updater | Reader nat
  | Start_search nat int nat

record sys =
  sh :: alloc
  upd :: writer
  rds :: "nat \<Rightarrow> reader"

fun sys_step :: "version \<Rightarrow> actor \<Rightarrow> sys \<Rightarrow> sys" where
  "sys_step v (Start_delete k b) c = c\<lparr>upd := start_delete k b (upd c)\<rparr>"
| "sys_step v (Start_insert k b) c = c\<lparr>upd := start_insert (sh c) k b (upd c)\<rparr>"
| "sys_step v Updater c =
     (case writer_step (sh c) (upd c) of (s, w) \<Rightarrow> c\<lparr>sh := s, upd := w\<rparr>)"
| "sys_step v (Reader i) c = c\<lparr>rds := (rds c)(i := search_step v (sh c) (rds c i))\<rparr>"
| "sys_step v (Start_search i k b) c = (case r_pc (rds c i) of
     R_ret x \<Rightarrow> c\<lparr>rds := (rds c)(i := search_init k b)\<rparr>
   | _ \<Rightarrow> c)"

primrec exec :: "version \<Rightarrow> actor list \<Rightarrow> sys \<Rightarrow> sys" where
  "exec v [] c = c"
| "exec v (a # as) c = exec v as (sys_step v a c)"

text \<open>The states a schedule passes through, first and last included.\<close>

primrec visited :: "version \<Rightarrow> actor list \<Rightarrow> sys \<Rightarrow> sys list" where
  "visited v [] c = [c]"
| "visited v (a # as) c = c # visited v as (sys_step v a c)"

section \<open>The invariant of the updater\<close>

text \<open>
  The node the updater holds between unlinking and freeing it, or between
  allocating and linking it.
\<close>

definition held :: "writer \<Rightarrow> ptr set" where
  "held w = (case w_pc w of D_bump \<Rightarrow> {w_cur w} | D_free \<Rightarrow> {w_cur w}
     | I_key \<Rightarrow> {w_new w} - {NULL} | I_next \<Rightarrow> {w_new w} | I_link \<Rightarrow> {w_new w} | _ \<Rightarrow> {})"

text \<open>Where the updater stands in its bucket.\<close>

definition at_gap :: "'w mem_scheme \<Rightarrow> writer \<Rightarrow> ptr list \<Rightarrow> ptr list \<Rightarrow> bool" where
  "at_gap s w us vs \<longleftrightarrow> w_prev w = loc_of (w_bucket w) us \<and> w_cur w = first_ptr vs \<and>
     (\<forall>x\<in>set us. keyof s x < w_key w)"

definition del_gap :: "'w mem_scheme \<Rightarrow> writer \<Rightarrow> (nat \<Rightarrow> ptr list) \<Rightarrow> bool" where
  "del_gap s w L \<longleftrightarrow> (\<exists>us vs. L (w_bucket w) = us @ vs \<and> at_gap s w us vs)"

definition ins_gap :: "'w mem_scheme \<Rightarrow> writer \<Rightarrow> (nat \<Rightarrow> ptr list) \<Rightarrow> bool" where
  "ins_gap s w L \<longleftrightarrow> (\<exists>us vs. L (w_bucket w) = us @ vs \<and> at_gap s w us vs \<and>
     (\<forall>x\<in>set vs. w_key w < keyof s x))"

definition wpc_inv :: "'w mem_scheme \<Rightarrow> writer \<Rightarrow> (nat \<Rightarrow> ptr list) \<Rightarrow> bool" where
  "wpc_inv s w L = (case w_pc w of
     D_loop \<Rightarrow> del_gap s w L
   | I_loop \<Rightarrow> del_gap s w L
   | D_unlink \<Rightarrow> \<exists>us vs. L (w_bucket w) = us @ w_cur w # vs \<and> w_prev w = loc_of (w_bucket w) us
   | D_bump \<Rightarrow> \<exists>us vs. L (w_bucket w) = us @ vs \<and> nxt (node s (w_cur w)) = first_ptr vs \<and>
       (\<forall>x\<in>set us. keyof s x < keyof s (w_cur w)) \<and> (\<forall>x\<in>set vs. keyof s (w_cur w) < keyof s x)
   | I_alloc \<Rightarrow> ins_gap s w L
   | I_key \<Rightarrow> ins_gap s w L
   | I_next \<Rightarrow> ins_gap s w L \<and> keyof s (w_new w) = w_key w
   | I_link \<Rightarrow> ins_gap s w L \<and> keyof s (w_new w) = w_key w \<and> nxt (node s (w_new w)) = w_cur w
   | _ \<Rightarrow> True)"

lemma gap_cong:
  assumes "w_prev w' = w_prev w" "w_cur w' = w_cur w" "w_bucket w' = w_bucket w" "w_key w' = w_key w"
    and "\<And>x. x \<in> linked L \<Longrightarrow> keyof s' x = keyof s x"
  shows "del_gap s' w' L \<longleftrightarrow> del_gap s w L" "ins_gap s' w' L \<longleftrightarrow> ins_gap s w L"
proof -
  have k: "keyof s' x = keyof s x" if "L (w_bucket w) = us @ vs" "x \<in> set us \<or> x \<in> set vs" for us vs x
    by (rule assms(5), rule linkedI [of x L "w_bucket w"]) (use that in auto)
  then have "at_gap s' w' us vs \<longleftrightarrow> at_gap s w us vs" if "L (w_bucket w) = us @ vs" for us vs
    using that assms(1-4) by (simp add: at_gap_def)
  then show "del_gap s' w' L \<longleftrightarrow> del_gap s w L" "ins_gap s' w' L \<longleftrightarrow> ins_gap s w L"
    using k unfolding del_gap_def ins_gap_def assms(3,4) by (metis (no_types, lifting))+
qed

lemma gap_pc [simp]:
  "del_gap s (w\<lparr>w_prev := a, w_cur := c, w_pc := x\<rparr>) L \<longleftrightarrow> del_gap s (w\<lparr>w_prev := a, w_cur := c\<rparr>) L"
  "ins_gap s (w\<lparr>w_pc := x\<rparr>) L \<longleftrightarrow> ins_gap s w L"
  "del_gap s (w\<lparr>w_pc := x\<rparr>) L \<longleftrightarrow> del_gap s w L"
  by (rule gap_cong; simp)+

text \<open>No node ever handed out links to memory the system still has.\<close>

definition closed :: "'w alloc_scheme \<Rightarrow> bool" where
  "closed s \<longleftrightarrow> (\<forall>p. p \<notin> set (pool s) \<longrightarrow> nxt (node s p) \<notin> set (pool s))"

text \<open>
  \<open>Q\<close> are nodes parked elsewhere: neither linked nor free, and out of the
  updater's reach.  A scheme that delays the release of nodes keeps them there.
\<close>

definition winvq :: "'w alloc_scheme \<Rightarrow> writer \<Rightarrow> (nat \<Rightarrow> ptr list) \<Rightarrow> ptr set \<Rightarrow> bool" where
  "winvq s w L Q \<longleftrightarrow> buckets s L \<and> alloc_ok s (linked L \<union> held w \<union> Q) \<and> held w \<inter> linked L = {} \<and>
     Q \<inter> (linked L \<union> held w) = {} \<and> closed s \<and> wpc_inv s w L"

abbreviation winv :: "'w alloc_scheme \<Rightarrow> writer \<Rightarrow> (nat \<Rightarrow> ptr list) \<Rightarrow> bool" where
  "winv s w L \<equiv> winvq s w L {}"

lemma winv_def:
  "winv s w L \<longleftrightarrow> buckets s L \<and> alloc_ok s (linked L \<union> held w) \<and> held w \<inter> linked L = {} \<and>
     closed s \<and> wpc_inv s w L"
  by (simp add: winvq_def)

definition sys_ok :: "sys \<Rightarrow> bool" where
  "sys_ok c \<longleftrightarrow> (\<exists>L. winv (sh c) (upd c) L)"

text \<open>
  Ghost state of the proof, relative to some starting point: \<open>d p\<close> counts the
  times \<open>p\<close> was retired since then, \<open>n\<close> the steps.
\<close>

definition eras :: "(ptr \<Rightarrow> u64) \<Rightarrow> (ptr \<Rightarrow> nat) \<Rightarrow> nat \<Rightarrow> 'w mem_scheme \<Rightarrow> bool" where
  "eras base d n s \<longleftrightarrow> (\<forall>p. gc (node s p) = base p + of_nat (d p) \<and> d p \<le> n)"

text \<open>A node of the bucket, or the one node just unlinked from it and not yet bumped.\<close>

definition inlist :: "writer \<Rightarrow> (nat \<Rightarrow> ptr list) \<Rightarrow> nat \<Rightarrow> ptr \<Rightarrow> bool" where
  "inlist w L b p \<longleftrightarrow> p \<in> set (L b) \<or> (w_pc w = D_bump \<and> w_bucket w = b \<and> w_cur w = p)"

text \<open>
  What readers need to know about a step of the updater: memory is never given
  back, generations only grow, and a node whose generation stays keeps its key
  and its place.
\<close>

definition evolves ::
    "'w alloc_scheme \<Rightarrow> writer \<Rightarrow> (nat \<Rightarrow> ptr list) \<Rightarrow> (ptr \<Rightarrow> u64) \<Rightarrow> (ptr \<Rightarrow> nat) \<Rightarrow>
     'w alloc_scheme \<Rightarrow> writer \<Rightarrow> (nat \<Rightarrow> ptr list) \<Rightarrow> (ptr \<Rightarrow> u64) \<Rightarrow> (ptr \<Rightarrow> nat) \<Rightarrow> bool" where
  "evolves s w L base d s' w' L' base' d' \<longleftrightarrow>
     set (pool s') \<subseteq> set (pool s) \<and>
     (\<forall>p. p \<notin> set (pool s) \<longrightarrow> base' p = base p \<and> d p \<le> d' p) \<and>
     (\<forall>p b. p \<notin> set (pool s) \<longrightarrow> d' p = d p \<longrightarrow> inlist w L b p \<longrightarrow>
        keyof s' p = keyof s p \<and> inlist w' L' b p)"

lemma evolves_quiet:
  assumes "w_pc w \<noteq> D_bump"
  shows "evolves s w L base d s w' L base d"
  using assms by (auto simp: evolves_def inlist_def)

lemma eras_mono: "eras base d n s \<Longrightarrow> eras base d (Suc n) s"
  by (auto simp: eras_def intro: le_SucI)

lemma winv_pool: "winvq s w L Q \<Longrightarrow> (linked L \<union> held w \<union> Q) \<inter> set (pool s) = {}"
  by (auto simp: winvq_def alloc_ok_def alloc_inv_def)

lemma winv_heads:
  assumes "winvq s w L Q"
  shows "heads s b = first_ptr (L b)" "heads s b \<notin> set (pool s)"
proof -
  have c: "chain (nxts s) (heads s b) (L b) NULL" using assms by (simp add: winvq_def buckets_def)
  then show h: "heads s b = first_ptr (L b)" by (rule chain_first)
  have "NULL \<notin> set (pool s)" using assms by (auto simp: winvq_def alloc_ok_def alloc_inv_def)
  moreover have "set (L b) \<inter> set (pool s) = {}" using winv_pool [OF assms] linkedI by blast
  ultimately show "heads s b \<notin> set (pool s)" unfolding h by (cases "L b") auto
qed

text \<open>One lemma per kind of step.  First the steps that only move the updater's locals.\<close>

lemma loop_step:
  assumes B: "buckets s L" and g: "del_gap s w L" and ne: "w_cur w \<noteq> NULL"
  shows "keyof s (w_cur w) < w_key w \<Longrightarrow>
      del_gap s (w\<lparr>w_prev := Next (w_cur w), w_cur := nxt (node s (w_cur w))\<rparr>) L"
    and "w_key w < keyof s (w_cur w) \<Longrightarrow> ins_gap s w L"
    and "\<exists>us vs. L (w_bucket w) = us @ w_cur w # vs \<and> w_prev w = loc_of (w_bucket w) us"
proof -
  obtain us vs where uv: "L (w_bucket w) = us @ vs" "at_gap s w us vs"
    using g by (auto simp: del_gap_def)
  then obtain ys where vs: "vs = w_cur w # ys" using ne by (cases vs) (auto simp: at_gap_def)
  have "chain (nxts s) (heads s (w_bucket w)) (us @ w_cur w # ys) NULL"
    using buckets_chain [OF B, of "w_bucket w"] uv(1) vs by simp
  then have nx: "nxt (node s (w_cur w)) = first_ptr ys"
    by (auto simp: chain_append dest: chain_first)
  have so: "sorted_wrt (<) (map (keyof s) (us @ w_cur w # ys))"
    using buckets_sorted [OF B, of "w_bucket w"] uv(1) vs by simp
  show "\<exists>us vs. L (w_bucket w) = us @ w_cur w # vs \<and> w_prev w = loc_of (w_bucket w) us"
    using uv vs by (auto simp: at_gap_def)
  show "ins_gap s w L" if "w_key w < keyof s (w_cur w)"
    unfolding ins_gap_def using uv vs that so
    by (rule_tac exI [of _ us], rule_tac exI [of _ vs]) (auto simp: sorted_wrt_append)
  show "del_gap s (w\<lparr>w_prev := Next (w_cur w), w_cur := nxt (node s (w_cur w))\<rparr>) L"
    if "keyof s (w_cur w) < w_key w"
    unfolding del_gap_def
    by (rule exI [of _ "us @ [w_cur w]"], rule exI [of _ ys])
      (use uv vs that nx in \<open>auto simp: at_gap_def\<close>)
qed

lemma step_quiet:
  assumes inv: "winvq s w L Q" and e: "eras base d n s" and pc: "w_pc w \<in> {W_idle, D_test, D_loop, I_loop, W_crash}"
    and st: "writer_step s w = (s', w')"
  shows "\<exists>L' base' d'. winvq s' w' L' Q \<and> eras base' d' (Suc n) s' \<and> evolves s w L base d s' w' L' base' d' \<and>
    (w_pc w = D_bump \<or> d' = d)"
proof -
  have s': "s' = s" using st pc by (auto simp: writer_step_def split: if_splits)
  have h: "held w = {}" "held w' = {}" "w_pc w \<noteq> D_bump"
    using pc st by (auto simp: held_def writer_step_def finish_def Let_def split: if_splits)
  have B: "buckets s L" using inv by (simp add: winvq_def)
  have g0: "del_gap s (w\<lparr>w_prev := Head (w_bucket w), w_cur := heads s (w_bucket w)\<rparr>) L"
    unfolding del_gap_def winv_heads(1) [OF inv]
    by (rule exI [of _ "[]"], rule exI [of _ "L (w_bucket w)"]) (simp add: at_gap_def)
  have g1: "del_gap s w L" if "w_pc w \<in> {D_loop, I_loop}"
    using inv that by (auto simp: winvq_def wpc_inv_def)
  have g2: "ins_gap s w L" if g: "del_gap s w L" and c: "w_cur w = NULL"
  proof -
    obtain us vs where uv: "L (w_bucket w) = us @ vs" "at_gap s w us vs"
      using g by (auto simp: del_gap_def)
    have "NULL \<notin> set (L (w_bucket w))" using linked_not_NULL [OF B] linkedI by blast
    then have "vs = []" using uv c by (cases vs) (auto simp: at_gap_def)
    then show ?thesis unfolding ins_gap_def using uv
      by (rule_tac exI [of _ us], rule_tac exI [of _ vs]) simp
  qed
  have "wpc_inv s w' L"
    using pc
  proof (elim insertE emptyE)
    assume "w_pc w = D_loop"
    then show ?thesis using st g1 loop_step [OF B]
      by (auto simp: writer_step_def wpc_inv_def finish_def Let_def split: if_splits)
  next
    assume "w_pc w = I_loop"
    then show ?thesis using st g1 g2 loop_step [OF B]
      by (auto simp: writer_step_def wpc_inv_def finish_def Let_def split: if_splits)
  next
    assume "w_pc w = D_test"
    then show ?thesis using st g0
      by (auto simp: writer_step_def wpc_inv_def finish_def Let_def split: if_splits)
  qed (use st in \<open>auto simp: writer_step_def wpc_inv_def\<close>)
  then have "winvq s' w' L Q" using inv h s' by (auto simp: winvq_def)
  then show ?thesis using evolves_quiet [OF h(3)] eras_mono [OF e] s' by blast
qed

text \<open>The stores of the updater, one by one.\<close>

lemma set_loc_more:
  fixes s :: "'w alloc_scheme"
  assumes "set_loc l v s = Some s'"
  shows "key (node s' p) = key (node s p)" "gc (node s' p) = gc (node s p)" "pool s' = pool s"
    "nxt (node s' p) \<in> {v, nxt (node s p)}"
  using assms by (cases l; auto simp: wr_def split: if_splits)+

lemma closed_set_loc:
  "set_loc l v s = Some s' \<Longrightarrow> closed s \<Longrightarrow> v \<notin> set (pool s) \<Longrightarrow> closed s'"
  using set_loc_more(3,4) [of l v s s'] unfolding closed_def by (metis insert_iff singletonD)

lemma eras_gc: "eras base d n s \<Longrightarrow> (\<And>p. gc (node s' p) = gc (node s p)) \<Longrightarrow> eras base d (Suc n) s'"
  by (auto simp: eras_def intro: le_SucI)

lemma winvD:
  assumes "winvq s w L Q"
  shows "buckets s L" "alloc_ok s (linked L \<union> held w \<union> Q)" "held w \<inter> linked L = {}" "closed s" "wpc_inv s w L"
    "Q \<inter> (linked L \<union> held w) = {}"
  using assms by (auto simp: winvq_def)

lemma step_unlink:
  assumes inv: "winvq s w L Q" and e: "eras base d n s" and pc: "w_pc w = D_unlink"
    and st: "writer_step s w = (s', w')"
  shows "\<exists>L' base' d'. winvq s' w' L' Q \<and> eras base' d' (Suc n) s' \<and> evolves s w L base d s' w' L' base' d' \<and>
    (w_pc w = D_bump \<or> d' = d)"
proof -
  note W = winvD [OF inv]
  let ?b = "w_bucket w" and ?c = "w_cur w"
  obtain us vs where uv: "L ?b = us @ ?c # vs" "w_prev w = loc_of ?b us"
    using W(5) pc by (auto simp: wpc_inv_def)
  let ?L = "L(?b := us @ vs)"
  obtain s1 where s1: "set_loc (loc_of ?b us) (nxt (node s ?c)) s = Some s1" "buckets s1 ?L"
    using unlink_node [OF W(1) uv(1)] by blast
  have st': "s' = s1" "w' = w\<lparr>w_pc := D_bump\<rparr>"
    using st pc uv(2) s1(1) by (auto simp: writer_step_def store_def)
  note lk = linked_unlink [OF W(1) uv(1)] and eff = set_loc_more [OF s1(1)]
  have c: "chain (nxts s) (heads s ?b) (us @ ?c # vs) NULL"
    using buckets_chain [OF W(1), of ?b] uv(1) by simp
  have nx: "nxt (node s ?c) = first_ptr vs" using c by (auto simp: chain_append dest: chain_first)
  have "?c \<notin> set us" using chain_distinct [OF c] by auto
  then have nx1: "nxt (node s1 ?c) = first_ptr vs"
    using set_loc_effect(3) [OF s1(1) loc_of_neq] nx by metis
  have so: "sorted_wrt (<) (map (keyof s) (us @ ?c # vs))"
    using buckets_sorted [OF W(1), of ?b] uv(1) by simp
  have "alloc_ok s1 (linked L \<union> held w \<union> Q)" using gecos.rinv_set_loc [OF s1(1) W(2)] .
  then have a1: "alloc_ok s1 (linked ?L \<union> {?c} \<union> Q)" using lk(1) pc by (simp add: held_def)
  have q: "Q \<inter> (linked ?L \<union> {?c}) = {}" using W(6) lk(1) by auto
  have "nxt (node s ?c) \<notin> set (pool s)"
    using W(4) winv_pool [OF inv] linkedI [of ?c L ?b] uv(1) by (auto simp: closed_def)
  then have "closed s1" by (rule closed_set_loc [OF s1(1) W(4)])
  moreover have "\<exists>us vs. ?L ?b = us @ vs \<and> nxt (node s1 ?c) = first_ptr vs \<and>
       (\<forall>x\<in>set us. keyof s1 x < keyof s1 ?c) \<and> (\<forall>x\<in>set vs. keyof s1 ?c < keyof s1 x)"
    by (rule exI [of _ us], rule exI [of _ vs])
      (use nx1 so eff(1) in \<open>auto simp: sorted_wrt_append\<close>)
  then have "wpc_inv s1 w' ?L" by (simp add: wpc_inv_def st')
  ultimately have "winvq s' w' ?L Q"
    using s1(2) a1 lk(2) q by (simp add: winvq_def st' held_def)
  moreover have "evolves s w L base d s' w' ?L base d"
    using eff(1,3) uv(1) pc by (auto simp: evolves_def inlist_def st')
  ultimately show ?thesis using eras_gc [OF e] eff(2) st'(1) by blast
qed

lemma step_bump:
  assumes inv: "winvq s w L Q" and e: "eras base d n s" and pc: "w_pc w = D_bump"
    and st: "writer_step s w = (s', w')"
  shows "\<exists>L' base' d'. winvq s' w' L' Q \<and> eras base' d' (Suc n) s' \<and> evolves s w L base d s' w' L' base' d' \<and>
    (w_pc w = D_bump \<or> d' = d)"
proof -
  note W = winvD [OF inv]
  let ?c = "w_cur w"
  have h: "held w = {?c}" using pc by (simp add: held_def)
  have c: "?c \<noteq> NULL" "?c \<notin> linked L" using alloc_ok_Set [OF W(2)] W(3) h by auto
  let ?s = "s\<lparr>node := (node s)(?c := (node s ?c)\<lparr>gc := gc (node s ?c) + 1\<rparr>)\<rparr>"
  have st': "s' = ?s" "w' = w\<lparr>w_pc := D_free\<rparr>"
    using st pc c by (auto simp: writer_step_def store_def mem_simps)
  have "buckets ?s L" by (rule buckets_unlinked [OF W(1) c(2)])
  moreover have "alloc_ok ?s (linked L \<union> {?c} \<union> Q)" using W(2) h by (intro alloc_ok_node) auto
  moreover have "closed ?s" using W(4) by (simp add: closed_def)
  ultimately have "winvq s' w' L Q"
    using c W(6) h by (simp add: winvq_def st' held_def wpc_inv_def)
  moreover have "eras base (d(?c := Suc (d ?c))) (Suc n) s'"
    using e by (auto simp: eras_def st' intro: le_SucI)
  moreover have "evolves s w L base d s' w' L base (d(?c := Suc (d ?c)))"
    by (auto simp: evolves_def inlist_def st')
  ultimately show ?thesis using pc by blast
qed

lemma step_free:
  assumes inv: "winvq s w L Q" and e: "eras base d n s" and pc: "w_pc w = D_free"
    and st: "writer_step s w = (s', w')"
  shows "\<exists>L' base' d'. winvq s' w' L' Q \<and> eras base' d' (Suc n) s' \<and> evolves s w L base d s' w' L' base' d' \<and>
    (w_pc w = D_bump \<or> d' = d)"
proof -
  note W = winvD [OF inv]
  let ?c = "w_cur w"
  have h: "held w = {?c}" using pc by (simp add: held_def)
  then have "alloc_ok s (insert ?c (linked L \<union> Q))" "?c \<notin> linked L \<union> Q" using W(2,3,6) by auto
  then obtain s1 where s1: "free_node ?c s = Some s1" "alloc_ok s1 (linked L \<union> Q)" "mr_only s s1"
    "pool s1 = pool s"
    using free_node_ok by blast
  have st': "s' = s1" "w' = finish 1 w"
    using st pc s1(1) by (auto simp: writer_step_def store_def)
  have "closed s1" using W(4) s1(4) by (simp add: closed_def mr_only_node [OF s1(3)])
  then have "winvq s' w' L Q"
    using buckets_keeps [OF W(1) mr_only_keeps [OF s1(3)]] s1(2) W(6)
    by (simp add: winvq_def st' held_def finish_def wpc_inv_def Int_Un_distrib)
  moreover have "evolves s w L base d s' w' L base d"
    using s1(4) pc by (auto simp: evolves_def inlist_def st' mr_only_node [OF s1(3)])
  ultimately show ?thesis using eras_gc [OF e] mr_only_node(4) [OF s1(3)] st'(1) by blast
qed

lemma step_alloc:
  assumes inv: "winvq s w L Q" and e: "eras base d n s" and pc: "w_pc w = I_alloc"
    and st: "writer_step s w = (s', w')"
  shows "\<exists>L' base' d'. winvq s' w' L' Q \<and> eras base' d' (Suc n) s' \<and> evolves s w L base d s' w' L' base' d' \<and>
    (w_pc w = D_bump \<or> d' = d)"
proof -
  note W = winvD [OF inv]
  have h: "held w = {}" using pc by (simp add: held_def)
  then have ok: "alloc_ok s (linked L \<union> Q)" using W(2) by simp
  obtain m s1 where s1: "new_node s = Some (m, s1)" "keeps (linked L \<union> Q) s s1"
    "set (pool s1) \<subseteq> set (pool s)"
    "if m = NULL then alloc_ok s1 (linked L \<union> Q)
     else m \<notin> linked L \<union> Q \<and> alloc_ok s1 (insert m (linked L \<union> Q))"
    "\<forall>p. p \<notin> set (pool s) \<longrightarrow> node s1 p = node s p"
    "\<forall>p\<in>set (pool s) - set (pool s1). node s1 p = zero_node"
    using new_node_ok [OF ok] by blast
  have st': "s' = s1" "w' = w\<lparr>w_new := m, w_pc := I_key\<rparr>"
    using st pc s1(1) by (auto simp: writer_step_def init_new_node_def osa_new_node_def)
  have z: "NULL \<notin> set (pool s1)"
    using s1(4) by (auto simp: alloc_ok_def alloc_inv_def split: if_splits)
  have "closed s1"
    unfolding closed_def
  proof (intro allI impI)
    fix p assume p: "p \<notin> set (pool s1)"
    show "nxt (node s1 p) \<notin> set (pool s1)"
    proof (cases "p \<in> set (pool s)")
      case True
      then show ?thesis using s1(6) p z by (simp add: zero_node_def)
    next
      case False
      then show ?thesis using W(4) s1(3,5) by (auto simp: closed_def)
    qed
  qed
  moreover have "ins_gap s1 w' L"
    using W(5) pc s1(2) gap_cong(2) [of w' w L s1 s] by (simp add: st' wpc_inv_def keeps_def)
  ultimately have "winvq s' w' L Q"
    using buckets_keeps [OF W(1) keeps_mono [OF s1(2)]] s1(4) W(6)
    by (auto simp: winvq_def st' held_def wpc_inv_def split: if_splits)
  moreover have "eras (\<lambda>p. gc (node s1 p) - of_nat (d p)) d (Suc n) s'"
    using e by (auto simp: eras_def st' intro: le_SucI)
  moreover have "evolves s w L base d s' w' L (\<lambda>p. gc (node s1 p) - of_nat (d p)) d"
    using s1(3,5) e pc by (auto simp: evolves_def inlist_def st' eras_def)
  ultimately show ?thesis by blast
qed

lemma step_key:
  assumes inv: "winvq s w L Q" and e: "eras base d n s" and pc: "w_pc w = I_key"
    and st: "writer_step s w = (s', w')"
  shows "\<exists>L' base' d'. winvq s' w' L' Q \<and> eras base' d' (Suc n) s' \<and> evolves s w L base d s' w' L' base' d' \<and>
    (w_pc w = D_bump \<or> d' = d)"
proof (cases "w_new w = NULL")
  case True
  then have "s' = s" "w' = w\<lparr>w_pc := W_crash\<rparr>"
    using st pc by (auto simp: writer_step_def store_def mem_simps)
  moreover have "winvq s (w\<lparr>w_pc := W_crash\<rparr>) L Q"
    using inv pc True by (simp add: winvq_def held_def wpc_inv_def)
  ultimately show ?thesis using evolves_quiet [of w] eras_mono [OF e] pc by fastforce
next
  case False
  note W = winvD [OF inv]
  let ?m = "w_new w"
  let ?s = "s\<lparr>node := (node s)(?m := (node s ?m)\<lparr>key := w_key w\<rparr>)\<rparr>"
  have h: "held w = {?m}" using pc False by (simp add: held_def)
  then have m: "?m \<notin> linked L" using W(3) by simp
  have st': "s' = ?s" "w' = w\<lparr>w_pc := I_next\<rparr>"
    using st pc False by (auto simp: writer_step_def store_def mem_simps)
  have "alloc_ok ?s (linked L \<union> {?m} \<union> Q)" using W(2) h by (intro alloc_ok_node) auto
  moreover have "closed ?s" using W(4) by (simp add: closed_def)
  moreover have "ins_gap ?s w' L"
    using W(5) pc m gap_cong(2) [of w' w L ?s s] by (force simp: st' wpc_inv_def)
  ultimately have "winvq s' w' L Q"
    using buckets_unlinked [OF W(1) m] m W(6) h False by (simp add: winvq_def st' held_def wpc_inv_def)
  moreover have "evolves s w L base d s' w' L base d"
    using pc m linkedI by (fastforce simp: evolves_def inlist_def st')
  moreover have "eras base d (Suc n) s'" by (rule eras_gc [OF e]) (simp add: st')
  ultimately show ?thesis by blast
qed

lemma step_next:
  assumes inv: "winvq s w L Q" and e: "eras base d n s" and pc: "w_pc w = I_next"
    and st: "writer_step s w = (s', w')"
  shows "\<exists>L' base' d'. winvq s' w' L' Q \<and> eras base' d' (Suc n) s' \<and> evolves s w L base d s' w' L' base' d' \<and>
    (w_pc w = D_bump \<or> d' = d)"
proof -
  note W = winvD [OF inv]
  let ?m = "w_new w"
  let ?s = "s\<lparr>node := (node s)(?m := (node s ?m)\<lparr>nxt := w_cur w\<rparr>)\<rparr>"
  have h: "held w = {?m}" using pc by (simp add: held_def)
  then have m: "?m \<notin> linked L" "?m \<noteq> NULL" using W(3) alloc_ok_Set [OF W(2)] by auto
  have st': "s' = ?s" "w' = w\<lparr>w_pc := I_link\<rparr>"
    using st pc m by (auto simp: writer_step_def store_def mem_simps)
  have g: "ins_gap s w L" using W(5) pc by (simp add: wpc_inv_def)
  then obtain us vs where uv: "L (w_bucket w) = us @ vs" "w_cur w = first_ptr vs"
    by (auto simp: ins_gap_def at_gap_def)
  have "NULL \<notin> set (pool s)" using W(2) by (auto simp: alloc_ok_def alloc_inv_def)
  moreover have "set vs \<inter> set (pool s) = {}"
    using winv_pool [OF inv] linkedI [of _ L "w_bucket w"] uv(1) by auto
  ultimately have c: "w_cur w \<notin> set (pool s)" unfolding uv(2) by (cases vs) auto
  have "alloc_ok ?s (linked L \<union> {?m} \<union> Q)" using W(2) h by (intro alloc_ok_node) auto
  moreover have "closed ?s" using W(4) c by (simp add: closed_def)
  moreover have "ins_gap ?s w' L" using g m gap_cong(2) [of w' w L ?s s] by (simp add: st')
  ultimately have "winvq s' w' L Q"
    using buckets_unlinked [OF W(1) m(1)] m W(5,6) h pc by (simp add: winvq_def st' held_def wpc_inv_def)
  moreover have "evolves s w L base d s' w' L base d"
    using pc by (auto simp: evolves_def inlist_def st')
  moreover have "eras base d (Suc n) s'" by (rule eras_gc [OF e]) (simp add: st')
  ultimately show ?thesis by blast
qed

lemma step_link:
  assumes inv: "winvq s w L Q" and e: "eras base d n s" and pc: "w_pc w = I_link"
    and st: "writer_step s w = (s', w')"
  shows "\<exists>L' base' d'. winvq s' w' L' Q \<and> eras base' d' (Suc n) s' \<and> evolves s w L base d s' w' L' base' d' \<and>
    (w_pc w = D_bump \<or> d' = d)"
proof -
  note W = winvD [OF inv]
  let ?m = "w_new w" and ?b = "w_bucket w"
  have h: "held w = {?m}" using pc by (simp add: held_def)
  then have m: "?m \<notin> linked L" "?m \<noteq> NULL" using W(3) alloc_ok_Set [OF W(2)] by auto
  obtain us vs where uv: "L ?b = us @ vs" "w_cur w = first_ptr vs" "w_prev w = loc_of ?b us"
    "\<forall>x\<in>set us. keyof s x < w_key w" "\<forall>x\<in>set vs. w_key w < keyof s x"
    and mk: "keyof s ?m = w_key w" "nxt (node s ?m) = w_cur w"
    using W(5) pc by (auto simp: ins_gap_def at_gap_def wpc_inv_def)
  let ?L = "L(?b := us @ ?m # vs)"
  obtain s1 where s1: "set_loc (loc_of ?b us) ?m s = Some s1" "buckets s1 ?L"
    using link_node [OF W(1) uv(1) m] uv mk by (auto simp: first_ptr_def)
  note eff = set_loc_more [OF s1(1)]
  have st': "s' = s1" "w' = finish 1 w"
    using st pc uv(3) s1(1) by (auto simp: writer_step_def store_def)
  have "alloc_ok s1 (linked ?L \<union> Q)"
    using gecos.rinv_set_loc [OF s1(1) W(2)] h linked_link [of L ?b, OF uv(1)] by simp
  moreover have "Q \<inter> linked ?L = {}" using W(6) h linked_link [of L ?b, OF uv(1)] by auto
  moreover have "closed s1"
    using winv_pool [OF inv] h by (intro closed_set_loc [OF s1(1) W(4)]) auto
  ultimately have "winvq s' w' ?L Q"
    using s1(2) by (simp add: winvq_def st' held_def finish_def wpc_inv_def)
  moreover have "evolves s w L base d s' w' ?L base d"
    using eff(1,3) uv(1) pc by (auto simp: evolves_def inlist_def st')
  ultimately show ?thesis using eras_gc [OF e] eff(2) st'(1) by blast
qed

lemma writer_step_inv:
  assumes "winvq s w L Q" and "eras base d n s" and "writer_step s w = (s', w')"
  shows "\<exists>L' base' d'. winvq s' w' L' Q \<and> eras base' d' (Suc n) s' \<and> evolves s w L base d s' w' L' base' d' \<and>
    (w_pc w = D_bump \<or> d' = d)"
proof -
  note A = assms(1,2) and st = assms(3)
  consider "w_pc w \<in> {W_idle, D_test, D_loop, I_loop, W_crash}" | "w_pc w = D_unlink" | "w_pc w = D_bump"
    | "w_pc w = D_free" | "w_pc w = I_alloc" | "w_pc w = I_key" | "w_pc w = I_next" | "w_pc w = I_link"
    by (cases "w_pc w") auto
  then show ?thesis
    by cases (rule step_quiet [OF A _ st] step_unlink [OF A _ st] step_bump [OF A _ st]
      step_free [OF A _ st] step_alloc [OF A _ st] step_key [OF A _ st] step_next [OF A _ st]
      step_link [OF A _ st]; assumption)+
qed

lemma start_delete_inv:
  assumes "winvq s w L Q"
  shows "winvq s (start_delete k b w) L Q" "evolves s w L base d s (start_delete k b w) L base d"
  using assms by (auto simp: start_delete_def winvq_def held_def wpc_inv_def evolves_def inlist_def)

lemma start_insert_inv:
  assumes inv: "winvq s w L Q"
  shows "winvq s (start_insert s k b w) L Q" "evolves s w L base d s (start_insert s k b w) L base d"
proof -
  have "del_gap s (w\<lparr>w_key := k, w_bucket := b, w_prev := Head b, w_cur := heads s b, w_pc := I_loop\<rparr>) L"
    unfolding del_gap_def winv_heads(1) [OF inv]
    by (rule exI [of _ "[]"], rule exI [of _ "L b"]) (simp add: at_gap_def)
  then show "winvq s (start_insert s k b w) L Q"
    using inv by (auto simp: start_insert_def winvq_def held_def wpc_inv_def)
  show "evolves s w L base d s (start_insert s k b w) L base d"
    by (auto simp: start_insert_def evolves_def inlist_def)
qed

section \<open>The invariant of a reader\<close>

text \<open>
  \<open>H\<close> collects the key sets the reader's bucket has had since its search began.
  \<open>stamped\<close>: the generation \<open>g\<close> was read when \<open>p\<close> had been retired \<open>e\<close> times.
  \<open>evid\<close>: as long as \<open>p\<close> has not been retired again, it is still in its place, and
  its key decides what the search may answer.
\<close>

definition stamped ::
    "'w alloc_scheme \<Rightarrow> (ptr \<Rightarrow> u64) \<Rightarrow> (ptr \<Rightarrow> nat) \<Rightarrow> ptr \<Rightarrow> u64 \<Rightarrow> nat \<Rightarrow> bool" where
  "stamped s base d p g e \<longleftrightarrow> p \<noteq> NULL \<and> p \<notin> set (pool s) \<and> g = base p + of_nat e \<and> e \<le> d p"

definition evid ::
    "'w mem_scheme \<Rightarrow> writer \<Rightarrow> (nat \<Rightarrow> ptr list) \<Rightarrow> (ptr \<Rightarrow> nat) \<Rightarrow> int set set \<Rightarrow> int \<Rightarrow> nat \<Rightarrow>
     ptr \<Rightarrow> nat \<Rightarrow> bool" where
  "evid s w L d H k b p e \<longleftrightarrow> (d p = e \<longrightarrow> inlist w L b p \<and>
     (keyof s p = k \<longrightarrow> (\<exists>K\<in>H. k \<in> K)) \<and> (k < keyof s p \<longrightarrow> (\<exists>K\<in>H. k \<notin> K)))"

definition at_cur ::
    "'w alloc_scheme \<Rightarrow> writer \<Rightarrow> (nat \<Rightarrow> ptr list) \<Rightarrow> (ptr \<Rightarrow> u64) \<Rightarrow> (ptr \<Rightarrow> nat) \<Rightarrow> int set set \<Rightarrow>
     reader \<Rightarrow> nat \<Rightarrow> bool" where
  "at_cur s w L base d H r e \<longleftrightarrow> stamped s base d (cur r) (cur_gc r) e \<and>
     evid s w L d H (r_key r) (r_bucket r) (cur r) e"

definition key_read :: "'w mem_scheme \<Rightarrow> (ptr \<Rightarrow> nat) \<Rightarrow> reader \<Rightarrow> nat \<Rightarrow> bool" where
  "key_read s d r e \<longleftrightarrow> (d (cur r) = e \<longrightarrow> cur_key r = keyof s (cur r))"

text \<open>What the reader knows of the next node once it has seen \<open>cur\<close> point to it.\<close>

definition at_next ::
    "'w alloc_scheme \<Rightarrow> writer \<Rightarrow> (nat \<Rightarrow> ptr list) \<Rightarrow> (ptr \<Rightarrow> nat) \<Rightarrow> int set set \<Rightarrow>
     reader \<Rightarrow> nat \<Rightarrow> nat \<Rightarrow> bool" where
  "at_next s w L d H r e e' \<longleftrightarrow> (d (cur r) = e \<and> keyof s (cur r) < r_key r \<longrightarrow>
     (if next_node r = NULL then \<exists>K\<in>H. r_key r \<notin> K
      else evid s w L d H (r_key r) (r_bucket r) (next_node r) e'))"

definition rd_inv ::
    "version \<Rightarrow> 'w alloc_scheme \<Rightarrow> writer \<Rightarrow> (nat \<Rightarrow> ptr list) \<Rightarrow> (ptr \<Rightarrow> u64) \<Rightarrow> (ptr \<Rightarrow> nat) \<Rightarrow>
     int set set \<Rightarrow> reader \<Rightarrow> bool" where
  "rd_inv v s w L base d H r \<longleftrightarrow>
     (\<forall>p. prev_node r = Some p \<longrightarrow> (\<exists>e. stamped s base d p (prev_gc r) e \<and>
        evid s w L d H (r_key r) (r_bucket r) p e)) \<and>
     (case r_pc r of
        R_start \<Rightarrow> True
      | R_head_gc \<Rightarrow> cur r \<noteq> NULL \<and> cur r \<notin> set (pool s)
      | R_head_chk \<Rightarrow> \<exists>e. stamped s base d (cur r) (cur_gc r) e
      | R_key \<Rightarrow> \<exists>e. at_cur s w L base d H r e
      | R_next \<Rightarrow> \<exists>e. at_cur s w L base d H r e \<and> key_read s d r e
      | R_next_gc \<Rightarrow> (\<exists>e. at_cur s w L base d H r e \<and> key_read s d r e) \<and>
          next_node r \<noteq> NULL \<and> next_node r \<notin> set (pool s)
      | R_chk_next \<Rightarrow> (\<exists>e. at_cur s w L base d H r e \<and> key_read s d r e) \<and>
          (next_node r \<noteq> NULL \<longrightarrow> (\<exists>e'. stamped s base d (next_node r) (next_gc r) e'))
      | R_chk_gc \<Rightarrow> (\<exists>e e'. at_cur s w L base d H r e \<and> key_read s d r e \<and>
          (next_node r \<noteq> NULL \<longrightarrow> stamped s base d (next_node r) (next_gc r) e') \<and>
          at_next s w L d H r e e')
      | R_prev \<Rightarrow> v = GECOS_B
      | R_fault \<Rightarrow> v = GECOS_B
      | R_ret x \<Rightarrow> (x = 1 \<and> (\<exists>K\<in>H. r_key r \<in> K)) \<or> (x = 0 \<and> (\<exists>K\<in>H. r_key r \<notin> K)))"

lemma rd_pc [simp]:
  "at_cur s w L base d H (r\<lparr>r_pc := x\<rparr>) e \<longleftrightarrow> at_cur s w L base d H r e"
  "key_read s d (r\<lparr>r_pc := x\<rparr>) e \<longleftrightarrow> key_read s d r e"
  "at_next s w L d H (r\<lparr>r_pc := x\<rparr>) e e' \<longleftrightarrow> at_next s w L d H r e e'"
  by (simp_all add: at_cur_def key_read_def at_next_def)

section \<open>The steps of the others keep a reader's invariant\<close>

lemma stamped_evolves:
  assumes "evolves s w L base d s' w' L' base' d'" and "stamped s base d p g e"
  shows "stamped s' base' d' p g e"
  using assms by (auto simp: stamped_def evolves_def dest: order_trans)

lemma evolves_same:
  assumes ev: "evolves s w L base d s' w' L' base' d'" and st: "stamped s base d p g e"
    and e: "d' p = e" and i: "d p = e \<Longrightarrow> inlist w L b p"
  shows "d p = e" "keyof s' p = keyof s p" "inlist w' L' b p"
proof -
  have p: "p \<notin> set (pool s)" "e \<le> d p" using st by (auto simp: stamped_def)
  moreover have "d p \<le> d' p" using ev p by (auto simp: evolves_def)
  ultimately show "d p = e" using e by simp
  then show "keyof s' p = keyof s p" "inlist w' L' b p"
    using ev p i e unfolding evolves_def by simp_all
qed

lemma evid_evolves:
  assumes ev: "evolves s w L base d s' w' L' base' d'" and st: "stamped s base d p g e"
    and i: "evid s w L d H k b p e" and H: "H \<subseteq> H'"
  shows "evid s' w' L' d' H' k b p e"
  unfolding evid_def
proof
  assume e: "d' p = e"
  have "d p = e \<Longrightarrow> inlist w L b p" using i by (simp add: evid_def)
  note same = evolves_same [OF ev st e this]
  show "inlist w' L' b p \<and> (keyof s' p = k \<longrightarrow> (\<exists>K\<in>H'. k \<in> K)) \<and> (k < keyof s' p \<longrightarrow> (\<exists>K\<in>H'. k \<notin> K))"
    using i H same(2,3) unfolding evid_def by (simp add: same(1)) blast
qed

lemma at_cur_evolves:
  assumes ev: "evolves s w L base d s' w' L' base' d'" and c: "at_cur s w L base d H r e" and H: "H \<subseteq> H'"
  shows "at_cur s' w' L' base' d' H' r e"
  using stamped_evolves [OF ev] evid_evolves [OF ev] c H unfolding at_cur_def by blast

lemma key_read_evolves:
  assumes ev: "evolves s w L base d s' w' L' base' d'" and c: "at_cur s w L base d H r e"
    and k: "key_read s d r e"
  shows "key_read s' d' r e"
proof -
  have st: "stamped s base d (cur r) (cur_gc r) e" using c by (simp add: at_cur_def)
  have i: "d (cur r) = e \<Longrightarrow> inlist w L (r_bucket r) (cur r)" using c by (simp add: at_cur_def evid_def)
  show ?thesis using k evolves_same(1,2) [OF ev st _ i] by (auto simp: key_read_def)
qed

lemma at_next_evolves:
  assumes ev: "evolves s w L base d s' w' L' base' d'" and c: "at_cur s w L base d H r e"
    and n: "next_node r \<noteq> NULL \<longrightarrow> stamped s base d (next_node r) (next_gc r) e'"
    and a: "at_next s w L d H r e e'" and H: "H \<subseteq> H'"
  shows "at_next s' w' L' d' H' r e e'"
  unfolding at_next_def
proof
  assume A: "d' (cur r) = e \<and> keyof s' (cur r) < r_key r"
  have st: "stamped s base d (cur r) (cur_gc r) e" using c by (simp add: at_cur_def)
  have i: "d (cur r) = e \<Longrightarrow> inlist w L (r_bucket r) (cur r)" using c by (simp add: at_cur_def evid_def)
  have "d (cur r) = e" "keyof s (cur r) < r_key r"
    using A evolves_same(1,2) [OF ev st _ i] by auto
  then have "if next_node r = NULL then \<exists>K\<in>H. r_key r \<notin> K
      else evid s w L d H (r_key r) (r_bucket r) (next_node r) e'"
    using a by (simp add: at_next_def)
  then show "if next_node r = NULL then \<exists>K\<in>H'. r_key r \<notin> K
      else evid s' w' L' d' H' (r_key r) (r_bucket r) (next_node r) e'"
    using n H evid_evolves [OF ev _ _ H] by (auto split: if_splits)
qed

lemma rd_inv_evolves:
  assumes ev: "evolves s w L base d s' w' L' base' d'" and i: "rd_inv v s w L base d H r" and H: "H \<subseteq> H'"
  shows "rd_inv v s' w' L' base' d' H' r"
proof -
  note 1 = stamped_evolves [OF ev] and 2 = evid_evolves [OF ev _ _ H] and 3 = at_cur_evolves [OF ev _ H]
    and 4 = key_read_evolves [OF ev] and 5 = at_next_evolves [OF ev _ _ _ H]
  have p: "set (pool s') \<subseteq> set (pool s)" using ev by (simp add: evolves_def)
  have prev: "\<forall>p. prev_node r = Some p \<longrightarrow> (\<exists>e. stamped s' base' d' p (prev_gc r) e \<and>
        evid s' w' L' d' H' (r_key r) (r_bucket r) p e)"
    using i 1 2 unfolding rd_inv_def by meson
  show ?thesis
  proof (cases "r_pc r")
    case R_chk_gc
    then obtain e e' where "at_cur s w L base d H r e" "key_read s d r e"
      "next_node r \<noteq> NULL \<longrightarrow> stamped s base d (next_node r) (next_gc r) e'" "at_next s w L d H r e e'"
      using i by (auto simp: rd_inv_def)
    then show ?thesis using R_chk_gc prev 1 3 4 5 unfolding rd_inv_def by fastforce
  next
    case R_head_chk
    then show ?thesis using i prev 1 unfolding rd_inv_def by fastforce
  next
    case R_key
    then show ?thesis using i prev 3 unfolding rd_inv_def by fastforce
  next
    case R_next
    then show ?thesis using i prev 3 4 unfolding rd_inv_def by fastforce
  next
    case R_next_gc
    then show ?thesis using i prev 3 4 p unfolding rd_inv_def by fastforce
  next
    case R_chk_next
    then show ?thesis using i prev 1 3 4 unfolding rd_inv_def by fastforce
  next
    case (R_ret x)
    then show ?thesis using i prev H unfolding rd_inv_def by fastforce
  qed (use i prev p in \<open>auto simp: rd_inv_def\<close>)
qed

section \<open>The reader's own steps\<close>

lemma gc_match:
  assumes e: "eras base d n s" "n < 2 ^ 64" and st: "stamped s base d p g e" and g: "g = gc (node s p)"
  shows "d p = e"
proof -
  have "gc (node s p) = base p + of_nat (d p)" "d p \<le> n" using e(1) by (simp_all add: eras_def)
  moreover have "g = base p + of_nat e" "e \<le> d p" using st by (simp_all add: stamped_def)
  ultimately have "(of_nat e :: u64) = of_nat (d p)" using g by simp
  then show ?thesis using of_nat_u64_inj [of e "d p"] \<open>e \<le> d p\<close> \<open>d p \<le> n\<close> e(2) by simp
qed

lemma stamp_now: "eras base d n s \<Longrightarrow> p \<noteq> NULL \<Longrightarrow> p \<notin> set (pool s) \<Longrightarrow>
    stamped s base d p (gc (node s p)) (d p)"
  by (simp add: stamped_def eras_def)

lemma head_evid:
  assumes inv: "winvq s w L Q" and h: "heads s b \<noteq> NULL" and H: "bucket_keys s b \<in> H"
  shows "evid s w L d H k b (heads s b) e"
proof -
  note B = winvD(1) [OF inv]
  obtain ys where ys: "L b = heads s b # ys"
    using winv_heads(1) [OF inv, of b] h by (cases "L b") auto
  have "bucket_keys s b = insert (keyof s (heads s b)) (keys_of s ys)"
    unfolding bucket_keys_eq [OF B] by (subst ys) simp
  moreover have "sorted_wrt (<) (map (keyof s) (heads s b # ys))"
    using buckets_sorted [OF B, of b] by (simp only: ys)
  then have "k \<notin> keys_of s ys" if "k < keyof s (heads s b)"
    using that by (auto simp: keys_of_def)
  moreover have "heads s b \<in> set (L b)" unfolding ys by simp
  ultimately show ?thesis using H unfolding evid_def inlist_def
    by (metis insert_iff less_irrefl)
qed

lemma empty_bucket:
  assumes inv: "winvq s w L Q" and h: "heads s b = NULL"
  shows "bucket_keys s b = {}"
proof -
  have "NULL \<notin> set (L b)" using linked_not_NULL [OF winvD(1) [OF inv]] linkedI by blast
  then have "L b = []" using winv_heads(1) [OF inv, of b] h by (cases "L b") auto
  then show ?thesis using bucket_keys_eq [OF winvD(1) [OF inv]] by simp
qed

text \<open>The bucket behind a node that is in its place.\<close>

lemma inlist_split:
  assumes inv: "winvq s w L Q" and i: "inlist w L b p"
  shows "\<exists>us vs. L b = us @ vs \<and> nxt (node s p) = first_ptr vs \<and>
    (\<forall>x\<in>set us. keyof s x \<le> keyof s p) \<and> (\<forall>x\<in>set vs. keyof s p < keyof s x)"
proof (cases "p \<in> set (L b)")
  case True
  then obtain us vs where uv: "L b = us @ p # vs" by (meson split_list)
  note B = winvD(1) [OF inv]
  have "chain (nxts s) (heads s b) (us @ p # vs) NULL" using buckets_chain [OF B, of b] uv by simp
  then have "nxt (node s p) = first_ptr vs" by (auto simp: chain_append dest: chain_first)
  moreover have "sorted_wrt (<) (map (keyof s) (us @ p # vs))" using buckets_sorted [OF B, of b] uv by simp
  ultimately show ?thesis using uv
    by (rule_tac exI [of _ "us @ [p]"], rule_tac exI [of _ vs]) (auto simp: sorted_wrt_append)
next
  case False
  then have "w_pc w = D_bump" "w_bucket w = b" "w_cur w = p" using i by (auto simp: inlist_def)
  then show ?thesis using winvD(5) [OF inv] unfolding wpc_inv_def by (auto dest: less_imp_le)
qed

lemma next_evid:
  assumes inv: "winvq s w L Q" and i: "inlist w L b p" and k: "keyof s p < k" and H: "bucket_keys s b \<in> H"
  shows "if nxt (node s p) = NULL then \<exists>K\<in>H. k \<notin> K else evid s w L d H k b (nxt (node s p)) e"
proof -
  note B = winvD(1) [OF inv]
  obtain us vs where uv: "L b = us @ vs" "nxt (node s p) = first_ptr vs"
    "\<forall>x\<in>set us. keyof s x \<le> keyof s p"
    using inlist_split [OF inv i] by blast
  have K: "k \<in> bucket_keys s b \<longleftrightarrow> k \<in> keys_of s vs"
    using uv(1,3) k by (force simp: bucket_keys_eq [OF B] keys_of_def)
  have nn: "NULL \<notin> set vs" using linked_not_NULL [OF B] linkedI [of _ L b] uv(1) by auto
  show ?thesis
  proof (cases vs)
    case Nil
    then show ?thesis using uv(2) K H by auto
  next
    case (Cons y ys)
    have "sorted_wrt (<) (map (keyof s) (y # ys))"
      using buckets_sorted [OF B, of b] uv(1) Cons by (simp add: sorted_wrt_append)
    then have "k \<notin> keys_of s vs" if "k < keyof s y" using that Cons by (auto simp: keys_of_def)
    moreover have "k \<in> keys_of s vs" if "keyof s y = k" using that Cons by auto
    moreover have "inlist w L b y" using uv(1) Cons by (simp add: inlist_def)
    ultimately show ?thesis using uv(2) Cons nn K H by (auto simp: evid_def)
  qed
qed

lemma advance_inv:
  assumes inv: "winv s w L" and i: "rd_inv v s w L base d H r" and pc: "r_pc r = R_chk_gc"
    and e: "eras base d n s" "n < 2 ^ 64" and m: "cur_gc r = gc (node s (cur r))"
  shows "rd_inv v s w L base d H (advance v r)"
proof -
  obtain e e' where c: "at_cur s w L base d H r e" "key_read s d r e"
    "next_node r \<noteq> NULL \<longrightarrow> stamped s base d (next_node r) (next_gc r) e'" "at_next s w L d H r e e'"
    and prev: "\<forall>p. prev_node r = Some p \<longrightarrow> (\<exists>e. stamped s base d p (prev_gc r) e \<and>
        evid s w L d H (r_key r) (r_bucket r) p e)"
    using i pc by (auto simp: rd_inv_def)
  have st: "stamped s base d (cur r) (cur_gc r) e" and ev: "evid s w L d H (r_key r) (r_bucket r) (cur r) e"
    using c(1) by (simp_all add: at_cur_def)
  have d: "d (cur r) = e" by (rule gc_match [OF assms(4,5) st m])
  have k: "cur_key r = keyof s (cur r)" using c(2) d by (simp add: key_read_def)
  show ?thesis
  proof (cases "r_key r \<le> cur_key r")
    case True
    then show ?thesis using ev d k prev by (auto simp: advance_def rd_inv_def evid_def)
  next
    case False
    then have nx: "if next_node r = NULL then \<exists>K\<in>H. r_key r \<notin> K
      else evid s w L d H (r_key r) (r_bucket r) (next_node r) e'"
      using c(4) d k by (simp add: at_next_def)
    show ?thesis using False nx c(3) st ev prev
      by (auto simp: advance_def rd_inv_def at_cur_def Let_def split: if_splits)
  qed
qed

lemma search_step_inv:
  assumes inv: "winv s w L" and e: "eras base d n s" "n < 2 ^ 64"
    and H: "bucket_keys s (r_bucket r) \<in> H" and i: "rd_inv v s w L base d H r"
  shows "rd_inv v s w L base d H (search_step v s r)"
proof (cases "r_pc r")
  case R_start
  have "r_key r \<notin> bucket_keys s (r_bucket r)" if "heads s (r_bucket r) = NULL"
    using empty_bucket [OF inv that] by simp
  then show ?thesis using R_start i H winv_heads(2) [OF inv]
    by (auto simp: search_step_def rd_inv_def Let_def)
next
  case R_head_gc
  then show ?thesis using i stamp_now [OF e(1), of "cur r"]
    by (auto simp: search_step_def rd_inv_def deref_def mem_simps)
next
  case R_head_chk
  then obtain x where x: "stamped s base d (cur r) (cur_gc r) x" using i by (auto simp: rd_inv_def)
  have "evid s w L d H (r_key r) (r_bucket r) (cur r) x" if "cur r = heads s (r_bucket r)"
    using head_evid [OF inv _ H] x that by (simp add: stamped_def)
  then show ?thesis using R_head_chk i x
    by (auto simp: search_step_def rd_inv_def at_cur_def)
next
  case R_key
  then obtain x where x: "at_cur s w L base d H r x" using i by (auto simp: rd_inv_def)
  then have "cur r \<noteq> NULL" by (simp add: at_cur_def stamped_def)
  then show ?thesis using R_key i x
    by (auto simp: search_step_def rd_inv_def at_cur_def deref_def mem_simps key_read_def)
next
  case R_next
  then obtain x where x: "at_cur s w L base d H r x" "key_read s d r x" using i by (auto simp: rd_inv_def)
  then have c: "cur r \<noteq> NULL" "cur r \<notin> set (pool s)" by (simp_all add: at_cur_def stamped_def)
  then have "nxt (node s (cur r)) \<notin> set (pool s)" using winvD(4) [OF inv] by (simp add: closed_def)
  then show ?thesis using R_next i x c
    by (auto simp: search_step_def rd_inv_def at_cur_def deref_def mem_simps key_read_def)
next
  case R_next_gc
  then obtain x where x: "at_cur s w L base d H r x" "key_read s d r x" using i by (auto simp: rd_inv_def)
  show ?thesis using R_next_gc i x stamp_now [OF e(1), of "next_node r"]
    by (auto simp: search_step_def rd_inv_def at_cur_def deref_def mem_simps key_read_def)
next
  case R_chk_next
  then obtain x where x: "at_cur s w L base d H r x" "key_read s d r x"
    and y: "next_node r \<noteq> NULL \<longrightarrow> (\<exists>y. stamped s base d (next_node r) (next_gc r) y)"
    using i by (auto simp: rd_inv_def)
  then obtain y where y: "next_node r \<noteq> NULL \<longrightarrow> stamped s base d (next_node r) (next_gc r) y" by blast
  have c: "cur r \<noteq> NULL" using x by (simp add: at_cur_def stamped_def)
  have "at_next s w L d H r x y" if "next_node r = nxt (node s (cur r))"
    unfolding at_next_def that
  proof
    assume "d (cur r) = x \<and> keyof s (cur r) < r_key r"
    moreover from this have "inlist w L (r_bucket r) (cur r)"
      using x(1) by (simp add: at_cur_def evid_def)
    ultimately show "if nxt (node s (cur r)) = NULL then \<exists>K\<in>H. r_key r \<notin> K
        else evid s w L d H (r_key r) (r_bucket r) (nxt (node s (cur r))) y"
      using next_evid [OF inv _ _ H] by blast
  qed
  then have "\<exists>e e'. at_cur s w L base d H r e \<and> key_read s d r e \<and>
      (next_node r \<noteq> NULL \<longrightarrow> stamped s base d (next_node r) (next_gc r) e') \<and>
      at_next s w L d H r e e'" if "next_node r = nxt (node s (cur r))"
    using that x y by blast
  then have "rd_inv v s w L base d H (r\<lparr>r_pc := R_chk_gc\<rparr>)" if "next_node r = nxt (node s (cur r))"
    using that i by (simp add: rd_inv_def)
  moreover have "rd_inv v s w L base d H (r\<lparr>nbrelink := m, r_pc := R_next\<rparr>)" for m
    using i x R_chk_next by (auto simp: rd_inv_def at_cur_def key_read_def)
  moreover have "rd_inv v s w L base d H (retry r)" using i by (auto simp: rd_inv_def retry_def)
  ultimately show ?thesis using R_chk_next c by (auto simp: search_step_def deref_def mem_simps)
next
  case R_chk_gc
  then have c: "cur r \<noteq> NULL" using i by (auto simp: rd_inv_def at_cur_def stamped_def)
  have "rd_inv v s w L base d H (retry r)" using i by (auto simp: rd_inv_def retry_def)
  moreover have "rd_inv v s w L base d H (r\<lparr>r_pc := R_prev\<rparr>)" if "v = GECOS_B"
    using i that by (auto simp: rd_inv_def)
  ultimately show ?thesis using R_chk_gc c advance_inv [OF inv i R_chk_gc e]
    by (auto simp: search_step_def deref_def mem_simps)
next
  case R_prev
  then have v: "v = GECOS_B" using i by (simp add: rd_inv_def)
  show ?thesis
  proof (cases "prev_node r")
    case None
    then show ?thesis using R_prev i v by (simp add: search_step_def rd_inv_def)
  next
    case (Some p)
    then obtain x where x: "stamped s base d p (prev_gc r) x"
      "evid s w L d H (r_key r) (r_bucket r) p x" using i by (auto simp: rd_inv_def)
    have "rd_inv v s w L base d H (retry r)" using i by (auto simp: rd_inv_def retry_def)
    moreover have "rd_inv v s w L base d H
        (r\<lparr>cur := p, cur_gc := prev_gc r, nbreprev := m, r_pc := R_key\<rparr>)" for m
      using i x by (auto simp: rd_inv_def at_cur_def)
    moreover have "p \<noteq> NULL" using x by (simp add: stamped_def)
    ultimately show ?thesis using R_prev Some
      by (simp add: search_step_def deref_def mem_simps) metis
  qed
qed (use i in \<open>simp_all add: search_step_def\<close>)

lemma search_step_frame: "r_key (search_step v s r) = r_key r" "r_bucket (search_step v s r) = r_bucket r"
  by (auto simp: search_step_def deref_def retry_def advance_def Let_def rd_def
      split: rpc.splits option.splits)

section \<open>Whole executions\<close>

lemma sys_step_inv:
  assumes inv: "winv (sh c) (upd c) L" and e: "eras base d n (sh c)" "n < 2 ^ 64"
    and H: "bucket_keys (sh c) b \<in> H" and r: "rd_inv v (sh c) (upd c) L base d H (rds c i)"
    and b: "r_bucket (rds c i) = b" and a: "\<And>k b. a \<noteq> Start_search i k b"
    and c': "c' = sys_step v a c"
  shows "\<exists>L' base' d'. winv (sh c') (upd c') L' \<and> eras base' d' (Suc n) (sh c') \<and>
    rd_inv v (sh c') (upd c') L' base' d' (insert (bucket_keys (sh c') b) H) (rds c' i) \<and>
    r_bucket (rds c' i) = b \<and> r_key (rds c' i) = r_key (rds c i)"
proof (cases a)
  case (Start_delete k' b')
  show ?thesis unfolding c' Start_delete
    using start_delete_inv [OF inv] rd_inv_evolves [OF start_delete_inv(2) [OF inv] r subset_insertI]
      eras_mono [OF e(1)] b by (simp del: fun_upd_apply) blast
next
  case (Start_insert k' b')
  show ?thesis unfolding c' Start_insert
    using start_insert_inv [OF inv] rd_inv_evolves [OF start_insert_inv(2) [OF inv] r subset_insertI]
      eras_mono [OF e(1)] b by (simp del: fun_upd_apply) blast
next
  case Updater
  obtain s' w' where st: "writer_step (sh c) (upd c) = (s', w')" by force
  obtain L' base' d' where x: "winv s' w' L'" "eras base' d' (Suc n) s'"
    "evolves (sh c) (upd c) L base d s' w' L' base' d'"
    using writer_step_inv [OF inv e(1) st] by blast
  show ?thesis unfolding c' Updater
    using x rd_inv_evolves [OF x(3) r subset_insertI] b st by simp blast
next
  case (Reader j)
  have "rd_inv v (sh c) (upd c) L base d H (search_step v (sh c) (rds c i))"
    using search_step_inv [OF inv e _ r] H b by simp
  then have "rd_inv v (sh c) (upd c) L base d H (rds c' i)"
    using r by (cases "i = j") (simp_all add: c' Reader)
  moreover have "sh c' = sh c" "upd c' = upd c" "r_bucket (rds c' i) = b" "r_key (rds c' i) = r_key (rds c i)"
    using b by (auto simp: c' Reader search_step_frame)
  ultimately show ?thesis using inv eras_mono [OF e(1)] H by (simp add: insert_absorb) blast
next
  case (Start_search j k' b')
  then have "j \<noteq> i" using a by auto
  then have "rds c' i = rds c i" "sh c' = sh c" "upd c' = upd c"
    unfolding c' Start_search by (auto split: rpc.splits)
  then show ?thesis using inv eras_mono [OF e(1)] H r b by (auto simp: insert_absorb)
qed

lemma exec_inv:
  assumes "winv (sh c) (upd c) L" and "eras base d n (sh c)" and "n + length as < 2 ^ 64"
    and "bucket_keys (sh c) b \<in> H" and "rd_inv v (sh c) (upd c) L base d H (rds c i)"
    and "r_bucket (rds c i) = b" and "\<And>k b. Start_search i k b \<notin> set as"
  shows "\<exists>L' base' d'. rd_inv v (sh (exec v as c)) (upd (exec v as c)) L' base' d'
      (H \<union> (\<lambda>c. bucket_keys (sh c) b) ` set (visited v as c)) (rds (exec v as c) i) \<and>
    r_key (rds (exec v as c) i) = r_key (rds c i)"
  using assms
proof (induction as arbitrary: c L base d n H)
  case Nil
  then show ?case by (auto simp: insert_absorb)
next
  case (Cons a as)
  let ?c = "sys_step v a c"
  have "n < 2 ^ 64" "\<And>k b. a \<noteq> Start_search i k b" using Cons.prems(3,7) by auto
  then obtain L' base' d' where x: "winv (sh ?c) (upd ?c) L'" "eras base' d' (Suc n) (sh ?c)"
    "rd_inv v (sh ?c) (upd ?c) L' base' d' (insert (bucket_keys (sh ?c) b) H) (rds ?c i)"
    "r_bucket (rds ?c i) = b" "r_key (rds ?c i) = r_key (rds c i)"
    using sys_step_inv [OF Cons.prems(1,2) _ Cons.prems(4,5,6) _ refl] by blast
  have "bucket_keys (sh ?c) b \<in> (\<lambda>c. bucket_keys (sh c) b) ` set (visited v as ?c)"
    by (cases as) auto
  then have "insert (bucket_keys (sh ?c) b) H \<union> (\<lambda>c. bucket_keys (sh c) b) ` set (visited v as ?c)
      = H \<union> (\<lambda>c. bucket_keys (sh c) b) ` set (visited v (a # as) c)"
    using Cons.prems(4) by auto
  then show ?case
    using Cons.IH [OF x(1,2) _ _ x(3,4)] Cons.prems(3,7) x(5) by simp
qed

end
