(* ===== verification/Gecos_Properties.thy ===== *)
theory Gecos_Properties imports Gecos_Search begin

text \<open>
  What the interleaving model of \<open>list_gecos.c\<close> gives: answers of \<open>search\<close> are
  linearizable, it never dereferences a bad pointer, it finishes when the
  updater pauses, and the updater's machine run on its own is the sequential
  code of \<open>list_writer.c\<close>.
\<close>

section \<open>The initial state\<close>

definition init_mem :: "ptr list \<Rightarrow> alloc" where
  "init_mem ps = init_allocator \<lparr>node = (\<lambda>_. zero_node), heads = (\<lambda>_. NULL), locks = (\<lambda>_. 0),
     pool = ps, freelist = NULL, frct = 0, lfl = NULL, lfl_tail = NULL, lcnt = 0,
     nbmallocs = 0, nbfl = 0\<rparr>"

definition init_writer :: writer where
  "init_writer = \<lparr>w_key = 0, w_bucket = 0, w_pc = W_idle, w_prev = Head 0, w_cur = NULL,
     w_new = NULL, w_ret = 0\<rparr>"

definition init_sys :: "ptr list \<Rightarrow> (nat \<Rightarrow> reader) \<Rightarrow> sys" where
  "init_sys ps q = \<lparr>sh = init_mem ps, upd = init_writer, rds = q\<rparr>"

lemma init_mem_ok:
  assumes "distinct ps" and "NULL \<notin> set ps"
  shows "buckets (init_mem ps) (\<lambda>_. [])" "alloc_ok (init_mem ps) {}" "closed (init_mem ps)"
proof -
  have "alloc_inv (init_mem ps) {} [] []"
    using assms by (simp add: init_mem_def init_allocator_def prealloc_def alloc_inv_def)
  then show "alloc_ok (init_mem ps) {}" by (rule alloc_okI)
  show "buckets (init_mem ps) (\<lambda>_. [])" "closed (init_mem ps)"
    using assms by (simp_all add: init_mem_def init_allocator_def prealloc_def buckets_def closed_def
        zero_node_def)
qed

lemma init_sys_ok: "distinct ps \<Longrightarrow> NULL \<notin> set ps \<Longrightarrow> sys_ok (init_sys ps q)"
  using init_mem_ok [of ps] unfolding sys_ok_def
  by (intro exI [of _ "\<lambda>_. []"])
    (simp add: init_sys_def init_writer_def winv_def held_def wpc_inv_def linked_def)

section \<open>Reachable states\<close>

lemma eras_start: "eras (\<lambda>p. gc (node s p)) (\<lambda>_. 0) 0 s"
  by (simp add: eras_def)

lemma sys_step_ok:
  assumes "sys_ok c"
  shows "sys_ok (sys_step v a c)"
proof -
  obtain L where L: "winv (sh c) (upd c) L" using assms by (auto simp: sys_ok_def)
  show ?thesis
  proof (cases a)
    case Updater
    obtain s' w' where st: "writer_step (sh c) (upd c) = (s', w')" by force
    then show ?thesis using writer_step_inv [OF L eras_start st] Updater by (auto simp: sys_ok_def)
  next
    case (Start_insert k b)
    then show ?thesis using start_insert_inv(1) [OF L, of k b] by (auto simp: sys_ok_def)
  next
    case (Start_delete k b)
    then show ?thesis using start_delete_inv(1) [OF L, of k b] by (auto simp: sys_ok_def)
  qed (use L in \<open>auto simp: sys_ok_def split: rpc.splits\<close>)
qed

lemma exec_ok: "sys_ok c \<Longrightarrow> sys_ok (exec v as c)"
  by (induction as arbitrary: c) (auto intro: sys_step_ok)

lemma search_exec:
  assumes ok: "sys_ok c" and r: "rds c i = search_init k b"
    and one: "\<And>k b. Start_search i k b \<notin> set as" and len: "length as < 2 ^ 64"
  shows "\<exists>L base d. rd_inv v (sh (exec v as c)) (upd (exec v as c)) L base d
      ((\<lambda>c. bucket_keys (sh c) b) ` set (visited v as c)) (rds (exec v as c) i) \<and>
    r_key (rds (exec v as c) i) = k"
proof -
  obtain L where L: "winv (sh c) (upd c) L" using ok by (auto simp: sys_ok_def)
  let ?H = "{bucket_keys (sh c) b}"
  have "rd_inv v (sh c) (upd c) L (\<lambda>p. gc (node (sh c) p)) (\<lambda>_. 0) ?H (rds c i)"
    unfolding r by (simp add: rd_inv_def search_init_def)
  then obtain L' base' d' where x: "rd_inv v (sh (exec v as c)) (upd (exec v as c)) L' base' d'
      (?H \<union> (\<lambda>c. bucket_keys (sh c) b) ` set (visited v as c)) (rds (exec v as c) i)"
    "r_key (rds (exec v as c) i) = r_key (rds c i)"
    using exec_inv [OF L eras_start, of as b ?H v i] one len r by (auto simp: search_init_def)
  moreover have "c \<in> set (visited v as c)" by (cases as) auto
  then have "?H \<union> (\<lambda>c. bucket_keys (sh c) b) ` set (visited v as c)
      = (\<lambda>c. bucket_keys (sh c) b) ` set (visited v as c)" by auto
  moreover have "r_key (rds c i) = k" unfolding r by (simp add: search_init_def)
  ultimately show ?thesis by metis
qed

section \<open>Properties\<close>

text \<open>
  C1 (linearizability of \<open>search\<close>, the three versions): take any reachable state,
  a reader that starts a search for \<open>k\<close> in bucket \<open>b\<close>, and any interleaving of
  the updater's deletions and insertions, of the other readers and of this
  reader, shorter than the 2^64 steps the generation counter needs to wrap.  If
  the search has returned, its answer is the membership of \<open>k\<close> in the bucket at
  some moment of the search.
\<close>

theorem search_linearizable:
  assumes "sys_ok c" and "rds c i = search_init k b"
    and "\<And>k b. Start_search i k b \<notin> set as" and "length as < 2 ^ 64"
    and "r_pc (rds (exec v as c) i) = R_ret x"
  shows "\<exists>c'\<in>set (visited v as c). x = (if k \<in> bucket_keys (sh c') b then 1 else 0)"
  using search_exec [OF assms(1-4), of v] assms(5) by (auto simp: rd_inv_def)

text \<open>
  C2 (memory safety of \<open>search\<close>): under the same interleavings the default and
  the relinking version never dereference NULL or an unassigned pointer.
\<close>

theorem search_never_faults:
  assumes "sys_ok c" and "rds c i = search_init k b"
    and "\<And>k b. Start_search i k b \<notin> set as" and "length as < 2 ^ 64"
    and "v \<noteq> GECOS_B"
  shows "r_pc (rds (exec v as c) i) \<noteq> R_fault"
  using search_exec [OF assms(1-4), of v] assms(5) by (auto simp: rd_inv_def)

section \<open>A reader on its own\<close>

lemma exec_reader:
  "exec v (replicate n (Reader i)) c =
     c\<lparr>rds := (rds c)(i := (search_step v (sh c) ^^ n) (rds c i))\<rparr>"
proof (induction n arbitrary: c)
  case 0
  then show ?case by simp
next
  case (Suc n)
  then show ?case
    by (simp add: funpow_swap1 fun_upd_same fun_upd_upd del: fun_upd_apply)
qed

lemma funpow_5: "(f ^^ 5) x = f (f (f (f (f x))))" and funpow_4: "(f ^^ 4) x = f (f (f (f x)))"
  and funpow_3: "(f ^^ 3) x = f (f (f x))"
  by (simp_all add: eval_nat_numeral)

text \<open>With the memory at rest, one round of the loop passes one node.\<close>

lemma search_round:
  assumes pc: "r_pc r = R_key" and y: "cur r \<noteq> NULL" and g: "cur_gc r = gc (node s (cur r))"
  shows "\<exists>m\<le>5. \<exists>r'. (search_step v s ^^ m) r = advance v r' \<and> cur r' = cur r \<and> r_key r' = r_key r \<and>
    cur_key r' = keyof s (cur r) \<and> next_node r' = nxt (node s (cur r)) \<and>
    (nxt (node s (cur r)) \<noteq> NULL \<longrightarrow> next_gc r' = gc (node s (nxt (node s (cur r)))))"
proof (cases "nxt (node s (cur r)) = NULL")
  case True
  let ?r = "r\<lparr>cur_key := keyof s (cur r), next_node := NULL, r_pc := R_chk_gc\<rparr>"
  have "(search_step v s ^^ 4) r = advance v ?r"
    unfolding funpow_4 using pc y g True by (simp add: search_step_def deref_def mem_simps)
  then show ?thesis using True by (intro exI [of _ 4] conjI exI [of _ ?r]) simp_all
next
  case False
  let ?n = "nxt (node s (cur r))"
  let ?r = "r\<lparr>cur_key := keyof s (cur r), next_node := ?n, next_gc := gc (node s ?n), r_pc := R_chk_gc\<rparr>"
  have "(search_step v s ^^ 5) r = advance v ?r"
    unfolding funpow_5 using pc y g False by (simp add: search_step_def deref_def mem_simps)
  then show ?thesis using False by (intro exI [of _ 5] conjI exI [of _ ?r]) simp_all
qed

lemma search_loop_alone:
  assumes "chain (nxts s) (cur r) ys NULL" and "ys \<noteq> []" and "sorted_wrt (<) (map (keyof s) ys)"
    and "r_pc r = R_key" and "cur_gc r = gc (node s (cur r))"
  shows "\<exists>m\<le>5 * length ys. r_pc ((search_step v s ^^ m) r) =
    R_ret (if r_key r \<in> keys_of s ys then 1 else 0)"
  using assms
proof (induction ys arbitrary: r)
  case Nil
  then show ?case by simp
next
  case (Cons y ys)
  then have y: "cur r = y" "y \<noteq> NULL" and c: "chain (nxts s) (nxt (node s y)) ys NULL" by auto
  have gt: "\<forall>x\<in>set ys. keyof s y < keyof s x" using Cons.prems(3) by simp
  obtain m r' where m: "m \<le> 5" "(search_step v s ^^ m) r = advance v r'" "cur r' = y" "r_key r' = r_key r"
    "cur_key r' = keyof s y" "next_node r' = nxt (node s y)"
    "nxt (node s y) \<noteq> NULL \<longrightarrow> next_gc r' = gc (node s (nxt (node s y)))"
    using search_round [OF Cons.prems(4) _ Cons.prems(5), of v] y by auto
  show ?case
  proof (cases "r_key r \<le> keyof s y \<or> ys = []")
    case True
    have "r_key r \<notin> keys_of s ys" if "r_key r \<le> keyof s y" using gt that by (auto simp: keys_of_def)
    then have "r_pc (advance v r') = R_ret (if r_key r \<in> keys_of s (y # ys) then 1 else 0)"
      using True m c by (auto simp: advance_def Let_def)
    then show ?thesis using m(1,2) by (intro exI [of _ m]) simp
  next
    case False
    let ?r = "advance v r'"
    have "nxt (node s y) \<noteq> NULL" using c False by (cases ys) auto
    then have a: "r_pc ?r = R_key" "cur ?r = nxt (node s y)" "cur_gc ?r = gc (node s (cur ?r))"
      "r_key ?r = r_key r"
      using False m by (auto simp: advance_def Let_def)
    obtain m' where m': "m' \<le> 5 * length ys" "r_pc ((search_step v s ^^ m') ?r) =
        R_ret (if r_key r \<in> keys_of s ys then 1 else 0)"
      using Cons.IH [of ?r] a c False Cons.prems(3) by auto
    have "(search_step v s ^^ (m' + m)) r = (search_step v s ^^ m') ?r"
      using m(2) by (simp add: funpow_add)
    then show ?thesis using m' m(1) False by (intro exI [of _ "m' + m"]) auto
  qed
qed

lemma card_bucket_keys: "buckets s L \<Longrightarrow> card (bucket_keys s b) = length (L b)"
proof -
  assume B: "buckets s L"
  have "sorted_wrt (<) (map (keyof s) (L b))" by (rule buckets_sorted [OF B])
  then have "distinct (map (keyof s) (L b))" using strict_sorted_iff by blast
  then have "card (set (map (keyof s) (L b))) = length (map (keyof s) (L b))" by (rule distinct_card)
  then show ?thesis by (simp add: bucket_keys_eq [OF B] keys_of_def)
qed

lemma search_at_rest:
  assumes B: "buckets s L"
  shows "\<exists>m\<le>5 * length (L b) + 3. r_pc ((search_step v s ^^ m) (search_init k b)) =
    R_ret (if k \<in> bucket_keys s b then 1 else 0)"
proof -
  let ?r = "search_init k b"
  note ch = buckets_chain [OF B, of b]
  show ?thesis
  proof (cases "L b")
    case Nil
    then have "(search_step v s ^^ 1) ?r = ?r\<lparr>r_pc := R_ret 0\<rparr>"
      using ch by (simp add: search_step_def search_init_def)
    then show ?thesis using Nil by (intro exI [of _ 1]) (simp add: bucket_keys_eq [OF B])
  next
    case (Cons y ys)
    let ?r3 = "?r\<lparr>cur := y, cur_gc := gc (node s y), r_pc := R_key\<rparr>"
    have h: "heads s b = y" "y \<noteq> NULL" using ch Cons by auto
    have 3: "(search_step v s ^^ 3) ?r = ?r3"
      unfolding funpow_3 using h by (simp add: search_step_def search_init_def deref_def mem_simps)
    obtain m where m: "m \<le> 5 * length (L b)" "r_pc ((search_step v s ^^ m) ?r3) =
        R_ret (if k \<in> keys_of s (L b) then 1 else 0)"
      using search_loop_alone [of s ?r3 "L b" v] ch h(1) Cons buckets_sorted [OF B, of b]
      by (auto simp: search_init_def)
    have "(search_step v s ^^ (m + 3)) ?r = (search_step v s ^^ m) ?r3"
      unfolding funpow_add comp_def 3 ..
    then show ?thesis using m by (intro exI [of _ "m + 3"]) (simp add: bucket_keys_eq [OF B])
  qed
qed

text \<open>
  C3 (\<open>search\<close> is obstruction-free): if nobody else moves, wherever the updater
  was stopped, a search returns after at most five steps per node of the bucket
  and three more, with the membership of its key.
\<close>

theorem search_alone:
  assumes "sys_ok c" and r: "rds c i = search_init k b"
  shows "\<exists>m\<le>5 * card (bucket_keys (sh c) b) + 3.
    r_pc (rds (exec v (replicate m (Reader i)) c) i) = R_ret (if k \<in> bucket_keys (sh c) b then 1 else 0)"
proof -
  obtain L where "winv (sh c) (upd c) L" using assms(1) by (auto simp: sys_ok_def)
  then have B: "buckets (sh c) L" by (rule winvD(1))
  show ?thesis unfolding card_bucket_keys [OF B] exec_reader r
    using search_at_rest [OF B, of b v k] by simp
qed

section \<open>The updater on its own\<close>

definition wstep :: "alloc \<times> writer \<Rightarrow> alloc \<times> writer" where
  "wstep x = writer_step (fst x) (snd x)"

lemma exec_updater:
  "exec v (replicate n Updater) c = (case (wstep ^^ n) (sh c, upd c) of (s, w) \<Rightarrow> c\<lparr>sh := s, upd := w\<rparr>)"
proof (induction n arbitrary: c)
  case 0
  then show ?case by simp
next
  case (Suc n)
  obtain s w where st: "writer_step (sh c) (upd c) = (s, w)" by force
  then have "wstep (sh c, upd c) = (s, w)" by (simp add: wstep_def)
  then show ?case using Suc [of "c\<lparr>sh := s, upd := w\<rparr>"] st
    by (simp add: funpow_Suc_right del: funpow.simps)
qed

lemma lock_op_none [simp]: "lock_op none_wlock b s = Some s" "lock_op none_wunlock b s = Some s"
  by (simp_all add: lock_op_def none_wlock_def none_wunlock_def)

definition runs_to :: "alloc \<Rightarrow> writer \<Rightarrow> alloc \<Rightarrow> int \<Rightarrow> bool" where
  "runs_to s w s' x \<longleftrightarrow> (\<exists>n w'. (wstep ^^ n) (s, w) = (s', w') \<and> w_pc w' = W_idle \<and> w_ret w' = x)"

lemma runs_to_idle: "w_pc w = W_idle \<Longrightarrow> w_ret w = x \<Longrightarrow> runs_to s w s x"
  unfolding runs_to_def by (rule exI [of _ 0]) simp

lemma runs_to_step: "writer_step s w = (s1, w1) \<Longrightarrow> runs_to s1 w1 s' x \<Longrightarrow> runs_to s w s' x"
  proof -
  assume st: "writer_step s w = (s1, w1)" and "runs_to s1 w1 s' x"
  then obtain n w' where "(wstep ^^ n) (wstep (s, w)) = (s', w')" "w_pc w' = W_idle" "w_ret w' = x"
    by (auto simp: runs_to_def wstep_def)
  then show "runs_to s w s' x" unfolding runs_to_def
    by (intro exI [of _ "Suc n"] exI [of _ w']) (simp add: funpow_swap1)
qed


lemma delete_loop_machine:
  assumes "delete_loop u g f k b pr cu s = Some y"
    and "y = (x, s')" "u = none_wunlock" "\<not> g" "f = free_node_later"
    and "w_pc w = D_loop" "w_key w = k" "w_prev w = pr" "w_cur w = cu"
  shows "runs_to s w s' x"
  using assms
proof (induction u g f k b pr cu s y arbitrary: w rule: delete_loop.raw_induct [rotated, consumes 1, case_names 1])
  case (1 dl u g f k b pr cu s y)
  show ?case
  proof (cases "cu = NULL \<or> key (node s cu) \<noteq> k \<and> k \<le> key (node s cu)")
    case True
    then have "y = (0, s)" using 1 by (auto simp: mem_simps split: if_splits)
    moreover have "writer_step s w = (s, finish 0 w)" using True 1 by (auto simp: writer_step_def Let_def)
    moreover have "runs_to s (finish 0 w) s 0" by (rule runs_to_idle) (simp_all add: finish_def)
    ultimately show ?thesis using 1 by (auto intro: runs_to_step)
  next
    case False
    then have cu: "cu \<noteq> NULL" by simp
    show ?thesis
    proof (cases "key (node s cu) = k")
      case True
      obtain s1 s2 s3 where s: "set_loc pr (nxt (node s cu)) s = Some s1"
        "wr cu (\<lambda>m. m\<lparr>gc := gc m + 1\<rparr>) s1 = Some s2" "free_node cu s2 = Some s3" "y = (1, s3)"
        using 1 cu True by (auto simp: mem_simps bind_eq_Some_iff free_node_later_def split: if_splits)
      let ?w1 = "w\<lparr>w_pc := D_unlink\<rparr>"
      have st: "writer_step s w = (s, ?w1)" "writer_step s ?w1 = (s1, w\<lparr>w_pc := D_bump\<rparr>)"
        "writer_step s1 (w\<lparr>w_pc := D_bump\<rparr>) = (s2, w\<lparr>w_pc := D_free\<rparr>)"
        "writer_step s2 (w\<lparr>w_pc := D_free\<rparr>) = (s3, finish 1 w)"
        using s 1 cu True by (simp_all add: writer_step_def store_def finish_def)
      have "runs_to s3 (finish 1 w) s3 1" by (rule runs_to_idle) (simp_all add: finish_def)
      then have "runs_to s w s3 1" by (intro runs_to_step [OF st(1)] runs_to_step [OF st(2)]
            runs_to_step [OF st(3)] runs_to_step [OF st(4)])
      then show ?thesis using s(4) 1(3) by simp
    next
      case ne: False
      let ?w = "w\<lparr>w_prev := Next cu, w_cur := nxt (node s cu)\<rparr>"
      have "dl u g f k b (Next cu) (nxt (node s cu)) s = Some y"
        using 1(2) cu False ne by (auto simp: mem_simps split: if_splits)
      then have "runs_to s ?w s' x" by (rule 1(1)) (use 1 in simp_all)
      moreover have "writer_step s w = (s, ?w)" using 1 cu False ne by (auto simp: writer_step_def Let_def)
      ultimately show ?thesis by (rule runs_to_step [rotated])
    qed
  qed
qed

lemma insert_loop_machine:
  assumes "insert_loop k pr cu s = Some y"
    and "y = (dup, pr', cu')" 
    and "w_pc w = I_loop" "w_key w = k" "w_prev w = pr" "w_cur w = cu"
    and "runs_to s (if dup then finish 0 (w\<lparr>w_prev := pr', w_cur := cu'\<rparr>)
        else w\<lparr>w_prev := pr', w_cur := cu', w_pc := I_alloc\<rparr>) s' x"
  shows "runs_to s w s' x"
  using assms
proof (induction k pr cu s y arbitrary: w rule: insert_loop.raw_induct [rotated, consumes 1, case_names 1])
  case (1 il k pr cu s y)
  show ?case
  proof (cases "cu = NULL \<or> k \<le> key (node s cu)")
    case True
    have "y = (cu \<noteq> NULL \<and> key (node s cu) = k, pr, cu)"
      using True 1(2) by (auto simp: mem_simps split: if_splits)
    then have y: "dup = (cu \<noteq> NULL \<and> key (node s cu) = k)" "pr' = w_prev w" "cu' = w_cur w"
      using 1 by simp_all
    have w: "w\<lparr>w_prev := w_prev w, w_cur := w_cur w\<rparr> = w"
      "w\<lparr>w_prev := w_prev w, w_cur := w_cur w, w_pc := I_alloc\<rparr> = w\<lparr>w_pc := I_alloc\<rparr>"
      by simp_all
    have st: "writer_step s w = (s, if dup then finish 0 w else w\<lparr>w_pc := I_alloc\<rparr>)"
      using True 1 y by (auto simp: writer_step_def Let_def)
    have "runs_to s (if dup then finish 0 w else w\<lparr>w_pc := I_alloc\<rparr>) s' x"
      using 1(8) w unfolding y(2,3) by (simp split: if_splits)
    then show ?thesis by (rule runs_to_step [OF st])
  next
    case False
    let ?w = "w\<lparr>w_prev := Next cu, w_cur := nxt (node s cu)\<rparr>"
    have "il k (Next cu) (nxt (node s cu)) s = Some y"
      using 1(2) False by (auto simp: mem_simps split: if_splits)
    then have "runs_to s ?w s' x" by (rule 1(1)) (use 1 in \<open>simp_all add: finish_def split: if_splits\<close>)
    moreover have "writer_step s w = (s, ?w)" using 1 False by (auto simp: writer_step_def Let_def)
    ultimately show ?thesis by (rule runs_to_step [rotated])
  qed
qed

lemma insert_machine:
  assumes "insert_w none_wlock none_wunlock init_new_node k b s = Some (x, s')"
    and "w_pc w = I_loop" "w_key w = k" "w_prev w = Head b" "w_cur w = heads s b"
  shows "runs_to s w s' x"
proof -
  obtain dup pr cu where l: "insert_loop k (Head b) (heads s b) s = Some (dup, pr, cu)"
    using assms(1) by (auto simp: insert_w_def bind_eq_Some_iff)
  have "runs_to s (if dup then finish 0 (w\<lparr>w_prev := pr, w_cur := cu\<rparr>)
        else w\<lparr>w_prev := pr, w_cur := cu, w_pc := I_alloc\<rparr>) s' x"
  proof (cases dup)
    case True
    then show ?thesis using assms(1) l
      by (auto simp: insert_w_def finish_def intro: runs_to_idle)
  next
    case False
    let ?w = "w\<lparr>w_prev := pr, w_cur := cu\<rparr>"
    obtain n s1 s2 s3 where s: "init_new_node s = Some (n, s1)" "wr n (\<lambda>m. m\<lparr>key := k\<rparr>) s1 = Some s2"
      "wr n (\<lambda>m. m\<lparr>nxt := cu\<rparr>) s2 = Some s3" "set_loc pr n s3 = Some s'" "x = 1"
      using assms(1) l False by (auto simp: insert_w_def bind_eq_Some_iff)
    let ?w = "w\<lparr>w_prev := pr, w_cur := cu, w_new := n\<rparr>"
    have st: "writer_step s (w\<lparr>w_prev := pr, w_cur := cu, w_pc := I_alloc\<rparr>) = (s1, ?w\<lparr>w_pc := I_key\<rparr>)"
      "writer_step s1 (?w\<lparr>w_pc := I_key\<rparr>) = (s2, ?w\<lparr>w_pc := I_next\<rparr>)"
      "writer_step s2 (?w\<lparr>w_pc := I_next\<rparr>) = (s3, ?w\<lparr>w_pc := I_link\<rparr>)"
      "writer_step s3 (?w\<lparr>w_pc := I_link\<rparr>) = (s', finish 1 ?w)"
      using s assms(3) by (simp_all add: writer_step_def store_def finish_def)
    have "runs_to s' (finish 1 ?w) s' 1" by (rule runs_to_idle) (simp_all add: finish_def)
    then have "runs_to s (w\<lparr>w_prev := pr, w_cur := cu, w_pc := I_alloc\<rparr>) s' 1"
      by (intro runs_to_step [OF st(1)] runs_to_step [OF st(2)] runs_to_step [OF st(3)]
          runs_to_step [OF st(4)])
    then show ?thesis using False s(5) by simp
  qed
  then show ?thesis by (rule insert_loop_machine [OF l refl assms(2-5)])
qed

lemma runs_to_exec:
  assumes "runs_to (sh c) (upd c) s' x"
  shows "\<exists>n. sh (exec v (replicate n Updater) c) = s' \<and> rds (exec v (replicate n Updater) c) = rds c \<and>
    w_pc (upd (exec v (replicate n Updater) c)) = W_idle \<and> w_ret (upd (exec v (replicate n Updater) c)) = x"
proof -
  obtain n w' where "(wstep ^^ n) (sh c, upd c) = (s', w')" "w_pc w' = W_idle" "w_ret w' = x"
    using assms by (auto simp: runs_to_def)
  then show ?thesis by (intro exI [of _ n]) (simp add: exec_updater)
qed

lemma delete_machine:
  assumes "w_pc (upd c) = W_idle"
    and "delete none_wlock none_wunlock False free_node_later k b (sh c) = Some (x, s')"
  shows "\<exists>n. let c' = exec v (Start_delete k b # replicate n Updater) c in
    sh c' = s' \<and> rds c' = rds c \<and> w_pc (upd c') = W_idle \<and> w_ret (upd c') = x"
proof -
  let ?w = "start_delete k b (upd c)" and ?w2 = "start_delete k b (upd c)
      \<lparr>w_prev := Head b, w_cur := heads (sh c) b, w_pc := D_loop\<rparr>"
  have "runs_to (sh c) ?w s' x"
  proof (cases "heads (sh c) b = NULL")
    case True
    then have st: "writer_step (sh c) ?w = (sh c, finish 0 ?w)" "x = 0" "s' = sh c"
      using assms by (auto simp: start_delete_def writer_step_def delete_def)
    show ?thesis unfolding st(2,3)
      by (rule runs_to_step [OF st(1) runs_to_idle]) (simp_all add: finish_def)
  next
    case False
    then have "writer_step (sh c) ?w = (sh c, ?w2)"
      using assms by (simp add: start_delete_def writer_step_def)
    moreover have "runs_to (sh c) ?w2 s' x"
      by (rule delete_loop_machine [of none_wunlock False free_node_later k b "Head b" "heads (sh c) b"])
        (use assms False in \<open>simp_all add: delete_def start_delete_def\<close>)
    ultimately show ?thesis by (rule runs_to_step)
  qed
  then show ?thesis using runs_to_exec [of "c\<lparr>upd := ?w\<rparr>" s' x v] by (simp add: Let_def)
qed

lemma insert_machine_exec:
  assumes "w_pc (upd c) = W_idle"
    and "insert_w none_wlock none_wunlock init_new_node k b (sh c) = Some (x, s')"
  shows "\<exists>n. let c' = exec v (Start_insert k b # replicate n Updater) c in
    sh c' = s' \<and> rds c' = rds c \<and> w_pc (upd c') = W_idle \<and> w_ret (upd c') = x"
proof -
  have "runs_to (sh c) (start_insert (sh c) k b (upd c)) s' x"
    by (rule insert_machine) (use assms in \<open>simp_all add: start_insert_def\<close>)
  then show ?thesis using runs_to_exec [of "c\<lparr>upd := start_insert (sh c) k b (upd c)\<rparr>" s' x v]
    by (simp add: Let_def)
qed


text \<open>What a deletion does to the generations.\<close>

lemma delete_loop_gens:
  assumes B: "buckets s L" and R: "alloc_ok s (linked L)"
    and "L b = xs @ ys" "\<forall>x\<in>set xs. keyof s x < k"
    and "delete_loop none_wunlock False free_node_later k b (loc_of b xs)
      (if ys = [] then NULL else hd ys) s = Some (x, s')"
  shows "gc (node s' p) = gc (node s p) + (if p \<in> set (L b) \<and> keyof s p = k then 1 else 0)"
  using assms(3-)
proof (induction ys arbitrary: xs)
  case Nil
  then have "s' = s" by (subst (asm) delete_loop.simps) (simp add: lock_op_def none_wunlock_def)
  then show ?case using Nil by auto
next
  case (Cons y ys)
  have c: "chain (nxts s) (heads s b) (xs @ y # ys) NULL"
    using buckets_chain [OF B, of b] Cons.prems(1) by simp
  then have y: "y \<noteq> NULL" "y \<notin> set xs" and cy: "chain (nxts s) (nxt (node s y)) ys NULL"
    using chain_distinct [OF c] by (auto simp: chain_append)
  note nx = chain_hd [OF cy]
  have so: "sorted_wrt (<) (map (keyof s) (xs @ y # ys))"
    using buckets_sorted [OF B, of b] Cons.prems(1) by simp
  consider "k < keyof s y" | "keyof s y = k" | "keyof s y < k" by linarith
  then show ?case
  proof cases
    case 1
    then have "\<forall>x\<in>set (L b). keyof s x \<noteq> k"
      using so Cons.prems(1,2) by (auto simp: sorted_wrt_append)
    moreover have "s' = s" using Cons.prems(3) y 1
      by (subst (asm) delete_loop.simps) (simp add: lock_op_def none_wunlock_def mem_simps)
    ultimately show ?thesis by auto
  next
    case 2
    have "(p \<in> set (L b) \<and> keyof s p = k) = (p = y)"
      using so 2 Cons.prems(1,2) by (fastforce simp: sorted_wrt_append)
    moreover obtain s1 where s1: "set_loc (loc_of b xs) (nxt (node s y)) s = Some s1"
      using unlink_node [OF B Cons.prems(1)] by blast
    note eff = set_loc_effect [OF s1] and lk = linked_unlink [OF B Cons.prems(1)]
    have "alloc_ok s1 (insert y (linked (L(b := xs @ ys))))"
      using gecos.rinv_set_loc [OF s1 R] lk(1) by simp
    then obtain s2 where s2: "free_node_later y s1 = Some s2"
      "\<forall>q. gc (node s2 q) = (if q = y then gc (node s1 y) + 1 else gc (node s1 q))"
      using free_node_later_eff [OF _ lk(2,3)] by blast
    have "s' = s2" using Cons.prems(3) 2 y s1 s2(1)
      by (subst (asm) delete_loop.simps) (simp add: lock_op_def none_wunlock_def mem_simps)
    moreover have "gc (node s1 q) = gc (node s q)" for q
      using s1 by (cases "loc_of b xs") (auto simp: wr_def split: if_splits)
    ultimately show ?thesis using s2(2) by simp
  next
    case 3
    have "delete_loop none_wunlock False free_node_later k b (loc_of b xs) y s =
        delete_loop none_wunlock False free_node_later k b (loc_of b (xs @ [y]))
          (if ys = [] then NULL else hd ys) s"
      using y 3 nx by (subst delete_loop.simps) (simp add: mem_simps)
    then show ?thesis using Cons.IH [of "xs @ [y]"] Cons.prems 3 by simp
  qed
qed

lemma delete_gens:
  assumes ok: "writer_ok alloc_ok (\<lambda>_. True) s L"
    and d: "delete none_wlock none_wunlock False free_node_later k b s = Some (x, s')"
  shows "gc (node s' p) = gc (node s p) + (if p \<in> set (L b) \<and> keyof s p = k then 1 else 0)"
proof -
  have B: "buckets s L" and R: "alloc_ok s (linked L)" using ok by (auto simp: writer_ok_def)
  have h: "heads s b = (if L b = [] then NULL else hd (L b))"
    by (rule chain_hd [OF buckets_chain [OF B]])
  show ?thesis
  proof (cases "heads s b = NULL")
    case True
    then show ?thesis using d buckets_chain [OF B, of b] by (auto simp: delete_def)
  next
    case False
    then show ?thesis using delete_loop_gens [OF B R, of b "[]" "L b" k x s' p] d h
      by (simp add: delete_def lock_op_def none_wlock_def)
  qed
qed
lemma init_new_node_locks:
  "init_new_node (s\<lparr>locks := l\<rparr>) = map_option (\<lambda>(n, s). (n, s\<lparr>locks := l\<rparr>)) (init_new_node s)"
  by (simp add: init_new_node_def osa_new_node_def new_node_def get_free_def calloc_node_def steal_eq
      rd_def split: list.split)

text \<open>
  C15 (a deletion of the updater): in a reachable state with the updater idle, a
  deletion run on its own by steps of the updater's machine comes to its end and
  returns whether the key was in the bucket.  The key is gone from that bucket
  and every other key of every bucket is where it was; the node that held it has
  its generation bumped by one, once it is out of reach, and no other node's
  generation changes; readers are where they were.
\<close>

theorem updater_delete_set:
  assumes "sys_ok c" and "w_pc (upd c) = W_idle"
  shows "\<exists>n L. let c' = exec v (Start_delete k b # replicate n Updater) c in
    sys_ok c' \<and> w_pc (upd c') = W_idle \<and> w_ret (upd c') = (if k \<in> bucket_keys (sh c) b then 1 else 0) \<and>
    bucket_keys (sh c') = (bucket_keys (sh c))(b := bucket_keys (sh c) b - {k}) \<and>
    buckets (sh c) L \<and> (\<forall>p. gc (node (sh c') p) =
      gc (node (sh c) p) + (if p \<in> set (L b) \<and> keyof (sh c) p = k then 1 else 0)) \<and>
    rds c' = rds c"
proof -
  obtain L where L: "writer_ok alloc_ok (\<lambda>_. True) (sh c) L"
    using assms by (auto simp: sys_ok_def winv_def writer_ok_def held_def)
  then obtain s' where d: "delete none_wlock none_wunlock False free_node_later k b (sh c) =
      Some (if k \<in> bucket_keys (sh c) b then 1 else 0, s')"
    and s': "bucket_keys s' = (bucket_keys (sh c))(b := bucket_keys (sh c) b - {k})"
    using gecos.delete_set by blast
  have "buckets (sh c) L" using L by (simp add: writer_ok_def)
  moreover note delete_gens [OF L d]
  moreover obtain n where "let c' = exec v (Start_delete k b # replicate n Updater) c in
      sh c' = s' \<and> rds c' = rds c \<and> w_pc (upd c') = W_idle \<and>
      w_ret (upd c') = (if k \<in> bucket_keys (sh c) b then 1 else 0)"
    using delete_machine [OF assms(2) d] by blast
  ultimately show ?thesis using exec_ok [OF assms(1)] s' unfolding Let_def
    by (intro exI [of _ n] exI [of _ L]) (simp del: exec.simps)
qed

text \<open>
  (the same for insertions, unless the memory is exhausted): the bucket
  gains the key; with a NULL from the allocator the updater crashes.
\<close>

theorem updater_insert_set:
  assumes "sys_ok c" and "w_pc (upd c) = W_idle"
    and "k \<in> bucket_keys (sh c) b \<or> (\<forall>s. init_new_node (sh c) \<noteq> Some (NULL, s))"
  shows "\<exists>n. let c' = exec v (Start_insert k b # replicate n Updater) c in
    sys_ok c' \<and> w_pc (upd c') = W_idle \<and> w_ret (upd c') = (if k \<in> bucket_keys (sh c) b then 0 else 1) \<and>
    bucket_keys (sh c') = (bucket_keys (sh c))(b := insert k (bucket_keys (sh c) b))"
proof -
  obtain L where L: "writer_ok alloc_ok (\<lambda>_. True) (sh c) L"
    using assms by (auto simp: sys_ok_def winv_def writer_ok_def held_def)
  have "\<exists>s'. insert_w none_wlock none_wunlock init_new_node k b (sh c) =
      Some (if k \<in> bucket_keys (sh c) b then 0 else 1, s') \<and>
    bucket_keys s' = (bucket_keys (sh c))(b := insert k (bucket_keys (sh c) b))"
  proof (cases "k \<in> bucket_keys (sh c) b")
    case True
    then show ?thesis using gecos.insert_present_set [OF L True] by (auto simp: insert_absorb)
  next
    case False
    then have nn: "\<forall>s. init_new_node (sh c) \<noteq> Some (NULL, s)" using assms(3) by blast
    obtain l where l: "if \<exists>n s2. init_new_node ((sh c)\<lparr>locks := l\<rparr>) = Some (n, s2) \<and> n \<noteq> NULL
       then \<exists>s' L'. insert_w none_wlock none_wunlock init_new_node k b (sh c) = Some (1, s') \<and>
         writer_ok alloc_ok (\<lambda>_. True) s' L' \<and>
         bucket_keys s' = (bucket_keys (sh c))(b := insert k (bucket_keys (sh c) b))
       else insert_w none_wlock none_wunlock init_new_node k b (sh c) = None"
      using gecos.insert_absent_set [OF L False] by blast
    obtain n s2 where "init_new_node (sh c) = Some (n, s2)"
      using L new_node_ok [of "sh c" "linked L"]
      by (auto simp: writer_ok_def init_new_node_def osa_new_node_def)
    then have "\<exists>n s2. init_new_node ((sh c)\<lparr>locks := l\<rparr>) = Some (n, s2) \<and> n \<noteq> NULL"
      using nn by (auto simp: init_new_node_locks)
    then have "\<exists>s'. insert_w none_wlock none_wunlock init_new_node k b (sh c) = Some (1, s') \<and>
         bucket_keys s' = (bucket_keys (sh c))(b := insert k (bucket_keys (sh c) b))"
      using l by (simp only: if_True) blast
    then show ?thesis using False by auto
  qed
  then obtain n s' where "let c' = exec v (Start_insert k b # replicate n Updater) c in
      sh c' = s' \<and> rds c' = rds c \<and> w_pc (upd c') = W_idle \<and>
      w_ret (upd c') = (if k \<in> bucket_keys (sh c) b then 0 else 1)"
    "bucket_keys s' = (bucket_keys (sh c))(b := insert k (bucket_keys (sh c) b))"
    using insert_machine_exec [OF assms(2)] by blast
  then show ?thesis using exec_ok [OF assms(1)] unfolding Let_def by (intro exI [of _ n]) (simp del: exec.simps)
qed

section \<open>The relinking variant\<close>

lemma exec_eval: "exec v as c = d \<Longrightarrow> P d \<Longrightarrow> P (exec v as c)"
  by simp

lemma exec_eval_step: "sys_step v a c = c' \<Longrightarrow> exec v as c' = d \<Longrightarrow> exec v (a # as) c = d"
  by simp

text \<open>What evaluates a concrete schedule.\<close>

lemmas machine_eval = sys_step.simps writer_step_def search_step_def start_insert_def start_delete_def
  finish_def store_def init_new_node_def osa_new_node_def new_node_def get_free_def steal_eq
  calloc_node_def free_node_later_def free_node_def add_free_eq pushed_def flushed_def
  deref_def retry_def advance_def mem_simps set_loc.simps init_sys_def init_mem_def init_allocator_def prealloc_def
  init_writer_def search_init_def zero_node_def

text \<open>
  One node: a reader stops at it with its key unread, the updater unlinks it
  and bumps its generation, the reader goes on.
\<close>

definition back_schedule :: "actor list" where
  "back_schedule =
     [Start_insert 5 0, Updater, Updater, Updater, Updater, Updater,
      Reader 0, Reader 0, Reader 0, Start_delete 5 0, Updater, Updater, Updater, Updater,
      Reader 0, Reader 0, Reader 0, Reader 0, Reader 0]"

text \<open>
  C40 (a crash of the \<open>GECOS_B\<close> version): \<open>prev\<close> has no value before the first
  node was passed; if the node at the head is deleted and bumped while a reader
  is at it, the reader dereferences that \<open>prev\<close>.
\<close>

theorem gecos_b_faults:
  "r_pc (rds (exec GECOS_B back_schedule (init_sys [64] (\<lambda>_. search_init 5 0))) 0) = R_fault"
  unfolding back_schedule_def
  apply (rule exec_eval [where P = "\<lambda>c. r_pc (rds c 0) = R_fault"])
   apply ((rule exec_eval_step, (simp add: machine_eval Let_def; fail))+)
   apply (rule exec.simps(1))
  apply simp
  done

section \<open>Witnesses\<close>

text \<open>
  A reader looks for 5 and has read the head; the updater deletes 5, the only
  node, and inserts 9 into the same memory; the reader notices and starts over.
\<close>

definition reuse_schedule :: "actor list" where
  "reuse_schedule =
     [Start_insert 5 0, Updater, Updater, Updater, Updater, Updater,
      Reader 0, Reader 0, Reader 0,
      Start_delete 5 0, Updater, Updater, Updater, Updater, Updater,
      Start_insert 9 0, Updater, Updater, Updater, Updater, Updater,
      Reader 0, Reader 0, Reader 0, Reader 0,
      Reader 0, Reader 0, Reader 0, Reader 0, Reader 0, Reader 0, Reader 0]"

lemma reuse_run: "let r = rds (exec Default reuse_schedule (init_sys [64, 128] (\<lambda>_. search_init 5 0))) 0
    in r_pc r = R_ret 0 \<and> nbretry r = 1"
  unfolding reuse_schedule_def Let_def
  apply (rule exec_eval [where P = "\<lambda>c. r_pc (rds c 0) = R_ret 0 \<and> nbretry (rds c 0) = 1"])
   apply ((rule exec_eval_step, (simp add: machine_eval Let_def; fail))+)
   apply (rule exec.simps(1))
  apply simp
  done

lemma two_nodes_ok: "sys_ok (init_sys [64, 128] q)"
  by (rule init_sys_ok) simp_all

lemma search_linearizable_witness:
  "\<exists>c'\<in>set (visited Default reuse_schedule (init_sys [64, 128] (\<lambda>_. search_init 5 0))).
     (0 :: int) = (if 5 \<in> bucket_keys (sh c') 0 then 1 else 0)"
proof (rule search_linearizable [OF two_nodes_ok, where i = 0])
  show "r_pc (rds (exec Default reuse_schedule (init_sys [64, 128] (\<lambda>_. search_init 5 0))) 0) = R_ret 0"
    using reuse_run by (simp add: Let_def)
qed (simp_all add: init_sys_def reuse_schedule_def)

lemma search_never_faults_witness:
  "r_pc (rds (exec GECOS_R reuse_schedule (init_sys [64, 128] (\<lambda>_. search_init 5 0))) 0) \<noteq> R_fault"
  by (rule search_never_faults [OF two_nodes_ok]) (simp_all add: init_sys_def reuse_schedule_def)

lemma search_alone_witness:
  "\<exists>m\<le>5 * card (bucket_keys (sh (init_sys [64, 128] (\<lambda>_. search_init 5 0))) 0) + 3.
     r_pc (rds (exec GECOS_B (replicate m (Reader 0)) (init_sys [64, 128] (\<lambda>_. search_init 5 0))) 0) =
       R_ret (if 5 \<in> bucket_keys (sh (init_sys [64, 128] (\<lambda>_. search_init 5 0))) 0 then 1 else 0)"
  by (rule search_alone [OF two_nodes_ok]) (simp add: init_sys_def)

text \<open>A bucket with two nodes, one of which is deleted.\<close>

definition two_keys :: sys where
  "two_keys = exec Default [Start_insert 5 0, Updater, Updater, Updater, Updater, Updater,
     Start_insert 9 0, Updater, Updater, Updater, Updater, Updater, Updater]
     (init_sys [64, 128] (\<lambda>_. search_init 5 0))"

lemma two_keys_eval: "w_pc (upd two_keys) = W_idle \<and> heads (sh two_keys) = (\<lambda>_. NULL)(0 := 64) \<and>
    key (node (sh two_keys) 64) = 5 \<and> key (node (sh two_keys) 128) = 9 \<and>
    nxt (node (sh two_keys) 64) = 128 \<and> nxt (node (sh two_keys) 128) = NULL"
  unfolding two_keys_def
  apply (rule exec_eval [where P = "\<lambda>c. w_pc (upd c) = W_idle \<and> heads (sh c) = (\<lambda>_. NULL)(0 := 64) \<and>
    key (node (sh c) 64) = 5 \<and> key (node (sh c) 128) = 9 \<and>
    nxt (node (sh c) 64) = 128 \<and> nxt (node (sh c) 128) = NULL"])
   apply ((rule exec_eval_step, (simp add: machine_eval Let_def; fail))+)
   apply (rule exec.simps(1))
  apply (simp add: fun_eq_iff)
  done

lemma two_keys_ok: "sys_ok two_keys"
  unfolding two_keys_def by (rule exec_ok [OF two_nodes_ok])

lemma updater_delete_set_witness:
  "\<exists>n. let c' = exec Default (Start_delete 5 0 # replicate n Updater) two_keys in
     w_pc (upd c') = W_idle \<and> w_ret (upd c') = 1 \<and> bucket_keys (sh c') 0 = {9} \<and>
     gc (node (sh c') 64) = gc (node (sh two_keys) 64) + 1 \<and>
     gc (node (sh c') 128) = gc (node (sh two_keys) 128)"
proof -
  note e = two_keys_eval
  obtain n L where L: "let c' = exec Default (Start_delete 5 0 # replicate n Updater) two_keys in
    sys_ok c' \<and> w_pc (upd c') = W_idle \<and>
    w_ret (upd c') = (if 5 \<in> bucket_keys (sh two_keys) 0 then 1 else 0) \<and>
    bucket_keys (sh c') = (bucket_keys (sh two_keys))(0 := bucket_keys (sh two_keys) 0 - {5}) \<and>
    buckets (sh two_keys) L \<and> (\<forall>p. gc (node (sh c') p) =
      gc (node (sh two_keys) p) + (if p \<in> set (L 0) \<and> keyof (sh two_keys) p = 5 then 1 else 0)) \<and>
    rds c' = rds two_keys"
    using updater_delete_set [OF two_keys_ok, of Default 5 0] e by blast
  then have B: "buckets (sh two_keys) L" by (simp add: Let_def)
  have "chain (nxts (sh two_keys)) 64 [64, 128] NULL" using e by simp
  then have "L 0 = [64, 128]" using buckets_chain [OF B, of 0] e chain_unique by fastforce
  moreover from this have "bucket_keys (sh two_keys) 0 = {5, 9}"
    using e by (simp add: bucket_keys_eq [OF B])
  ultimately show ?thesis using L e by (intro exI [of _ n]) (simp add: Let_def insert_Diff_if)
qed

lemma updater_insert_set_witness:
  "\<exists>n. let c' = exec Default (Start_insert 5 0 # replicate n Updater) (init_sys [64, 128] (\<lambda>_. search_init 5 0)) in
     sys_ok c' \<and> w_pc (upd c') = W_idle \<and>
     w_ret (upd c') = (if 5 \<in> bucket_keys (init_mem [64, 128]) 0 then 0 else 1) \<and>
     bucket_keys (sh c') = (bucket_keys (init_mem [64, 128]))(0 := insert 5 (bucket_keys (init_mem [64, 128]) 0))"
proof -
  have "init_new_node (init_mem [64, 128]) \<noteq> Some (NULL, s)" for s by (simp add: machine_eval)
  then show ?thesis using updater_insert_set [OF two_nodes_ok, of "\<lambda>_. search_init 5 0" 5 0 Default]
    by (simp add: init_sys_def init_writer_def)
qed

end
