(* ===== verification/Sgecos.thy ===== *)
theory Sgecos imports Gecos_Search begin

text \<open>
  \<open>list_sgecos.c\<close>: one generation per bucket, kept in the bucket's lock word.  A
  deletion bumps it between unlinking and freeing the node; an insertion does
  not; a search starts over whenever it moved.  First the sequential
  \<open>delete\<close> and \<open>insert\<close>, then the machine of one updater and any number of
  concurrent readers.  The updater's accesses are those of \<open>writer_step\<close>, with
  the bump going to the lock word of the bucket.
\<close>

section \<open>The sequential operations\<close>

definition bump_lock :: "nat \<Rightarrow> 'w mem_scheme \<Rightarrow> 'w mem_scheme" where
  "bump_lock b s = s\<lparr>locks := (locks s)(b := locks s b + 1)\<rparr>"

partial_function (option) sg_delete_loop ::
    "int \<Rightarrow> nat \<Rightarrow> loc \<Rightarrow> ptr \<Rightarrow> 'w alloc_scheme \<Rightarrow> (int \<times> 'w alloc_scheme) option" where
  "sg_delete_loop k b prev c s =
     (if c = NULL then Some (0, s)
      else do {
        n \<leftarrow> rd s c;
        if k \<le> key n then
          if key n \<noteq> k then Some (0, s)
          else do {
            s \<leftarrow> set_loc prev (nxt n) s;
            s \<leftarrow> free_node c (bump_lock b s);
            Some (1, s)
          }
        else sg_delete_loop k b (Next c) (nxt n) s
      })"

definition sg_delete :: "int \<Rightarrow> nat \<Rightarrow> 'w alloc_scheme \<Rightarrow> (int \<times> 'w alloc_scheme) option" where
  "sg_delete k b s = sg_delete_loop k b (Head b) (heads s b) s"

definition sg_insert :: "int \<Rightarrow> nat \<Rightarrow> 'w alloc_scheme \<Rightarrow> (int \<times> 'w alloc_scheme) option" where
  "sg_insert k b s = do {
     (dup, prev, c) \<leftarrow> insert_loop k (Head b) (heads s b) s;
     if dup then Some (0, s)
     else do {
       (new, s) \<leftarrow> new_node s;
       s \<leftarrow> wr new (\<lambda>n. n\<lparr>key := k\<rparr>) s;
       s \<leftarrow> wr new (\<lambda>n. n\<lparr>nxt := c\<rparr>) s;
       s \<leftarrow> set_loc prev new s;
       Some (1, s)
     }
   }"

section \<open>The machine\<close>

datatype spc = S_start | S_head | S_key | S_next | S_chk | S_fault | S_ret int

record sreader =
  s_key :: int
  s_bucket :: nat
  s_pc :: spc
  lgc :: u64
  s_cur :: ptr
  s_next :: ptr
  s_cur_key :: int
  s_nbretry :: nat

definition sg_init :: "int \<Rightarrow> nat \<Rightarrow> sreader" where
  "sg_init k b = \<lparr>s_key = k, s_bucket = b, s_pc = S_start, lgc = 0, s_cur = NULL, s_next = NULL,
     s_cur_key = 0, s_nbretry = 0\<rparr>"

definition sg_search_step :: "'w mem_scheme \<Rightarrow> sreader \<Rightarrow> sreader" where
  "sg_search_step s r = (case s_pc r of
     S_start \<Rightarrow> r\<lparr>lgc := locks s (s_bucket r), s_pc := S_head\<rparr>
   | S_head \<Rightarrow>
       (let c = heads s (s_bucket r) in
        r\<lparr>s_cur := c, s_pc := (if c = NULL then S_ret 0 else S_key)\<rparr>)
   | S_key \<Rightarrow> (case rd s (s_cur r) of
       None \<Rightarrow> r\<lparr>s_pc := S_fault\<rparr>
     | Some n \<Rightarrow> r\<lparr>s_cur_key := key n, s_pc := S_next\<rparr>)
   | S_next \<Rightarrow> (case rd s (s_cur r) of
       None \<Rightarrow> r\<lparr>s_pc := S_fault\<rparr>
     | Some n \<Rightarrow> r\<lparr>s_next := nxt n, s_pc := S_chk\<rparr>)
   | S_chk \<Rightarrow>
       if lgc r \<noteq> locks s (s_bucket r) then r\<lparr>s_nbretry := s_nbretry r + 1, s_pc := S_start\<rparr>
       else if s_key r \<le> s_cur_key r then
         r\<lparr>s_pc := S_ret (if s_cur_key r = s_key r then 1 else 0)\<rparr>
       else r\<lparr>s_cur := s_next r, s_pc := (if s_next r = NULL then S_ret 0 else S_key)\<rparr>
   | S_fault \<Rightarrow> r
   | S_ret x \<Rightarrow> r)"

definition sg_writer_step :: "'w alloc_scheme \<Rightarrow> writer \<Rightarrow> 'w alloc_scheme \<times> writer" where
  "sg_writer_step s w =
     (if w_pc w = D_bump then (bump_lock (w_bucket w) s, w\<lparr>w_pc := D_free\<rparr>) else writer_step s w)"

record sg_sys =
  sg_sh :: alloc
  sg_upd :: writer
  sg_rds :: "nat \<Rightarrow> sreader"

fun sg_step :: "actor \<Rightarrow> sg_sys \<Rightarrow> sg_sys" where
  "sg_step (Start_delete k b) c = c\<lparr>sg_upd := start_delete k b (sg_upd c)\<rparr>"
| "sg_step (Start_insert k b) c = c\<lparr>sg_upd := start_insert (sg_sh c) k b (sg_upd c)\<rparr>"
| "sg_step Updater c =
     (case sg_writer_step (sg_sh c) (sg_upd c) of (s, w) \<Rightarrow> c\<lparr>sg_sh := s, sg_upd := w\<rparr>)"
| "sg_step (Reader i) c = c\<lparr>sg_rds := (sg_rds c)(i := sg_search_step (sg_sh c) (sg_rds c i))\<rparr>"
| "sg_step (Start_search i k b) c = (case s_pc (sg_rds c i) of
     S_ret x \<Rightarrow> c\<lparr>sg_rds := (sg_rds c)(i := sg_init k b)\<rparr>
   | _ \<Rightarrow> c)"

primrec sg_exec :: "actor list \<Rightarrow> sg_sys \<Rightarrow> sg_sys" where
  "sg_exec [] c = c"
| "sg_exec (a # as) c = sg_exec as (sg_step a c)"

primrec sg_visited :: "actor list \<Rightarrow> sg_sys \<Rightarrow> sg_sys list" where
  "sg_visited [] c = [c]"
| "sg_visited (a # as) c = c # sg_visited as (sg_step a c)"

definition sg_ok :: "sg_sys \<Rightarrow> bool" where
  "sg_ok c \<longleftrightarrow> (\<exists>L. winv (sg_sh c) (sg_upd c) L)"

section \<open>Sequential correctness\<close>

definition sg_list_ok :: "'w alloc_scheme \<Rightarrow> (nat \<Rightarrow> ptr list) \<Rightarrow> bool" where
  "sg_list_ok s L \<longleftrightarrow> buckets s L \<and> alloc_ok s (linked L)"

lemma sg_delete_loop_found:
  assumes "chain (nxts s) c ys NULL" and "insert_loop k pr c s = Some (dup, pr', c')"
  shows "sg_delete_loop k b pr c s =
    (if dup then do {
       s \<leftarrow> set_loc pr' (nxt (node s c')) s;
       s \<leftarrow> free_node c' (bump_lock b s);
       Some (1, s)
     } else Some (0, s)) \<and> (dup \<longrightarrow> key (node s c') = k)"
  using assms
proof (induction ys arbitrary: c pr)
  case Nil
  then have "c = NULL" by simp
  then show ?case using Nil by (simp add: sg_delete_loop.simps insert_loop.simps [of k _ NULL])
next
  case (Cons y ys)
  then have c: "c = y" "y \<noteq> NULL" "chain (nxts s) (nxt (node s y)) ys NULL" by auto
  show ?case
  proof (cases "k \<le> keyof s y")
    case True
    then show ?thesis using Cons.prems(2) c
      by (subst sg_delete_loop.simps)
        (auto simp: mem_simps insert_loop.simps [of k _ y] split: if_splits)
  next
    case False
    then have "insert_loop k (Next y) (nxt (node s y)) s = Some (dup, pr', c')"
      using Cons.prems(2) c by (simp add: mem_simps insert_loop.simps [of k _ y])
    then show ?thesis using Cons.IH [OF c(3), of "Next y"] False c
      by (subst sg_delete_loop.simps) (simp add: mem_simps)
  qed
qed

lemma bump_lock_simps [simp]:
  "buckets (bump_lock b s) L \<longleftrightarrow> buckets s L" "node (bump_lock b s) = node s"
  "heads (bump_lock b s) = heads s" "locks (bump_lock b s) = (locks s)(b := locks s b + 1)"
  by (simp_all add: bump_lock_def)

lemma bump_lock_alloc: "alloc_ok s A \<Longrightarrow> alloc_ok (bump_lock b s) A"
  unfolding bump_lock_def by (rule gecos.rinv_locks)

lemma bump_lock_pool [simp]: "pool (bump_lock b s) = pool (s :: 'w alloc_scheme)"
  by (simp add: bump_lock_def)

lemma sg_delete_spec:
  assumes ok: "sg_list_ok s L"
  shows "\<exists>s'. sg_delete k b s = Some (if k \<in> keys_of s (L b) then 1 else 0, s') \<and>
    sg_list_ok s' (L(b := filter (\<lambda>p. keyof s p \<noteq> k) (L b))) \<and> keyof s' = keyof s \<and>
    locks s' = (if k \<in> keys_of s (L b) then (locks s)(b := locks s b + 1) else locks s)"
proof -
  have B: "buckets s L" and A: "alloc_ok s (linked L)" using ok by (simp_all add: sg_list_ok_def)
  obtain us vs where uv: "L b = us @ vs" "\<forall>x\<in>set us. keyof s x < k" "\<forall>x\<in>set vs. k \<le> keyof s x"
    and l: "insert_loop k (Head b) (heads s b) s =
      Some (k \<in> keys_of s (L b), loc_of b us, if vs = [] then NULL else hd vs)"
    using insert_loop_spec [OF buckets_chain [OF B] buckets_sorted [OF B, of b], of k b "[]"] by auto
  note D = sg_delete_loop_found [OF buckets_chain [OF B] l, of b]
  show ?thesis
  proof (cases "k \<in> keys_of s (L b)")
    case False
    then have "filter (\<lambda>p. keyof s p \<noteq> k) (L b) = L b" by (auto simp: keys_of_def filter_id_conv)
    then show ?thesis using D False ok by (simp add: sg_delete_def)
  next
    case True
    then obtain y ys where vs: "vs = y # ys" using uv by (cases vs) (auto simp: keys_of_def)
    have y: "keyof s y = k" using D True vs by simp
    have L: "L b = us @ y # ys" using uv(1) vs by simp
    let ?L = "L(b := us @ ys)"
    have f: "filter (\<lambda>p. keyof s p \<noteq> k) (L b) = us @ ys"
      unfolding L by (rule filter_sorted_mid) (use buckets_sorted [OF B, of b] L y in simp_all)
    obtain s1 where s1: "set_loc (loc_of b us) (nxt (node s y)) s = Some s1" "buckets s1 ?L"
      using unlink_node [OF B L] by blast
    note lk = linked_unlink [OF B L] and eff = set_loc_effect [OF s1(1)]
    have "alloc_ok (bump_lock b s1) (insert y (linked ?L))"
      using bump_lock_alloc [OF gecos.rinv_set_loc [OF s1(1) A]] lk(1) by simp
    then obtain s2 where s2: "free_node y (bump_lock b s1) = Some s2" "alloc_ok s2 (linked ?L)"
      "mr_only (bump_lock b s1) s2"
      using free_node_ok lk(2) by blast
    have "buckets s2 ?L" using s1(2) by (intro buckets_keeps [OF _ mr_only_keeps [OF s2(3)]]) simp
    moreover have "keyof s2 = keyof s" using mr_only_node(1) [OF s2(3)] eff(1) by (simp add: fun_eq_iff)
    moreover have "locks s2 = (locks s)(b := locks s b + 1)" using s2(3) eff(2) by (simp add: mr_only_def)
    moreover have "sg_delete k b s = Some (1, s2)"
      using D True s1(1) s2(1) vs by (simp add: sg_delete_def)
    ultimately show ?thesis using True f s2(2) by (simp add: sg_list_ok_def)
  qed
qed

lemma sg_insert_spec:
  assumes ok: "sg_list_ok s L"
  shows "if k \<in> keys_of s (L b) then sg_insert k b s = Some (0, s)
    else \<exists>n s1. new_node s = Some (n, s1) \<and>
      (if n = NULL then sg_insert k b s = None
       else \<exists>s' us vs. sg_insert k b s = Some (1, s') \<and> L b = us @ vs \<and> n \<notin> linked L \<and>
         sg_list_ok s' (L(b := us @ n # vs)) \<and> keyof s' n = k \<and>
         (\<forall>p\<in>linked L. keyof s' p = keyof s p) \<and> locks s' = locks s)"
proof -
  have B: "buckets s L" and A: "alloc_ok s (linked L)" using ok by (simp_all add: sg_list_ok_def)
  obtain us vs where uv: "L b = us @ vs" "\<forall>x\<in>set us. keyof s x < k" "\<forall>x\<in>set vs. k \<le> keyof s x"
    and l: "insert_loop k (Head b) (heads s b) s =
      Some (k \<in> keys_of s (L b), loc_of b us, if vs = [] then NULL else hd vs)"
    using insert_loop_spec [OF buckets_chain [OF B] buckets_sorted [OF B, of b], of k b "[]"] by auto
  show ?thesis
  proof (cases "k \<in> keys_of s (L b)")
    case True
    then show ?thesis using l by (simp add: sg_insert_def)
  next
    case False
    obtain n s1 where n: "new_node s = Some (n, s1)" "keeps (linked L) s s1"
      "if n = NULL then alloc_ok s1 (linked L) else n \<notin> linked L \<and> alloc_ok s1 (insert n (linked L))"
      using new_node_ok [OF A] by blast
    show ?thesis
    proof (cases "n = NULL")
      case True
      then show ?thesis using False n(1) l by (simp add: sg_insert_def mem_simps)
    next
      case nn: False
      then have nl: "n \<notin> linked L" "alloc_ok s1 (insert n (linked L))" using n(3) by auto
      let ?c = "if vs = [] then NULL else hd vs"
      define s3 where "s3 = s1\<lparr>node := (node s1)(n := (node s1 n)\<lparr>key := k, nxt := ?c\<rparr>)\<rparr>"
      have B3: "buckets s3 L"
        unfolding s3_def by (rule buckets_unlinked [OF buckets_keeps [OF B n(2)] nl(1)])
      have A3: "alloc_ok s3 (insert n (linked L))" unfolding s3_def using nl(2) by (rule alloc_ok_node) auto
      have k3: "keyof s3 x = keyof s x" if "x \<in> linked L" for x
        using that n(2) nl(1) by (auto simp: s3_def keeps_def)
      have lt: "\<forall>x\<in>set us. keyof s3 x < keyof s3 n" "\<forall>x\<in>set vs. keyof s3 n < keyof s3 x"
        using uv False k3 linkedI [of _ L b] by (force simp: s3_def keys_of_def)+
      obtain s4 where s4: "set_loc (loc_of b us) n s3 = Some s4" "buckets s4 (L(b := us @ n # vs))"
        using link_node [OF B3 uv(1) nl(1) nn _ lt] by (auto simp: s3_def)
      note eff = set_loc_effect [OF s4(1)]
      have "alloc_ok s4 (linked (L(b := us @ n # vs)))"
        using gecos.rinv_set_loc [OF s4(1) A3] linked_link [of L b, OF uv(1)] by simp
      moreover have "sg_insert k b s = Some (1, s4)"
        using False l n(1) nn s4(1) by (simp add: sg_insert_def mem_simps s3_def)
      moreover have "keyof s4 n = k" using fun_cong [OF eff(1), of n] by (simp add: s3_def)
      moreover have "\<forall>p\<in>linked L. keyof s4 p = keyof s p" using fun_cong [OF eff(1)] k3 by simp
      moreover have "locks s4 = locks s" using eff(2) n(2) by (simp add: s3_def keeps_def)
      ultimately show ?thesis using False nn n(1) nl(1) uv(1) s4(2) by (auto simp: sg_list_ok_def)
    qed
  qed
qed

section \<open>The updater's steps, as readers see them\<close>

lemma writer_step_locks:
  assumes inv: "winv s w L" and st: "writer_step s w = (s', w')"
  shows "locks s' = locks s"
proof -
  note W = winvD [OF inv]
  have set: "locks (fst (store (set_loc l v s) x s y)) = locks s" for l v x y
    using set_loc_effect(2) [of l v s] by (auto simp: store_def split: option.splits)
  have wr: "locks (fst (store (wr p f s) x s y)) = locks s" for p f x y
    by (auto simp: store_def wr_def)
  have "locks (fst (store (free_node (w_cur w) s) x s y)) = locks s" if "w_pc w = D_free" for x y
  proof -
    have "alloc_ok s (insert (w_cur w) (linked L))" "w_cur w \<notin> linked L"
      using W(2,3) that by (auto simp: held_def)
    then show ?thesis using free_node_ok [of s "w_cur w" "linked L"] by (auto simp: store_def mr_only_def)
  qed
  moreover have "locks s' = locks s" if "w_pc w = I_alloc"
  proof -
    have "alloc_ok s (linked L)" using W(2) that by (simp add: held_def)
    then show ?thesis using new_node_ok [of s "linked L"] st that
      by (auto simp: writer_step_def init_new_node_def osa_new_node_def keeps_def)
  qed
  moreover have "s' = fst (writer_step s w)" using st by simp
  ultimately show ?thesis using set wr by (cases "w_pc w") (auto simp: writer_step_def)
qed

lemma sg_writer_step_inv:
  assumes inv: "winv s w L" and st: "sg_writer_step s w = (s', w')"
  shows "\<exists>L'. winv s' w' L' \<and> set (pool s') \<subseteq> set (pool s) \<and>
    locks s' = (if w_pc w = D_bump then (locks s)(w_bucket w := locks s (w_bucket w) + 1) else locks s) \<and>
    (\<forall>p b. inlist w L b p \<and> (w_pc w = D_bump \<longrightarrow> w_bucket w \<noteq> b) \<longrightarrow>
       keyof s' p = keyof s p \<and> inlist w' L' b p)"
proof (cases "w_pc w = D_bump")
  case True
  let ?s = "bump_lock (w_bucket w) s"
  have st': "s' = ?s" "w' = w\<lparr>w_pc := D_free\<rparr>" using st True by (simp_all add: sg_writer_step_def)
  have "closed ?s" using winvD(4) [OF inv] by (simp add: closed_def)
  then have "winv s' w' L"
    using winvD [OF inv] bump_lock_alloc True by (simp add: winv_def st' held_def wpc_inv_def)
  then show ?thesis using True by (intro exI [of _ L]) (auto simp: st' inlist_def)
next
  case False
  then have st': "writer_step s w = (s', w')" using st by (simp add: sg_writer_step_def)
  obtain L' base' where x: "winv s' w' L'"
    "evolves s w L (\<lambda>p. gc (node s p)) (\<lambda>_. 0) s' w' L' base' (\<lambda>_. 0)"
    using writer_step_inv [OF inv _ st', of "\<lambda>p. gc (node s p)" "\<lambda>_. 0" 0] False
    by (auto simp: eras_def)
  have p: "p \<notin> set (pool s)" if "inlist w L b p" for p b
    using that winv_pool [OF inv] linkedI [of p L b] False by (auto simp: inlist_def)
  show ?thesis
    using x p False writer_step_locks [OF inv st'] unfolding evolves_def by (intro exI [of _ L']) simp
qed

section \<open>The invariant of a reader\<close>

text \<open>
  Ghost state: \<open>d b\<close> counts the bumps of bucket \<open>b\<close> since the start, \<open>n\<close> the steps.
  \<open>sampled\<close>: the reader read the generation of its bucket when it had been bumped
  \<open>e\<close> times.  \<open>placed\<close>: as long as it has not been bumped again, the node is in its
  place and its key decides what the search may answer.
\<close>

definition counts :: "(nat \<Rightarrow> u64) \<Rightarrow> (nat \<Rightarrow> nat) \<Rightarrow> nat \<Rightarrow> 'w mem_scheme \<Rightarrow> bool" where
  "counts base d n s \<longleftrightarrow> (\<forall>b. locks s b = base b + of_nat (d b) \<and> d b \<le> n)"

definition sampled :: "(nat \<Rightarrow> u64) \<Rightarrow> (nat \<Rightarrow> nat) \<Rightarrow> sreader \<Rightarrow> nat \<Rightarrow> bool" where
  "sampled base d r e \<longleftrightarrow> lgc r = base (s_bucket r) + of_nat e \<and> e \<le> d (s_bucket r)"

definition placed ::
    "'w alloc_scheme \<Rightarrow> writer \<Rightarrow> (nat \<Rightarrow> ptr list) \<Rightarrow> (nat \<Rightarrow> nat) \<Rightarrow> int set set \<Rightarrow> sreader \<Rightarrow>
     nat \<Rightarrow> ptr \<Rightarrow> bool" where
  "placed s w L d H r e p \<longleftrightarrow> p \<noteq> NULL \<and> p \<notin> set (pool s) \<and>
     evid s w L (\<lambda>_. d (s_bucket r)) H (s_key r) (s_bucket r) p e"

definition sg_key_read :: "'w mem_scheme \<Rightarrow> (nat \<Rightarrow> nat) \<Rightarrow> sreader \<Rightarrow> nat \<Rightarrow> bool" where
  "sg_key_read s d r e \<longleftrightarrow> (d (s_bucket r) = e \<longrightarrow> s_cur_key r = keyof s (s_cur r))"

definition sg_next_read ::
    "'w alloc_scheme \<Rightarrow> writer \<Rightarrow> (nat \<Rightarrow> ptr list) \<Rightarrow> (nat \<Rightarrow> nat) \<Rightarrow> int set set \<Rightarrow> sreader \<Rightarrow>
     nat \<Rightarrow> bool" where
  "sg_next_read s w L d H r e \<longleftrightarrow> s_next r \<notin> set (pool s) \<and>
     (d (s_bucket r) = e \<and> s_cur_key r < s_key r \<longrightarrow>
       (if s_next r = NULL then \<exists>K\<in>H. s_key r \<notin> K else placed s w L d H r e (s_next r)))"

definition sg_rd_inv ::
    "'w alloc_scheme \<Rightarrow> writer \<Rightarrow> (nat \<Rightarrow> ptr list) \<Rightarrow> (nat \<Rightarrow> u64) \<Rightarrow> (nat \<Rightarrow> nat) \<Rightarrow> int set set \<Rightarrow>
     sreader \<Rightarrow> bool" where
  "sg_rd_inv s w L base d H r \<longleftrightarrow> (case s_pc r of
       S_start \<Rightarrow> True
     | S_head \<Rightarrow> \<exists>e. sampled base d r e
     | S_key \<Rightarrow> \<exists>e. sampled base d r e \<and> placed s w L d H r e (s_cur r)
     | S_next \<Rightarrow> \<exists>e. sampled base d r e \<and> placed s w L d H r e (s_cur r) \<and> sg_key_read s d r e
     | S_chk \<Rightarrow> \<exists>e. sampled base d r e \<and> placed s w L d H r e (s_cur r) \<and> sg_key_read s d r e \<and>
         sg_next_read s w L d H r e
     | S_fault \<Rightarrow> False
     | S_ret x \<Rightarrow> (x = 1 \<and> (\<exists>K\<in>H. s_key r \<in> K)) \<or> (x = 0 \<and> (\<exists>K\<in>H. s_key r \<notin> K)))"

text \<open>What a step of somebody else does to these facts.\<close>

definition sg_evolves ::
    "'w alloc_scheme \<Rightarrow> writer \<Rightarrow> (nat \<Rightarrow> ptr list) \<Rightarrow> (nat \<Rightarrow> nat) \<Rightarrow>
     'w alloc_scheme \<Rightarrow> writer \<Rightarrow> (nat \<Rightarrow> ptr list) \<Rightarrow> (nat \<Rightarrow> nat) \<Rightarrow> bool" where
  "sg_evolves s w L d s' w' L' d' \<longleftrightarrow> set (pool s') \<subseteq> set (pool s) \<and> (\<forall>b. d b \<le> d' b) \<and>
     (\<forall>p b. d' b = d b \<longrightarrow> inlist w L b p \<longrightarrow> keyof s' p = keyof s p \<and> inlist w' L' b p)"

lemma placed_evolves:
  assumes ev: "sg_evolves s w L d s' w' L' d'" and H: "H \<subseteq> H'"
    and sm: "sampled base d r e" and pl: "placed s w L d H r e p"
  shows "sampled base d' r e" "placed s' w' L' d' H' r e p"
    "d' (s_bucket r) = e \<Longrightarrow> d (s_bucket r) = e \<and> keyof s' p = keyof s p"
proof -
  let ?b = "s_bucket r"
  have le: "e \<le> d ?b" "d ?b \<le> d' ?b" using sm ev by (simp_all add: sampled_def sg_evolves_def)
  show "sampled base d' r e" using sm le by (simp add: sampled_def)
  have same: "d ?b = e \<and> keyof s' p = keyof s p \<and> inlist w' L' ?b p" if "d' ?b = e"
  proof -
    have d: "d ?b = e" "d' ?b = d ?b" using that le by auto
    then have "inlist w L ?b p" using pl by (simp add: placed_def evid_def)
    then show ?thesis using ev d unfolding sg_evolves_def by metis
  qed
  then show "d' ?b = e \<Longrightarrow> d ?b = e \<and> keyof s' p = keyof s p" by blast
  have "evid s' w' L' (\<lambda>_. d' ?b) H' (s_key r) ?b p e"
    using pl H same unfolding placed_def evid_def by (auto 0 3)
  then show "placed s' w' L' d' H' r e p" using pl ev by (auto simp: placed_def sg_evolves_def)
qed

lemma sg_rd_inv_evolves:
  assumes ev: "sg_evolves s w L d s' w' L' d'" and H: "H \<subseteq> H'" and i: "sg_rd_inv s w L base d H r"
  shows "sg_rd_inv s' w' L' base d' H' r"
proof -
  have sm: "sampled base d' r e" if "sampled base d r e" for e
    using that ev by (force simp: sampled_def sg_evolves_def intro: order_trans)
  note P = placed_evolves [OF ev H]
  have kr: "sg_key_read s' d' r e"
    if "sampled base d r e" "placed s w L d H r e (s_cur r)" "sg_key_read s d r e" for e
    using that P(3) [OF that(1,2)] by (simp add: sg_key_read_def)
  have nr: "sg_next_read s' w' L' d' H' r e"
    if "sampled base d r e" "placed s w L d H r e (s_cur r)" "sg_next_read s w L d H r e" for e
    using that P(2,3) H ev unfolding sg_next_read_def by (auto simp: sg_evolves_def split: if_splits)
  show ?thesis
  proof (cases "s_pc r")
    case S_key
    then show ?thesis using i sm P(2) by (fastforce simp: sg_rd_inv_def)
  next
    case S_next
    then show ?thesis using i sm P(2) kr by (fastforce simp: sg_rd_inv_def)
  next
    case S_chk
    then show ?thesis using i sm P(2) kr nr by (fastforce simp: sg_rd_inv_def)
  next
    case (S_ret x)
    then show ?thesis using i H by (auto simp: sg_rd_inv_def)
  qed (use i sm in \<open>auto simp: sg_rd_inv_def\<close>)
qed

lemma sg_search_step_inv:
  assumes inv: "winv s w L" and e: "counts base d n s" "n < 2 ^ 64"
    and H: "bucket_keys s (s_bucket r) \<in> H" and i: "sg_rd_inv s w L base d H r"
  shows "sg_rd_inv s w L base d H (sg_search_step s r)"
proof (cases "s_pc r")
  case S_start
  then show ?thesis using e by (auto simp: sg_rd_inv_def sg_search_step_def sampled_def counts_def)
next
  case S_head
  let ?h = "heads s (s_bucket r)"
  have "s_key r \<notin> bucket_keys s (s_bucket r)" if "?h = NULL" using empty_bucket [OF inv that] by simp
  moreover have "placed s w L d H (r\<lparr>s_cur := ?h, s_pc := S_key\<rparr>) x ?h" if "?h \<noteq> NULL" for x
    using head_evid [OF inv that H] winv_heads(2) [OF inv] that by (simp add: placed_def)
  ultimately show ?thesis using S_head i H
    by (auto simp: sg_rd_inv_def sg_search_step_def sampled_def Let_def)
next
  case S_key
  then obtain x where x: "sampled base d r x" "placed s w L d H r x (s_cur r)"
    using i by (auto simp: sg_rd_inv_def)
  then show ?thesis using S_key
    by (auto simp: sg_rd_inv_def sg_search_step_def mem_simps sampled_def placed_def sg_key_read_def)
next
  case S_next
  then obtain x where x: "sampled base d r x" "placed s w L d H r x (s_cur r)" "sg_key_read s d r x"
    using i by (auto simp: sg_rd_inv_def)
  let ?n = "nxt (node s (s_cur r))"
  have c: "s_cur r \<noteq> NULL" "s_cur r \<notin> set (pool s)" using x(2) by (simp_all add: placed_def)
  then have np: "?n \<notin> set (pool s)" using winvD(4) [OF inv] by (simp add: closed_def)
  have "if ?n = NULL then \<exists>K\<in>H. s_key r \<notin> K else placed s w L d H r x ?n"
    if "d (s_bucket r) = x" "s_cur_key r < s_key r"
  proof -
    have "inlist w L (s_bucket r) (s_cur r)" using x(2) that by (simp add: placed_def evid_def)
    moreover have "keyof s (s_cur r) < s_key r" using x(3) that by (simp add: sg_key_read_def)
    ultimately show ?thesis
      using next_evid [OF inv _ _ H, of "s_cur r" "s_key r" "\<lambda>_. d (s_bucket r)" x] np
      by (simp add: placed_def)
  qed
  then have "sg_next_read s w L d H (r\<lparr>s_next := ?n, s_pc := S_chk\<rparr>) x"
    using np unfolding sg_next_read_def placed_def by auto
  then show ?thesis using S_next x c
    by (auto simp: sg_rd_inv_def sg_search_step_def mem_simps sampled_def placed_def sg_key_read_def)
next
  case S_chk
  then obtain x where x: "sampled base d r x" "placed s w L d H r x (s_cur r)" "sg_key_read s d r x"
    "sg_next_read s w L d H r x"
    using i by (auto simp: sg_rd_inv_def)
  show ?thesis
  proof (cases "lgc r = locks s (s_bucket r)")
    case False
    then show ?thesis using S_chk by (simp add: sg_rd_inv_def sg_search_step_def)
  next
    case True
    have "(of_nat x :: u64) = of_nat (d (s_bucket r))" "x \<le> n" "d (s_bucket r) \<le> n"
      using True x(1) e(1) unfolding sampled_def counts_def by (auto intro: order_trans)
    then have d: "d (s_bucket r) = x" using of_nat_u64_inj [of x "d (s_bucket r)"] e(2) by simp
    have k: "s_cur_key r = keyof s (s_cur r)" using x(3) d by (simp add: sg_key_read_def)
    have ev: "keyof s (s_cur r) = s_key r \<longrightarrow> (\<exists>K\<in>H. s_key r \<in> K)"
      "s_key r < keyof s (s_cur r) \<longrightarrow> (\<exists>K\<in>H. s_key r \<notin> K)"
      using x(2) d by (auto simp: placed_def evid_def)
    show ?thesis
    proof (cases "s_key r \<le> s_cur_key r")
      case le: True
      then show ?thesis using S_chk True ev k by (auto simp: sg_rd_inv_def sg_search_step_def)
    next
      case gt: False
      then show ?thesis using S_chk True x(1,4) d
        by (auto simp: sg_rd_inv_def sg_search_step_def sg_next_read_def sampled_def placed_def
            split: if_splits)
    qed
  qed
qed (use i in \<open>simp_all add: sg_search_step_def\<close>)

lemma sg_search_step_frame [simp]:
  "s_key (sg_search_step s r) = s_key r" "s_bucket (sg_search_step s r) = s_bucket r"
  by (auto simp: sg_search_step_def rd_def Let_def split: spc.splits)

section \<open>Whole executions\<close>

lemma sg_updater_evolves:
  assumes inv: "winv s w L" and e: "counts base d n s" and st: "sg_writer_step s w = (s', w')"
  shows "\<exists>L' d'. winv s' w' L' \<and> counts base d' (Suc n) s' \<and> sg_evolves s w L d s' w' L' d'"
proof -
  obtain L' where x: "winv s' w' L'" "set (pool s') \<subseteq> set (pool s)"
    "locks s' = (if w_pc w = D_bump then (locks s)(w_bucket w := locks s (w_bucket w) + 1) else locks s)"
    "\<forall>p b. inlist w L b p \<and> (w_pc w = D_bump \<longrightarrow> w_bucket w \<noteq> b) \<longrightarrow>
       keyof s' p = keyof s p \<and> inlist w' L' b p"
    using sg_writer_step_inv [OF inv st] by blast
  let ?d = "if w_pc w = D_bump then d(w_bucket w := Suc (d (w_bucket w))) else d"
  have "counts base ?d (Suc n) s'" using e x(3) by (auto simp: counts_def intro: le_SucI)
  moreover have "sg_evolves s w L d s' w' L' ?d" using x(2,4) by (auto simp: sg_evolves_def split: if_splits)
  ultimately show ?thesis using x(1) by blast
qed

lemma sg_evolves_still: "(\<And>b p. inlist w L b p \<Longrightarrow> inlist w' L b p) \<Longrightarrow> sg_evolves s w L d s w' L d"
  by (simp add: sg_evolves_def)

lemma sg_step_inv:
  assumes inv: "winv (sg_sh c) (sg_upd c) L" and e: "counts base d n (sg_sh c)" "n < 2 ^ 64"
    and H: "bucket_keys (sg_sh c) b \<in> H" and r: "sg_rd_inv (sg_sh c) (sg_upd c) L base d H (sg_rds c i)"
    and b: "s_bucket (sg_rds c i) = b" and a: "\<And>k b. a \<noteq> Start_search i k b"
    and c': "c' = sg_step a c"
  shows "\<exists>L' d'. winv (sg_sh c') (sg_upd c') L' \<and> counts base d' (Suc n) (sg_sh c') \<and>
    sg_rd_inv (sg_sh c') (sg_upd c') L' base d' (insert (bucket_keys (sg_sh c') b) H) (sg_rds c' i) \<and>
    s_bucket (sg_rds c' i) = b \<and> s_key (sg_rds c' i) = s_key (sg_rds c i)"
proof -
  have e': "counts base d (Suc n) (sg_sh c)" using e by (auto simp: counts_def intro: le_SucI)
  note up = sg_rd_inv_evolves [OF _ subset_insertI r]
  show ?thesis
  proof (cases a)
    case (Start_delete k' b')
    have "sg_evolves (sg_sh c) (sg_upd c) L d (sg_sh c) (start_delete k' b' (sg_upd c)) L d"
      by (rule sg_evolves_still) (auto simp: start_delete_def inlist_def)
    then show ?thesis unfolding c' Start_delete
      using start_delete_inv(1) [OF inv] up e' b by (simp del: fun_upd_apply) blast
  next
    case (Start_insert k' b')
    have "sg_evolves (sg_sh c) (sg_upd c) L d (sg_sh c) (start_insert (sg_sh c) k' b' (sg_upd c)) L d"
      by (rule sg_evolves_still) (auto simp: start_insert_def inlist_def)
    then show ?thesis unfolding c' Start_insert
      using start_insert_inv(1) [OF inv] up e' b by (simp del: fun_upd_apply) blast
  next
    case Updater
    obtain s' w' where st: "sg_writer_step (sg_sh c) (sg_upd c) = (s', w')" by force
    show ?thesis unfolding c' Updater
      using sg_updater_evolves [OF inv e(1) st] up b st by simp blast
  next
    case (Reader j)
    have "sg_rd_inv (sg_sh c) (sg_upd c) L base d H (sg_search_step (sg_sh c) (sg_rds c i))"
      using sg_search_step_inv [OF inv e _ r] H b by simp
    then have "sg_rd_inv (sg_sh c) (sg_upd c) L base d H (sg_rds c' i)"
      using r by (cases "i = j") (simp_all add: c' Reader)
    moreover have "sg_sh c' = sg_sh c" "sg_upd c' = sg_upd c" "s_bucket (sg_rds c' i) = b"
      "s_key (sg_rds c' i) = s_key (sg_rds c i)"
      using b by (auto simp: c' Reader)
    ultimately show ?thesis using inv e' H by (simp add: insert_absorb) blast
  next
    case (Start_search j k' b')
    then have "j \<noteq> i" using a by auto
    then have "sg_rds c' i = sg_rds c i" "sg_sh c' = sg_sh c" "sg_upd c' = sg_upd c"
      unfolding c' Start_search by (auto split: spc.splits)
    then show ?thesis using inv e' H r b by (auto simp: insert_absorb)
  qed
qed

lemma sg_exec_inv:
  assumes "winv (sg_sh c) (sg_upd c) L" and "counts base d n (sg_sh c)" and "n + length as < 2 ^ 64"
    and "bucket_keys (sg_sh c) b \<in> H" and "sg_rd_inv (sg_sh c) (sg_upd c) L base d H (sg_rds c i)"
    and "s_bucket (sg_rds c i) = b" and "\<And>k b. Start_search i k b \<notin> set as"
  shows "\<exists>L' d'. sg_rd_inv (sg_sh (sg_exec as c)) (sg_upd (sg_exec as c)) L' base d'
      (H \<union> (\<lambda>c. bucket_keys (sg_sh c) b) ` set (sg_visited as c)) (sg_rds (sg_exec as c) i) \<and>
    s_key (sg_rds (sg_exec as c) i) = s_key (sg_rds c i)"
  using assms
proof (induction as arbitrary: c L d n H)
  case Nil
  then show ?case by (auto simp: insert_absorb)
next
  case (Cons a as)
  let ?c = "sg_step a c"
  have "n < 2 ^ 64" "\<And>k b. a \<noteq> Start_search i k b" using Cons.prems(3,7) by auto
  then obtain L' d' where x: "winv (sg_sh ?c) (sg_upd ?c) L'" "counts base d' (Suc n) (sg_sh ?c)"
    "sg_rd_inv (sg_sh ?c) (sg_upd ?c) L' base d' (insert (bucket_keys (sg_sh ?c) b) H) (sg_rds ?c i)"
    "s_bucket (sg_rds ?c i) = b" "s_key (sg_rds ?c i) = s_key (sg_rds c i)"
    using sg_step_inv [OF Cons.prems(1,2) _ Cons.prems(4,5,6) _ refl] by blast
  have "bucket_keys (sg_sh ?c) b \<in> (\<lambda>c. bucket_keys (sg_sh c) b) ` set (sg_visited as ?c)"
    by (cases as) auto
  then have "insert (bucket_keys (sg_sh ?c) b) H \<union> (\<lambda>c. bucket_keys (sg_sh c) b) ` set (sg_visited as ?c)
      = H \<union> (\<lambda>c. bucket_keys (sg_sh c) b) ` set (sg_visited (a # as) c)"
    using Cons.prems(4) by auto
  then show ?case
    using Cons.IH [OF x(1,2) _ _ x(3,4)] Cons.prems(3,7) x(5) by simp
qed

end
