(* ===== verification/Sgecos_Properties.thy ===== *)
theory Sgecos_Properties imports Sgecos begin

text \<open>
  The properties of \<open>list_sgecos.c\<close>: its sequential operations act on the set a
  bucket stands for, and its optimistic search is linearizable and safe although
  an insertion does not move the generation.
\<close>

section \<open>The sequential operations\<close>

text \<open>
  (\<open>delete\<close>): it returns whether the key was in the bucket, takes it out of
  that bucket only, and moves the generation of the bucket exactly when it
  deleted.
\<close>

theorem sg_delete_set:
  assumes "sg_list_ok s L"
  shows "\<exists>s' L'. sg_delete k b s = Some (if k \<in> bucket_keys s b then 1 else 0, s') \<and> sg_list_ok s' L' \<and>
    bucket_keys s' = (bucket_keys s)(b := bucket_keys s b - {k}) \<and>
    locks s' = (if k \<in> bucket_keys s b then (locks s)(b := locks s b + 1) else locks s)"
proof -
  let ?L = "L(b := filter (\<lambda>p. keyof s p \<noteq> k) (L b))"
  have B: "buckets s L" using assms by (simp add: sg_list_ok_def)
  obtain s' where s': "sg_delete k b s = Some (if k \<in> keys_of s (L b) then 1 else 0, s')"
    "sg_list_ok s' ?L" "keyof s' = keyof s"
    "locks s' = (if k \<in> keys_of s (L b) then (locks s)(b := locks s b + 1) else locks s)"
    using sg_delete_spec [OF assms] by blast
  have B': "buckets s' ?L" using s'(2) by (simp add: sg_list_ok_def)
  have "bucket_keys s' c = ((bucket_keys s)(b := bucket_keys s b - {k})) c" for c
    unfolding bucket_keys_eq [OF B'] by (auto simp: bucket_keys_eq [OF B] keys_of_def fun_cong [OF s'(3)])
  then show ?thesis using s' by (auto simp: bucket_keys_eq [OF B])
qed

text \<open>
  (\<open>insert\<close>): it returns whether the key was absent and adds it to the bucket,
  leaving every generation alone, unless a node was needed and the memory is
  exhausted, where the store to the NULL node crashes.
\<close>

theorem sg_insert_set:
  assumes "sg_list_ok s L"
  shows "if k \<notin> bucket_keys s b \<and> (\<exists>s1. new_node s = Some (NULL, s1)) then sg_insert k b s = None
    else \<exists>s' L'. sg_insert k b s = Some (if k \<in> bucket_keys s b then 0 else 1, s') \<and> sg_list_ok s' L' \<and>
      bucket_keys s' = (bucket_keys s)(b := insert k (bucket_keys s b)) \<and> locks s' = locks s"
proof (cases "k \<in> bucket_keys s b")
  case True
  have "buckets s L" using assms by (simp add: sg_list_ok_def)
  then have "k \<in> keys_of s (L b)" using True bucket_keys_eq by blast
  then have "sg_insert k b s = Some (0, s)" using sg_insert_spec [OF assms, of k b] by simp
  then show ?thesis using True assms by (auto simp: insert_absorb)
next
  case False
  have B: "buckets s L" using assms by (simp add: sg_list_ok_def)
  then have "k \<notin> keys_of s (L b)" using False bucket_keys_eq by blast
  then obtain n s1 where n: "new_node s = Some (n, s1)"
    and r: "if n = NULL then sg_insert k b s = None
       else \<exists>s' us vs. sg_insert k b s = Some (1, s') \<and> L b = us @ vs \<and> n \<notin> linked L \<and>
         sg_list_ok s' (L(b := us @ n # vs)) \<and> keyof s' n = k \<and>
         (\<forall>p\<in>linked L. keyof s' p = keyof s p) \<and> locks s' = locks s"
    using sg_insert_spec [OF assms, of k b] by auto
  show ?thesis
  proof (cases "n = NULL")
    case True
    then show ?thesis using False n r by auto
  next
    case nn: False
    then obtain s' us vs where s': "sg_insert k b s = Some (1, s')" "L b = us @ vs"
      "sg_list_ok s' (L(b := us @ n # vs))" "keyof s' n = k" "\<forall>p\<in>linked L. keyof s' p = keyof s p"
      "locks s' = locks s"
      using r by auto
    have B': "buckets s' (L(b := us @ n # vs))" using s'(3) by (simp add: sg_list_ok_def)
    have e: "keys_of s' xs = keys_of s xs" if "set xs \<subseteq> linked L" for xs
      using s'(5) that unfolding keys_of_def by (intro image_cong) auto
    have sub: "set (L c) \<subseteq> linked L" "set us \<subseteq> linked L" "set vs \<subseteq> linked L" for c
      using s'(2) linked_split [of L b] by (auto simp: linkedI)
    have "bucket_keys s' c = ((bucket_keys s)(b := insert k (bucket_keys s b))) c" for c
      unfolding bucket_keys_eq [OF B'] using s'(2,4) sub by (simp add: bucket_keys_eq [OF B] e)
    then have "bucket_keys s' = (bucket_keys s)(b := insert k (bucket_keys s b))" by blast
    then show ?thesis using False n nn s'(1,3,6) by auto
  qed
qed

section \<open>The concurrent search\<close>

lemma sg_step_ok:
  assumes "sg_ok c"
  shows "sg_ok (sg_step a c)"
proof -
  obtain L where L: "winv (sg_sh c) (sg_upd c) L" using assms by (auto simp: sg_ok_def)
  show ?thesis
  proof (cases a)
    case Updater
    obtain s' w' where st: "sg_writer_step (sg_sh c) (sg_upd c) = (s', w')" by force
    then show ?thesis using sg_writer_step_inv [OF L st] Updater by (auto simp: sg_ok_def)
  next
    case (Start_insert k b)
    then show ?thesis using start_insert_inv(1) [OF L, of k b] by (auto simp: sg_ok_def)
  next
    case (Start_delete k b)
    then show ?thesis using start_delete_inv(1) [OF L, of k b] by (auto simp: sg_ok_def)
  qed (use L in \<open>auto simp: sg_ok_def split: spc.splits\<close>)
qed

lemma sg_exec_ok: "sg_ok c \<Longrightarrow> sg_ok (sg_exec as c)"
  by (induction as arbitrary: c) (auto intro: sg_step_ok)

lemma sg_search_exec:
  assumes ok: "sg_ok c" and r: "sg_rds c i = sg_init k b"
    and one: "\<And>k b. Start_search i k b \<notin> set as" and len: "length as < 2 ^ 64"
  shows "\<exists>L base d. sg_rd_inv (sg_sh (sg_exec as c)) (sg_upd (sg_exec as c)) L base d
      ((\<lambda>c. bucket_keys (sg_sh c) b) ` set (sg_visited as c)) (sg_rds (sg_exec as c) i) \<and>
    s_key (sg_rds (sg_exec as c) i) = k"
proof -
  obtain L where L: "winv (sg_sh c) (sg_upd c) L" using ok by (auto simp: sg_ok_def)
  let ?H = "{bucket_keys (sg_sh c) b}" and ?base = "locks (sg_sh c)"
  have "counts ?base (\<lambda>_. 0) 0 (sg_sh c)" by (simp add: counts_def)
  moreover have "sg_rd_inv (sg_sh c) (sg_upd c) L ?base (\<lambda>_. 0) ?H (sg_rds c i)"
    unfolding r by (simp add: sg_rd_inv_def sg_init_def)
  ultimately obtain L' d' where x: "sg_rd_inv (sg_sh (sg_exec as c)) (sg_upd (sg_exec as c)) L' ?base d'
      (?H \<union> (\<lambda>c. bucket_keys (sg_sh c) b) ` set (sg_visited as c)) (sg_rds (sg_exec as c) i)"
    "s_key (sg_rds (sg_exec as c) i) = s_key (sg_rds c i)"
    using sg_exec_inv [OF L, of ?base "\<lambda>_. 0" 0 as b ?H i] one len r by (auto simp: sg_init_def)
  moreover have "c \<in> set (sg_visited as c)" by (cases as) auto
  then have "?H \<union> (\<lambda>c. bucket_keys (sg_sh c) b) ` set (sg_visited as c)
      = (\<lambda>c. bucket_keys (sg_sh c) b) ` set (sg_visited as c)" by auto
  moreover have "s_key (sg_rds c i) = k" unfolding r by (simp add: sg_init_def)
  ultimately show ?thesis by metis
qed

text \<open>
  C4 (linearizability of the \<open>list_sgecos.c\<close> search): in any interleaving with
  the updater and other readers shorter than 2^64 steps, a search never dereferences
  NULL, and an answer it returned is the membership of its key at some moment of the
  search.
\<close>

theorem sg_search_linearizable:
  assumes "sg_ok c" and "sg_rds c i = sg_init k b"
    and "\<And>k b. Start_search i k b \<notin> set as" and "length as < 2 ^ 64"
  shows "let pc = s_pc (sg_rds (sg_exec as c) i) in pc \<noteq> S_fault \<and>
    (\<forall>x. pc = S_ret x \<longrightarrow>
       (\<exists>c'\<in>set (sg_visited as c). x = (if k \<in> bucket_keys (sg_sh c') b then 1 else 0)))"
  using sg_search_exec [OF assms] by (auto simp: sg_rd_inv_def Let_def)

section \<open>Witnesses\<close>

definition sg_mem :: "ptr list \<Rightarrow> alloc" where
  "sg_mem ps = init_allocator \<lparr>node = (\<lambda>_. zero_node), heads = (\<lambda>_. NULL), locks = (\<lambda>_. 0),
     pool = ps, freelist = NULL, frct = 0, lfl = NULL, lfl_tail = NULL, lcnt = 0,
     nbmallocs = 0, nbfl = 0\<rparr>"

definition sg_start :: "ptr list \<Rightarrow> (nat \<Rightarrow> sreader) \<Rightarrow> sg_sys" where
  "sg_start ps q = \<lparr>sg_sh = sg_mem ps,
     sg_upd = \<lparr>w_key = 0, w_bucket = 0, w_pc = W_idle, w_prev = Head 0, w_cur = NULL,
       w_new = NULL, w_ret = 0\<rparr>, sg_rds = q\<rparr>"

lemma sg_mem_ok:
  assumes "distinct ps" and "NULL \<notin> set ps"
  shows "sg_list_ok (sg_mem ps) (\<lambda>_. [])" "closed (sg_mem ps)"
proof -
  have "alloc_inv (sg_mem ps) {} [] []"
    using assms by (simp add: sg_mem_def init_allocator_def prealloc_def alloc_inv_def)
  then show "sg_list_ok (sg_mem ps) (\<lambda>_. [])"
    by (simp add: sg_list_ok_def alloc_ok_def buckets_def linked_def sg_mem_def init_allocator_def
        prealloc_def) blast
  show "closed (sg_mem ps)"
    using assms by (simp add: sg_mem_def init_allocator_def prealloc_def closed_def zero_node_def)
qed

lemma sg_start_ok: "sg_ok (sg_start [64, 128] q)"
  using sg_mem_ok [of "[64, 128]"] unfolding sg_ok_def sg_list_ok_def
  by (intro exI [of _ "\<lambda>_. []"]) (simp add: sg_start_def winv_def held_def wpc_inv_def)

text \<open>The run of the reader over a deletion and the reuse of the node.\<close>

definition sg_reuse_schedule :: "actor list" where
  "sg_reuse_schedule =
     [Start_insert 5 0, Updater, Updater, Updater, Updater, Updater, Reader 0, Reader 0,
      Start_delete 5 0, Updater, Updater, Updater, Updater, Updater,
      Start_insert 9 0, Updater, Updater, Updater, Updater, Updater,
      Reader 0, Reader 0, Reader 0, Reader 0, Reader 0, Reader 0, Reader 0, Reader 0]"

lemma sg_eval: "sg_exec as c = d \<Longrightarrow> P d \<Longrightarrow> P (sg_exec as c)"
  by simp

lemma sg_eval_step: "sg_step a c = c' \<Longrightarrow> sg_exec as c' = d \<Longrightarrow> sg_exec (a # as) c = d"
  by simp

lemmas sg_machine_eval = sg_writer_step_def writer_step_def sg_search_step_def start_insert_def
  start_delete_def finish_def store_def init_new_node_def osa_new_node_def new_node_def get_free_def
  steal_eq calloc_node_def free_node_def add_free_eq pushed_def flushed_def bump_lock_def mem_simps
  sg_start_def sg_mem_def init_allocator_def prealloc_def sg_init_def zero_node_def

lemma sg_reuse_run:
  "s_pc (sg_rds (sg_exec sg_reuse_schedule (sg_start [64, 128] (\<lambda>_. sg_init 5 0))) 0) = S_ret 0"
  unfolding sg_reuse_schedule_def
  apply (rule sg_eval [where P = "\<lambda>c. s_pc (sg_rds c 0) = S_ret 0"])
   apply ((rule sg_eval_step, (simp add: sg_machine_eval Let_def; fail))+)
   apply (rule sg_exec.simps(1))
  apply simp
  done

lemma sg_search_linearizable_witness:
  "\<exists>c'\<in>set (sg_visited sg_reuse_schedule (sg_start [64, 128] (\<lambda>_. sg_init 5 0))).
     (0 :: int) = (if 5 \<in> bucket_keys (sg_sh c') 0 then 1 else 0)"
proof -
  let ?c = "sg_start [64, 128] (\<lambda>_. sg_init 5 0)"
  have "sg_rds ?c 0 = sg_init 5 0" "length sg_reuse_schedule < 2 ^ 64" "Start_search 0 k b \<notin> set sg_reuse_schedule" for k b
    by (simp_all add: sg_start_def sg_reuse_schedule_def)
  then show ?thesis using sg_search_linearizable [OF sg_start_ok, of "\<lambda>_. sg_init 5 0" 0 5 0 sg_reuse_schedule] sg_reuse_run
    unfolding Let_def by blast
qed

lemma sg_delete_set_witness:
  "\<exists>s' L'. sg_delete 5 0 (sg_mem [64]) = Some (if 5 \<in> bucket_keys (sg_mem [64]) 0 then 1 else 0, s') \<and>
     sg_list_ok s' L'"
  using sg_delete_set [OF sg_mem_ok(1), of "[64]" 5 0] by auto

lemma sg_insert_set_witness:
  "\<exists>s' L'. sg_insert 5 0 (sg_mem [64]) = Some (1, s') \<and> sg_list_ok s' L' \<and> bucket_keys s' 0 = {5}"
proof -
  have "bucket_keys (sg_mem [64]) = (\<lambda>_. {})"
    using bucket_keys_eq [of "sg_mem [64]" "\<lambda>_. []"] sg_mem_ok(1) [of "[64]"]
    by (simp add: fun_eq_iff sg_list_ok_def)
  moreover have "new_node (sg_mem [64]) \<noteq> Some (NULL, s)" for s by (simp add: sg_machine_eval)
  ultimately show ?thesis using sg_insert_set [OF sg_mem_ok(1), of "[64]" 5 0] by auto
qed

end
