(* ===== verification/List_Lock.thy ===== *)
theory List_Lock imports Gecos Lock_Properties begin

text \<open>
  \<open>list_lock.c\<close>: the list under a bucket lock.  With a mutual exclusion lock
  (\<open>LSPIN\<close>, \<open>RWLOCK\<close>, \<open>LOCK_CLASSIC\<close>) a search holds the lock; with an optimistic one
  (\<open>SEQLOCK\<close>, \<open>GCLOCK\<close>) it validates at every node and starts over.  A deleted node
  is freed at once.  The definitions take the lock macros as arguments; the
  searches are modelled as calls that run undisturbed.
\<close>

section \<open>Definitions\<close>

text \<open>The search under a lock that readers hold; \<open>lock_validate\<close> is empty.\<close>

partial_function (option) lk_search_loop ::
    "(u64 \<Rightarrow> u64 option) \<Rightarrow> int \<Rightarrow> nat \<Rightarrow> ptr \<Rightarrow> 'w mem_scheme \<Rightarrow> (int \<times> 'w mem_scheme) option" where
  "lk_search_loop runlock k b c s =
     (if c = NULL then do { s \<leftarrow> lock_op runlock b s; Some (0, s) }
      else do {
        n \<leftarrow> rd s c;
        if k \<le> key n then do {
          s \<leftarrow> lock_op runlock b s;
          Some (if key n = k then 1 else 0, s)
        } else lk_search_loop runlock k b (nxt n) s
      })"

definition lk_search ::
    "(u64 \<Rightarrow> u64 option) \<Rightarrow> (u64 \<Rightarrow> u64 option) \<Rightarrow> int \<Rightarrow> nat \<Rightarrow> 'w mem_scheme \<Rightarrow>
     (int \<times> 'w mem_scheme) option" where
  "lk_search rlock runlock k b s = do {
     s \<leftarrow> lock_op rlock b s;
     lk_search_loop runlock k b (heads s b) s
   }"

text \<open>
  The search that validates.  \<open>v\<close> is \<open>__loc_val\<close>; a failed validation jumps to
  \<open>search_retry\<close>, which samples the lock again.  \<open>vld\<close> is the macro \<open>SEQLOCK_VLD\<close>.
\<close>

definition resample ::
    "(u64 \<Rightarrow> u64 option) \<Rightarrow> nat \<Rightarrow> 'w mem_scheme \<Rightarrow> (u64 \<times> ptr) option" where
  "resample rlock b s = do {
     v \<leftarrow> rlock (locks s b);
     Some (v, heads s b)
   }"

partial_function (option) opt_search_loop ::
    "(u64 \<Rightarrow> u64 option) \<Rightarrow> (u64 \<Rightarrow> u64 \<Rightarrow> bool) \<Rightarrow> bool \<Rightarrow> int \<Rightarrow> nat \<Rightarrow> u64 \<Rightarrow> ptr \<Rightarrow>
     'w mem_scheme \<Rightarrow> int option" where
  "opt_search_loop rlock runlock vld k b v c s =
     (if \<not> runlock v (locks s b) then do {
        (v, c) \<leftarrow> resample rlock b s;
        opt_search_loop rlock runlock vld k b v c s
      } else if c = NULL then Some 0
      else do {
        n \<leftarrow> rd s c;
        if k \<le> key n then
          if \<not> runlock v (locks s b) then do {
            (v, c) \<leftarrow> resample rlock b s;
            opt_search_loop rlock runlock vld k b v c s
          } else Some (if key n = k then 1 else 0)
        else if vld \<and> \<not> runlock v (locks s b) then do {
          (v, c) \<leftarrow> resample rlock b s;
          opt_search_loop rlock runlock vld k b v c s
        } else opt_search_loop rlock runlock vld k b v (nxt n) s
      })"

definition opt_search ::
    "(u64 \<Rightarrow> u64 option) \<Rightarrow> (u64 \<Rightarrow> u64 \<Rightarrow> bool) \<Rightarrow> bool \<Rightarrow> int \<Rightarrow> nat \<Rightarrow> 'w mem_scheme \<Rightarrow> int option" where
  "opt_search rlock runlock vld k b s = do {
     (v, c) \<leftarrow> resample rlock b s;
     opt_search_loop rlock runlock vld k b v c s
   }"

definition lk_free_node_later :: "ptr \<Rightarrow> 'w alloc_scheme \<Rightarrow> 'w alloc_scheme option" where
  "lk_free_node_later n s = free_node n s"

definition lk_init_new_node :: "'w alloc_scheme \<Rightarrow> (ptr \<times> 'w alloc_scheme) option" where
  "lk_init_new_node s = new_node s"

text \<open>The variant behind \<open>GCLOCK_NONEED\<close> keeps one node back, in the same variable as \<open>OSA_BEST\<close>.\<close>

definition noneed_free_node_later :: "ptr \<Rightarrow> 'w osa_scheme \<Rightarrow> 'w osa_scheme option" where
  "noneed_free_node_later n s = do {
     s \<leftarrow> (if free_later s \<noteq> NULL then free_node (free_later s) s else Some s);
     Some (s\<lparr>free_later := n\<rparr>)
   }"

section \<open>The searches\<close>

lemma lk_search_loop_eq:
  assumes "chain (nxts s) c ys NULL" and "sorted_wrt (<) (map (keyof s) ys)" and "lock_op runlock b s = Some s'"
  shows "lk_search_loop runlock k b c s = Some (if k \<in> keys_of s ys then 1 else 0, s')"
  using assms
proof (induction ys arbitrary: c)
  case Nil
  then have "c = NULL" by simp
  then show ?case using Nil by (subst lk_search_loop.simps) simp
next
  case (Cons y ys)
  then have c: "c = y" "y \<noteq> NULL" "chain (nxts s) (nxt (node s y)) ys NULL" by auto
  have gt: "\<forall>x\<in>set ys. keyof s y < keyof s x" using Cons.prems(2) by simp
  show ?case
  proof (cases "k \<le> keyof s y")
    case True
    then have "k \<notin> keys_of s ys" using gt by (auto simp: keys_of_def)
    then show ?thesis using True c Cons.prems(3) by (subst lk_search_loop.simps) (auto simp: mem_simps)
  next
    case False
    have "lk_search_loop runlock k b c s = lk_search_loop runlock k b (nxt (node s y)) s"
      using c False by (subst lk_search_loop.simps) (simp add: mem_simps)
    then show ?thesis using Cons.IH [OF c(3)] Cons.prems(2,3) False by auto
  qed
qed

context bucket_lock
begin

lemma lk_search_spec:
  assumes B: "buckets s L" and f: "lock_free (locks s b)"
  shows "\<exists>l. lk_search wlock wunlock k b s =
      Some (if k \<in> keys_of s (L b) then 1 else 0, s\<lparr>locks := (locks s)(b := l)\<rparr>) \<and> lock_free l"
proof -
  obtain l' l'' where l: "wlock (locks s b) = Some l'" "wunlock l' = Some l''" "lock_free l''"
    using acquire_release [OF f] by blast
  let ?s = "s\<lparr>locks := (locks s)(b := l')\<rparr>"
  have "lk_search_loop wunlock k b (heads s b) ?s =
      Some (if k \<in> keys_of ?s (L b) then 1 else 0, s\<lparr>locks := (locks s)(b := l'')\<rparr>)"
    by (rule lk_search_loop_eq)
      (use buckets_chain [OF B, of b] buckets_sorted [OF B, of b] l in \<open>simp_all add: lock_op_def\<close>)
  then show ?thesis using l by (intro exI [of _ l'']) (simp add: lk_search_def lock_op_def keys_of_def)
qed

end

lemma opt_search_loop_eq:
  assumes "chain (nxts s) c ys NULL" and "sorted_wrt (<) (map (keyof s) ys)" and "runlock v (locks s b)"
  shows "opt_search_loop rlock runlock vld k b v c s = Some (if k \<in> keys_of s ys then 1 else 0)"
  using assms
proof (induction ys arbitrary: c)
  case Nil
  then have "c = NULL" by simp
  then show ?case using Nil by (subst opt_search_loop.simps) simp
next
  case (Cons y ys)
  then have c: "c = y" "y \<noteq> NULL" "chain (nxts s) (nxt (node s y)) ys NULL" by auto
  have gt: "\<forall>x\<in>set ys. keyof s y < keyof s x" using Cons.prems(2) by simp
  show ?case
  proof (cases "k \<le> keyof s y")
    case True
    then have "k \<notin> keys_of s ys" using gt by (auto simp: keys_of_def)
    then show ?thesis using True c Cons.prems(3)
      by (subst opt_search_loop.simps) (auto simp: mem_simps Let_def)
  next
    case False
    have "opt_search_loop rlock runlock vld k b v c s = opt_search_loop rlock runlock vld k b v (nxt (node s y)) s"
      using c False Cons.prems(3) by (subst opt_search_loop.simps) (simp add: mem_simps Let_def)
    then show ?thesis using Cons.IH [OF c(3)] Cons.prems(2,3) False by auto
  qed
qed

context counting_lock
begin

lemma opt_search_spec:
  assumes B: "buckets s L" and f: "lock_free (locks s b)"
  shows "opt_search rlock runlock vld k b s = Some (if k \<in> keys_of s (L b) then 1 else 0)"
proof -
  obtain v where v: "rlock (locks s b) = Some v" using rlock_returns [OF f] by blast
  have "runlock v (locks s b)" using validates [OF f f v] by simp
  then show ?thesis using v buckets_chain [OF B, of b] buckets_sorted [OF B, of b]
    by (simp add: opt_search_def resample_def opt_search_loop_eq)
qed

end

section \<open>Instances of the list writer\<close>

interpretation lk: reclaimer lk_init_new_node lk_free_node_later alloc_ok
proof unfold_locales
  fix s :: "'w alloc_scheme" and A n s'
  assume "alloc_ok s A" "lk_init_new_node s = Some (n, s')"
  then show "keeps A s s' \<and> (n \<noteq> NULL \<longrightarrow> n \<notin> A \<and> alloc_ok s' (insert n A))"
    using new_node_ok [of s A] unfolding lk_init_new_node_def by (auto split: if_splits)
next
  fix s :: "'w alloc_scheme" and A p
  assume "alloc_ok s (insert p A)" "p \<notin> A"
  then show "\<exists>s'. lk_free_node_later p s = Some s' \<and> keeps A s s' \<and> alloc_ok s' A"
    using free_node_ok [of s p A] mr_only_keeps unfolding lk_free_node_later_def by blast
qed (auto intro: alloc_ok_cong)

lemma lk_writer:
  assumes "bucket_lock wlock wunlock lock_free"
  shows "list_writer (lk_init_new_node :: 'w alloc_scheme \<Rightarrow> _) lk_free_node_later alloc_ok wlock wunlock lock_free"
  by (intro list_writer.intro lk.reclaimer_axioms assms)

interpretation lk_spin: list_writer lk_init_new_node lk_free_node_later alloc_ok spin_lock spin_unlock "\<lambda>l. l = 0"
  by (rule lk_writer [OF spin.bucket_lock_axioms])

interpretation lk_rw: list_writer lk_init_new_node lk_free_node_later alloc_ok rw_wrlock rw_unlock "\<lambda>l. l = 0"
  by (rule lk_writer [OF rw.bucket_lock_axioms])

interpretation lk_classic: list_writer lk_init_new_node lk_free_node_later alloc_ok lock_lock lock_unlock "\<lambda>l. l = 0"
  by (rule lk_writer [OF classic.bucket_lock_axioms])

interpretation lk_seq: list_writer lk_init_new_node lk_free_node_later alloc_ok seq_wlock seq_wunlock even
  by (rule lk_writer [OF seq1.bucket_lock_axioms])

interpretation lk_gc: list_writer lk_init_new_node lk_free_node_later alloc_ok gc_wlock gc_wunlock "\<lambda>_. True"
  by (rule lk_writer [OF gc1.bucket_lock_axioms])

interpretation noneed: list_writer lk_init_new_node noneed_free_node_later osa_inv
  gc_wlock gc_wunlock "\<lambda>_. True"
proof unfold_locales
  fix s :: "'w osa_scheme" and A n s'
  assume "osa_inv s A" "lk_init_new_node s = Some (n, s')"
  then show "keeps A s s' \<and> (n \<noteq> NULL \<longrightarrow> n \<notin> A \<and> osa_inv s' (insert n A))"
    using osa.init_new by (simp add: lk_init_new_node_def init_new_node_def osa_new_node_def)
next
  fix s :: "'w osa_scheme" and A p
  assume i: "osa_inv s (insert p A)" and p: "p \<notin> A" "p \<noteq> NULL"
  show "\<exists>s'. noneed_free_node_later p s = Some s' \<and> keeps A s s' \<and> osa_inv s' A"
  proof (cases "free_later s = NULL")
    case True
    then have "osa_inv (s\<lparr>free_later := p\<rparr>) A"
      using i p unfolding osa_inv_def by (auto intro: alloc_ok_cong)
    then show ?thesis using True by (simp add: noneed_free_node_later_def keeps_def)
  next
    case False
    then have "alloc_ok s (insert (free_later s) (insert p A))" "free_later s \<notin> insert p A"
      using i by (auto simp: osa_inv_def)
    then obtain s1 where s1: "free_node (free_later s) s = Some s1" "alloc_ok s1 (insert p A)" "mr_only s s1"
      using free_node_ok by blast
    have "osa_inv (s1\<lparr>free_later := p\<rparr>) A"
      using s1(2) p unfolding osa_inv_def by (auto intro: alloc_ok_cong)
    moreover have "keeps A s (s1\<lparr>free_later := p\<rparr>)" using mr_only_keeps [OF s1(3), of A] by (simp add: keeps_def)
    ultimately show ?thesis using False s1(1) by (simp add: noneed_free_node_later_def)
  qed
qed (auto simp: osa_inv_def intro: alloc_ok_cong)

end
