(* ===== verification/List_Lock_Properties.thy ===== *)
theory List_Lock_Properties imports List_Lock begin

text \<open>
  The properties of the list under a lock, for every lock of \<open>lock.h\<close> at once, and
  of the two schemes that keep one retired node back.
\<close>

section \<open>The locked list\<close>

text \<open>
  (\<open>search\<close> under a lock): for every lock that can be acquired when free and is
  free after its release, the search answers with the membership of the key and
  changes nothing but the lock word of its bucket, which is free again.
\<close>

theorem lk_search_member:
  assumes "bucket_lock wlock wunlock lock_free" and "buckets s L" and "lock_free (locks s b)"
  shows "\<exists>l. lk_search wlock wunlock k b s =
      Some (if k \<in> bucket_keys s b then 1 else 0, s\<lparr>locks := (locks s)(b := l)\<rparr>) \<and> lock_free l"
  using bucket_lock.lk_search_spec [OF assms] by (simp add: bucket_keys_eq [OF assms(2)])

text \<open>
  (\<open>search\<close> with validation): for every lock whose readers validate, with or
  without the extra validation of \<open>SEQLOCK_VLD\<close>, a search on a free lock answers
  with the membership of the key.
\<close>

theorem opt_search_member:
  assumes "counting_lock wlock wunlock lock_free rlock runlock sec period"
    and "buckets s L" and "lock_free (locks s b)"
  shows "opt_search rlock runlock vld k b s = Some (if k \<in> bucket_keys s b then 1 else 0)"
  using counting_lock.opt_search_spec [OF assms] by (simp add: bucket_keys_eq [OF assms(2)])

text \<open>
  C19 (\<open>delete\<close> under a lock): for every lock and both orders of release and free,
  the deletion returns whether the key was in the bucket, removes it and leaves
  all locks free.
\<close>

theorem lk_delete_set:
  assumes "bucket_lock wlock wunlock lock_free"
    and "buckets s L" "alloc_ok s (linked L)" "\<forall>b. lock_free (locks s b)"
  shows "\<exists>s' L'. delete wlock wunlock gclock lk_free_node_later k b s =
      Some (if k \<in> bucket_keys s b then 1 else 0, s') \<and>
    buckets s' L' \<and> alloc_ok s' (linked L') \<and> (\<forall>b. lock_free (locks s' b)) \<and>
    bucket_keys s' = (bucket_keys s)(b := bucket_keys s b - {k})"
proof -
  have "writer_ok alloc_ok lock_free s L" using assms(2-4) by (simp add: writer_ok_def)
  from list_writer.delete_set [OF lk_writer [OF assms(1)] this]
  show ?thesis unfolding writer_ok_def by blast
qed

text \<open>The allocator has a node to give unless both lists and the memory are empty.\<close>

lemma new_node_gives:
  assumes "alloc_ok s A"
  shows "(\<exists>n s2. new_node s = Some (n, s2) \<and> n \<noteq> NULL) \<longleftrightarrow> \<not> (lfl s = NULL \<and> freelist s = NULL \<and> pool s = [])"
proof -
  obtain F G where inv: "alloc_inv s A F G" using assms by (auto simp: alloc_ok_def)
  then have l: "lfl s = NULL \<longleftrightarrow> F = []" "freelist s = NULL \<longleftrightarrow> G = []"
    by (cases F; cases G; auto simp: alloc_inv_def)+
  show ?thesis
  proof (cases "F @ G = []")
    case False
    then show ?thesis using new_node_recycles [OF inv False] l by auto
  next
    case True
    then have inv': "alloc_inv s A [] []" using inv by simp
    show ?thesis
    proof (cases "pool s")
      case Nil
      then show ?thesis using new_node_exhausted [OF inv' Nil] l True by auto
    next
      case (Cons p ps)
      then show ?thesis using new_node_callocs [OF inv' Cons] by auto
    qed
  qed
qed

text \<open>
  C20 (\<open>insert\<close> under a lock): for every lock, the insertion of a key that is there
  returns 0 and changes nothing but lock words; that of an absent key returns 1
  and adds exactly it; all locks are free again.  Only if the key is absent and
  both free lists and the memory are empty, the insertion does not return: it
  stores through the NULL it got.
\<close>

theorem lk_insert_set:
  assumes "bucket_lock wlock wunlock lock_free"
    and "buckets s L" "alloc_ok s (linked L)" "\<forall>b. lock_free (locks s b)"
  shows "if k \<in> bucket_keys s b
    then \<exists>l. insert_w wlock wunlock lk_init_new_node k b s = Some (0, s\<lparr>locks := l\<rparr>) \<and> (\<forall>b. lock_free (l b))
    else if lfl s = NULL \<and> freelist s = NULL \<and> pool s = []
    then insert_w wlock wunlock lk_init_new_node k b s = None
    else \<exists>s' L'. insert_w wlock wunlock lk_init_new_node k b s = Some (1, s') \<and>
      buckets s' L' \<and> alloc_ok s' (linked L') \<and> (\<forall>b. lock_free (locks s' b)) \<and>
      bucket_keys s' = (bucket_keys s)(b := insert k (bucket_keys s b))"
proof (cases "k \<in> bucket_keys s b")
  case True
  then have k: "k \<in> keys_of s (L b)" using bucket_keys_eq [OF assms(2)] by simp
  have "writer_ok alloc_ok lock_free s L" using assms(2-4) by (simp add: writer_ok_def)
  from list_writer.insert_present_spec [OF lk_writer [OF assms(1)] this k]
  show ?thesis using True unfolding writer_ok_def by auto
next
  case False
  have "writer_ok alloc_ok lock_free s L" using assms(2-4) by (simp add: writer_ok_def)
  from list_writer.insert_absent_set [OF lk_writer [OF assms(1)] this False]
  obtain l where l: "if \<exists>n s2. new_node (s\<lparr>locks := l\<rparr>) = Some (n, s2) \<and> n \<noteq> NULL
    then \<exists>s' L'. insert_w wlock wunlock lk_init_new_node k b s = Some (1, s') \<and>
      (buckets s' L' \<and> alloc_ok s' (linked L') \<and> (\<forall>b. lock_free (locks s' b))) \<and>
      bucket_keys s' = (bucket_keys s)(b := insert k (bucket_keys s b))
    else insert_w wlock wunlock lk_init_new_node k b s = None"
    unfolding writer_ok_def lk_init_new_node_def by blast
  have "alloc_ok (s\<lparr>locks := l\<rparr>) (linked L)" using assms(3) by (rule alloc_ok_cong) simp_all
  from new_node_gives [OF this]
  have e: "(\<exists>n s2. new_node (s\<lparr>locks := l\<rparr>) = Some (n, s2) \<and> n \<noteq> NULL) \<longleftrightarrow>
      \<not> (lfl s = NULL \<and> freelist s = NULL \<and> pool s = [])" by simp
  show ?thesis
  proof (cases "lfl s = NULL \<and> freelist s = NULL \<and> pool s = []")
    case True
    then show ?thesis using l False e by (simp only: if_False if_True not_True_eq_False simp_thms)
  next
    case nn: False
    then show ?thesis using l False e by (simp only: if_False if_True simp_thms conj_assoc)
  qed
qed

section \<open>Keeping one node back\<close>

text \<open>
  (\<open>OSA_BEST\<close> frees a node with its old generation): the first node retired is
  kept back untouched; retiring a second one frees the first, whose generation
  was never moved, and moves the generation of the second instead.  The next
  insertion reuses the first node under the generation readers still remember.
\<close>

theorem osa_first_not_bumped:
  assumes "alloc_ok s (insert p (insert q A))" and "p \<notin> insert q A" "q \<notin> A" "q \<noteq> NULL" "p \<noteq> NULL"
    and "free_later s = NULL"
  shows "\<exists>s1 s2 s3. osa_free_node_later p s = Some s1 \<and> osa_free_node_later q s1 = Some s2 \<and>
    init_new_node s2 = Some (p, s3) \<and> gc (node s3 p) = gc (node s p) \<and> gc (node s3 q) = gc (node s q) + 1"
proof -
  let ?s1 = "s\<lparr>free_later := p\<rparr>"
  have "alloc_ok ?s1 (insert p (insert q A))" using assms(1) by (rule alloc_ok_cong) simp_all
  then obtain s' where s': "free_node p ?s1 = Some s'" "mr_only ?s1 s'"
    and hd: "lfl s' = p \<or> lfl s' = NULL \<and> freelist s' = p"
    using free_node_ok [of ?s1 p "insert q A"] assms(2,5)
    by (auto simp: free_node_def add_free_eq pushed_def flushed_def split: if_splits)
  let ?s2 = "s'\<lparr>node := (node s')(q := (node s' q)\<lparr>gc := gc (node s' q) + 1\<rparr>), free_later := q\<rparr>"
  have 1: "osa_free_node_later p s = Some ?s1" using assms(6) by (rule osa_free_node_later_first)
  have 2: "osa_free_node_later q ?s1 = Some ?s2"
    using s'(1) assms(4,5) by (simp add: osa_free_node_later_def mem_simps)
  obtain s3 where 3: "init_new_node ?s2 = Some (p, s3)" "node s3 = node ?s2"
    using hd assms(5) by (auto simp: init_new_node_def osa_new_node_def new_node_def get_free_def
        steal_eq mem_simps)
  have "gc (node s' x) = gc (node s x)" for x using mr_only_node(4) [OF s'(2), of x] by simp
  then show ?thesis using 1 2 3 assms(2) by auto
qed

section \<open>Witnesses\<close>

definition lk_mem :: "ptr list \<Rightarrow> alloc" where
  "lk_mem ps = init_allocator \<lparr>node = (\<lambda>_. zero_node), heads = (\<lambda>_. NULL), locks = (\<lambda>_. 0),
     pool = ps, freelist = NULL, frct = 0, lfl = NULL, lfl_tail = NULL, lcnt = 0,
     nbmallocs = 0, nbfl = 0\<rparr>"

lemma lk_mem_ok: "buckets (lk_mem [64]) (\<lambda>_. [])" "alloc_ok (lk_mem [64]) (linked (\<lambda>_. []))"
  "locks (lk_mem ps) b = 0"
proof -
  have "alloc_inv (lk_mem [64]) {} [] []" by (simp add: alloc_inv_def lk_mem_def init_allocator_def prealloc_def)
  then show "alloc_ok (lk_mem [64]) (linked (\<lambda>_. []))" unfolding alloc_ok_def linked_def by auto
qed (simp_all add: buckets_def lk_mem_def init_allocator_def prealloc_def)

lemma lk_search_member_witness:
  "\<exists>l. lk_search spin_lock spin_unlock 5 0 (lk_mem [64]) =
      Some (if 5 \<in> bucket_keys (lk_mem [64]) 0 then 1 else 0,
        (lk_mem [64])\<lparr>locks := (locks (lk_mem [64]))(0 := l)\<rparr>) \<and> l = 0"
  by (rule lk_search_member [OF spin.bucket_lock_axioms lk_mem_ok(1)]) (simp add: lk_mem_ok)

lemma opt_search_member_witness:
  "opt_search gcm_rlock gcm_runlock True 5 0 (lk_mem [64]) =
     Some (if 5 \<in> bucket_keys (lk_mem [64]) 0 then 1 else 0)"
  by (rule opt_search_member [OF gcm.counting_lock_axioms lk_mem_ok(1)]) (simp add: lk_mem_ok)

lemma lk_delete_set_witness:
  "\<exists>s' L'. delete seqm_wlock seqm_wunlock False lk_free_node_later 5 0 (lk_mem [64]) =
      Some (if 5 \<in> bucket_keys (lk_mem [64]) 0 then 1 else 0, s') \<and> buckets s' L' \<and>
      (\<forall>b. even (locks s' b))"
  using lk_delete_set [OF seqm.bucket_lock_axioms lk_mem_ok(1,2), of False 5 0] by (auto simp: lk_mem_ok)

lemma lk_insert_set_witness:
  "(\<exists>s'. insert_w lock_lock lock_unlock lk_init_new_node 5 0 (lk_mem [64]) = Some (1, s') \<and>
     bucket_keys s' 0 = {5}) \<and>
   insert_w lock_lock lock_unlock lk_init_new_node 5 0 (lk_mem []) = None"
proof -
  have k: "bucket_keys (lk_mem ps) 0 = {}" for ps
    using bucket_keys_eq [of "lk_mem ps" "\<lambda>_. []" 0]
    by (simp add: buckets_def lk_mem_def init_allocator_def prealloc_def)
  have p: "pool (lk_mem ps) = ps" "lfl (lk_mem ps) = NULL" "freelist (lk_mem ps) = NULL" for ps
    by (simp_all add: lk_mem_def init_allocator_def prealloc_def)
  have "alloc_inv (lk_mem []) {} [] []" by (simp add: alloc_inv_def lk_mem_def init_allocator_def prealloc_def)
  then have e: "buckets (lk_mem []) (\<lambda>_. [])" "alloc_ok (lk_mem []) (linked (\<lambda>_. []))"
    by (simp_all add: alloc_okI linked_def buckets_def lk_mem_def init_allocator_def prealloc_def)
  have f: "\<forall>b. locks (lk_mem ps) b = 0" for ps by (simp add: lk_mem_ok)
  show ?thesis
    using lk_insert_set [OF classic.bucket_lock_axioms lk_mem_ok(1,2) f, of 5 0]
      lk_insert_set [OF classic.bucket_lock_axioms e f, of 5 0]
    by (simp add: k p) (metis fun_upd_same)
qed

definition osa_demo :: osa where
  "osa_demo = \<lparr>node = (\<lambda>_. zero_node), heads = (\<lambda>_. NULL), locks = (\<lambda>_. 0), pool = [],
     freelist = NULL, frct = 0, lfl = NULL, lfl_tail = NULL, lcnt = 0, nbmallocs = 0, nbfl = 0,
     free_later = NULL\<rparr>"

lemma osa_first_not_bumped_witness:
  "\<exists>s1 s2 s3. osa_free_node_later 64 osa_demo = Some s1 \<and> osa_free_node_later 128 s1 = Some s2 \<and>
     init_new_node s2 = Some (64, s3) \<and> gc (node s3 64) = 0"
proof -
  have "alloc_inv osa_demo (insert 64 (insert 128 {})) [] []" by (simp add: alloc_inv_def osa_demo_def)
  then have "alloc_ok osa_demo (insert 64 (insert 128 {}))" by (rule alloc_okI)
  from osa_first_not_bumped [OF this] show ?thesis by (auto simp: osa_demo_def zero_node_def)
qed

end
