(* ===== verification/Lock_Search.thy ===== *)
theory Lock_Search imports Sgecos List_Lock begin

text \<open>
  \<open>list_lock.c\<close> with the optimistic locks \<open>GCLOCK\<close> and \<open>SEQLOCK\<close> under interleaving,
  with one writer: the search that validates the lock word at every node, one
  access at a time, against \<open>delete\<close> and \<open>insert\<close> of \<open>list_writer.c\<close> with the lock
  operations of \<open>lock.h\<close> as steps of their own.
\<close>

section \<open>The search\<close>

datatype olock = Gc_lock | Seq_lock

definition o_rlock :: "olock \<Rightarrow> u64 \<Rightarrow> u64 option" where
  "o_rlock m = (case m of Gc_lock \<Rightarrow> gc_rlock | Seq_lock \<Rightarrow> seq_rlock)"

definition o_runlock :: "olock \<Rightarrow> u64 \<Rightarrow> u64 \<Rightarrow> bool" where
  "o_runlock m = (case m of Gc_lock \<Rightarrow> gc_runlock | Seq_lock \<Rightarrow> seq_runlock)"

definition o_wlock :: "olock \<Rightarrow> u64 \<Rightarrow> u64 option" where
  "o_wlock m = (case m of Gc_lock \<Rightarrow> gc_wlock | Seq_lock \<Rightarrow> seq_wlock)"

definition o_wunlock :: "olock \<Rightarrow> u64 \<Rightarrow> u64 option" where
  "o_wunlock m = (case m of Gc_lock \<Rightarrow> gc_wunlock | Seq_lock \<Rightarrow> seq_wunlock)"

text \<open>
  \<open>O_sample\<close> is \<open>search_retry\<close>, \<open>O_found\<close> and \<open>O_end\<close> the two calls of \<open>lock_runlock\<close>,
  \<open>O_vld\<close> the call of \<open>validate_cur\<close>, which only \<open>SEQLOCK_VLD\<close> has.
\<close>

datatype opc = O_sample | O_head | O_validate | O_key | O_found | O_next | O_vld | O_end
  | O_fault | O_ret int

record oreader =
  o_key :: int
  o_bucket :: nat
  o_pc :: opc
  o_val :: u64
  o_cur :: ptr
  o_cur_key :: int

definition o_init :: "int \<Rightarrow> nat \<Rightarrow> oreader" where
  "o_init k b = \<lparr>o_key = k, o_bucket = b, o_pc = O_sample, o_val = 0, o_cur = NULL, o_cur_key = 0\<rparr>"

definition o_valid :: "olock \<Rightarrow> 'w mem_scheme \<Rightarrow> oreader \<Rightarrow> opc \<Rightarrow> oreader" where
  "o_valid m s r pc = r\<lparr>o_pc := (if o_runlock m (o_val r) (locks s (o_bucket r)) then pc else O_sample)\<rparr>"

definition o_loop :: "ptr \<Rightarrow> opc" where
  "o_loop c = (if c = NULL then O_end else O_validate)"

definition o_search_step :: "olock \<Rightarrow> bool \<Rightarrow> 'w mem_scheme \<Rightarrow> oreader \<Rightarrow> oreader" where
  "o_search_step m vld s r = (case o_pc r of
     O_sample \<Rightarrow> (case o_rlock m (locks s (o_bucket r)) of
       None \<Rightarrow> r
     | Some v \<Rightarrow> r\<lparr>o_val := v, o_pc := O_head\<rparr>)
   | O_head \<Rightarrow> r\<lparr>o_cur := heads s (o_bucket r), o_pc := o_loop (heads s (o_bucket r))\<rparr>
   | O_validate \<Rightarrow> o_valid m s r O_key
   | O_key \<Rightarrow> (case rd s (o_cur r) of
       None \<Rightarrow> r\<lparr>o_pc := O_fault\<rparr>
     | Some n \<Rightarrow> r\<lparr>o_cur_key := key n, o_pc := (if o_key r \<le> key n then O_found else O_next)\<rparr>)
   | O_found \<Rightarrow> o_valid m s r (O_ret (if o_cur_key r = o_key r then 1 else 0))
   | O_next \<Rightarrow> (case rd s (o_cur r) of
       None \<Rightarrow> r\<lparr>o_pc := O_fault\<rparr>
     | Some n \<Rightarrow> r\<lparr>o_cur := nxt n, o_pc := (if vld then O_vld else o_loop (nxt n))\<rparr>)
   | O_vld \<Rightarrow> o_valid m s r (o_loop (o_cur r))
   | O_end \<Rightarrow> o_valid m s r (O_ret 0)
   | O_fault \<Rightarrow> r
   | O_ret x \<Rightarrow> r)"

section \<open>The writer\<close>

text \<open>
  The accesses of \<open>writer_step\<close> inside a section: \<open>l_acq\<close> says that the lock is to be
  taken next, after which \<open>prev\<close> and \<open>cur\<close> are set, and \<open>l_rel\<close> that it is to be
  released.  With \<open>GCLOCK\<close> a deletion releases the lock before it frees the node,
  at \<open>D_bump\<close>; with \<open>SEQLOCK\<close> the node is freed there, inside the section.
\<close>

record lwriter =
  lw :: writer
  l_acq :: bool
  l_rel :: bool

definition lock_step_w :: "'w alloc_scheme option \<Rightarrow> lwriter \<Rightarrow> 'w alloc_scheme \<Rightarrow> lwriter \<Rightarrow> 'w alloc_scheme \<times> lwriter" where
  "lock_step_w m w' s w = (case m of None \<Rightarrow> (s, w) | Some s' \<Rightarrow> (s', w'))"

definition lw_step :: "olock \<Rightarrow> 'w alloc_scheme \<Rightarrow> lwriter \<Rightarrow> 'w alloc_scheme \<times> lwriter" where
  "lw_step m s W = (let w = lw W; b = w_bucket w in
     if l_acq W then
       lock_step_w (lock_op (o_wlock m) b s)
         (W\<lparr>lw := w\<lparr>w_prev := Head b, w_cur := heads s b\<rparr>, l_acq := False\<rparr>) s W
     else if l_rel W then lock_step_w (lock_op (o_wunlock m) b s) (W\<lparr>l_rel := False\<rparr>) s W
     else if w_pc w = D_bump then
       (case m of
          Gc_lock \<Rightarrow> lock_step_w (lock_op (o_wunlock m) b s) (W\<lparr>lw := w\<lparr>w_pc := D_free\<rparr>\<rparr>) s W
        | Seq_lock \<Rightarrow> (case writer_step s (w\<lparr>w_pc := D_free\<rparr>) of
            (s', w') \<Rightarrow> (s', W\<lparr>lw := w', l_rel := (w_pc w' = W_idle)\<rparr>)))
     else (case writer_step s w of (s', w') \<Rightarrow>
       (s', W\<lparr>lw := w', l_acq := (w_pc w = D_test \<and> w_pc w' = D_loop),
          l_rel := (w_pc w \<in> {D_loop, I_loop, I_link} \<and> w_pc w' = W_idle)\<rparr>)))"

definition lw_delete :: "int \<Rightarrow> nat \<Rightarrow> lwriter \<Rightarrow> lwriter" where
  "lw_delete k b W = (if l_rel W then W else W\<lparr>lw := start_delete k b (lw W)\<rparr>)"

definition lw_insert :: "'w mem_scheme \<Rightarrow> int \<Rightarrow> nat \<Rightarrow> lwriter \<Rightarrow> lwriter" where
  "lw_insert s k b W =
     (if l_rel W \<or> w_pc (lw W) \<noteq> W_idle then W else W\<lparr>lw := start_insert s k b (lw W), l_acq := True\<rparr>)"

record lk_sys =
  k_sh :: alloc
  k_upd :: lwriter
  k_rds :: "nat \<Rightarrow> oreader"

fun lk_step :: "olock \<Rightarrow> bool \<Rightarrow> actor \<Rightarrow> lk_sys \<Rightarrow> lk_sys" where
  "lk_step m vld (Start_delete k b) c = c\<lparr>k_upd := lw_delete k b (k_upd c)\<rparr>"
| "lk_step m vld (Start_insert k b) c = c\<lparr>k_upd := lw_insert (k_sh c) k b (k_upd c)\<rparr>"
| "lk_step m vld Updater c = (case lw_step m (k_sh c) (k_upd c) of (s, W) \<Rightarrow> c\<lparr>k_sh := s, k_upd := W\<rparr>)"
| "lk_step m vld (Reader i) c = c\<lparr>k_rds := (k_rds c)(i := o_search_step m vld (k_sh c) (k_rds c i))\<rparr>"
| "lk_step m vld (Start_search i k b) c = (case o_pc (k_rds c i) of
     O_ret x \<Rightarrow> c\<lparr>k_rds := (k_rds c)(i := o_init k b)\<rparr>
   | _ \<Rightarrow> c)"

primrec lk_exec :: "olock \<Rightarrow> bool \<Rightarrow> actor list \<Rightarrow> lk_sys \<Rightarrow> lk_sys" where
  "lk_exec m vld [] c = c"
| "lk_exec m vld (a # as) c = lk_exec m vld as (lk_step m vld a c)"

primrec lk_visited :: "olock \<Rightarrow> bool \<Rightarrow> actor list \<Rightarrow> lk_sys \<Rightarrow> lk_sys list" where
  "lk_visited m vld [] c = [c]"
| "lk_visited m vld (a # as) c = c # lk_visited m vld as (lk_step m vld a c)"

section \<open>The invariant of the writer\<close>

text \<open>With \<open>SEQLOCK\<close> the word of a bucket is odd exactly while the writer is inside.\<close>

definition inside :: "lwriter \<Rightarrow> nat \<Rightarrow> bool" where
  "inside W b \<longleftrightarrow> w_bucket (lw W) = b \<and> \<not> l_acq W \<and> (l_rel W \<or> w_pc (lw W) \<notin> {W_idle, D_test})"

definition lw_inv :: "olock \<Rightarrow> 'w alloc_scheme \<Rightarrow> lwriter \<Rightarrow> (nat \<Rightarrow> ptr list) \<Rightarrow> bool" where
  "lw_inv m s W L \<longleftrightarrow> winv s (lw W) L \<and> (l_acq W \<longrightarrow> w_pc (lw W) \<in> {D_loop, I_loop} \<and> \<not> l_rel W) \<and>
     (l_rel W \<longrightarrow> w_pc (lw W) = W_idle) \<and>
     (m = Seq_lock \<longrightarrow> w_pc (lw W) \<noteq> D_free \<and> (\<forall>b. odd (locks s b) \<longleftrightarrow> inside W b))"

definition lk_ok :: "olock \<Rightarrow> lk_sys \<Rightarrow> bool" where
  "lk_ok m c \<longleftrightarrow> (\<exists>L. lw_inv m (k_sh c) (k_upd c) L)"

text \<open>A word a reader may have sampled.\<close>

definition open_word :: "olock \<Rightarrow> u64 \<Rightarrow> bool" where
  "open_word m v \<longleftrightarrow> m = Seq_lock \<longrightarrow> even v"

lemma winv_locks: "winv (s\<lparr>locks := l\<rparr>) w L \<longleftrightarrow> winv s w L"
proof -
  have "alloc_ok (s\<lparr>locks := l\<rparr>) A \<longleftrightarrow> alloc_ok s A" for A by (simp add: alloc_ok_def alloc_inv_def)
  moreover have "wpc_inv (s\<lparr>locks := l\<rparr>) w L \<longleftrightarrow> wpc_inv s w L"
    by (auto simp: wpc_inv_def del_gap_def ins_gap_def at_gap_def split: wpc.split)
  ultimately show ?thesis by (simp add: winv_def buckets_def closed_def)
qed

definition lw_steps_to ::
    "olock \<Rightarrow> 'w alloc_scheme \<Rightarrow> lwriter \<Rightarrow> (nat \<Rightarrow> ptr list) \<Rightarrow> 'w alloc_scheme \<Rightarrow> lwriter \<Rightarrow> bool" where
  "lw_steps_to m s W L s' W' \<longleftrightarrow> (\<exists>L' x. lw_inv m s' W' L' \<and> set (pool s') \<subseteq> set (pool s) \<and>
    locks s' = (if x then (locks s)(w_bucket (lw W) := locks s (w_bucket (lw W)) + 1) else locks s) \<and>
    (\<forall>p b. open_word m (locks s b) \<and> locks s' b = locks s b \<and> inlist (lw W) L b p \<longrightarrow>
       keyof s' p = keyof s p \<and> inlist (lw W') L' b p))"

lemma acquire_winv:
  assumes "winv s w L" and "w_pc w \<in> {D_loop, I_loop}"
  shows "winv s (w\<lparr>w_prev := Head (w_bucket w), w_cur := heads s (w_bucket w)\<rparr>) L"
proof -
  let ?w = "w\<lparr>w_prev := Head (w_bucket w), w_cur := heads s (w_bucket w)\<rparr>"
  have "del_gap s ?w L" unfolding del_gap_def winv_heads(1) [OF assms(1)]
    by (rule exI [of _ "[]"], rule exI [of _ "L (w_bucket w)"]) (simp add: at_gap_def)
  then show ?thesis using assms by (auto simp: winv_def held_def wpc_inv_def)
qed

lemma lw_acquire:
  assumes inv: "lw_inv m s W L" and q: "l_acq W" and st: "lw_step m s W = (s', W')"
  shows "lw_steps_to m s W L s' W'"
proof -
  let ?b = "w_bucket (lw W)"
  let ?w = "(lw W)\<lparr>w_prev := Head ?b, w_cur := heads s ?b\<rparr>"
  have pc: "w_pc (lw W) \<in> {D_loop, I_loop}" "\<not> l_rel W" using inv q by (auto simp: lw_inv_def)
  obtain l where l: "o_wlock m (locks s ?b) = Some l" "l = (if m = Gc_lock then locks s ?b else locks s ?b + 1)"
    by (cases m) (simp_all add: o_wlock_def gc_wlock_def seq_wlock_def)
  have st': "s' = s\<lparr>locks := (locks s)(?b := l)\<rparr>" "W' = W\<lparr>lw := ?w, l_acq := False\<rparr>"
    using st q l(1) by (simp_all add: lw_step_def Let_def lock_op_def lock_step_w_def)
  have "winv s' ?w L" unfolding st' winv_locks
    using acquire_winv [of s "lw W" L] inv pc by (simp add: lw_inv_def)
  moreover have "odd (locks s' b) \<longleftrightarrow> inside W' b" if "m = Seq_lock" for b
    using inv that pc q by (auto simp: lw_inv_def st' l(2) inside_def)
  ultimately have "lw_inv m s' W' L" using inv pc by (auto simp: lw_inv_def st')
  moreover have "inlist ?w L b p" if "inlist (lw W) L b p" for b p using that pc by (auto simp: inlist_def)
  ultimately show ?thesis unfolding lw_steps_to_def
    by (intro exI [of _ L] exI [of _ "m \<noteq> Gc_lock"]) (use l(2) in \<open>auto simp: st' split: if_splits\<close>)
qed

lemma o_wunlock_inc: "o_wunlock m l = Some (l + 1)"
  by (cases m) (simp_all add: o_wunlock_def gc_wunlock_def seq_wunlock_def)

lemma lw_release:
  assumes inv: "lw_inv m s W L" and q: "\<not> l_acq W" "l_rel W" and st: "lw_step m s W = (s', W')"
  shows "lw_steps_to m s W L s' W'"
proof -
  let ?b = "w_bucket (lw W)"
  have st': "s' = s\<lparr>locks := (locks s)(?b := locks s ?b + 1)\<rparr>" "W' = W\<lparr>l_rel := False\<rparr>"
    using st q by (simp_all add: lw_step_def Let_def lock_op_def lock_step_w_def o_wunlock_inc)
  have pc: "w_pc (lw W) = W_idle" using inv q by (simp add: lw_inv_def)
  have "winv s' (lw W) L" using inv unfolding st' winv_locks by (simp add: lw_inv_def)
  moreover have "odd (locks s' b) \<longleftrightarrow> inside W' b" if "m = Seq_lock" for b
  proof -
    have "odd (locks s b) \<longleftrightarrow> b = ?b" using inv that pc q by (auto simp: lw_inv_def inside_def)
    then show ?thesis using pc by (auto simp: st' inside_def)
  qed
  ultimately have "lw_inv m s' W' L" using inv pc q by (auto simp: lw_inv_def st')
  then show ?thesis unfolding lw_steps_to_def
    by (intro exI [of _ L] exI [of _ True]) (auto simp: st')
qed

lemma lw_bump:
  assumes inv: "lw_inv m s W L" and q: "\<not> l_acq W" "\<not> l_rel W" and pc: "w_pc (lw W) = D_bump"
    and st: "lw_step m s W = (s', W')"
  shows "lw_steps_to m s W L s' W'"
proof (cases m)
  case Gc_lock
  let ?b = "w_bucket (lw W)" and ?w = "(lw W)\<lparr>w_pc := D_free\<rparr>"
  have st': "s' = s\<lparr>locks := (locks s)(?b := locks s ?b + 1)\<rparr>" "W' = W\<lparr>lw := ?w\<rparr>"
    using st q pc Gc_lock by (simp_all add: lw_step_def Let_def lock_op_def lock_step_w_def o_wunlock_inc)
  have "winv s ?w L" using inv pc by (auto simp: lw_inv_def winv_def held_def wpc_inv_def)
  then have "lw_inv m s' W' L" using q Gc_lock unfolding st' by (simp add: lw_inv_def winv_locks)
  then show ?thesis unfolding lw_steps_to_def
    by (intro exI [of _ L] exI [of _ True]) (auto simp: st' inlist_def)
next
  case Seq_lock
  let ?b = "w_bucket (lw W)" and ?w = "(lw W)\<lparr>w_pc := D_free\<rparr>"
  obtain w' where w': "writer_step s ?w = (s', w')" "W' = W\<lparr>lw := w', l_rel := (w_pc w' = W_idle)\<rparr>"
    using st q pc Seq_lock by (auto simp: lw_step_def Let_def split: prod.splits)
  have inv': "winv s ?w L" using inv pc by (auto simp: lw_inv_def winv_def held_def wpc_inv_def)
  have "sg_writer_step s ?w = (s', w')" using w'(1) by (simp add: sg_writer_step_def)
  then obtain L' where x: "winv s' w' L'" "set (pool s') \<subseteq> set (pool s)" "locks s' = locks s"
    "\<forall>p b. inlist ?w L b p \<longrightarrow> keyof s' p = keyof s p \<and> inlist w' L' b p"
    using sg_writer_step_inv [OF inv'] by fastforce
  have ww: "w_bucket w' = ?b" "w_pc w' \<in> {W_idle, W_crash}"
    using w'(1) by (auto simp: writer_step_def store_def finish_def split: option.splits)
  have odd: "odd (locks s b) \<longleftrightarrow> b = ?b" for b
    using inv Seq_lock pc q by (auto simp: lw_inv_def inside_def)
  have "lw_inv m s' W' L'"
    using x(1,3) odd ww q by (auto simp: lw_inv_def w'(2) inside_def)
  moreover have "keyof s' p = keyof s p \<and> inlist (lw W') L' b p"
    if "open_word m (locks s b)" "inlist (lw W) L b p" for b p
  proof -
    have "inlist ?w L b p" using that odd [of b] Seq_lock by (auto simp: open_word_def inlist_def)
    then show ?thesis using x(4) by (simp add: w'(2))
  qed
  ultimately show ?thesis unfolding lw_steps_to_def
    using x(2,3) by (intro exI [of _ L'] exI [of _ False]) auto
qed

lemma lw_plain:
  assumes inv: "lw_inv m s W L" and q: "\<not> l_acq W" "\<not> l_rel W" and pc: "w_pc (lw W) \<noteq> D_bump"
    and st: "lw_step m s W = (s', W')"
  shows "lw_steps_to m s W L s' W'"
proof -
  let ?w = "lw W"
  obtain w' where w': "writer_step s ?w = (s', w')"
    "W' = W\<lparr>lw := w', l_acq := (w_pc ?w = D_test \<and> w_pc w' = D_loop),
       l_rel := (w_pc ?w \<in> {D_loop, I_loop, I_link} \<and> w_pc w' = W_idle)\<rparr>"
    using st q pc by (auto simp: lw_step_def Let_def split: prod.splits)
  have inv': "winv s ?w L" using inv by (simp add: lw_inv_def)
  have "sg_writer_step s ?w = (s', w')" using w'(1) pc by (simp add: sg_writer_step_def)
  then obtain L' where x: "winv s' w' L'" "set (pool s') \<subseteq> set (pool s)" "locks s' = locks s"
    "\<forall>p b. inlist ?w L b p \<longrightarrow> keyof s' p = keyof s p \<and> inlist w' L' b p"
    using sg_writer_step_inv [OF inv'] pc by fastforce
  have ww: "w_bucket w' = w_bucket ?w" "w_pc ?w = W_idle \<Longrightarrow> w_pc w' = W_idle"
    "w_pc ?w = D_test \<Longrightarrow> w_pc w' \<in> {W_idle, D_loop}" "w_pc w' \<noteq> D_test"
    "w_pc w' = W_idle \<Longrightarrow> w_pc ?w \<in> {W_idle, D_test, D_loop, I_loop, I_link, D_free}"
    "w_pc w' = D_free \<Longrightarrow> w_pc ?w = D_bump"
    using w'(1) by (cases "w_pc ?w"; auto simp: writer_step_def store_def finish_def Let_def
        split: option.splits if_splits prod.splits)+
  have "odd (locks s' b) \<longleftrightarrow> inside W' b" if m: "m = Seq_lock" for b
  proof -
    have "odd (locks s b) \<longleftrightarrow> inside W b" "w_pc ?w \<noteq> D_free" using inv m by (auto simp: lw_inv_def)
    moreover have "inside W' b \<longleftrightarrow> inside W b"
      using ww q calculation(2) unfolding inside_def w'(2) by (cases "w_pc ?w") auto
    ultimately show ?thesis using x(3) by simp
  qed
  moreover have "m = Seq_lock \<longrightarrow> w_pc w' \<noteq> D_free" using ww(6) pc by auto
  ultimately have "lw_inv m s' W' L'" using x(1) by (auto simp: lw_inv_def w'(2))
  then show ?thesis unfolding lw_steps_to_def
    using x by (intro exI [of _ L'] exI [of _ False]) (auto simp: w'(2))
qed

lemma lw_step_inv: "lw_inv m s W L \<Longrightarrow> lw_step m s W = (s', W') \<Longrightarrow> lw_steps_to m s W L s' W'"
  by (cases "l_acq W"; cases "l_rel W"; cases "w_pc (lw W) = D_bump")
    (simp_all add: lw_acquire lw_release lw_bump lw_plain)

lemma lw_start_inv:
  assumes inv: "lw_inv m s W L"
  shows "lw_inv m s (lw_delete k b W) L" "lw_inv m s (lw_insert s k b W) L"
proof -
  have W: "winv s (lw W) L" using inv by (simp add: lw_inv_def)
  show "lw_inv m s (lw_delete k b W) L"
    using inv start_delete_inv(1) [OF W, of k b]
    by (auto simp: lw_inv_def lw_delete_def start_delete_def inside_def)
  show "lw_inv m s (lw_insert s k b W) L"
    using inv start_insert_inv(1) [OF W, of k b]
    by (auto simp: lw_inv_def lw_insert_def start_insert_def inside_def)
qed

section \<open>The invariant of a reader\<close>

text \<open>
  As for \<open>list_sgecos.c\<close>, \<open>d b\<close> counts the changes of the lock word of \<open>b\<close> and \<open>e\<close> is
  its value at the reader's sample.  While the word has not changed, the reader's
  node is in its place and its key decides the answer; at the end of the bucket
  the key is missing.
\<close>

definition at_sample :: "olock \<Rightarrow> (nat \<Rightarrow> u64) \<Rightarrow> (nat \<Rightarrow> nat) \<Rightarrow> oreader \<Rightarrow> nat \<Rightarrow> bool" where
  "at_sample m base d r e \<longleftrightarrow> o_val r = base (o_bucket r) + of_nat e \<and> e \<le> d (o_bucket r) \<and>
     open_word m (o_val r)"

definition at_node ::
    "'w alloc_scheme \<Rightarrow> writer \<Rightarrow> (nat \<Rightarrow> ptr list) \<Rightarrow> (nat \<Rightarrow> nat) \<Rightarrow> int set set \<Rightarrow> oreader \<Rightarrow>
     nat \<Rightarrow> ptr \<Rightarrow> bool" where
  "at_node s w L d H r e p \<longleftrightarrow> p \<notin> set (pool s) \<and>
     (if p = NULL then d (o_bucket r) = e \<longrightarrow> (\<exists>K\<in>H. o_key r \<notin> K)
      else evid s w L (\<lambda>_. d (o_bucket r)) H (o_key r) (o_bucket r) p e)"

definition o_key_read :: "'w mem_scheme \<Rightarrow> (nat \<Rightarrow> nat) \<Rightarrow> oreader \<Rightarrow> nat \<Rightarrow> bool" where
  "o_key_read s d r e \<longleftrightarrow> o_cur r \<noteq> NULL \<and> (d (o_bucket r) = e \<longrightarrow> o_cur_key r = keyof s (o_cur r))"

definition o_rd_inv ::
    "olock \<Rightarrow> 'w alloc_scheme \<Rightarrow> writer \<Rightarrow> (nat \<Rightarrow> ptr list) \<Rightarrow> (nat \<Rightarrow> u64) \<Rightarrow> (nat \<Rightarrow> nat) \<Rightarrow>
     int set set \<Rightarrow> oreader \<Rightarrow> bool" where
  "o_rd_inv m s w L base d H r \<longleftrightarrow> (case o_pc r of
       O_sample \<Rightarrow> True
     | O_head \<Rightarrow> \<exists>e. at_sample m base d r e
     | O_fault \<Rightarrow> False
     | O_ret x \<Rightarrow> \<exists>K\<in>H. x = (if o_key r \<in> K then 1 else 0)
     | pc \<Rightarrow> \<exists>e. at_sample m base d r e \<and> at_node s w L d H r e (o_cur r) \<and>
         (pc \<in> {O_validate, O_key} \<longrightarrow> o_cur r \<noteq> NULL) \<and> (pc = O_end \<longrightarrow> o_cur r = NULL) \<and>
         (pc = O_found \<longrightarrow> o_key_read s d r e \<and> o_key r \<le> o_cur_key r) \<and>
         (pc = O_next \<longrightarrow> o_key_read s d r e \<and> o_cur_key r < o_key r))"

definition lk_evolves ::
    "olock \<Rightarrow> 'w alloc_scheme \<Rightarrow> writer \<Rightarrow> (nat \<Rightarrow> ptr list) \<Rightarrow> (nat \<Rightarrow> nat) \<Rightarrow>
     'w alloc_scheme \<Rightarrow> writer \<Rightarrow> (nat \<Rightarrow> ptr list) \<Rightarrow> (nat \<Rightarrow> nat) \<Rightarrow> bool" where
  "lk_evolves m s w L d s' w' L' d' \<longleftrightarrow> set (pool s') \<subseteq> set (pool s) \<and> (\<forall>b. d b \<le> d' b) \<and>
     (\<forall>p b. d' b = d b \<longrightarrow> open_word m (locks s b) \<longrightarrow> inlist w L b p \<longrightarrow>
        keyof s' p = keyof s p \<and> inlist w' L' b p)"

lemma at_node_evolves:
  assumes ev: "lk_evolves m s w L d s' w' L' d'" and H: "H \<subseteq> H'" and c: "counts base d n s"
    and sm: "at_sample m base d r e" and nd: "at_node s w L d H r e p"
  shows "at_sample m base d' r e" "at_node s' w' L' d' H' r e p"
    "d' (o_bucket r) = e \<Longrightarrow> p \<noteq> NULL \<Longrightarrow> d (o_bucket r) = e \<and> keyof s' p = keyof s p"
proof -
  let ?b = "o_bucket r"
  have le: "e \<le> d ?b" "d ?b \<le> d' ?b" using sm ev by (simp_all add: at_sample_def lk_evolves_def)
  show "at_sample m base d' r e" using sm le unfolding at_sample_def by (meson order_trans)
  have same: "d ?b = e \<and> (p \<noteq> NULL \<longrightarrow> keyof s' p = keyof s p \<and> inlist w' L' ?b p)" if "d' ?b = e"
  proof -
    have d: "d ?b = e" "d' ?b = d ?b" using that le by auto
    have "open_word m (o_val r)" using sm unfolding at_sample_def by blast
    moreover have "locks s ?b = o_val r" using sm c d(1) by (simp add: at_sample_def counts_def)
    ultimately have "open_word m (locks s ?b)" by simp
    moreover have "p \<noteq> NULL \<Longrightarrow> inlist w L ?b p" using nd d(1) by (simp add: at_node_def evid_def)
    ultimately show ?thesis using ev d unfolding lk_evolves_def by metis
  qed
  then show "d' ?b = e \<Longrightarrow> p \<noteq> NULL \<Longrightarrow> d ?b = e \<and> keyof s' p = keyof s p" by blast
  have "p \<notin> set (pool s')" using nd ev by (auto simp: at_node_def lk_evolves_def)
  then show "at_node s' w' L' d' H' r e p"
    using nd H same unfolding at_node_def evid_def by (auto 0 3)
qed

lemma o_rd_inv_evolves:
  assumes ev: "lk_evolves m s w L d s' w' L' d'" and H: "H \<subseteq> H'" and c: "counts base d n s"
    and i: "o_rd_inv m s w L base d H r"
  shows "o_rd_inv m s' w' L' base d' H' r"
proof -
  have sm: "at_sample m base d' r e" if "at_sample m base d r e" for e
    using that ev by (force simp: at_sample_def lk_evolves_def intro: order_trans)
  note P = at_node_evolves [OF ev H c]
  have kr: "o_key_read s' d' r e"
    if "at_sample m base d r e" "at_node s w L d H r e (o_cur r)" "o_key_read s d r e" for e
    using that(3) P(3) [OF that(1,2)] by (simp add: o_key_read_def)
  show ?thesis
  proof (cases "o_pc r")
    case O_sample
    then show ?thesis by (simp add: o_rd_inv_def)
  next
    case O_head
    then show ?thesis using i sm by (auto simp: o_rd_inv_def)
  next
    case O_fault
    then show ?thesis using i by (simp add: o_rd_inv_def)
  next
    case (O_ret x)
    then show ?thesis using i H by (auto simp: o_rd_inv_def)
  next
    case O_found
    then show ?thesis using i sm P(2) kr by (fastforce simp: o_rd_inv_def)
  next
    case O_next
    then show ?thesis using i sm P(2) kr by (fastforce simp: o_rd_inv_def)
  qed (use i sm P(2) in \<open>fastforce simp: o_rd_inv_def\<close>)+
qed

lemma o_frame [simp]:
  "o_key (o_search_step m v s r) = o_key r" "o_bucket (o_search_step m v s r) = o_bucket r"
  by (auto simp: o_search_step_def o_valid_def split: opc.split option.split)

lemma o_runlock_eq: "o_runlock m v l \<longleftrightarrow> v = l"
  by (cases m) (simp_all add: o_runlock_def gc_runlock_def seq_runlock_def)

lemma o_valid_inv:
  assumes r: "at_sample m base d r e" "at_node s w L d H r e (o_cur r)"
    and c: "counts base d n s" "n < 2 ^ 64"
    and go: "d (o_bucket r) = e \<Longrightarrow> o_rd_inv m s w L base d H (r\<lparr>o_pc := pc\<rparr>)"
  shows "o_rd_inv m s w L base d H (o_valid m s r pc)"
proof (cases "o_val r = locks s (o_bucket r)")
  case True
  have "(of_nat e :: u64) = of_nat (d (o_bucket r))" "e \<le> n" "d (o_bucket r) \<le> n"
    using True r(1) c(1) unfolding at_sample_def counts_def by (auto intro: order_trans)
  then have "d (o_bucket r) = e" using of_nat_u64_inj [of e "d (o_bucket r)"] c(2) by simp
  then show ?thesis using go True by (simp add: o_valid_def o_runlock_eq)
next
  case False
  then show ?thesis by (simp add: o_valid_def o_runlock_eq o_rd_inv_def)
qed

lemma o_search_step_inv:
  assumes inv: "winv s w L" and c: "counts base d n s" "n < 2 ^ 64"
    and H: "bucket_keys s (o_bucket r) \<in> H" and i: "o_rd_inv m s w L base d H r"
  shows "o_rd_inv m s w L base d H (o_search_step m v s r)"
proof (cases "o_pc r")
  case O_sample
  let ?l = "locks s (o_bucket r)"
  have "o_rlock m ?l = Some x \<Longrightarrow> x = ?l \<and> open_word m x" for x
    by (cases m) (auto simp: o_rlock_def gc_rlock_def seq_rlock_def open_word_def and_one_eq even_iff_mod_2_eq_zero split: if_splits)
  then show ?thesis using O_sample c(1)
    by (auto simp: o_rd_inv_def o_search_step_def at_sample_def counts_def split: option.split)
next
  case O_head
  then obtain e where e: "at_sample m base d r e" using i by (auto simp: o_rd_inv_def)
  let ?h = "heads s (o_bucket r)"
  have "at_node s w L d H r e ?h"
    using head_evid [OF inv _ H, of "\<lambda>_. d (o_bucket r)" "o_key r" e] empty_bucket [OF inv, of "o_bucket r"]
      winv_heads(2) [OF inv, of "o_bucket r"] H by (auto simp: at_node_def)
  then show ?thesis using O_head e
    by (auto simp: o_rd_inv_def o_search_step_def o_loop_def at_sample_def at_node_def)
next
  case O_validate
  then obtain e where e: "at_sample m base d r e" "at_node s w L d H r e (o_cur r)" "o_cur r \<noteq> NULL"
    using i by (auto simp: o_rd_inv_def)
  then have "o_rd_inv m s w L base d H (r\<lparr>o_pc := O_key\<rparr>)"
    by (auto simp: o_rd_inv_def at_sample_def at_node_def)
  then show ?thesis using o_valid_inv [OF e(1,2) c] O_validate by (simp add: o_search_step_def)
next
  case O_key
  then obtain e where e: "at_sample m base d r e" "at_node s w L d H r e (o_cur r)" "o_cur r \<noteq> NULL"
    using i by (auto simp: o_rd_inv_def)
  then show ?thesis using O_key
    by (auto simp: o_rd_inv_def o_search_step_def mem_simps at_sample_def at_node_def o_key_read_def)
next
  case O_found
  then obtain e where e: "at_sample m base d r e" "at_node s w L d H r e (o_cur r)" "o_key_read s d r e"
    "o_key r \<le> o_cur_key r"
    using i by (auto simp: o_rd_inv_def)
  have "o_rd_inv m s w L base d H (r\<lparr>o_pc := O_ret (if o_cur_key r = o_key r then 1 else 0)\<rparr>)"
    if "d (o_bucket r) = e"
    using e that by (auto simp: o_rd_inv_def at_node_def evid_def o_key_read_def)
  then show ?thesis using o_valid_inv [OF e(1,2) c] O_found by (simp add: o_search_step_def)
next
  case O_next
  then obtain e where e: "at_sample m base d r e" "at_node s w L d H r e (o_cur r)" "o_key_read s d r e"
    "o_cur_key r < o_key r"
    using i by (auto simp: o_rd_inv_def)
  let ?n = "nxt (node s (o_cur r))"
  have n: "o_cur r \<noteq> NULL" using e(3) by (simp add: o_key_read_def)
  have np: "?n \<notin> set (pool s)" using winvD(4) [OF inv] e(2) by (simp add: closed_def at_node_def)
  have "if ?n = NULL then \<exists>K\<in>H. o_key r \<notin> K else
      evid s w L (\<lambda>_. d (o_bucket r)) H (o_key r) (o_bucket r) ?n e" if d: "d (o_bucket r) = e"
  proof (rule next_evid [OF inv _ _ H])
    show "inlist w L (o_bucket r) (o_cur r)" "keyof s (o_cur r) < o_key r"
      using e(2-4) n d by (auto simp: at_node_def evid_def o_key_read_def)
  qed
  then have "at_node s w L d H r e ?n" using np by (auto simp: at_node_def evid_def)
  then show ?thesis using O_next e(1) n
    by (auto simp: o_rd_inv_def o_search_step_def mem_simps o_loop_def at_sample_def at_node_def)
next
  case O_vld
  then obtain e where e: "at_sample m base d r e" "at_node s w L d H r e (o_cur r)"
    using i by (auto simp: o_rd_inv_def)
  then have "o_rd_inv m s w L base d H (r\<lparr>o_pc := o_loop (o_cur r)\<rparr>)"
    by (auto simp: o_rd_inv_def o_loop_def at_sample_def at_node_def)
  then show ?thesis using o_valid_inv [OF e c] O_vld by (simp add: o_search_step_def)
next
  case O_end
  then obtain e where e: "at_sample m base d r e" "at_node s w L d H r e (o_cur r)" "o_cur r = NULL"
    using i by (auto simp: o_rd_inv_def)
  then have "o_rd_inv m s w L base d H (r\<lparr>o_pc := O_ret 0\<rparr>)" if "d (o_bucket r) = e"
    using that by (auto simp: o_rd_inv_def at_node_def)
  then show ?thesis using o_valid_inv [OF e(1,2) c] O_end by (simp add: o_search_step_def)
qed (use i in \<open>simp_all add: o_search_step_def\<close>)

end
