(* ===== verification/Lock_Search_Properties.thy ===== *)
theory Lock_Search_Properties imports Lock_Search Gecos_Properties begin

text \<open>
  The validating search of \<open>list_lock.c\<close> is linearizable and safe against one
  concurrent writer, with \<open>GCLOCK\<close> and with \<open>SEQLOCK\<close>, with and without
  \<open>SEQLOCK_VLD\<close>, although it reads nodes that were freed and used again.
\<close>

section \<open>Whole executions\<close>

lemma lk_updater_evolves:
  assumes inv: "lw_inv m s W L" and c: "counts base d n s" and st: "lw_step m s W = (s', W')"
  shows "\<exists>L' d'. lw_inv m s' W' L' \<and> counts base d' (Suc n) s' \<and> lk_evolves m s (lw W) L d s' (lw W') L' d'"
proof -
  let ?b = "w_bucket (lw W)"
  obtain L' x where x: "lw_inv m s' W' L'" "set (pool s') \<subseteq> set (pool s)"
    "locks s' = (if x then (locks s)(?b := locks s ?b + 1) else locks s)"
    "\<forall>p b. open_word m (locks s b) \<and> locks s' b = locks s b \<and> inlist (lw W) L b p \<longrightarrow>
       keyof s' p = keyof s p \<and> inlist (lw W') L' b p"
    using lw_step_inv [OF inv st] unfolding lw_steps_to_def by blast
  let ?d = "if x then d(?b := Suc (d ?b)) else d"
  have "counts base ?d (Suc n) s'" using c x(3) by (auto simp: counts_def intro: le_SucI)
  moreover have "lk_evolves m s (lw W) L d s' (lw W') L' ?d"
    unfolding lk_evolves_def
  proof (intro conjI allI impI)
    fix p b assume a: "?d b = d b" "open_word m (locks s b)" "inlist (lw W) L b p"
    have "locks s' b = locks s b" using a(1) x(3) by (auto split: if_splits)
    then show "keyof s' p = keyof s p" "inlist (lw W') L' b p" using x(4) a(2,3) by blast+
  qed (use x(2) in auto)
  ultimately show ?thesis using x(1) by blast
qed

lemma lk_step_inv:
  assumes inv: "lw_inv m (k_sh c) (k_upd c) L" and e: "counts base d n (k_sh c)" "n < 2 ^ 64"
    and H: "bucket_keys (k_sh c) b \<in> H" and r: "o_rd_inv m (k_sh c) (lw (k_upd c)) L base d H (k_rds c i)"
    and b: "o_bucket (k_rds c i) = b" and a: "\<And>k b. a \<noteq> Start_search i k b"
    and c': "c' = lk_step m vld a c"
  shows "\<exists>L' d'. lw_inv m (k_sh c') (k_upd c') L' \<and> counts base d' (Suc n) (k_sh c') \<and>
    o_rd_inv m (k_sh c') (lw (k_upd c')) L' base d' (insert (bucket_keys (k_sh c') b) H) (k_rds c' i) \<and>
    o_bucket (k_rds c' i) = b \<and> o_key (k_rds c' i) = o_key (k_rds c i)"
proof -
  have e': "counts base d (Suc n) (k_sh c)" using e by (auto simp: counts_def intro: le_SucI)
  have W: "winv (k_sh c) (lw (k_upd c)) L" using inv by (simp add: lw_inv_def)
  have still: "o_rd_inv m (k_sh c) w' L base d (insert (bucket_keys (k_sh c) b) H) (k_rds c i)"
    if "\<And>b p. inlist (lw (k_upd c)) L b p \<Longrightarrow> inlist w' L b p" for w'
    by (rule o_rd_inv_evolves [OF _ subset_insertI e(1) r]) (use that in \<open>simp add: lk_evolves_def\<close>)
  show ?thesis
  proof (cases a)
    case (Start_delete k' b')
    have "o_rd_inv m (k_sh c) (lw (lw_delete k' b' (k_upd c))) L base d
        (insert (bucket_keys (k_sh c) b) H) (k_rds c i)"
      by (rule still) (auto simp: lw_delete_def start_delete_def inlist_def)
    then show ?thesis unfolding c' Start_delete using lw_start_inv(1) [OF inv] e' b by auto
  next
    case (Start_insert k' b')
    have "o_rd_inv m (k_sh c) (lw (lw_insert (k_sh c) k' b' (k_upd c))) L base d
        (insert (bucket_keys (k_sh c) b) H) (k_rds c i)"
      by (rule still) (auto simp: lw_insert_def start_insert_def inlist_def)
    then show ?thesis unfolding c' Start_insert using lw_start_inv(2) [OF inv] e' b by auto
  next
    case Updater
    obtain s' W' where st: "lw_step m (k_sh c) (k_upd c) = (s', W')" by force
    obtain L' d' where x: "lw_inv m s' W' L'" "counts base d' (Suc n) s'"
      "lk_evolves m (k_sh c) (lw (k_upd c)) L d s' (lw W') L' d'"
      using lk_updater_evolves [OF inv e(1) st] by blast
    show ?thesis unfolding c' Updater
      using x o_rd_inv_evolves [OF x(3) subset_insertI e(1) r] b st by simp blast
  next
    case (Reader j)
    have "o_rd_inv m (k_sh c) (lw (k_upd c)) L base d H (o_search_step m vld (k_sh c) (k_rds c i))"
      using o_search_step_inv [OF W e _ r] H b by simp
    then have "o_rd_inv m (k_sh c) (lw (k_upd c)) L base d H (k_rds c' i)"
      using r by (cases "i = j") (simp_all add: c' Reader)
    moreover have "k_sh c' = k_sh c" "k_upd c' = k_upd c" "o_bucket (k_rds c' i) = b"
      "o_key (k_rds c' i) = o_key (k_rds c i)"
      using b by (auto simp: c' Reader)
    ultimately show ?thesis using inv e' H by (simp add: insert_absorb) blast
  next
    case (Start_search j k' b')
    then have "j \<noteq> i" using a by auto
    then have "k_rds c' i = k_rds c i" "k_sh c' = k_sh c" "k_upd c' = k_upd c"
      unfolding c' Start_search by (auto split: opc.splits)
    then show ?thesis using inv e' H r b by (auto simp: insert_absorb)
  qed
qed

lemma lk_exec_inv:
  assumes "lw_inv m (k_sh c) (k_upd c) L" and "counts base d n (k_sh c)" and "n + length as < 2 ^ 64"
    and "bucket_keys (k_sh c) b \<in> H" and "o_rd_inv m (k_sh c) (lw (k_upd c)) L base d H (k_rds c i)"
    and "o_bucket (k_rds c i) = b" and "\<And>k b. Start_search i k b \<notin> set as"
  shows "\<exists>L' d'. o_rd_inv m (k_sh (lk_exec m vld as c)) (lw (k_upd (lk_exec m vld as c))) L' base d'
      (H \<union> (\<lambda>c. bucket_keys (k_sh c) b) ` set (lk_visited m vld as c)) (k_rds (lk_exec m vld as c) i) \<and>
    o_key (k_rds (lk_exec m vld as c) i) = o_key (k_rds c i)"
  using assms
proof (induction as arbitrary: c L d n H)
  case Nil
  then show ?case by (auto simp: insert_absorb)
next
  case (Cons a as)
  let ?c = "lk_step m vld a c"
  have "n < 2 ^ 64" "\<And>k b. a \<noteq> Start_search i k b" using Cons.prems(3,7) by auto
  then obtain L' d' where x: "lw_inv m (k_sh ?c) (k_upd ?c) L'" "counts base d' (Suc n) (k_sh ?c)"
    "o_rd_inv m (k_sh ?c) (lw (k_upd ?c)) L' base d' (insert (bucket_keys (k_sh ?c) b) H) (k_rds ?c i)"
    "o_bucket (k_rds ?c i) = b" "o_key (k_rds ?c i) = o_key (k_rds c i)"
    using lk_step_inv [OF Cons.prems(1,2) _ Cons.prems(4,5,6) _ HOL.refl] by blast
  have "bucket_keys (k_sh ?c) b \<in> (\<lambda>c. bucket_keys (k_sh c) b) ` set (lk_visited m vld as ?c)"
    by (cases as) auto
  then have "insert (bucket_keys (k_sh ?c) b) H \<union> (\<lambda>c. bucket_keys (k_sh c) b) ` set (lk_visited m vld as ?c)
      = H \<union> (\<lambda>c. bucket_keys (k_sh c) b) ` set (lk_visited m vld (a # as) c)"
    using Cons.prems(4) by auto
  then show ?case
    using Cons.IH [OF x(1,2) _ _ x(3,4)] Cons.prems(3,7) x(5) by simp
qed

lemma lk_step_ok:
  assumes "lk_ok m c"
  shows "lk_ok m (lk_step m vld a c)"
proof -
  obtain L where L: "lw_inv m (k_sh c) (k_upd c) L" using assms by (auto simp: lk_ok_def)
  show ?thesis
  proof (cases a)
    case Updater
    obtain s' W' where st: "lw_step m (k_sh c) (k_upd c) = (s', W')" by force
    then show ?thesis using lw_step_inv [OF L st] Updater by (auto simp: lk_ok_def lw_steps_to_def)
  next
    case (Start_delete k b)
    then show ?thesis using lw_start_inv(1) [OF L, of k b] by (auto simp: lk_ok_def)
  next
    case (Start_insert k b)
    then show ?thesis using lw_start_inv(2) [OF L, of k b] by (auto simp: lk_ok_def)
  qed (use L in \<open>auto simp: lk_ok_def split: opc.splits\<close>)
qed

section \<open>Properties\<close>

text \<open>
  (the writer under an optimistic lock): every interleaving keeps the buckets
  sorted and disjoint and the free lists apart from them, and with \<open>SEQLOCK\<close> the
  word of a bucket is odd exactly while the writer is inside.
\<close>

theorem lk_system_ok:
  assumes "lk_ok m c"
  shows "lk_ok m (lk_exec m vld as c)"
  using assms by (induction as arbitrary: c) (auto intro: lk_step_ok)

text \<open>
  C9 (the validating search): in any interleaving with one writer and other
  readers shorter than 2^64 steps, a search never dereferences NULL, and an
  answer it returned is the membership of its key at some moment of the search.
\<close>

theorem validating_search_linearizable:
  assumes "lk_ok m c" and "k_rds c i = o_init k b"
    and "\<And>k b. Start_search i k b \<notin> set as" and "length as < 2 ^ 64"
  shows "let pc = o_pc (k_rds (lk_exec m vld as c) i) in pc \<noteq> O_fault \<and>
    (\<forall>x. pc = O_ret x \<longrightarrow>
       (\<exists>c'\<in>set (lk_visited m vld as c). x = (if k \<in> bucket_keys (k_sh c') b then 1 else 0)))"
proof -
  let ?r = "k_rds (lk_exec m vld as c) i" and ?K = "\<lambda>c. bucket_keys (k_sh c) b"
  obtain L where L: "lw_inv m (k_sh c) (k_upd c) L" using assms(1) by (auto simp: lk_ok_def)
  have "counts (locks (k_sh c)) (\<lambda>_. 0) 0 (k_sh c)" by (simp add: counts_def)
  moreover have "o_rd_inv m (k_sh c) (lw (k_upd c)) L (locks (k_sh c)) (\<lambda>_. 0) {?K c} (k_rds c i)"
    unfolding assms(2) by (simp add: o_rd_inv_def o_init_def)
  ultimately obtain L' d' where x: "o_rd_inv m (k_sh (lk_exec m vld as c)) (lw (k_upd (lk_exec m vld as c))) L'
      (locks (k_sh c)) d' ({?K c} \<union> ?K ` set (lk_visited m vld as c)) ?r" "o_key ?r = o_key (k_rds c i)"
    using lk_exec_inv [OF L, of "locks (k_sh c)" "\<lambda>_. 0" 0 as b "{?K c}" i vld] assms(2-4)
    by (auto simp: o_init_def)
  have "c \<in> set (lk_visited m vld as c)" by (cases as) auto
  then have "{?K c} \<union> ?K ` set (lk_visited m vld as c) = ?K ` set (lk_visited m vld as c)" by auto
  moreover have "o_key ?r = k" using x(2) assms(2) by (simp add: o_init_def)
  ultimately show ?thesis using x(1) unfolding Let_def by (cases "o_pc ?r") (simp_all add: o_rd_inv_def)
qed

section \<open>Witnesses\<close>

definition lk_start :: "ptr list \<Rightarrow> (nat \<Rightarrow> oreader) \<Rightarrow> lk_sys" where
  "lk_start ps q = \<lparr>k_sh = init_mem ps, k_upd = \<lparr>lw = init_writer, l_acq = False, l_rel = False\<rparr>, k_rds = q\<rparr>"

lemma lk_start_ok: "lk_ok m (lk_start [64, 128] q)"
proof -
  have "winv (init_mem [64, 128]) init_writer (\<lambda>_. [])"
    using init_mem_ok [of "[64, 128]"] by (simp add: winv_def init_writer_def held_def wpc_inv_def linked_def)
  then have "lw_inv m (init_mem [64, 128]) \<lparr>lw = init_writer, l_acq = False, l_rel = False\<rparr> (\<lambda>_. [])"
    by (simp add: lw_inv_def inside_def init_writer_def init_mem_def init_allocator_def prealloc_def)
  then show ?thesis by (auto simp: lk_ok_def lk_start_def)
qed

text \<open>A reader is at 5 with the word validated; 5 is deleted, freed and used again for 9.\<close>

definition lk_reuse :: "actor list" where
  "lk_reuse =
     [Start_insert 5 0, Updater, Updater, Updater, Updater, Updater, Updater, Updater,
      Reader 0, Reader 0, Reader 0,
      Start_delete 5 0, Updater, Updater, Updater, Updater, Updater, Updater,
      Start_insert 9 0, Updater, Updater, Updater, Updater, Updater, Updater, Updater,
      Reader 0, Reader 0, Reader 0, Reader 0, Reader 0, Reader 0, Reader 0]"

lemma lk_eval: "lk_exec m vld as c = d \<Longrightarrow> P d \<Longrightarrow> P (lk_exec m vld as c)"
  by simp

lemma lk_eval_step: "lk_step m vld a c = c' \<Longrightarrow> lk_exec m vld as c' = d \<Longrightarrow> lk_exec m vld (a # as) c = d"
  by simp

lemmas lk_machine_eval = machine_eval lw_step_def lw_delete_def lw_insert_def lock_step_w_def lock_op_def
  o_wlock_def o_wunlock_def o_rlock_def o_runlock_def seq_wlock_def seq_wunlock_def seq_rlock_def
  seq_runlock_def o_search_step_def o_valid_def o_loop_def o_init_def lk_start_def

lemma lk_reuse_run:
  "o_pc (k_rds (lk_exec Seq_lock False lk_reuse (lk_start [64, 128] (\<lambda>_. o_init 5 0))) 0) = O_ret 0"
  unfolding lk_reuse_def
  apply (rule lk_eval [where P = "\<lambda>c. o_pc (k_rds c 0) = O_ret 0"])
   apply ((rule lk_eval_step, (simp add: lk_machine_eval Let_def; fail))+)
   apply (rule lk_exec.simps(1))
  apply simp
  done

lemma lk_system_ok_witness: "lk_ok Gc_lock (lk_exec Gc_lock True lk_reuse (lk_start [64, 128] (\<lambda>_. o_init 5 0)))"
  by (rule lk_system_ok [OF lk_start_ok])

lemma validating_search_linearizable_witness:
  "\<exists>c'\<in>set (lk_visited Seq_lock False lk_reuse (lk_start [64, 128] (\<lambda>_. o_init 5 0))).
     (0 :: int) = (if 5 \<in> bucket_keys (k_sh c') 0 then 1 else 0)"
proof -
  have "k_rds (lk_start [64, 128] (\<lambda>_. o_init 5 0)) 0 = o_init 5 0" by (simp add: lk_start_def)
  moreover have "Start_search 0 k b \<notin> set lk_reuse" for k b by (simp add: lk_reuse_def)
  moreover have "length lk_reuse < 2 ^ 64" by (simp add: lk_reuse_def)
  ultimately show ?thesis
    using validating_search_linearizable [OF lk_start_ok, of "\<lambda>_. o_init 5 0" 0 5 0 lk_reuse Seq_lock False]
      lk_reuse_run unfolding Let_def by blast
qed

end
