(* ===== verification/Allocator_Builds.thy ===== *)
theory Allocator_Builds imports Allocator_Threads Allocator_Variants begin

text \<open>
  The calls of a thread in the builds whose \<open>get_free\<close> and \<open>add_free\<close> keep no count: the
  default one and \<open>SIMPLE_ALLOC\<close>.  In the latter a call touches the thread's own list
  only, so calls of different threads may overlap as they like.
\<close>

datatype alloc_build = Default_alloc | Simple_alloc

definition build_get :: "alloc_build \<Rightarrow> 'w alloc_scheme \<Rightarrow> (ptr \<times> 'w alloc_scheme) option" where
  "build_get a = (case a of Default_alloc \<Rightarrow> get_free | Simple_alloc \<Rightarrow> get_free_simple)"

definition build_add :: "alloc_build \<Rightarrow> ptr \<Rightarrow> 'w alloc_scheme \<Rightarrow> 'w alloc_scheme option" where
  "build_add a = (case a of Default_alloc \<Rightarrow> add_free | Simple_alloc \<Rightarrow> add_free_simple)"

definition call_new :: "alloc_build \<Rightarrow> nat \<Rightarrow> talloc \<Rightarrow> (ptr \<times> talloc) option" where
  "call_new a t s = map_option (\<lambda>(n, s). (n, switch_out t s)) (new_with (build_get a) (switch_in t s))"

definition call_free :: "alloc_build \<Rightarrow> nat \<Rightarrow> ptr \<Rightarrow> talloc \<Rightarrow> talloc option" where
  "call_free a t p s = map_option (switch_out t) (free_with (build_add a) p (switch_in t s))"

lemma call_default: "call_new Default_alloc = thread_new" "call_free Default_alloc = thread_free"
  by (simp_all add: fun_eq_iff call_new_def call_free_def thread_new_def thread_free_def build_get_def build_add_def
      default_calls)

section \<open>\<open>SIMPLE_ALLOC\<close>\<close>

text \<open>No call touches what belongs to another thread: its list, or the shared one.\<close>

lemma simple_private:
  "call_new Simple_alloc t s = Some (n, s') \<Longrightarrow> freelist s' = freelist s \<and> (\<forall>u. u \<noteq> t \<longrightarrow> tls s' u = tls s u)"
  "call_free Simple_alloc t p s = Some s' \<Longrightarrow> freelist s' = freelist s \<and> pool s' = pool s \<and>
     (\<forall>u. u \<noteq> t \<longrightarrow> tls s' u = tls s u) \<and> (\<forall>q. q \<noteq> p \<longrightarrow> node s' q = node s q)"
  by (auto simp: call_new_def call_free_def build_get_def build_add_def new_with_def free_with_def get_free_simple_def
      add_free_simple_def rd_def wr_def calloc_node_def bind_eq_Some_iff split: if_splits list.splits)

lemma simple_new_mem:
  assumes "call_new Simple_alloc t s = Some (n, s')"
  shows "heads s' = heads s" "locks s' = locks s"
    "(pool s' = pool s \<and> node s' = node s) \<or> (pool s = n # pool s' \<and> node s' = (node s)(n := zero_node))"
  using assms
  by (auto simp: call_new_def build_get_def new_with_def get_free_simple_def rd_def calloc_node_def switch_in_def
      switch_out_def bind_eq_Some_iff split: if_splits list.splits)

lemma simple_free_mem:
  assumes "call_free Simple_alloc t p s = Some s'"
  shows "mr_only s s'" "pool s' = pool s"
  using assms
  by (auto simp: call_free_def build_add_def free_with_def add_free_simple_def wr_def switch_in_def
      switch_out_def mr_only_def bind_eq_Some_iff split: if_splits)

lemma simple_new_ok:
  assumes inv: "mt_inv s A F G"
  shows "\<exists>n s'. call_new Simple_alloc t s = Some (n, s') \<and>
    (if n = NULL then mt_ok s' A \<and> pool s = [] else n \<notin> A \<and> mt_ok s' (insert n A))"
proof -
  let ?s = "switch_in t s"
  have ch: "chain (mrs s) (t_lfl (tls s u)) (F u) NULL" "chain (mrs s) (freelist s) G NULL" for u
    using inv by (auto simp: mt_inv_def)
  have dis: "u \<noteq> v \<Longrightarrow> set (F u) \<inter> set (F v) = {}" "set (F u) \<inter> set G = {}"
    "set (F u) \<inter> (A \<union> set (pool s)) = {}" "set G \<inter> (A \<union> set (pool s)) = {}" "A \<inter> set (pool s) = {}"
    "distinct (pool s)" "NULL \<notin> set (pool s)" "NULL \<notin> A" for u v
    using inv by (auto simp: mt_inv_def)
  show ?thesis
  proof (cases "F t")
    case (Cons y Y)
    let ?s1 = "?s\<lparr>lfl := mr_next (node s y)\<rparr>"
    have y: "t_lfl (tls s t) = y" "y \<noteq> NULL" "chain (mrs s) (mr_next (node s y)) Y NULL" "y \<notin> set Y"
      using ch(1) [of t] Cons chain_distinct by fastforce+
    have "call_new Simple_alloc t s = Some (y, switch_out t ?s1)"
      using y by (simp add: call_new_def build_get_def new_with_def get_free_simple_def rd_def)
    moreover have "mt_inv (switch_out t ?s1) (insert y A) (F(t := Y)) G"
    proof (rule mt_outI)
      show "set (F u) \<inter> (set Y \<union> set G \<union> insert y A \<union> set (pool ?s1)) = {}" if "u \<noteq> t" for u
        using dis(1) [OF that] dis(2,3) [of u] Cons by auto
      show "set Y \<inter> (set G \<union> insert y A \<union> set (pool ?s1)) = {}" using dis(2,3) [of t] y(4) Cons by auto
      show "set G \<inter> (insert y A \<union> set (pool ?s1)) = {}" using dis(2) [of t] dis(4) Cons by auto
      show "insert y A \<inter> set (pool ?s1) = {}" using dis(3) [of t] dis(5) Cons by auto
    qed (use y ch dis in auto)
    moreover have "y \<notin> A" using dis(3) [of t] Cons by auto
    ultimately show ?thesis using y(2) by (auto simp: mt_ok_def)
  next
    case Nil
    then have l: "t_lfl (tls s t) = NULL" using ch(1) [of t] by simp
    show ?thesis
    proof (cases "pool s")
      case none: Nil
      let ?s1 = "?s\<lparr>nbmallocs := nbmallocs ?s + 1\<rparr>"
      have "call_new Simple_alloc t s = Some (NULL, switch_out t ?s1)"
        using l none by (simp add: call_new_def build_get_def new_with_def get_free_simple_def calloc_node_def)
      moreover have "mt_inv (switch_out t ?s1) A (F(t := [])) G"
      proof (rule mt_outI)
        show "set (F u) \<inter> (set [] \<union> set G \<union> A \<union> set (pool ?s1)) = {}" for u
          using dis(2,3) [of u] none by auto
      qed (use l ch dis none in auto)
      ultimately show ?thesis using none by (auto simp: mt_ok_def)
    next
      case (Cons p ps)
      let ?s1 = "?s\<lparr>pool := ps, node := (node s)(p := zero_node), nbmallocs := nbmallocs ?s + 1\<rparr>"
      have p: "p \<noteq> NULL" "p \<notin> A" "p \<notin> set ps" "distinct ps" "NULL \<notin> set ps" "A \<inter> set ps = {}"
        "p \<notin> set (F u)" "set (F u) \<inter> (A \<union> set ps) = {}" "p \<notin> set G" "set G \<inter> (A \<union> set ps) = {}" for u
        using dis(3) [of u] dis(4-8) Cons by auto
      have "call_new Simple_alloc t s = Some (p, switch_out t ?s1)"
        using l Cons p(1) by (simp add: call_new_def build_get_def new_with_def get_free_simple_def calloc_node_def
            switch_in_def)
      moreover have c: "chain (mrs ?s1) h X NULL" if "chain (mrs s) h X NULL" "p \<notin> set X" for h X
        using that chain_cong [of X "mrs ?s1" "mrs s" h NULL] by fastforce
      have "mt_inv (switch_out t ?s1) (insert p A) (F(t := [])) G"
      proof (rule mt_outI)
        show "set (F u) \<inter> (set [] \<union> set G \<union> insert p A \<union> set (pool ?s1)) = {}" for u
          using dis(2) [of u] p(7,8) [of u] by auto
      qed (use l c [OF ch(1) p(7)] c [OF ch(2) p(9)] dis(1,8) p in auto)
      ultimately show ?thesis using p(1,2) by (auto simp: mt_ok_def)
    qed
  qed
qed

lemma simple_free_ok:
  assumes inv: "mt_inv s A F G" and p: "p \<in> A"
  shows "\<exists>s'. call_free Simple_alloc t p s = Some s' \<and> mt_ok s' (A - {p})"
proof -
  let ?s1 = "(switch_in t s)\<lparr>node := (node s)(p := node s p\<lparr>mr_next := t_lfl (tls s t)\<rparr>), lfl := p,
    nbfl := nbfl (switch_in t s) + 1\<rparr>"
  have ch: "chain (mrs s) (t_lfl (tls s u)) (F u) NULL" "chain (mrs s) (freelist s) G NULL" for u
    using inv by (auto simp: mt_inv_def)
  have dis: "u \<noteq> v \<Longrightarrow> set (F u) \<inter> set (F v) = {}" "set (F u) \<inter> set G = {}"
    "set (F u) \<inter> (A \<union> set (pool s)) = {}" "set G \<inter> (A \<union> set (pool s)) = {}" "A \<inter> set (pool s) = {}"
    "distinct (pool s)" "NULL \<notin> set (pool s)" "NULL \<notin> A" for u v
    using inv by (auto simp: mt_inv_def)
  have pn: "p \<noteq> NULL" "p \<notin> set (F u)" "p \<notin> set G" "p \<notin> set (pool s)" for u
    using p dis(3) [of u] dis(4,5,8) by auto
  have m: "mrs ?s1 = (mrs s)(p := t_lfl (tls s t))" by auto
  have e: "call_free Simple_alloc t p s = Some (switch_out t ?s1)"
    using pn(1) by (simp add: call_free_def build_add_def free_with_def add_free_simple_def wr_def)
  have "mt_inv (switch_out t ?s1) (A - {p}) (F(t := p # F t)) G"
  proof (rule mt_outI)
    show "chain (mrs ?s1) (lfl ?s1) (p # F t) NULL" unfolding m using ch(1) [of t] pn by simp
    show "chain (mrs ?s1) (t_lfl (tls ?s1 u)) (F u) NULL" for u unfolding m using ch(1) [of u] pn by simp
    show "chain (mrs ?s1) (freelist ?s1) G NULL" unfolding m using ch(2) pn by simp
    show "set (F u) \<inter> (set (p # F t) \<union> set G \<union> (A - {p}) \<union> set (pool ?s1)) = {}" if "u \<noteq> t" for u
      using dis(1) [OF that] dis(2,3) [of u] pn(2) [of u] by auto
    show "set (p # F t) \<inter> (set G \<union> (A - {p}) \<union> set (pool ?s1)) = {}" using dis(2,3) [of t] pn by auto
  qed (use dis in auto)
  then show ?thesis using e by (auto simp: mt_ok_def)
qed

section \<open>Either build\<close>

lemma call_new_ok:
  assumes "mt_inv s A F G"
  shows "\<exists>n s'. call_new a t s = Some (n, s') \<and>
    (if n = NULL then mt_ok s' A \<and> pool s = [] else n \<notin> A \<and> mt_ok s' (insert n A))"
  using thread_new_ok [OF assms] simple_new_ok [OF assms] by (cases a) (simp_all add: call_default)

lemma call_new_mem:
  assumes "call_new a t s = Some (n, s')"
  shows "heads s' = heads s" "locks s' = locks s"
    "(pool s' = pool s \<and> node s' = node s) \<or> (pool s = n # pool s' \<and> node s' = (node s)(n := zero_node))"
  using assms thread_new_mem [of t s n s'] simple_new_mem [of t s n s'] by (cases a; simp add: call_default)+

lemma call_free_ok: "mt_inv s A F G \<Longrightarrow> p \<in> A \<Longrightarrow> \<exists>s'. call_free a t p s = Some s' \<and> mt_ok s' (A - {p})"
  using thread_free_ok simple_free_ok by (cases a) (simp_all add: call_default)

lemma call_free_mem:
  assumes "call_free a t p s = Some s'"
  shows "mr_only s s'" "pool s' = pool s"
  using assms thread_free_mem [of t p s s'] simple_free_mem [of t p s s'] by (cases a; simp add: call_default)+

end
