(* ===== verification/Rcu.thy ===== *)
theory Rcu imports Gecos_Search begin

text \<open>
  The RCU list: \<open>rcu.c\<close> and \<open>list_rcu.c\<close>.  A deleted node is handed to \<open>call_rcu\<close>;
  the callback that frees it runs later, on a thread of the RCU library with a
  private free list of its own.  When it runs is up to the library: the schedule
  decides, and what the library documents, that a callback waits for the readers
  that were inside when the node was handed over, is the predicate \<open>grace\<close> on
  schedules.
\<close>

section \<open>State\<close>

text \<open>
  \<open>pending\<close> are the nodes handed to \<open>call_rcu\<close> whose callback has not run.  The fields
  of \<open>alloc\<close> that are thread-local belong to the updater; \<open>cb_lfl\<close> to \<open>cb_nbfl\<close> are the
  same variables of the callback thread.  \<open>amort\<close> is thread-local too.
\<close>

record rcu = alloc +
  pending :: "ptr list"
  cb_lfl :: ptr
  cb_tail :: ptr
  cb_lcnt :: int
  cb_nbfl :: int
  qsblockeds :: u64
  rcublockeds :: u64
  amort :: u64
  cb_amort :: u64

text \<open>The macros \<open>RCU_COUNT_BLC\<close> and \<open>RCU_COUNT_ATM\<close>, which count the nodes waiting.\<close>

datatype counting = No_count | Count_blc | Count_atm

definition AMORT_COUNT :: u64 where "AMORT_COUNT = 16"

section \<open>The counters\<close>

text \<open>
  What \<open>free_node_cb\<close> counts, with its assertions: \<open>qsblockeds\<close> is a signed long;
  \<open>rcublockeds < tmp\<close> compares unsigned because \<open>tmp\<close> is.
\<close>

definition count_callback :: "counting \<Rightarrow> 'w rcu_scheme \<Rightarrow> 'w rcu_scheme option" where
  "count_callback m s =
     (if m = No_count then Some s
      else do {
        let tmp = qsblockeds s;
        let s = (if rcublockeds s < tmp then s\<lparr>rcublockeds := tmp\<rparr> else s);
        s \<leftarrow> (if m = Count_atm then
               (let s = s\<lparr>cb_amort := cb_amort s + 1\<rparr> in
                if AMORT_COUNT \<le> cb_amort s then
                  if \<not> AMORT_COUNT \<le> tmp then None
                  else Some (s\<lparr>qsblockeds := snd (atomic_xadd4 (qsblockeds s) (- AMORT_COUNT)), cb_amort := 0\<rparr>)
                else Some s)
             else Some (s\<lparr>qsblockeds := qsblockeds s - 1\<rparr>));
        if \<not> 0 \<le> sint (qsblockeds s) then None else Some s
      })"

text \<open>What \<open>free_node_later\<close> counts after \<open>call_rcu\<close>.\<close>

definition count_retired :: "counting \<Rightarrow> 'w rcu_scheme \<Rightarrow> 'w rcu_scheme" where
  "count_retired m s = (case m of
       No_count \<Rightarrow> s
     | Count_blc \<Rightarrow> s\<lparr>qsblockeds := qsblockeds s + 1\<rparr>
     | Count_atm \<Rightarrow>
         (let s = s\<lparr>amort := amort s + 1\<rparr> in
          if AMORT_COUNT \<le> amort s then s\<lparr>amort := 0\<rparr>
          else if amort s = 1 then s\<lparr>qsblockeds := snd (atomic_xadd4 (qsblockeds s) AMORT_COUNT)\<rparr>
          else s))"

section \<open>Retiring and freeing\<close>

text \<open>Running an allocator function on the callback thread.\<close>

definition swap_thread :: "'w rcu_scheme \<Rightarrow> 'w rcu_scheme" where
  "swap_thread s = s\<lparr>lfl := cb_lfl s, lfl_tail := cb_tail s, lcnt := cb_lcnt s, nbfl := cb_nbfl s,
     cb_lfl := lfl s, cb_tail := lfl_tail s, cb_lcnt := lcnt s, cb_nbfl := nbfl s\<rparr>"

definition free_node_cb :: "counting \<Rightarrow> ptr \<Rightarrow> 'w rcu_scheme \<Rightarrow> 'w rcu_scheme option" where
  "free_node_cb m p s = do {
     s \<leftarrow> count_callback m s;
     s \<leftarrow> free_node p (swap_thread s);
     Some (swap_thread s)
   }"

definition rcu_free_node_later :: "counting \<Rightarrow> ptr \<Rightarrow> 'w rcu_scheme \<Rightarrow> 'w rcu_scheme" where
  "rcu_free_node_later m p s = count_retired m (s\<lparr>pending := pending s @ [p]\<rparr>)"

definition rcu_init_new_node :: "'w alloc_scheme \<Rightarrow> (ptr \<times> 'w alloc_scheme) option" where
  "rcu_init_new_node s = new_node s"

section \<open>The machine\<close>

text \<open>
  A search, one access at a time: it enters with \<open>rcu_read_lock\<close> and leaves with
  \<open>rcu_read_unlock\<close>.
\<close>

datatype upc = U_lock | U_head | U_key | U_next | U_unlock int | U_fault | U_ret int

record ureader =
  u_key :: int
  u_bucket :: nat
  u_pc :: upc
  u_cur :: ptr

definition u_init :: "int \<Rightarrow> nat \<Rightarrow> ureader" where
  "u_init k b = \<lparr>u_key = k, u_bucket = b, u_pc = U_lock, u_cur = NULL\<rparr>"

definition u_search_step :: "'w mem_scheme \<Rightarrow> ureader \<Rightarrow> ureader" where
  "u_search_step s r = (case u_pc r of
     U_lock \<Rightarrow> r\<lparr>u_pc := U_head\<rparr>
   | U_head \<Rightarrow>
       (let c = heads s (u_bucket r) in
        r\<lparr>u_cur := c, u_pc := (if c = NULL then U_unlock 0 else U_key)\<rparr>)
   | U_key \<Rightarrow> (case rd s (u_cur r) of
       None \<Rightarrow> r\<lparr>u_pc := U_fault\<rparr>
     | Some n \<Rightarrow> r\<lparr>u_pc := (if u_key r \<le> key n then U_unlock (if key n = u_key r then 1 else 0)
         else U_next)\<rparr>)
   | U_next \<Rightarrow> (case rd s (u_cur r) of
       None \<Rightarrow> r\<lparr>u_pc := U_fault\<rparr>
     | Some n \<Rightarrow> r\<lparr>u_cur := nxt n, u_pc := (if nxt n = NULL then U_unlock 0 else U_key)\<rparr>)
   | U_unlock x \<Rightarrow> r\<lparr>u_pc := U_ret x\<rparr>
   | U_fault \<Rightarrow> r
   | U_ret x \<Rightarrow> r)"

definition reading :: "ureader \<Rightarrow> bool" where
  "reading r \<longleftrightarrow> (case u_pc r of U_lock \<Rightarrow> False | U_ret x \<Rightarrow> False | _ \<Rightarrow> True)"

text \<open>
  The updater is that of \<open>list_writer.c\<close>; instead of a bump and a free it calls
  \<open>free_node_later\<close>.  The Makefile does not define the counting macros.
\<close>

definition rcu_writer_step :: "rcu \<Rightarrow> writer \<Rightarrow> rcu \<times> writer" where
  "rcu_writer_step s w =
     (if w_pc w = D_bump then (rcu_free_node_later No_count (w_cur w) s, finish 1 w) else writer_step s w)"

datatype ractor = Act actor | Callback ptr

record rcu_sys =
  u_sh :: rcu
  u_upd :: writer
  u_rds :: "nat \<Rightarrow> ureader"
  u_crash :: bool

fun rcu_step :: "ractor \<Rightarrow> rcu_sys \<Rightarrow> rcu_sys" where
  "rcu_step (Act (Start_delete k b)) c = c\<lparr>u_upd := start_delete k b (u_upd c)\<rparr>"
| "rcu_step (Act (Start_insert k b)) c = c\<lparr>u_upd := start_insert (u_sh c) k b (u_upd c)\<rparr>"
| "rcu_step (Act Updater) c =
     (case rcu_writer_step (u_sh c) (u_upd c) of (s, w) \<Rightarrow> c\<lparr>u_sh := s, u_upd := w\<rparr>)"
| "rcu_step (Act (Reader i)) c = c\<lparr>u_rds := (u_rds c)(i := u_search_step (u_sh c) (u_rds c i))\<rparr>"
| "rcu_step (Act (Start_search i k b)) c = (case u_pc (u_rds c i) of
     U_ret x \<Rightarrow> c\<lparr>u_rds := (u_rds c)(i := u_init k b)\<rparr>
   | _ \<Rightarrow> c)"
| "rcu_step (Callback p) c =
     (if p \<notin> set (pending (u_sh c)) then c
      else case free_node_cb No_count p (u_sh c) of
        None \<Rightarrow> c\<lparr>u_crash := True\<rparr>
      | Some s \<Rightarrow> c\<lparr>u_sh := s\<lparr>pending := remove1 p (pending s)\<rparr>\<rparr>)"

primrec rcu_exec :: "ractor list \<Rightarrow> rcu_sys \<Rightarrow> rcu_sys" where
  "rcu_exec [] c = c"
| "rcu_exec (a # as) c = rcu_exec as (rcu_step a c)"

primrec rcu_visited :: "ractor list \<Rightarrow> rcu_sys \<Rightarrow> rcu_sys list" where
  "rcu_visited [] c = [c]"
| "rcu_visited (a # as) c = c # rcu_visited as (rcu_step a c)"

section \<open>What the library documents\<close>

text \<open>
  \<open>G p\<close> are the readers the callback of \<open>p\<close> still has to wait for: those inside when
  \<open>p\<close> was handed to \<open>call_rcu\<close>, until they leave.
\<close>

definition waiters :: "ractor \<Rightarrow> rcu_sys \<Rightarrow> (ptr \<Rightarrow> nat set) \<Rightarrow> ptr \<Rightarrow> nat set" where
  "waiters a c G p =
     (if a = Act Updater \<and> w_pc (u_upd c) = D_bump \<and> w_cur (u_upd c) = p then {i. reading (u_rds c i)}
      else {i \<in> G p. reading (u_rds (rcu_step a c) i)})"

primrec grace :: "(ptr \<Rightarrow> nat set) \<Rightarrow> ractor list \<Rightarrow> rcu_sys \<Rightarrow> bool" where
  "grace G [] c \<longleftrightarrow> True"
| "grace G (a # as) c \<longleftrightarrow> (\<forall>p. a = Callback p \<longrightarrow> G p = {}) \<and> grace (waiters a c G) as (rcu_step a c)"

section \<open>The invariant of the updater and the callbacks\<close>

text \<open>
  \<open>F\<close> is the private free list of the callback thread.  It is a proper list with
  a current tail: that thread frees nodes and never takes one.  The updater takes
  nodes and never frees one, so its own tail stays NULL.
\<close>

definition cb_list :: "rcu \<Rightarrow> ptr list \<Rightarrow> bool" where
  "cb_list s F \<longleftrightarrow> chain (mrs s) (cb_lfl s) F NULL \<and> cb_tail s = (if F = [] then NULL else last F) \<and>
     cb_lcnt s < AMORT_FREE_ON \<and> lfl_tail s = NULL \<and> distinct (pending s) \<and> set (pending s) \<inter> set F = {}"

definition rcu_inv :: "rcu \<Rightarrow> writer \<Rightarrow> (nat \<Rightarrow> ptr list) \<Rightarrow> ptr list \<Rightarrow> bool" where
  "rcu_inv s w L F \<longleftrightarrow> winvq s w L (set (pending s) \<union> set F) \<and> cb_list s F \<and> w_pc w \<noteq> D_free"

text \<open>Memory the allocator owns: fresh, on the shared free list or on a private one.\<close>

definition freed :: "rcu \<Rightarrow> ptr \<Rightarrow> bool" where
  "freed s p \<longleftrightarrow> p \<in> set (pool s) \<or>
     (\<exists>h\<in>{freelist s, lfl s, cb_lfl s}. \<exists>xs. chain (mrs s) h xs NULL \<and> p \<in> set xs)"

definition rcu_ok :: "rcu_sys \<Rightarrow> bool" where
  "rcu_ok c \<longleftrightarrow> (\<exists>L F. rcu_inv (u_sh c) (u_upd c) L F) \<and> \<not> u_crash c"

lemma wpc_inv_cong:
  assumes "\<And>p. key (node s' p) = key (node s p)" "\<And>p. nxt (node s' p) = nxt (node s p)"
  shows "wpc_inv s' w L \<longleftrightarrow> wpc_inv s w L"
proof -
  have "del_gap s' w L \<longleftrightarrow> del_gap s w L" "ins_gap s' w L \<longleftrightarrow> ins_gap s w L"
    by (rule gap_cong; simp add: assms(1))+
  then show ?thesis by (simp add: wpc_inv_def assms split: wpc.split)
qed

text \<open>The updater's own steps leave parked nodes alone, and the node it unlinks keeps its link.\<close>

lemma new_node_more: "new_node s = Some (n, s') \<Longrightarrow> alloc.more s' = alloc.more s \<and> lfl_tail s' = lfl_tail s"
  by (auto simp: new_node_def get_free_def calloc_node_def steal_eq bind_eq_Some_iff
      split: if_splits list.splits)

lemma wr_alloc_more: "wr p f (s :: 'w alloc_scheme) = Some s' \<Longrightarrow> alloc.more s' = alloc.more s \<and> lfl_tail s' = lfl_tail s"
  by (auto simp: wr_def split: if_splits)

lemma set_loc_alloc_more:
  "set_loc l v (s :: 'w alloc_scheme) = Some s' \<Longrightarrow> alloc.more s' = alloc.more s \<and> lfl_tail s' = lfl_tail s"
  by (cases l) (auto simp: wr_alloc_more)

lemma writer_step_more:
  assumes "writer_step s w = (s', w')" and "w_pc w \<noteq> D_free"
  shows "alloc.more s' = alloc.more s \<and> lfl_tail s' = lfl_tail s"
  using assms
  by (cases "w_pc w")
    (auto simp: writer_step_def store_def init_new_node_def osa_new_node_def split: option.splits
      dest: new_node_more wr_alloc_more set_loc_alloc_more)

lemma loc_target:
  assumes "set_loc (loc_of b us) v s = Some s'" and "p \<notin> set us"
  shows "node s' p = node s p"
  using assms by (cases us rule: rev_cases) (auto simp: wr_def split: if_splits)

lemma writer_step_parked:
  assumes inv: "winvq s w L Q" and st: "writer_step s w = (s', w')" and pc: "w_pc w \<noteq> D_free"
  shows "p \<in> Q \<Longrightarrow> node s' p = node s p"
    and "w_pc w' = D_bump \<Longrightarrow> node s' (w_cur w') = node s (w_cur w')"
proof -
  note W = winvD [OF inv]
  have us: "set us \<subseteq> linked L" if "L (w_bucket w) = us @ vs" for us vs
    using that linkedI [of _ L "w_bucket w"] by auto
  have q: "p \<notin> linked L" "p \<notin> held w" "p \<notin> set (pool s)" if "p \<in> Q"
    using W(6) winv_pool [OF inv] that by auto
  show "node s' p = node s p" if p: "p \<in> Q"
  proof (cases "w_pc w")
    case D_unlink
    then obtain us vs where uv: "L (w_bucket w) = us @ w_cur w # vs" "w_prev w = loc_of (w_bucket w) us"
      using W(5) by (auto simp: wpc_inv_def)
    have "p \<notin> set us" using us [OF uv(1)] q(1) [OF p] by auto
    then show ?thesis using st D_unlink uv(2) loc_target
      by (auto simp: writer_step_def store_def split: option.splits)
  next
    case I_link
    then obtain us vs where uv: "L (w_bucket w) = us @ vs" "w_prev w = loc_of (w_bucket w) us"
      using W(5) by (auto simp: wpc_inv_def ins_gap_def at_gap_def)
    have "p \<notin> set us" using us [OF uv(1)] q(1) [OF p] by auto
    then show ?thesis using st I_link uv(2) loc_target
      by (auto simp: writer_step_def store_def split: option.splits)
  next
    case I_alloc
    then have "alloc_ok s (linked L \<union> held w \<union> Q)" using W(2) by simp
    from new_node_ok [OF this] show ?thesis using st I_alloc q(3) [OF p]
      by (auto simp: writer_step_def init_new_node_def osa_new_node_def)
  next
    case D_bump
    then show ?thesis using st q(2) [OF p]
      by (auto simp: writer_step_def store_def wr_def held_def split: if_splits)
  next
    case I_key
    then show ?thesis using st q(2) [OF p]
      by (auto simp: writer_step_def store_def wr_def held_def split: if_splits)
  next
    case I_next
    then show ?thesis using st q(2) [OF p]
      by (auto simp: writer_step_def store_def wr_def held_def split: if_splits)
  qed (use st pc in \<open>auto simp: writer_step_def split: if_splits\<close>)
  show "node s' (w_cur w') = node s (w_cur w')" if d: "w_pc w' = D_bump"
  proof -
    have u: "w_pc w = D_unlink"
      using st d by (cases "w_pc w")
        (auto simp: writer_step_def store_def finish_def Let_def split: option.splits if_splits prod.splits)
    then obtain us vs where uv: "L (w_bucket w) = us @ w_cur w # vs" "w_prev w = loc_of (w_bucket w) us"
      using W(5) by (auto simp: wpc_inv_def)
    have "distinct (us @ w_cur w # vs)" using buckets_distinct [OF W(1), of "w_bucket w"] uv(1) by simp
    then have "w_cur w \<notin> set us" by auto
    then show ?thesis using st u uv(2) loc_target d
      by (auto simp: writer_step_def store_def split: option.splits)
  qed
qed


lemma winvq_pending: "winvq (s\<lparr>pending := x\<rparr>) w L Q \<longleftrightarrow> winvq s w L Q"
proof -
  have "alloc_ok (s\<lparr>pending := x\<rparr>) A \<longleftrightarrow> alloc_ok s A" for A by (simp add: alloc_ok_def alloc_inv_def)
  moreover have "wpc_inv (s\<lparr>pending := x\<rparr>) w L \<longleftrightarrow> wpc_inv s w L" by (rule wpc_inv_cong) simp_all
  ultimately show ?thesis by (simp add: winvq_def buckets_def closed_def)
qed

lemma rcu_updater_inv:
  assumes inv: "rcu_inv s w L F" and st: "rcu_writer_step s w = (s', w')"
  shows "\<exists>L'. rcu_inv s' w' L' F \<and>
    (\<forall>p b. p \<in> set (L b) \<longrightarrow> keyof s' p = keyof s p \<and>
       (p \<in> set (L' b) \<or> (w_pc w' = D_bump \<and> w_bucket w' = b \<and> w_cur w' = p \<and> nxt (node s' p) = nxt (node s p)))) \<and>
    (\<forall>p. p \<in> set (pending s) \<or> w_pc w = D_bump \<and> w_cur w = p \<longrightarrow> p \<in> set (pending s') \<and> node s' p = node s p)"
proof (cases "w_pc w = D_bump")
  case True
  let ?c = "w_cur w"
  have st': "s' = s\<lparr>pending := pending s @ [?c]\<rparr>" "w' = finish 1 w"
    using st True by (auto simp: rcu_writer_step_def rcu_free_node_later_def count_retired_def)
  have i: "winvq s w L (set (pending s) \<union> set F)" "cb_list s F" using inv by (auto simp: rcu_inv_def)
  note W = winvD [OF i(1)]
  have h: "held w = {?c}" using True by (simp add: held_def)
  have "alloc_ok s (linked L \<union> insert ?c (set (pending s) \<union> set F))" using W(2) h by (simp add: Un_assoc)
  then have "winvq s (finish 1 w) L (insert ?c (set (pending s) \<union> set F))"
    using W(1,3,4,6) h by (auto simp: winvq_def held_def finish_def wpc_inv_def)
  then have "winvq s' w' L (set (pending s') \<union> set F)" unfolding st' winvq_pending by simp
  moreover have "cb_list s' F" using i(2) W(6) h unfolding st' cb_list_def by auto
  ultimately have "rcu_inv s' w' L F" by (simp add: rcu_inv_def st' finish_def)
  then show ?thesis by (intro exI [of _ L]) (auto simp: st')
next
  case False
  then have st': "writer_step s w = (s', w')" using st by (simp add: rcu_writer_step_def)
  have i: "winvq s w L (set (pending s) \<union> set F)" "cb_list s F" "w_pc w \<noteq> D_free"
    using inv by (auto simp: rcu_inv_def)
  obtain L' base' where x: "winvq s' w' L' (set (pending s) \<union> set F)"
    "evolves s w L (\<lambda>p. gc (node s p)) (\<lambda>_. 0) s' w' L' base' (\<lambda>_. 0)"
    using writer_step_inv [OF i(1) _ st', of "\<lambda>p. gc (node s p)" "\<lambda>_. 0" 0] False
    by (auto simp: eras_def)
  have more: "alloc.more s' = alloc.more s" "lfl_tail s' = lfl_tail s"
    using writer_step_more [OF st' i(3)] by simp_all
  have cb: "pending s' = pending s" "cb_lfl s' = cb_lfl s" "cb_tail s' = cb_tail s" "cb_lcnt s' = cb_lcnt s"
    using more(1) by (cases s; cases s'; simp)+
  note park = writer_step_parked [OF i(1) st' i(3)]
  have "chain (mrs s') (cb_lfl s) F NULL \<longleftrightarrow> chain (mrs s) (cb_lfl s) F NULL"
    by (rule chain_cong) (simp add: park(1))
  then have "cb_list s' F" using i(2) by (simp add: cb_list_def cb more(2))
  moreover have "w_pc w' \<noteq> D_free"
    using st' False i(3) by (cases "w_pc w")
      (auto simp: writer_step_def store_def finish_def Let_def split: option.splits if_splits prod.splits)
  ultimately have r: "rcu_inv s' w' L' F" using x(1) by (simp add: rcu_inv_def cb)
  have "keyof s' p = keyof s p \<and> inlist w' L' b p" if "p \<in> set (L b)" for p b
  proof -
    have "p \<notin> set (pool s)" using winv_pool [OF i(1)] linkedI that by blast
    then show ?thesis using x(2) that by (simp add: evolves_def inlist_def)
  qed
  then have "keyof s' p = keyof s p \<and> (p \<in> set (L' b) \<or> (w_pc w' = D_bump \<and> w_bucket w' = b \<and> w_cur w' = p \<and>
      nxt (node s' p) = nxt (node s p)))" if "p \<in> set (L b)" for p b
    using that park(2) unfolding inlist_def by metis
  then show ?thesis using r park(1) False cb(1) by (intro exI [of _ L']) auto
qed

text \<open>A callback never fails: the node goes to the callback thread's list.\<close>

lemma swap_thread_simps [simp]:
  "node (swap_thread s) = node s" "heads (swap_thread s) = heads s" "locks (swap_thread s) = locks s"
  "pool (swap_thread s) = pool s" "freelist (swap_thread s) = freelist s" "pending (swap_thread s) = pending s"
  "lfl (swap_thread s) = cb_lfl s" "lfl_tail (swap_thread s) = cb_tail s" "lcnt (swap_thread s) = cb_lcnt s"
  "cb_lfl (swap_thread s) = lfl s" "cb_tail (swap_thread s) = lfl_tail s" "cb_lcnt (swap_thread s) = lcnt s"
  by (simp_all add: swap_thread_def)

lemma cb_free:
  assumes "chain (mrs s) (lfl s) F NULL" and "chain (mrs s) (freelist s) G NULL"
    and t: "lfl_tail s = (if F = [] then NULL else last F)"
    and dis: "set F \<inter> set G = {}" "p \<notin> set F" "p \<notin> set G" "p \<noteq> NULL"
    and s': "free_node p s = Some s'"
  shows "\<exists>F' G'. chain (mrs s') (lfl s') F' NULL \<and> chain (mrs s') (freelist s') G' NULL \<and>
    lfl_tail s' = (if F' = [] then NULL else last F') \<and> set F' \<union> set G' = insert p (set F \<union> set G) \<and>
    set F' \<inter> set G' = {} \<and> lcnt s' < AMORT_FREE_ON \<and>
    (\<forall>q. q \<notin> insert p (set F) \<longrightarrow> node s' q = node s q) \<and> mr_only s s' \<and> pool s' = pool s \<and>
    alloc.more s' = alloc.more s \<and> set G \<subseteq> set G'"
proof -
  have F: "chain (mrs (pushed p s)) p (p # F) NULL"
    using assms(1) dis(2,4) by (simp add: pushed_def fun_upd_def [symmetric] if_distrib cong: if_cong)
  have G: "chain (mrs (pushed p s)) (freelist s) G NULL"
  proof -
    have "mrs (pushed p s) = (mrs s)(p := lfl s)" by (auto simp: pushed_def)
    then show ?thesis using assms(2) dis(3) by simp
  qed
  have t': "lfl_tail (pushed p s) = last (p # F)" 
  proof (cases "F = []")
    case True
    then show ?thesis using t by (simp add: pushed_def)
  next
    case False
    then have "last F \<noteq> NULL" using chain_no_NULL [OF assms(1)] last_in_set [of F] by metis
    then show ?thesis using t False by (simp add: pushed_def)
  qed
  show ?thesis
  proof (cases "AMORT_FREE_ON \<le> lcnt s + 1")
    case False
    then have e: "s' = (pushed p s)\<lparr>nbfl := nbfl s + 1\<rparr>"
      using s' dis(4) by (auto simp: free_node_def add_free_eq pushed_def)
    show ?thesis
      by (rule exI [of _ "p # F"], rule exI [of _ G])
        (use False F G t' dis in \<open>auto simp: e pushed_def mr_only_def\<close>)
  next
    case True
    let ?f = "flushed (pushed p s)"
    have e: "s' = ?f\<lparr>nbfl := nbfl s + 1\<rparr>"
      using s' dis(4) True by (auto simp: free_node_def add_free_eq pushed_def flushed_def)
    obtain xs x where xs: "p # F = xs @ [x]" by (cases "p # F" rule: rev_cases) auto
    then have lt: "last (p # F) = x" by (metis last_snoc)
    have m: "mrs ?f = (mrs (pushed p s))(x := freelist s)" using t' lt by (auto simp: flushed_def pushed_def)
    have "distinct (xs @ [x])" using chain_distinct [OF F] unfolding xs .
    then have x: "x \<notin> set xs" by simp
    have set: "insert p (set F) = insert x (set xs)" using arg_cong [OF xs, of set] by simp
    have "x \<in> insert p (set F)" unfolding set by simp
    then have xG: "x \<notin> set G" using dis by auto
    have "chain (mrs ?f) p (xs @ x # G) NULL"
      unfolding m by (rule chain_splice [OF _ x G xG]) (use F in \<open>simp only: xs\<close>)
    moreover have "node ?f q = node s q" if "q \<notin> insert p (set F)" for q
    proof -
      have "q \<noteq> x" using that unfolding set by simp
      then show ?thesis using that t' lt by (simp add: flushed_def pushed_def)
    qed
    moreover have "set (xs @ x # G) = insert p (set F) \<union> set G" unfolding set by simp
    ultimately show ?thesis
      by (rule_tac exI [of _ "[]"], rule_tac exI [of _ "xs @ x # G"])
        (simp add: e flushed_def pushed_def mr_only_def, blast)
  qed
qed


lemma callback_inv:
  assumes inv: "rcu_inv s w L F" and p: "p \<in> set (pending s)"
  shows "\<exists>s' F'. free_node_cb No_count p s = Some s' \<and> mr_only s s' \<and> pending s' = pending s \<and>
    rcu_inv (s'\<lparr>pending := remove1 p (pending s)\<rparr>) w L F' \<and>
    freed (s'\<lparr>pending := remove1 p (pending s)\<rparr>) p"
proof -
  let ?A = "linked L \<union> held w" and ?P = "set (pending s)"
  have i: "winvq s w L (?P \<union> set F)" "cb_list s F" "w_pc w \<noteq> D_free" using inv by (auto simp: rcu_inv_def)
  note W = winvD [OF i(1)]
  obtain E G where a: "alloc_inv s (?A \<union> (?P \<union> set F)) E G" using W(2) by (auto simp: alloc_ok_def)
  let ?t = "swap_thread s"
  have F: "chain (mrs s) (cb_lfl s) F NULL" "cb_tail s = (if F = [] then NULL else last F)"
    "cb_lcnt s < AMORT_FREE_ON" "distinct (pending s)" "?P \<inter> set F = {}" "lfl_tail s = NULL"
    using i(2) by (auto simp: cb_list_def)
  have pn: "p \<noteq> NULL" "p \<notin> set F" "p \<notin> set G" "p \<notin> set E" using a p F(5) by (auto simp: alloc_inv_def)
  obtain s1 where s1: "free_node p ?t = Some s1"
    using pn(1) by (auto simp: free_node_def add_free_eq)
  obtain F' G' where x: "chain (mrs s1) (lfl s1) F' NULL" "chain (mrs s1) (freelist s1) G' NULL"
    "lfl_tail s1 = (if F' = [] then NULL else last F')" "set F' \<union> set G' = insert p (set F \<union> set G)"
    "set F' \<inter> set G' = {}" "lcnt s1 < AMORT_FREE_ON"
    "\<forall>q. q \<notin> insert p (set F) \<longrightarrow> node s1 q = node ?t q" "mr_only ?t s1" "pool s1 = pool ?t"
    "alloc.more s1 = alloc.more ?t" "set G \<subseteq> set G'"
  proof -
    have "set F \<inter> set G = {}" "chain (mrs s) (freelist s) G NULL" using a by (auto simp: alloc_inv_def)
    then show thesis using cb_free [of ?t F G p s1] F(1,2) pn s1 that by simp blast
  qed
  let ?s = "swap_thread s1"
  have more: "pending s1 = pending s" "cb_lfl s1 = lfl s" "cb_tail s1 = lfl_tail s" "cb_lcnt s1 = lcnt s"
    using x(10) by (cases s; cases s1; simp add: swap_thread_def)+
  have m: "mr_only s ?s" using x(8) by (simp add: mr_only_def)
  let ?P' = "set (remove1 p (pending s))"
  have P': "?P' = ?P - {p}" using F(4) by (simp add: set_remove1_eq)
  have E: "chain (mrs ?s) (lfl s) E NULL"
  proof -
    have "x \<notin> insert p (set F)" if "x \<in> set E" for x using a that pn(4) by (auto simp: alloc_inv_def)
    then have "chain (mrs ?s) (lfl s) E NULL \<longleftrightarrow> chain (mrs s) (lfl s) E NULL"
      using x(7) by (intro chain_cong) simp
    then show ?thesis using a by (simp add: alloc_inv_def)
  qed
  have G'E: "set G' \<subseteq> insert p (set F \<union> set G)" using x(4) by auto
  have dis: "(?A \<union> (?P \<union> set F)) \<inter> (set E \<union> set G \<union> set (pool s)) = {}"
    "set E \<inter> set G = {}" "set G \<inter> set (pool s) = {}"
    using a by (simp_all add: alloc_inv_def)
  have "set F' \<subseteq> insert p (set F \<union> set G) - set G" using x(4,5,11) by auto
  then have F's: "set F' \<subseteq> insert p (set F)" by auto
  have "alloc_inv ?s (?A \<union> (?P' \<union> set F')) E G'"
    unfolding alloc_inv_def
  proof (intro conjI)
    show "chain (mrs ?s) (lfl ?s) E NULL" using E more(2) by simp
    show "chain (mrs ?s) (freelist ?s) G' NULL" using x(2) by simp
    show "lcnt ?s < AMORT_FREE_ON" using a more(4) by (simp add: alloc_inv_def)
    show "NULL \<notin> ?A \<union> (?P' \<union> set F')" using a P' chain_no_NULL [OF x(1)] by (auto simp: alloc_inv_def)
    show "set E \<inter> set G' = {}" using dis(2) G'E pn(4) dis(1) by blast
    show "set G' \<inter> set (pool ?s) = {}" using dis(1,3) G'E p x(9) by auto
    have "(?A \<union> ?P') \<inter> set G' = {}" using dis(1) G'E P' W(6) p F(5) by blast
    moreover have "(?A \<union> (?P' \<union> set F')) \<inter> (set E \<union> set (pool s)) = {}"
      using dis(1) F's P' p by blast
    ultimately show "(?A \<union> (?P' \<union> set F')) \<inter> (set E \<union> set G' \<union> set (pool ?s)) = {}"
      using x(5,9) by (simp add: Int_Un_distrib Int_Un_distrib2)
    show "lfl_tail ?s \<notin> set G'" using F(6) more(3) chain_no_NULL [OF x(2)] by simp
    show "lfl_tail ?s \<notin> set (pool ?s)" using a more(3) x(9) by (simp add: alloc_inv_def)
  qed (use a x(9) in \<open>auto simp: alloc_inv_def mr_only_node [OF x(8)]\<close>)
  then have "alloc_ok ?s (?A \<union> (?P' \<union> set F'))" by (rule alloc_okI)
  moreover have "set F' \<subseteq> insert p (set F)" using x(4,5,11) by auto
  then have "(?P' \<union> set F') \<inter> ?A = {}" using W(6) P' p by blast
  moreover have "closed ?s" using W(4) x(9) by (simp add: closed_def mr_only_node [OF x(8)] swap_thread_simps)
  moreover have "wpc_inv ?s w L" using W(5) wpc_inv_cong [of ?s s w L] by (simp only: mr_only_node [OF x(8)] swap_thread_simps)
  moreover have "buckets ?s L" using buckets_keeps [OF W(1) mr_only_keeps [OF m]] .
  ultimately have "winvq ?s w L (?P' \<union> set F')" using W(3) by (simp add: winvq_def Un_assoc)
  moreover have "cb_list (?s\<lparr>pending := remove1 p (pending s)\<rparr>) F'"
  proof -
    have "?P' \<inter> set F' = {}" using \<open>set F' \<subseteq> insert p (set F)\<close> P' F(5) by auto
    then show ?thesis using x(1,3,6) F(4,6) more(3) by (simp add: cb_list_def)
  qed
  ultimately have "rcu_inv (?s\<lparr>pending := remove1 p (pending s)\<rparr>) w L F'"
    using i(3) by (simp add: rcu_inv_def winvq_pending)
  moreover have "free_node_cb No_count p s = Some ?s"
    using s1 by (simp add: free_node_cb_def count_callback_def)
  moreover have "freed (?s\<lparr>pending := remove1 p (pending s)\<rparr>) p"
  proof -
    have "p \<in> set F' \<union> set G'" using x(4) by auto
    then show ?thesis using x(1,2) unfolding freed_def by auto
  qed
  ultimately show ?thesis using m more(1) by (intro exI [of _ ?s]) auto
qed

text \<open>Nodes of the buckets, waiting nodes and the node in the updater's hands are not free.\<close>

lemma not_freed:
  assumes inv: "rcu_inv s w L F" and p: "p \<in> linked L \<union> held w \<union> set (pending s)"
  shows "\<not> freed s p"
proof -
  have i: "winvq s w L (set (pending s) \<union> set F)" "cb_list s F" using inv by (auto simp: rcu_inv_def)
  obtain E G where a: "alloc_inv s (linked L \<union> held w \<union> (set (pending s) \<union> set F)) E G"
    using winvD(2) [OF i(1)] by (auto simp: alloc_ok_def)
  have ch: "chain (mrs s) (lfl s) E NULL" "chain (mrs s) (freelist s) G NULL" "chain (mrs s) (cb_lfl s) F NULL"
    using a i(2) by (auto simp: alloc_inv_def cb_list_def)
  have n: "p \<notin> set E" "p \<notin> set G" "p \<notin> set (pool s)" using a p by (auto simp: alloc_inv_def)
  have "p \<notin> set F" using winvD(6) [OF i(1)] i(2) p by (auto simp: cb_list_def)
  then show ?thesis using n ch chain_unique unfolding freed_def by (metis insert_iff singletonD)
qed

end
