(* ===== verification/Threaded_Writer.thy ===== *)
theory Threaded_Writer imports Allocator_Builds Rcu begin

text \<open>
  The steps of \<open>list_writer.c\<close> on top of the allocator with threads: what a step other
  than an allocation or a release does to the buckets, to the allocator's lists and to
  the nodes in a thread's hands.  Shared by the machine of \<open>list_rc.c\<close> and the one of
  \<open>list_lock.c\<close>.
\<close>

section \<open>Hiding the free lists\<close>

text \<open>
  The invariant \<open>winvq\<close> of the updater speaks of an allocator without threads;
  \<open>bare\<close> hides the free lists, which \<open>mt_ok\<close> looks after.
\<close>

definition bare :: "talloc \<Rightarrow> talloc" where
  "bare s = s\<lparr>freelist := NULL, lfl := NULL, lfl_tail := NULL, lcnt := 0\<rparr>"

lemma bare_simps [simp]:
  "node (bare s) = node s" "heads (bare s) = heads s" "pool (bare s) = pool s" "locks (bare s) = locks s"
  by (simp_all add: bare_def)

lemma bare_alloc_ok:
  "alloc_ok (bare s) A \<longleftrightarrow> distinct (pool s) \<and> NULL \<notin> set (pool s) \<and> NULL \<notin> A \<and> A \<inter> set (pool s) = {}"
  by (auto simp: alloc_ok_def alloc_inv_def bare_def)

lemma bare_buckets [simp]: "buckets (bare s) L = buckets s L"
  by (simp add: buckets_def)

lemma bare_closed [simp]: "closed (bare s) = closed s"
  by (simp add: closed_def)

lemma bare_wpc_inv [simp]: "wpc_inv (bare s) w L = wpc_inv s w L"
  by (rule wpc_inv_cong) simp_all

lemma bare_gap [simp]: "del_gap (bare s) w L = del_gap s w L" "ins_gap (bare s) w L = ins_gap s w L"
  by (rule gap_cong; simp)+

lemma buckets_unique: "buckets s L \<Longrightarrow> buckets s L' \<Longrightarrow> L = L'"
  using chain_unique [OF buckets_chain buckets_chain] by blast

section \<open>Single steps\<close>

lemma writer_step_bare:
  assumes "writer_step s w = (s', w')" and "w_pc w \<notin> {I_alloc, D_free}"
  shows "writer_step (bare s) w = (bare s', w')"
proof -
  have set: "set_loc l v (bare s) = map_option bare (set_loc l v s)" for l v
    by (cases l) (auto simp: wr_def bare_def)
  have wr: "wr p f (bare s) = map_option bare (wr p f s)" for p f by (simp add: wr_def bare_def)
  show ?thesis using assms
    by (cases "w_pc w") (auto simp: writer_step_def store_def set wr Let_def split: option.splits)
qed

lemma set_loc_raw:
  fixes s :: talloc
  assumes "set_loc l v s = Some s'"
  shows "rc (node s' p) = rc (node s p)" "mr_next (node s' p) = mr_next (node s p)" "key (node s' p) = key (node s p)"
    "pool s' = pool s" "freelist s' = freelist s" "tls s' = tls s"
  using assms by (cases l; auto simp: wr_def split: if_splits)+

lemma writer_step_raw:
  fixes s :: talloc
  assumes "writer_step s w = (s', w')" and "w_pc w \<notin> {I_alloc, D_free, D_bump}"
  shows "rc (node s' p) = rc (node s p)" "mr_next (node s' p) = mr_next (node s p)"
    "key (node s' p) = (if p = w_new w \<and> w_pc w = I_key \<and> p \<noteq> NULL then w_key w else key (node s p))"
    "pool s' = pool s" "freelist s' = freelist s" "tls s' = tls s"
  using assms
  by (cases "w_pc w";
      auto simp: writer_step_def store_def finish_def wr_def Let_def split: option.splits if_splits
        dest: set_loc_raw; fail)+

text \<open>
  The buckets after a step of \<open>list_writer.c\<close>: unlinking and linking change one place of
  the writer's bucket, every other step changes none.
\<close>

definition relinked :: "'w mem_scheme \<Rightarrow> writer \<Rightarrow> (nat \<Rightarrow> ptr list) \<Rightarrow> (nat \<Rightarrow> ptr list) \<Rightarrow> bool" where
  "relinked s w L L' \<longleftrightarrow> (case w_pc w of
     D_unlink \<Rightarrow> \<exists>us vs. L (w_bucket w) = us @ w_cur w # vs \<and> L' = L(w_bucket w := us @ vs)
   | I_link \<Rightarrow> \<exists>us vs. L (w_bucket w) = us @ vs \<and> L' = L(w_bucket w := us @ w_new w # vs)
   | _ \<Rightarrow> L' = L)"

lemma plain_lists:
  assumes inv: "winvq s w L Q" and B': "buckets s' L'" and st: "writer_step s w = (s', w')"
    and pc: "w_pc w \<notin> {I_alloc, D_free, D_bump}"
  shows "relinked s w L L'"
proof -
  note W = winvD [OF inv]
  have nn: "NULL \<notin> held w" using alloc_ok_Set [OF W(2)] by blast
  have same: "L' = L" if "heads s' = heads s" "\<And>p. p \<in> linked L \<Longrightarrow> nxt (node s' p) = nxt (node s p)"
  proof
    fix b
    have "chain (nxts s') (heads s' b) (L b) NULL"
      using buckets_chain [OF W(1), of b] that chain_cong [of "L b" "nxts s'" "nxts s"] linkedI by fastforce
    then show "L' b = L b" using chain_unique buckets_chain [OF B'] by blast
  qed
  show ?thesis
  proof (cases "w_pc w")
    case D_unlink
    let ?b = "w_bucket w" and ?c = "w_cur w"
    obtain us vs where uv: "L ?b = us @ ?c # vs" "w_prev w = loc_of ?b us"
      using W(5) D_unlink by (auto simp: wpc_inv_def)
    obtain s1 where s1: "set_loc (loc_of ?b us) (nxt (node s ?c)) s = Some s1" "buckets s1 (L(?b := us @ vs))"
      using unlink_node [OF W(1) uv(1)] by blast
    have "s' = s1" using st D_unlink uv(2) s1(1) by (auto simp: writer_step_def store_def)
    then have "L' = L(?b := us @ vs)" using buckets_unique [OF B'] s1(2) by simp
    then show ?thesis using uv(1) D_unlink by (auto simp: relinked_def)
  next
    case I_link
    let ?m = "w_new w" and ?b = "w_bucket w"
    have m: "?m \<notin> linked L" "?m \<noteq> NULL" using I_link W(3) nn by (auto simp: held_def)
    obtain us vs where uv: "L ?b = us @ vs" "w_cur w = first_ptr vs" "w_prev w = loc_of ?b us"
      "\<forall>x\<in>set us. keyof s x < w_key w" "\<forall>x\<in>set vs. w_key w < keyof s x"
      and mk: "keyof s ?m = w_key w" "nxt (node s ?m) = w_cur w"
      using W(5) I_link by (auto simp: ins_gap_def at_gap_def wpc_inv_def)
    obtain s1 where s1: "set_loc (loc_of ?b us) ?m s = Some s1" "buckets s1 (L(?b := us @ ?m # vs))"
      using link_node [OF W(1) uv(1) m] uv mk by (auto simp: first_ptr_def)
    have "s' = s1" using st I_link uv(3) s1(1) by (auto simp: writer_step_def store_def)
    then have "L' = L(?b := us @ ?m # vs)" using buckets_unique [OF B'] s1(2) by simp
    then show ?thesis using uv(1) I_link by (auto simp: relinked_def)
  next
    case I_key
    have "L' = L" by (rule same)
      (use st I_key W(3) in \<open>auto simp: writer_step_def store_def wr_def held_def split: if_splits\<close>)
    then show ?thesis using I_key by (simp add: relinked_def)
  next
    case I_next
    have "L' = L" by (rule same)
      (use st I_next W(3) in \<open>auto simp: writer_step_def store_def wr_def held_def split: if_splits\<close>)
    then show ?thesis using I_next by (simp add: relinked_def)
  qed (use pc st same in \<open>auto simp: relinked_def writer_step_def\<close>)
qed

lemma plain_stored:
  assumes inv: "winvq s w L Q" and B': "buckets s' L'" and st: "writer_step s w = (s', w')"
  shows "w_pc w = D_unlink \<Longrightarrow> w' = w\<lparr>w_pc := D_bump\<rparr>" "w_pc w = I_link \<Longrightarrow> w' = finish 1 w"
proof -
  note W = winvD [OF inv]
  have ne: "L' \<noteq> L \<Longrightarrow> s' \<noteq> s" using buckets_unique [OF W(1), of L'] B' by auto
  have c: "L(b := us @ vs) \<noteq> L" if "L b = us @ x # vs" for b x us vs using that by (auto simp: fun_upd_idem_iff)
  have d: "L(b := us @ x # vs) \<noteq> L" if "L b = us @ vs" for b x us vs using that by (auto simp: fun_upd_idem_iff)
  show "w' = w\<lparr>w_pc := D_bump\<rparr>" if pc: "w_pc w = D_unlink"
  proof -
    have "L' \<noteq> L" using plain_lists [OF inv B' st] pc c by (auto simp: relinked_def)
    then show ?thesis using ne st pc by (auto simp: writer_step_def store_def split: option.splits)
  qed
  show "w' = finish 1 w" if pc: "w_pc w = I_link"
  proof -
    have "L' \<noteq> L" using plain_lists [OF inv B' st] pc d by (auto simp: relinked_def)
    then show ?thesis using ne st pc by (auto simp: writer_step_def store_def split: option.splits)
  qed
qed

text \<open>The list nodes and those in the writer's hands are the same after such a step.\<close>

lemma plain_nodes:
  assumes inv: "winvq s w L Q" and inv': "winvq s' w' L' Q" and st: "writer_step s w = (s', w')"
    and pc: "w_pc w \<notin> {I_alloc, D_free, D_bump}"
  shows "linked L' \<union> held w' = linked L \<union> held w"
proof -
  note W = winvD [OF inv] and W' = winvD [OF inv']
  have nn: "NULL \<notin> held w" using alloc_ok_Set [OF W(2)] by blast
  have r: "relinked s w L L'" by (rule plain_lists [OF inv W'(1) st pc])
  note stored = plain_stored [OF inv W'(1) st]
  show ?thesis
  proof (cases "w_pc w")
    case D_unlink
    then obtain us vs where uv: "L (w_bucket w) = us @ w_cur w # vs" "L' = L(w_bucket w := us @ vs)"
      using r by (auto simp: relinked_def)
    then show ?thesis using linked_unlink(1) [OF W(1) uv(1)] D_unlink stored(1) by (simp add: held_def)
  next
    case I_link
    then obtain us vs where uv: "L (w_bucket w) = us @ vs" "L' = L(w_bucket w := us @ w_new w # vs)"
      using r by (auto simp: relinked_def)
    then show ?thesis using linked_link [of L "w_bucket w", OF uv(1)] I_link stored(2) by (auto simp: held_def finish_def)
  qed (use pc st r nn in \<open>auto simp: relinked_def writer_step_def store_def finish_def wr_def held_def Let_def
      split: if_splits\<close>)
qed

section \<open>Allocating and releasing\<close>

lemma call_step:
  assumes inv: "winvq (bare s) w L Q" and mt: "mt_ok s (linked L \<union> Q)" and pc: "w_pc w = I_alloc"
  shows "\<exists>m s'. call_new a t s = Some (m, s') \<and> m \<notin> linked L \<union> Q \<and> (m = NULL \<longrightarrow> pool s = []) \<and>
    mt_ok s' (linked L \<union> ({m} - {NULL}) \<union> Q) \<and> winvq (bare s') (w\<lparr>w_new := m, w_pc := I_key\<rparr>) L Q \<and>
    set (pool s') \<subseteq> set (pool s) \<and> (\<forall>p. p \<noteq> m \<longrightarrow> node s' p = node s p)"
proof -
  note W = winvD [OF inv]
  obtain F G where i: "mt_inv s (linked L \<union> Q) F G" using mt by (auto simp: mt_ok_def)
  then obtain m s1 where m: "call_new a t s = Some (m, s1)"
    "if m = NULL then mt_ok s1 (linked L \<union> Q) \<and> pool s = []
     else m \<notin> linked L \<union> Q \<and> mt_ok s1 (insert m (linked L \<union> Q))"
    using call_new_ok by blast
  note M = call_new_mem [OF m(1)]
  let ?w = "w\<lparr>w_new := m, w_pc := I_key\<rparr>"
  have mU: "m \<notin> linked L \<union> Q" using m(2) i by (auto simp: mt_inv_def split: if_splits)
  have nd: "node s1 p = node s p" if "p \<noteq> m" for p using M(3) that by auto
  have nz: "node s1 z = node s z" if "z \<in> linked L \<union> Q" for z using nd [of z] mU that by metis
  have ps: "set (pool s1) \<subseteq> set (pool s)" using M(3) by (metis order_refl set_subset_Cons)
  have mt1: "mt_ok s1 (linked L \<union> ({m} - {NULL}) \<union> Q)" using m(2) by (cases "m = NULL") simp_all
  have z: "NULL \<notin> set (pool s1)" using W(2) ps by (auto simp: bare_alloc_ok)
  have B: "buckets s1 L" by (rule buckets_keeps [of s]) (use W(1) M(1,2) nz in \<open>auto simp: keeps_def\<close>)
  moreover have "closed s1"
    unfolding closed_def
  proof (intro allI impI)
    fix p assume p: "p \<notin> set (pool s1)"
    show "nxt (node s1 p) \<notin> set (pool s1)"
    proof (cases "p \<in> set (pool s)")
      case True
      then have "node s1 p = zero_node" using M(3) p by auto
      then show ?thesis using z by (simp add: zero_node_def)
    next
      case False
      then have "node s1 p = node s p" using M(3) by (cases "p = m") auto
      then show ?thesis using W(4) ps False by (auto simp: closed_def)
    qed
  qed
  moreover have "ins_gap s1 ?w L \<longleftrightarrow> ins_gap s w L" by (rule gap_cong(2)) (use nz in auto)
  then have "ins_gap s1 ?w L" using W(5) pc by (simp add: wpc_inv_def)
  moreover have "alloc_ok (bare s1) (linked L \<union> ({m} - {NULL}) \<union> Q)"
    using mt1 ps W(2) unfolding bare_alloc_ok mt_ok_def mt_inv_def by auto
  moreover have "Q \<inter> (linked L \<union> ({m} - {NULL})) = {}" using W(6) mU by auto
  ultimately have "winvq (bare s1) ?w L Q" using mU by (auto simp: winvq_def held_def wpc_inv_def)
  then show ?thesis using m mU mt1 ps nd by (intro exI [of _ m] exI [of _ s1]) auto
qed

lemmas alloc_step = call_step [where a = Default_alloc, unfolded call_default]

end
