(* ===== verification/Locked_Table.thy ===== *)
theory Locked_Table imports Threaded_Writer List_Lock begin

text \<open>
  The lock based list with a lock that searches take too, \<open>LSPIN\<close>, \<open>LOCK_CLASSIC\<close> or
  \<open>RWLOCK\<close>, under any number of threads, each of which may search, insert and delete.
  A step reads or writes one node or one bucket head, inside a section as outside.  A
  call to the allocator is two: it begins, and with the other step it has done all it does.
  No lock of a bucket covers it.  That this is the call is true of \<open>SIMPLE_ALLOC\<close>, which
  touches the thread's own list only (\<open>simple_private\<close>), and of the default allocator as
  long as calls do not overlap (\<open>calls_apart\<close>): then it is the function, within 4
  accesses (\<open>Allocator_Machine\<close>).
\<close>

section \<open>The locks\<close>

text \<open>\<open>search\<close> takes the lock with \<open>lock_rlock\<close>, the updates take it with \<open>lock_wlock\<close>.\<close>

datatype lop = Op_delete | Op_insert | Op_search

datatype xlock = Spin | Classic | Rw

definition x_lock :: "xlock \<Rightarrow> lop \<Rightarrow> u64 \<Rightarrow> u64 option" where
  "x_lock m op = (case m of
     Spin \<Rightarrow> spin_lock
   | Classic \<Rightarrow> lock_lock
   | Rw \<Rightarrow> if op = Op_search then rw_rdlock else rw_wrlock)"

definition x_unlock :: "xlock \<Rightarrow> lop \<Rightarrow> u64 \<Rightarrow> u64 option" where
  "x_unlock m op = (case m of Spin \<Rightarrow> spin_unlock | Classic \<Rightarrow> lock_unlock | Rw \<Rightarrow> rw_unlock)"

section \<open>A thread\<close>

text \<open>
  \<open>T_test\<close> is the test of \<open>*head\<close> in \<open>delete\<close>, outside the section; \<open>T_lock\<close> spins;
  \<open>T_first\<close> sets \<open>prev\<close> and \<open>cur\<close>, \<open>T_in\<close> is the loop and what follows it, at the program
  points of \<open>writer\<close>.  \<open>T_abort\<close> is the \<open>abort\<close> of \<open>lock_unlock\<close>.  \<open>l_call\<close>: the thread
  is inside a call to the allocator.
\<close>

datatype lt_pc = T_idle | T_test | T_ret | T_lock | T_first | T_in | T_unlock | T_abort

record lthr =
  l_op :: lop
  l_pc :: lt_pc
  l_w :: writer
  l_call :: bool

text \<open>
  The loop of \<open>search\<close>.  The function has no \<open>prev\<close>; the field keeps the link the search
  came through, which nothing reads.
\<close>

definition lk_search_iter :: "'w mem_scheme \<Rightarrow> writer \<Rightarrow> writer" where
  "lk_search_iter s w =
     (if w_cur w = NULL then finish 0 w
      else let n = node s (w_cur w) in
        if w_key w \<le> key n then finish (if key n = w_key w then 1 else 0) w
        else w\<lparr>w_prev := Next (w_cur w), w_cur := nxt n\<rparr>)"

text \<open>
  Inside the section.  The node \<open>delete\<close> unlinked is freed at once, at \<open>D_bump\<close>: this list
  has no generation to bump.
\<close>

definition section_step :: "alloc_build \<Rightarrow> nat \<Rightarrow> lop \<Rightarrow> talloc \<Rightarrow> writer \<Rightarrow> talloc \<times> writer" where
  "section_step al t op s w =
     (if w_pc w = D_bump then store (call_free al t (w_cur w) s) (finish 1 w) s w
      else if w_pc w = I_alloc then (case call_new al t s of
          None \<Rightarrow> (s, w\<lparr>w_pc := W_crash\<rparr>)
        | Some (n, s') \<Rightarrow> (s', w\<lparr>w_new := n, w_pc := I_key\<rparr>))
      else if op = Op_search then (s, lk_search_iter s w)
      else writer_step s w)"

definition lt_thread ::
    "alloc_build \<Rightarrow> (lop \<Rightarrow> u64 \<Rightarrow> u64 option) \<Rightarrow> (lop \<Rightarrow> u64 \<Rightarrow> u64 option) \<Rightarrow> nat \<Rightarrow> talloc \<Rightarrow> lthr \<Rightarrow> talloc \<times> lthr" where
  "lt_thread al lock unlock t s T = (let w = l_w T; b = w_bucket w in case l_pc T of
     T_idle \<Rightarrow> (s, T)
   | T_test \<Rightarrow> (s, if heads s b = NULL then T\<lparr>l_w := w\<lparr>w_ret := 0\<rparr>, l_pc := T_ret\<rparr> else T\<lparr>l_pc := T_lock\<rparr>)
   | T_ret \<Rightarrow> (s, T\<lparr>l_pc := T_idle\<rparr>)
   | T_lock \<Rightarrow> (case lock_op (lock (l_op T)) b s of None \<Rightarrow> (s, T) | Some s' \<Rightarrow> (s', T\<lparr>l_pc := T_first\<rparr>))
   | T_first \<Rightarrow> (s, T\<lparr>l_pc := T_in, l_w := w\<lparr>w_prev := Head b, w_cur := heads s b,
       w_pc := (if l_op T = Op_insert then I_loop else D_loop)\<rparr>\<rparr>)
   | T_in \<Rightarrow> if w_pc w \<in> {D_bump, I_alloc} \<and> \<not> l_call T then (s, T\<lparr>l_call := True\<rparr>)
       else (case section_step al t (l_op T) s w of
         (s', w') \<Rightarrow> (s', T\<lparr>l_w := w', l_pc := (if w_pc w' = W_idle then T_unlock else T_in), l_call := False\<rparr>))
   | T_unlock \<Rightarrow> (case lock_op (unlock (l_op T)) b s of
       None \<Rightarrow> (s, T\<lparr>l_pc := T_abort\<rparr>) | Some s' \<Rightarrow> (s', T\<lparr>l_pc := T_idle\<rparr>))
   | T_abort \<Rightarrow> (s, T))"

definition lt_call :: "lop \<Rightarrow> int \<Rightarrow> nat \<Rightarrow> lthr \<Rightarrow> lthr" where
  "lt_call op k b T = (if l_pc T \<noteq> T_idle then T else
     T\<lparr>l_op := op, l_w := (l_w T)\<lparr>w_key := k, w_bucket := b\<rparr>,
       l_pc := (if op = Op_delete then T_test else T_lock)\<rparr>)"

section \<open>The machine\<close>

record lt_sys =
  t_sh :: talloc
  t_thr :: "nat \<Rightarrow> lthr"

datatype lt_actor = Call nat lop int nat | Run nat

primrec lt_step :: "alloc_build \<Rightarrow> (lop \<Rightarrow> u64 \<Rightarrow> u64 option) \<Rightarrow> (lop \<Rightarrow> u64 \<Rightarrow> u64 option) \<Rightarrow> lt_actor \<Rightarrow> lt_sys \<Rightarrow> lt_sys" where
  "lt_step al lock unlock (Call t op k b) c = c\<lparr>t_thr := (t_thr c)(t := lt_call op k b (t_thr c t))\<rparr>"
| "lt_step al lock unlock (Run t) c = (case lt_thread al lock unlock t (t_sh c) (t_thr c t) of
     (s, T) \<Rightarrow> c\<lparr>t_sh := s, t_thr := (t_thr c)(t := T)\<rparr>)"

primrec lt_exec :: "alloc_build \<Rightarrow> (lop \<Rightarrow> u64 \<Rightarrow> u64 option) \<Rightarrow> (lop \<Rightarrow> u64 \<Rightarrow> u64 option) \<Rightarrow> lt_actor list \<Rightarrow> lt_sys \<Rightarrow> lt_sys" where
  "lt_exec al lock unlock [] c = c"
| "lt_exec al lock unlock (a # as) c = lt_exec al lock unlock as (lt_step al lock unlock a c)"

text \<open>No call to the allocator begins while another thread is inside one.\<close>

definition begins_call :: "lt_actor \<Rightarrow> lt_sys \<Rightarrow> bool" where
  "begins_call a c = (case a of Call t op k b \<Rightarrow> False
     | Run t \<Rightarrow> l_pc (t_thr c t) = T_in \<and> w_pc (l_w (t_thr c t)) \<in> {D_bump, I_alloc})"

primrec calls_apart :: "alloc_build \<Rightarrow> (lop \<Rightarrow> u64 \<Rightarrow> u64 option) \<Rightarrow> (lop \<Rightarrow> u64 \<Rightarrow> u64 option) \<Rightarrow> lt_actor list \<Rightarrow> lt_sys \<Rightarrow> bool" where
  "calls_apart al lock unlock [] c = True"
| "calls_apart al lock unlock (a # as) c =
     ((begins_call a c \<longrightarrow> (\<forall>t u. a = Run t \<longrightarrow> u \<noteq> t \<longrightarrow> \<not> l_call (t_thr c u))) \<and>
      calls_apart al lock unlock as (lt_step al lock unlock a c))"

definition alloc_apart :: "alloc_build \<Rightarrow> (lop \<Rightarrow> u64 \<Rightarrow> u64 option) \<Rightarrow> (lop \<Rightarrow> u64 \<Rightarrow> u64 option) \<Rightarrow> lt_actor list \<Rightarrow> lt_sys \<Rightarrow> bool" where
  "alloc_apart al lock unlock as c \<longleftrightarrow> al = Simple_alloc \<or> calls_apart al lock unlock as c"

section \<open>The object it implements\<close>

text \<open>
  One set per bucket and, for each thread, the call it is in: \<open>A_call\<close> has not taken
  effect yet, \<open>A_done\<close> has, with its result.  \<open>Take\<close> is the moment it does: the whole
  call at once.
\<close>

datatype acall = A_idle int | A_call lop int nat | A_done int

record aset =
  a_keys :: "nat \<Rightarrow> int set"
  a_thr :: "nat \<Rightarrow> acall"

datatype aact = Invoke nat lop int nat | Take nat | Return nat

definition take_effect :: "lop \<Rightarrow> int \<Rightarrow> int set \<Rightarrow> int \<times> int set" where
  "take_effect op k K = (case op of
     Op_search \<Rightarrow> (if k \<in> K then 1 else 0, K)
   | Op_insert \<Rightarrow> (if k \<in> K then 0 else 1, insert k K)
   | Op_delete \<Rightarrow> (if k \<in> K then 1 else 0, K - {k}))"

fun a_step :: "aact \<Rightarrow> aset \<Rightarrow> aset option" where
  "a_step (Invoke t op k b) A = (case a_thr A t of
     A_idle x \<Rightarrow> Some (A\<lparr>a_thr := (a_thr A)(t := A_call op k b)\<rparr>) | _ \<Rightarrow> None)"
| "a_step (Take t) A = (case a_thr A t of
     A_call op k b \<Rightarrow> (case take_effect op k (a_keys A b) of
       (x, K) \<Rightarrow> Some \<lparr>a_keys = (a_keys A)(b := K), a_thr = (a_thr A)(t := A_done x)\<rparr>)
   | _ \<Rightarrow> None)"
| "a_step (Return t) A = (case a_thr A t of
     A_done x \<Rightarrow> Some (A\<lparr>a_thr := (a_thr A)(t := A_idle x)\<rparr>) | _ \<Rightarrow> None)"

primrec a_exec :: "aact list \<Rightarrow> aset \<Rightarrow> aset option" where
  "a_exec [] A = Some A"
| "a_exec (x # xs) A = do { A \<leftarrow> a_step x A; a_exec xs A }"

text \<open>
  The call a thread of the machine is in, and what one step of the machine is on the
  object: nothing, or the one action of the thread that moves.
\<close>

definition status :: "lthr \<Rightarrow> acall" where
  "status T = (let w = l_w T in case l_pc T of
     T_idle \<Rightarrow> A_idle (w_ret w)
   | T_ret \<Rightarrow> A_done (w_ret w)
   | T_unlock \<Rightarrow> A_done (w_ret w)
   | T_in \<Rightarrow> if w_pc w = D_bump then A_done 1 else A_call (l_op T) (w_key w) (w_bucket w)
   | _ \<Rightarrow> A_call (l_op T) (w_key w) (w_bucket w))"

definition lt_abs :: "lt_sys \<Rightarrow> aset" where
  "lt_abs c = \<lparr>a_keys = bucket_keys (t_sh c), a_thr = (\<lambda>t. status (t_thr c t))\<rparr>"

definition moved :: "nat \<Rightarrow> acall \<Rightarrow> acall \<Rightarrow> aact list" where
  "moved t x y = (case (x, y) of
     (A_idle _, A_call op k b) \<Rightarrow> [Invoke t op k b]
   | (A_call _ _ _, A_done _) \<Rightarrow> [Take t]
   | (A_done _, A_idle _) \<Rightarrow> [Return t]
   | _ \<Rightarrow> [])"

definition actor_of :: "lt_actor \<Rightarrow> nat" where
  "actor_of a = (case a of Call t op k b \<Rightarrow> t | Run t \<Rightarrow> t)"

primrec lt_acts :: "alloc_build \<Rightarrow> (lop \<Rightarrow> u64 \<Rightarrow> u64 option) \<Rightarrow> (lop \<Rightarrow> u64 \<Rightarrow> u64 option) \<Rightarrow> lt_actor list \<Rightarrow> lt_sys \<Rightarrow> aact list" where
  "lt_acts al lock unlock [] c = []"
| "lt_acts al lock unlock (a # as) c = (let t = actor_of a; c' = lt_step al lock unlock a c in
     moved t (status (t_thr c t)) (status (t_thr c' t)) @ lt_acts al lock unlock as c')"

end
