(* ===== verification/Locked_Sections.thy ===== *)
theory Locked_Sections imports Locked_Table begin

text \<open>
  The steps of a thread inside its section: they keep the buckets well formed and the
  memory accounted for, touch nothing of the other buckets, and the call takes effect
  in one of them.
\<close>

section \<open>The place of the thread in its bucket\<close>

definition op_pcs :: "lop \<Rightarrow> wpc set" where
  "op_pcs op = (case op of Op_delete \<Rightarrow> {D_loop, D_unlink, D_bump}
     | Op_insert \<Rightarrow> {I_loop, I_alloc, I_key, I_next, I_link, W_crash} | Op_search \<Rightarrow> {D_loop})"

lemma op_pcsI [simp]:
  "D_loop \<in> op_pcs op \<longleftrightarrow> op \<noteq> Op_insert" "D_unlink \<in> op_pcs op \<longleftrightarrow> op = Op_delete"
  "D_bump \<in> op_pcs op \<longleftrightarrow> op = Op_delete" "I_loop \<in> op_pcs op \<longleftrightarrow> op = Op_insert"
  "I_alloc \<in> op_pcs op \<longleftrightarrow> op = Op_insert" "I_key \<in> op_pcs op \<longleftrightarrow> op = Op_insert"
  "I_next \<in> op_pcs op \<longleftrightarrow> op = Op_insert" "I_link \<in> op_pcs op \<longleftrightarrow> op = Op_insert"
  "W_crash \<in> op_pcs op \<longleftrightarrow> op = Op_insert" "W_idle \<notin> op_pcs op" "D_test \<notin> op_pcs op" "D_free \<notin> op_pcs op"
  by (auto simp: op_pcs_def split: lop.split)

text \<open>The node at \<open>D_unlink\<close> is the one with the key; the only crash is for want of a node.\<close>

definition sec_pc :: "lop \<Rightarrow> 'w mem_scheme \<Rightarrow> writer \<Rightarrow> bool" where
  "sec_pc op s w \<longleftrightarrow> w_pc w \<in> op_pcs op \<and> (w_pc w = W_crash \<longrightarrow> w_new w = NULL) \<and>
     (w_pc w = D_unlink \<longrightarrow> keyof s (w_cur w) = w_key w)"

text \<open>The result of the call once it has taken effect.\<close>

definition sec_done :: "writer \<Rightarrow> int option" where
  "sec_done w = (if w_pc w = D_bump then Some 1 else if w_pc w = W_idle then Some (w_ret w) else None)"

definition sec_effect :: "lop \<Rightarrow> int \<Rightarrow> int option \<Rightarrow> int set \<Rightarrow> int option \<Rightarrow> int set \<Rightarrow> bool" where
  "sec_effect op k x K y K' \<longleftrightarrow> (case (x, y) of
     (None, Some r) \<Rightarrow> take_effect op k K = (r, K')
   | _ \<Rightarrow> K' = K \<and> y = x)"

definition sec_step_ok ::
    "lop \<Rightarrow> talloc \<Rightarrow> writer \<Rightarrow> (nat \<Rightarrow> ptr list) \<Rightarrow> ptr set \<Rightarrow> talloc \<Rightarrow> writer \<Rightarrow> (nat \<Rightarrow> ptr list) \<Rightarrow> bool" where
  "sec_step_ok op s w L Q s' w' L' \<longleftrightarrow> winvq (bare s') w' L' Q \<and> mt_ok s' (linked L' \<union> held w' \<union> Q) \<and>
     (w_pc w' = W_idle \<or> sec_pc op s' w') \<and> locks s' = locks s \<and> w_bucket w' = w_bucket w \<and> w_key w' = w_key w \<and>
     (\<forall>p\<in>linked L \<union> Q. keyof s' p = keyof s p) \<and> (\<forall>p\<in>Q. nxt (node s' p) = nxt (node s p)) \<and>
     (\<forall>c. c \<noteq> w_bucket w \<longrightarrow> L' c = L c) \<and>
     sec_effect op (w_key w) (sec_done w) (keys_of s (L (w_bucket w))) (sec_done w') (keys_of s' (L' (w_bucket w)))"

lemma keys_of_cong: "(\<And>p. p \<in> set xs \<Longrightarrow> keyof s' p = keyof s p) \<Longrightarrow> keys_of s' xs = keys_of s xs"
  by (simp add: keys_of_def)

section \<open>Allocating and freeing\<close>

lemma sec_alloc:
  assumes inv: "winvq (bare s) w L Q" and mt: "mt_ok s (linked L \<union> held w \<union> Q)" and pc: "w_pc w = I_alloc"
    and op: "sec_pc op s w" and st: "section_step al t op s w = (s', w')"
  shows "sec_step_ok op s w L Q s' w' L"
proof -
  have h: "held w = {}" using pc by (simp add: held_def)
  have mt0: "mt_ok s (linked L \<union> Q)" using mt h by simp
  obtain m s1 where m: "call_new al t s = Some (m, s1)" "m \<notin> linked L \<union> Q"
    "mt_ok s1 (linked L \<union> ({m} - {NULL}) \<union> Q)" "winvq (bare s1) (w\<lparr>w_new := m, w_pc := I_key\<rparr>) L Q"
    "\<forall>p. p \<noteq> m \<longrightarrow> node s1 p = node s p"
    using call_step [OF inv mt0 pc, of al t] by blast
  have st': "s' = s1" "w' = w\<lparr>w_new := m, w_pc := I_key\<rparr>" using st pc m(1) by (auto simp: section_step_def)
  have n: "node s1 p = node s p" if "p \<in> linked L \<union> Q" for p using m(2,5) that by metis
  moreover have "keys_of s1 (L b) = keys_of s (L b)" for b
    by (rule keys_of_cong) (use n linkedI in fastforce)
  ultimately show ?thesis using m pc op call_new_mem(2) [OF m(1)]
    by (auto simp: sec_step_ok_def st' held_def sec_pc_def sec_done_def sec_effect_def)
qed

lemma sec_free:
  assumes inv: "winvq (bare s) w L Q" and mt: "mt_ok s (linked L \<union> held w \<union> Q)" and pc: "w_pc w = D_bump"
    and op: "sec_pc op s w" and st: "section_step al t op s w = (s', w')"
  shows "sec_step_ok op s w L Q s' w' L"
proof -
  note W = winvD [OF inv]
  let ?c = "w_cur w"
  have h: "held w = {?c}" using pc by (simp add: held_def)
  then have c: "?c \<notin> linked L \<union> Q" using W(3,6) by auto
  obtain F G where "mt_inv s (linked L \<union> held w \<union> Q) F G" using mt by (auto simp: mt_ok_def)
  from call_free_ok [OF this, of ?c al t]
  obtain s1 where s1: "call_free al t ?c s = Some s1" "mt_ok s1 (linked L \<union> held w \<union> Q - {?c})" using h by auto
  note M = call_free_mem [OF s1(1)]
  have st': "s' = s1" "w' = finish 1 w" using st pc s1(1) by (auto simp: section_step_def store_def)
  have "linked L \<union> held w \<union> Q - {?c} = linked L \<union> Q" using h c by auto
  then have mt1: "mt_ok s1 (linked L \<union> Q)" using s1(2) by simp
  have "buckets s1 L" by (rule buckets_keeps [OF _ mr_only_keeps [OF M(1)]]) (use W(1) in simp)
  moreover have "closed s1" using W(4) M(2) by (simp add: closed_def mr_only_node [OF M(1)])
  moreover have "alloc_ok (bare s1) (linked L \<union> Q)" using W(2) by (auto simp: bare_alloc_ok M(2))
  ultimately have "winvq (bare s1) (finish 1 w) L Q"
    using W(6) by (simp add: winvq_def held_def finish_def wpc_inv_def Int_Un_distrib)
  moreover have "locks s1 = locks s" using M(1) by (simp add: mr_only_def)
  moreover have "keys_of s1 xs = keys_of s xs" for xs by (simp add: keys_of_def mr_only_node [OF M(1)])
  ultimately show ?thesis using mt1 pc
    by (simp add: sec_step_ok_def st' held_def finish_def sec_done_def sec_effect_def mr_only_node [OF M(1)])
qed

section \<open>Searching\<close>

text \<open>What the loops conclude from the node they stand at.\<close>

lemma gap_key:
  assumes B: "buckets s L" and g: "del_gap s w L"
  shows "w_cur w = NULL \<Longrightarrow> w_key w \<notin> keys_of s (L (w_bucket w))"
    and "w_cur w \<noteq> NULL \<Longrightarrow> w_key w \<le> keyof s (w_cur w) \<Longrightarrow>
      w_key w \<in> keys_of s (L (w_bucket w)) \<longleftrightarrow> keyof s (w_cur w) = w_key w"
proof -
  let ?b = "w_bucket w" and ?k = "w_key w"
  obtain us vs where uv: "L ?b = us @ vs" "w_cur w = first_ptr vs" "\<forall>x\<in>set us. keyof s x < ?k"
    using g by (auto simp: del_gap_def at_gap_def)
  have so: "sorted_wrt (<) (map (keyof s) (us @ vs))" using buckets_sorted [OF B, of ?b] uv(1) by simp
  have nn: "NULL \<notin> set (L ?b)" using linked_not_NULL [OF B] linkedI by blast
  show "?k \<notin> keys_of s (L ?b)" if "w_cur w = NULL"
  proof -
    have "vs = []" using uv(1,2) nn that by (cases vs) auto
    then show ?thesis using uv by (auto simp: keys_of_def)
  qed
  show "?k \<in> keys_of s (L ?b) \<longleftrightarrow> keyof s (w_cur w) = ?k" if c: "w_cur w \<noteq> NULL" "?k \<le> keyof s (w_cur w)"
  proof -
    obtain ys where vs: "vs = w_cur w # ys" using uv(2) c by (cases vs) auto
    then have "\<forall>x\<in>set ys. ?k < keyof s x" using so c by (auto simp: sorted_wrt_append)
    then show ?thesis using uv(1,3) vs by (auto simp: keys_of_def)
  qed
qed

lemma sec_search:
  assumes inv: "winvq (bare s) w L Q" and mt: "mt_ok s (linked L \<union> held w \<union> Q)" and pc: "w_pc w = D_loop"
    and op: "op = Op_search" and st: "section_step al t op s w = (s', w')"
  shows "sec_step_ok op s w L Q s' w' L"
proof -
  note W = winvD [OF inv]
  have st': "s' = s" "w' = lk_search_iter s w" using st pc op by (auto simp: section_step_def)
  have B: "buckets s L" using W(1) by simp
  have h: "held w = {}" using pc by (simp add: held_def)
  have g: "del_gap s w L" using W(5) pc by (simp add: wpc_inv_def)
  note key = gap_key [OF B g]
  have fin: "sec_step_ok op s w L Q s (finish x w) L" if "x = (if w_key w \<in> keys_of s (L (w_bucket w)) then 1 else 0)" for x
    using inv mt h that pc op
    by (simp add: sec_step_ok_def winvq_def held_def finish_def wpc_inv_def sec_done_def sec_effect_def take_effect_def)
  consider "w_cur w = NULL" | "w_cur w \<noteq> NULL" "w_key w \<le> keyof s (w_cur w)"
    | "w_cur w \<noteq> NULL" "keyof s (w_cur w) < w_key w" by linarith
  then show ?thesis
  proof cases
    case 1
    then show ?thesis using fin key(1) st' by (simp add: lk_search_iter_def)
  next
    case 2
    then show ?thesis using fin key(2) st' by (simp add: lk_search_iter_def Let_def)
  next
    case 3
    then have "del_gap s (w\<lparr>w_prev := Next (w_cur w), w_cur := nxt (node s (w_cur w))\<rparr>) L"
      using loop_step(1) [OF B g] by simp
    then show ?thesis using inv mt h 3 st' pc op
      by (simp add: sec_step_ok_def lk_search_iter_def Let_def winvq_def held_def wpc_inv_def sec_done_def
          sec_effect_def sec_pc_def)
  qed
qed

section \<open>The steps of \<open>list_writer.c\<close>\<close>

lemma sec_plain_effect:
  assumes inv: "winvq (bare s) w L Q" and inv': "winvq (bare s') w' L' Q"
    and pc: "w_pc w \<notin> {I_alloc, D_free, D_bump}" and op: "op \<noteq> Op_search" "sec_pc op s w"
    and st: "writer_step s w = (s', w')"
  shows "w_pc w' = W_idle \<or> sec_pc op s' w'"
    and "sec_effect op (w_key w) (sec_done w) (keys_of s (L (w_bucket w))) (sec_done w') (keys_of s' (L' (w_bucket w)))"
proof -
  note W = winvD [OF inv] and W' = winvD [OF inv']
  let ?b = "w_bucket w" and ?k = "w_key w"
  have B: "buckets s L" using W(1) by simp
  have sb: "writer_step (bare s) w = (bare s', w')" by (rule writer_step_bare [OF st]) (use pc in auto)
  have r: "relinked s w L L'" using plain_lists [OF inv W'(1) sb pc] by (simp add: relinked_def)
  note stored = plain_stored [OF inv W'(1) sb]
  have kk: "keyof s' p = keyof s p" if "p \<in> linked L" for p
    using writer_step_raw(3) [OF st pc, of p] W(3) that by (auto simp: held_def split: if_splits)
  have ks: "keys_of s' xs = keys_of s xs" if "set xs \<subseteq> linked L" for xs
    by (rule keys_of_cong) (use kk that in auto)
  have sub: "set (L b) \<subseteq> linked L" for b using linkedI by auto
  have D: "sec_done w = None" "w_pc w \<noteq> W_idle" using op(2) pc by (auto simp: sec_done_def sec_pc_def)
  have g: "del_gap s w L" if "w_pc w \<in> {D_loop, I_loop}" using W(5) that by (auto simp: wpc_inv_def)
  note key = gap_key [OF B g]
  have "(w_pc w' = W_idle \<or> sec_pc op s' w') \<and>
    sec_effect op ?k None (keys_of s (L ?b)) (sec_done w') (keys_of s' (L' ?b))"
  proof (cases "w_pc w")
    case D_loop
    then have o: "op = Op_delete" using op by (cases op) (auto simp: sec_pc_def)
    have "s' = s" "L' = L" using st r D_loop by (auto simp: writer_step_def relinked_def)
    then show ?thesis using st D_loop key o
      by (auto simp: writer_step_def finish_def Let_def sec_pc_def sec_done_def sec_effect_def take_effect_def
          split: if_splits)
  next
    case I_loop
    then have o: "op = Op_insert" using op by (simp add: sec_pc_def)
    have "s' = s" "L' = L" using st r I_loop by (auto simp: writer_step_def relinked_def)
    then show ?thesis using st I_loop key o
      by (auto simp: writer_step_def finish_def Let_def sec_pc_def sec_done_def sec_effect_def take_effect_def
          split: if_splits)
  next
    case D_unlink
    then have o: "op = Op_delete" "keyof s (w_cur w) = ?k" using op by (auto simp: sec_pc_def)
    obtain us vs where uv: "L ?b = us @ w_cur w # vs" "L' = L(?b := us @ vs)"
      using r D_unlink by (auto simp: relinked_def)
    have so: "sorted_wrt (<) (map (keyof s) (us @ w_cur w # vs))" using buckets_sorted [OF B, of ?b] uv(1) by simp
    have "keys_of s (us @ vs) = keys_of s (L ?b) - {?k}"
      using so uv(1) o(2) by (auto simp: keys_of_def sorted_wrt_append)
    moreover have "keys_of s' (L' ?b) = keys_of s (us @ vs)" using ks [of "us @ vs"] sub [of ?b] uv by simp
    moreover have "?k \<in> keys_of s (L ?b)" using uv(1) o(2) by simp
    ultimately show ?thesis using stored(1) [OF D_unlink] o(1)
      by (simp add: sec_pc_def sec_done_def sec_effect_def take_effect_def)
  next
    case I_link
    then have o: "op = Op_insert" using op by (simp add: sec_pc_def)
    have mk: "keyof s (w_new w) = ?k" and gap: "ins_gap s w L" using W(5) I_link by (simp_all add: wpc_inv_def)
    obtain us vs where uv: "L ?b = us @ vs" "L' = L(?b := us @ w_new w # vs)" using r I_link by (auto simp: relinked_def)
    have "?k \<notin> keys_of s (L ?b)" using gap by (fastforce simp: ins_gap_def at_gap_def keys_of_def)
    moreover have "keyof s' (w_new w) = ?k" using writer_step_raw(3) [OF st pc, of "w_new w"] mk I_link by simp
    then have "keys_of s' (L' ?b) = insert ?k (keys_of s (L ?b))"
      using ks [of us] ks [of vs] sub [of ?b] uv by simp
    ultimately show ?thesis using stored(2) [OF I_link] o
      by (simp add: finish_def sec_done_def sec_effect_def take_effect_def)
  next
    case I_key
    then have o: "op = Op_insert" and L: "L' = L" using op r by (auto simp: sec_pc_def relinked_def)
    then show ?thesis using st I_key ks [OF sub [of ?b]]
      by (auto simp: writer_step_def store_def wr_def sec_pc_def sec_done_def sec_effect_def split: if_splits)
  next
    case I_next
    then have o: "op = Op_insert" and L: "L' = L" using op r by (auto simp: sec_pc_def relinked_def)
    then show ?thesis using st I_next ks [OF sub [of ?b]]
      by (auto simp: writer_step_def store_def wr_def sec_pc_def sec_done_def sec_effect_def split: if_splits)
  next
    case W_crash
    then have o: "op = Op_insert" and L: "L' = L" using op r by (auto simp: sec_pc_def relinked_def)
    then show ?thesis using st W_crash op(2) ks [OF sub [of ?b]]
      by (auto simp: writer_step_def sec_pc_def sec_done_def sec_effect_def)
  qed (use pc op D in \<open>auto simp: sec_pc_def\<close>)
  then show "w_pc w' = W_idle \<or> sec_pc op s' w'"
    "sec_effect op ?k (sec_done w) (keys_of s (L ?b)) (sec_done w') (keys_of s' (L' ?b))" unfolding D by blast+
qed

lemma sec_plain:
  assumes inv: "winvq (bare s) w L Q" and mt: "mt_ok s (linked L \<union> held w \<union> Q)"
    and pc: "w_pc w \<notin> {I_alloc, D_free, D_bump}" and op: "op \<noteq> Op_search" "sec_pc op s w"
    and st: "section_step al t op s w = (s', w')"
  shows "\<exists>L'. sec_step_ok op s w L Q s' w' L'"
proof -
  note W = winvD [OF inv]
  have st': "writer_step s w = (s', w')" using st pc op(1) by (simp add: section_step_def)
  have sb: "writer_step (bare s) w = (bare s', w')" by (rule writer_step_bare [OF st']) (use pc in auto)
  obtain L' where x: "winvq (bare s') w' L' Q"
    using writer_step_inv [OF inv _ sb, of "\<lambda>p. gc (node s p)" "\<lambda>_. 0" 0] by (auto simp: eras_def)
  note raw = writer_step_raw [OF st' pc]
  have r: "relinked s w L L'" using plain_lists [OF inv winvD(1) [OF x] sb pc] by (simp add: relinked_def)
  have "linked L' \<union> held w' = linked L \<union> held w" by (rule plain_nodes [OF inv x sb pc])
  then have "mt_ok s' (linked L' \<union> held w' \<union> Q)" using mt_ok_cong [OF mt, of s'] raw by simp
  moreover have "keyof s' p = keyof s p" if "p \<in> linked L \<union> Q" for p
    using raw(3) [of p] W(3,6) that by (auto simp: held_def split: if_splits)
  moreover have "nxt (node s' p) = nxt (node s p)" if "p \<in> Q" for p
    using writer_step_parked(1) [OF inv sb _ that] pc by simp
  moreover have "L' c = L c" if "c \<noteq> w_bucket w" for c
    using r that by (auto simp: relinked_def split: wpc.splits)
  moreover have "locks s' = locks s" "w_bucket w' = w_bucket w" "w_key w' = w_key w"
    using st' pc by (cases "w_pc w"; auto simp: writer_step_def store_def finish_def wr_def Let_def
        split: option.splits if_splits dest: set_loc_effect(2))+
  ultimately show ?thesis using x sec_plain_effect [OF inv x pc op st'] unfolding sec_step_ok_def
    by (intro exI [of _ L']) blast
qed

lemma section_ok:
  assumes "winvq (bare s) w L Q" and "mt_ok s (linked L \<union> held w \<union> Q)"
    and "sec_pc op s w" and "section_step al t op s w = (s', w')"
  shows "\<exists>L'. sec_step_ok op s w L Q s' w' L'"
proof -
  consider "w_pc w = I_alloc" | "w_pc w = D_bump" | "op = Op_search" "w_pc w = D_loop"
    | "op \<noteq> Op_search" "w_pc w \<notin> {I_alloc, D_free, D_bump}"
    using assms(3) by (auto simp: sec_pc_def op_pcs_def split: lop.splits)
  then show ?thesis
    by cases (use sec_alloc sec_free sec_search sec_plain assms in \<open>metis (no_types)\<close>)+
qed

end
