(* ===== verification/Locked_Machine.thy ===== *)
theory Locked_Machine imports Locked_Sections begin

text \<open>
  The invariant of the machine of \<open>Locked_Table\<close>, over any mutual exclusion lock, and
  the simulation of every step by the object.
\<close>

section \<open>The invariant\<close>

text \<open>A thread between taking and releasing the lock of bucket \<open>b\<close>; the nodes in its hands.\<close>

definition in_section :: "lthr \<Rightarrow> nat \<Rightarrow> bool" where
  "in_section T b \<longleftrightarrow> w_bucket (l_w T) = b \<and> l_pc T \<in> {T_first, T_in, T_unlock}"

definition lheld :: "lthr \<Rightarrow> ptr set" where
  "lheld T = (if l_pc T = T_in then held (l_w T) else {})"

definition hands :: "nat set \<Rightarrow> (nat \<Rightarrow> lthr) \<Rightarrow> ptr set" where
  "hands I f = (\<Union>t\<in>I. lheld (f t))"

definition thr_ok :: "talloc \<Rightarrow> lthr \<Rightarrow> (nat \<Rightarrow> ptr list) \<Rightarrow> bool" where
  "thr_ok s T L \<longleftrightarrow> l_pc T \<noteq> T_abort \<and> (l_pc T = T_test \<longrightarrow> l_op T = Op_delete) \<and>
     (l_pc T = T_in \<longrightarrow> wpc_inv s (l_w T) L \<and> sec_pc (l_op T) s (l_w T))"

text \<open>The memory: the buckets, and every node linked, free or in the hands of one thread.\<close>

definition lt_mem :: "talloc \<Rightarrow> (nat \<Rightarrow> lthr) \<Rightarrow> (nat \<Rightarrow> ptr list) \<Rightarrow> bool" where
  "lt_mem s f L \<longleftrightarrow> buckets s L \<and> closed s \<and> mt_ok s (linked L \<union> hands UNIV f) \<and>
     hands UNIV f \<inter> linked L = {} \<and> (\<forall>t u. t \<noteq> u \<longrightarrow> lheld (f t) \<inter> lheld (f u) = {}) \<and> (\<forall>t. thr_ok s (f t) L)"

text \<open>
  The lock words: \<open>word_ok l n x\<close> says that \<open>l\<close> is the word with \<open>n\<close> searches inside, and a
  writer if \<open>x\<close>.  A writer is alone.
\<close>

definition readers :: "(nat \<Rightarrow> lthr) \<Rightarrow> nat \<Rightarrow> nat set" where
  "readers f b = {t. in_section (f t) b \<and> l_op (f t) = Op_search}"

definition writers :: "(nat \<Rightarrow> lthr) \<Rightarrow> nat \<Rightarrow> nat set" where
  "writers f b = {t. in_section (f t) b \<and> l_op (f t) \<noteq> Op_search}"

definition lt_words :: "(u64 \<Rightarrow> nat \<Rightarrow> bool \<Rightarrow> bool) \<Rightarrow> (nat \<Rightarrow> u64) \<Rightarrow> (nat \<Rightarrow> lthr) \<Rightarrow> bool" where
  "lt_words word_ok ws f \<longleftrightarrow>
     (\<forall>b. word_ok (ws b) (card (readers f b)) (writers f b \<noteq> {}) \<and>
       (\<forall>t u. t \<in> writers f b \<longrightarrow> in_section (f u) b \<longrightarrow> u = t))"

text \<open>The threads are numbered below \<open>N\<close>.\<close>

definition lt_ok :: "(u64 \<Rightarrow> nat \<Rightarrow> bool \<Rightarrow> bool) \<Rightarrow> nat \<Rightarrow> lt_sys \<Rightarrow> bool" where
  "lt_ok word_ok N c \<longleftrightarrow> (\<exists>L. lt_mem (t_sh c) (t_thr c) L) \<and> lt_words word_ok (locks (t_sh c)) (t_thr c) \<and>
     (\<forall>t. N \<le> t \<longrightarrow> l_pc (t_thr c t) = T_idle)"

lemma hands_split: "hands UNIV f = lheld (f t) \<union> hands (- {t}) f" "hands (- {t}) (f(t := T)) = hands (- {t}) f"
  by (auto simp: hands_def)

lemma lt_memD:
  assumes "lt_mem s f L"
  shows "buckets s L" "closed s" "mt_ok s (linked L \<union> lheld (f t) \<union> hands (- {t}) f)"
    "lheld (f t) \<inter> linked L = {}" "hands (- {t}) f \<inter> (linked L \<union> lheld (f t)) = {}" "thr_ok s (f t) L"
proof -
  have d: "t \<noteq> u \<Longrightarrow> lheld (f t) \<inter> lheld (f u) = {}" for t u using assms by (simp add: lt_mem_def)
  have h: "hands UNIV f \<inter> linked L = {}" using assms by (simp add: lt_mem_def)
  show "buckets s L" "closed s" "thr_ok s (f t) L" using assms by (simp_all add: lt_mem_def)
  show "mt_ok s (linked L \<union> lheld (f t) \<union> hands (- {t}) f)"
    using assms hands_split(1) [of f t] by (simp add: lt_mem_def Un_assoc)
  show "lheld (f t) \<inter> linked L = {}" using h hands_split(1) [of f t] by auto
  have "hands (- {t}) f \<inter> lheld (f t) = {}" unfolding hands_def using d [of _ t] by fastforce
  then show "hands (- {t}) f \<inter> (linked L \<union> lheld (f t)) = {}" using h hands_split(1) [of f t] by auto
qed

lemma lt_memI:
  assumes "buckets s L" "closed s" "mt_ok s (linked L \<union> lheld T \<union> hands (- {t}) f)"
    "lheld T \<inter> linked L = {}" "hands (- {t}) f \<inter> (linked L \<union> lheld T) = {}" "thr_ok s T L"
    and o: "\<And>u. u \<noteq> t \<Longrightarrow> thr_ok s (f u) L" "\<And>u v. u \<noteq> v \<Longrightarrow> lheld (f u) \<inter> lheld (f v) = {}"
  shows "lt_mem s (f(t := T)) L"
proof -
  note h = hands_split(1) [of "f(t := T)" t, unfolded hands_split(2)]
  have "lheld ((f(t := T)) u) \<inter> lheld ((f(t := T)) v) = {}" if "u \<noteq> v" for u v
    using assms(5) o(2) [of u v] that by (cases "u = t"; cases "v = t") (auto simp: hands_def)
  then show ?thesis unfolding lt_mem_def using assms h by (auto simp: Un_assoc)
qed

section \<open>What a step leaves to the other threads\<close>

lemma wpc_inv_frame:
  assumes i: "wpc_inv s w L" and L: "L' (w_bucket w) = L (w_bucket w)"
    and k: "\<And>p. p \<in> set (L (w_bucket w)) \<union> held w \<Longrightarrow> keyof s' p = keyof s p"
    and n: "\<And>p. p \<in> held w \<Longrightarrow> nxt (node s' p) = nxt (node s p)"
  shows "wpc_inv s' w L'"
proof -
  have g: "at_gap s' w us vs \<longleftrightarrow> at_gap s w us vs" if "L (w_bucket w) = us @ vs" for us vs
    using k that by (auto simp: at_gap_def)
  have d: "del_gap s w L \<Longrightarrow> del_gap s' w L'" unfolding del_gap_def L using g by blast
  have e: "ins_gap s w L \<Longrightarrow> ins_gap s' w L'" unfolding ins_gap_def L
  proof (elim exE conjE)
    fix us vs assume a: "L (w_bucket w) = us @ vs" "at_gap s w us vs" "\<forall>x\<in>set vs. w_key w < keyof s x"
    then show "\<exists>us vs. L (w_bucket w) = us @ vs \<and> at_gap s' w us vs \<and> (\<forall>x\<in>set vs. w_key w < keyof s' x)"
      using g k by (intro exI [of _ us] exI [of _ vs]) simp
  qed
  show ?thesis
  proof (cases "w_pc w")
    case D_bump
    then obtain us vs where uv: "L (w_bucket w) = us @ vs" "nxt (node s (w_cur w)) = first_ptr vs"
      "\<forall>x\<in>set us. keyof s x < keyof s (w_cur w)" "\<forall>x\<in>set vs. keyof s (w_cur w) < keyof s x"
      using i by (auto simp: wpc_inv_def)
    have c: "w_cur w \<in> held w" using D_bump by (simp add: held_def)
    show ?thesis using D_bump uv k n [OF c] c L
      by (simp add: wpc_inv_def) (intro exI [of _ us] exI [of _ vs], simp)
  qed (use i d e k n L in \<open>auto simp: wpc_inv_def held_def\<close>)
qed

lemma thr_ok_frame:
  assumes i: "thr_ok s T L" and L: "l_pc T = T_in \<Longrightarrow> L' (w_bucket (l_w T)) = L (w_bucket (l_w T))"
    and k: "\<And>p. p \<in> linked L \<union> lheld T \<Longrightarrow> keyof s' p = keyof s p"
    and n: "\<And>p. p \<in> lheld T \<Longrightarrow> nxt (node s' p) = nxt (node s p)"
  shows "thr_ok s' T L'"
proof (cases "l_pc T = T_in")
  case True
  let ?w = "l_w T"
  have w: "wpc_inv s ?w L" "sec_pc (l_op T) s ?w" using i True by (auto simp: thr_ok_def)
  have "wpc_inv s' ?w L'"
    by (rule wpc_inv_frame [OF w(1)]) (use L k n True linkedI in \<open>fastforce simp: lheld_def\<close>)+
  moreover have "w_pc ?w = D_unlink \<Longrightarrow> w_cur ?w \<in> linked L"
    using w(1) linkedI [of "w_cur ?w" L "w_bucket ?w"] by (auto simp: wpc_inv_def)
  then have "sec_pc (l_op T) s' ?w" using w(2) k by (auto simp: sec_pc_def)
  ultimately show ?thesis using i True by (simp add: thr_ok_def)
qed (use i in \<open>auto simp: thr_ok_def\<close>)

text \<open>The key set of every bucket but one is untouched.\<close>

lemma bucket_keys_upd:
  assumes B: "buckets s L" and B': "buckets s' L'" and k: "\<And>p. p \<in> linked L \<Longrightarrow> keyof s' p = keyof s p"
    and o: "\<And>c. c \<noteq> b \<Longrightarrow> L' c = L c"
  shows "bucket_keys s' = (bucket_keys s)(b := keys_of s' (L' b))"
proof
  fix c
  have "keys_of s' (L c) = keys_of s (L c)" by (rule keys_of_cong) (use k linkedI in fast)
  then show "bucket_keys s' c = ((bucket_keys s)(b := keys_of s' (L' b))) c"
    using bucket_keys_eq [OF B, of c] bucket_keys_eq [OF B', of c] o [of c] by (cases "c = b") simp_all
qed

section \<open>Steps outside the loops\<close>

text \<open>What such a step may write is the lock words.\<close>

definition same_nodes :: "talloc \<Rightarrow> talloc \<Rightarrow> bool" where
  "same_nodes s s' \<longleftrightarrow> node s' = node s \<and> heads s' = heads s \<and> pool s' = pool s \<and> freelist s' = freelist s \<and>
     tls s' = tls s"

lemma same_nodes_thr: "same_nodes s s' \<Longrightarrow> thr_ok s' T L \<longleftrightarrow> thr_ok s T L"
  using wpc_inv_cong [of s' s] by (auto simp: same_nodes_def thr_ok_def sec_pc_def)

lemma same_nodes_keys: "same_nodes s s' \<Longrightarrow> bucket_keys s' = bucket_keys s"
  by (simp add: same_nodes_def bucket_keys_def keys_of_def fun_eq_iff)

lemma lt_mem_local:
  assumes m: "lt_mem s f L" and s': "same_nodes s s'" and h: "lheld (f t) = {}" "lheld T = {}" and T: "thr_ok s T L"
  shows "lt_mem s' (f(t := T)) L"
proof (rule lt_memI)
  note M = lt_memD(1,2) [OF m] lt_memD(3-6) [OF m, of t]
  show "buckets s' L" "closed s'" using M(1,2) s' by (simp_all add: buckets_def closed_def same_nodes_def)
  show "mt_ok s' (linked L \<union> lheld T \<union> hands (- {t}) f)"
    using mt_ok_cong [OF M(3), of s'] s' h by (simp add: same_nodes_def)
  show "lheld T \<inter> linked L = {}" "hands (- {t}) f \<inter> (linked L \<union> lheld T) = {}" using M(5) h by simp_all
  show "thr_ok s' T L" using T s' by (simp add: same_nodes_thr)
  show "thr_ok s' (f u) L" for u using lt_memD(6) [OF m] s' by (simp add: same_nodes_thr)
  show "lheld (f u) \<inter> lheld (f v) = {}" if "u \<noteq> v" for u v using m that by (simp add: lt_mem_def)
qed

lemma members_upd:
  "readers (f(t := T)) b = readers f b - {t} \<union> (if in_section T b \<and> l_op T = Op_search then {t} else {})"
  "writers (f(t := T)) b = writers f b - {t} \<union> (if in_section T b \<and> l_op T \<noteq> Op_search then {t} else {})"
  by (auto simp: readers_def writers_def split: if_splits)

lemma lt_words_local:
  assumes ws: "lt_words word_ok ws f" and T: "in_section T = in_section (f t)" "l_op T = l_op (f t)"
  shows "lt_words word_ok ws (f(t := T))"
proof -
  have "in_section ((f(t := T)) u) = in_section (f u)" "l_op ((f(t := T)) u) = l_op (f u)" for u
    using T by simp_all
  then have "readers (f(t := T)) b = readers f b" "writers (f(t := T)) b = writers f b"
    "in_section ((f(t := T)) u) b = in_section (f u) b" for b u by (simp_all only: readers_def writers_def)
  then show ?thesis using ws by (simp add: lt_words_def del: fun_upd_apply)
qed

text \<open>A thread that changes its operation outside every section.\<close>

lemma lt_words_outside:
  assumes ws: "lt_words word_ok ws f" and T: "\<And>b. \<not> in_section T b" "\<And>b. \<not> in_section (f t) b"
  shows "lt_words word_ok ws (f(t := T))"
proof -
  have "in_section ((f(t := T)) u) b = in_section (f u) b" for u b using T by (cases "u = t") simp_all
  moreover have "readers (f(t := T)) b = readers f b" "writers (f(t := T)) b = writers f b" for b
    using T by (auto simp: readers_def writers_def split: if_splits)
  ultimately show ?thesis using ws by (simp add: lt_words_def del: fun_upd_apply)
qed

section \<open>The object follows\<close>

definition obj :: "talloc \<Rightarrow> (nat \<Rightarrow> lthr) \<Rightarrow> aset" where
  "obj s f = \<lparr>a_keys = bucket_keys s, a_thr = (\<lambda>t. status (f t))\<rparr>"

lemma obj_stays:
  assumes "status T = status (f t)" and "bucket_keys s' = bucket_keys s"
  shows "a_exec (moved t (status (f t)) (status T)) (obj s f) = Some (obj s' (f(t := T)))"
  using assms by (auto simp: moved_def obj_def fun_eq_iff split: acall.split)

lemma obj_returns:
  assumes "status (f t) = A_done x" "status T = A_idle x" and "bucket_keys s' = bucket_keys s"
  shows "a_exec (moved t (status (f t)) (status T)) (obj s f) = Some (obj s' (f(t := T)))"
  using assms by (auto simp: moved_def obj_def fun_eq_iff)

lemma obj_invoked:
  assumes "status (f t) = A_idle x" "status T = A_call op k b" and "bucket_keys s' = bucket_keys s"
  shows "a_exec (moved t (status (f t)) (status T)) (obj s f) = Some (obj s' (f(t := T)))"
  using assms by (auto simp: moved_def obj_def fun_eq_iff)

lemma obj_takes:
  assumes "status (f t) = A_call op k b" "status T = A_done x"
    and "take_effect op k (bucket_keys s b) = (x, K)" "bucket_keys s' = (bucket_keys s)(b := K)"
  shows "a_exec (moved t (status (f t)) (status T)) (obj s f) = Some (obj s' (f(t := T)))"
  using assms by (auto simp: moved_def obj_def fun_eq_iff)

definition lt_simulated ::
    "(u64 \<Rightarrow> nat \<Rightarrow> bool \<Rightarrow> bool) \<Rightarrow> nat \<Rightarrow> talloc \<Rightarrow> (nat \<Rightarrow> lthr) \<Rightarrow> talloc \<Rightarrow> lthr \<Rightarrow> bool" where
  "lt_simulated word_ok t s f s' T \<longleftrightarrow>
     (\<exists>L. lt_mem s' (f(t := T)) L) \<and> lt_words word_ok (locks s') (f(t := T)) \<and>
     a_exec (moved t (status (f t)) (status T)) (obj s f) = Some (obj s' (f(t := T)))"

text \<open>The begin of a call to the allocator.\<close>

lemma sim_begin:
  assumes m: "lt_mem s f L" and ws: "lt_words word_ok (locks s) f" and T: "T = (f t)\<lparr>l_call := True\<rparr>"
  shows "lt_simulated word_ok t s f s T"
proof -
  have e: "lheld T = lheld (f t)" "thr_ok s T L = thr_ok s (f t) L" "in_section T = in_section (f t)" "l_op T = l_op (f t)"
    by (simp_all add: T lheld_def thr_ok_def in_section_def fun_eq_iff)
  have st: "status T = status (f t)" by (cases "l_pc (f t)") (simp_all add: T status_def Let_def)
  have "lt_mem s (f(t := T)) L"
  proof (rule lt_memI)
    show "buckets s L" "closed s" by (rule lt_memD [OF m])+
    show "mt_ok s (linked L \<union> lheld T \<union> hands (- {t}) f)" "lheld T \<inter> linked L = {}"
      "hands (- {t}) f \<inter> (linked L \<union> lheld T) = {}" "thr_ok s T L"
      unfolding e by (rule lt_memD(3-6) [OF m])+
    show "thr_ok s (f u) L" for u by (rule lt_memD(6) [OF m])
    show "lheld (f u) \<inter> lheld (f v) = {}" if "u \<noteq> v" for u v using m that by (simp add: lt_mem_def)
  qed
  then show ?thesis using lt_words_local [OF ws e(3,4)] obj_stays [of T f t s s, OF st HOL.refl] unfolding lt_simulated_def by blast
qed

text \<open>A step of a thread in its loop: the bucket's lock keeps the others out of the bucket.\<close>

lemma sim_in:
  assumes m: "lt_mem s f L" and ws: "lt_words word_ok (locks s) f" and pc: "l_pc (f t) = T_in"
    and st: "lt_thread al lock unlock t s (f t) = (s', T)"
  shows "lt_simulated word_ok t s f s' T"
proof (cases "w_pc (l_w (f t)) \<in> {D_bump, I_alloc} \<and> \<not> l_call (f t)")
  case True
  then have "s' = s" "T = (f t)\<lparr>l_call := True\<rparr>" using st pc by (simp_all add: lt_thread_def Let_def)
  then show ?thesis using sim_begin [OF m ws] by simp
next
  case entered: False
  note M = lt_memD(1,2) [OF m] lt_memD(3-6) [OF m, of t]
  let ?w = "l_w (f t)" and ?op = "l_op (f t)" and ?Q = "hands (- {t}) f"
  let ?b = "w_bucket ?w"
  have h: "lheld (f t) = held ?w" using pc by (simp add: lheld_def)
  obtain w' where w': "section_step al t ?op s ?w = (s', w')"
    and T: "T = (f t)\<lparr>l_w := w', l_pc := (if w_pc w' = W_idle then T_unlock else T_in), l_call := False\<rparr>"
    using st pc entered by (auto simp: lt_thread_def Let_def simp del: de_Morgan_conj split: prod.splits)
  have i: "wpc_inv s ?w L" "sec_pc ?op s ?w" using M(6) pc by (auto simp: thr_ok_def)
  have "alloc_ok (bare s) (linked L \<union> held ?w \<union> ?Q)"
    using M(3) unfolding h bare_alloc_ok mt_ok_def mt_inv_def by auto
  then have inv: "winvq (bare s) ?w L ?Q" using M(1,2,4,5) i(1) h by (simp add: winvq_def)
  obtain L' where x: "sec_step_ok ?op s ?w L ?Q s' w' L'"
    using section_ok [OF inv _ i(2) w'] M(3) h by auto
  note W' = winvD [of "bare s'" w' L' ?Q]
  have x1: "winvq (bare s') w' L' ?Q" "mt_ok s' (linked L' \<union> held w' \<union> ?Q)" "w_pc w' = W_idle \<or> sec_pc ?op s' w'"
    "locks s' = locks s" "w_bucket w' = ?b" "w_key w' = w_key ?w" "\<And>p. p \<in> linked L \<union> ?Q \<Longrightarrow> keyof s' p = keyof s p"
    "\<And>p. p \<in> ?Q \<Longrightarrow> nxt (node s' p) = nxt (node s p)" "\<And>c. c \<noteq> ?b \<Longrightarrow> L' c = L c"
    "sec_effect ?op (w_key ?w) (sec_done ?w) (keys_of s (L ?b)) (sec_done w') (keys_of s' (L' ?b))"
    using x by (auto simp: sec_step_ok_def)
  note W' = W' [OF x1(1)]
  have hT: "lheld T = held w'" using T by (auto simp: lheld_def held_def)
  have keep: "L' (w_bucket (l_w (f u))) = L (w_bucket (l_w (f u)))" if "u \<noteq> t" "l_pc (f u) = T_in" for u
  proof (cases "?op = Op_search")
    case True
    then have "w_pc ?w = D_loop" using i(2) by (simp add: sec_pc_def op_pcs_def)
    then have "s' = s" using w' True by (simp add: section_step_def)
    then have "L' = L" using W'(1) M(1) buckets_unique by simp
    then show ?thesis by simp
  next
    case False
    then have "t \<in> writers f ?b" using pc by (simp add: writers_def in_section_def)
    then have "\<not> in_section (f u) ?b" using ws that(1) unfolding lt_words_def by blast
    then show ?thesis using x1(9) that(2) by (simp add: in_section_def)
  qed
  have "lt_mem s' (f(t := T)) L'"
  proof (rule lt_memI)
    show "buckets s' L'" "closed s'" using W'(1,4) by simp_all
    show "mt_ok s' (linked L' \<union> lheld T \<union> ?Q)" using x1(2) hT by simp
    show "lheld T \<inter> linked L' = {}" "?Q \<inter> (linked L' \<union> lheld T) = {}" using W'(3,6) hT by simp_all
    show "thr_ok s' T L'" using W'(5) x1(3) T by (auto simp: thr_ok_def)
    show "thr_ok s' (f u) L'" if u: "u \<noteq> t" for u
    proof (rule thr_ok_frame [OF lt_memD(6) [OF m]])
      have q: "lheld (f u) \<subseteq> ?Q" using u by (auto simp: hands_def)
      show "keyof s' p = keyof s p" if "p \<in> linked L \<union> lheld (f u)" for p using x1(7) q that by auto
      show "nxt (node s' p) = nxt (node s p)" if "p \<in> lheld (f u)" for p using x1(8) q that by auto
    qed (use keep u in blast)
    show "lheld (f u) \<inter> lheld (f v) = {}" if "u \<noteq> v" for u v using m that by (simp add: lt_mem_def)
  qed
  moreover have "in_section T = in_section (f t)" using T pc x1(5) by (auto simp: in_section_def fun_eq_iff)
  then have "lt_words word_ok (locks s') (f(t := T))"
    unfolding x1(4) by (rule lt_words_local [OF ws]) (simp add: T)
  moreover have "a_exec (moved t (status (f t)) (status T)) (obj s f) = Some (obj s' (f(t := T)))"
  proof -
    have B: "buckets s' L'" using W'(1) by simp
    have K: "bucket_keys s' = (bucket_keys s)(?b := keys_of s' (L' ?b))"
      by (rule bucket_keys_upd [OF M(1) B]) (use x1(7,9) in auto)
    have Kb: "bucket_keys s ?b = keys_of s (L ?b)" by (rule bucket_keys_eq [OF M(1)])
    have same: "bucket_keys s' = bucket_keys s" if "keys_of s' (L' ?b) = keys_of s (L ?b)"
      using K Kb that by (simp add: fun_upd_idem)
    have sw: "sec_done ?w = (if w_pc ?w = D_bump then Some 1 else None)"
      using i(2) by (auto simp: sec_done_def sec_pc_def)
    have S: "status (f t) = (if w_pc ?w = D_bump then A_done 1 else A_call ?op (w_key ?w) ?b)"
      using pc by (simp add: status_def Let_def)
    have ST: "status T = (case sec_done w' of Some r \<Rightarrow> A_done r | None \<Rightarrow> A_call ?op (w_key ?w) ?b)"
      using T x1(5,6) by (simp add: status_def sec_done_def Let_def)
    show ?thesis
    proof (cases "w_pc ?w = D_bump")
      case True
      then show ?thesis using x1(10) S ST sw same by (intro obj_stays) (auto simp: sec_effect_def)
    next
      case F: False
      show ?thesis
      proof (cases "sec_done w'")
        case None
        then show ?thesis using F x1(10) S ST sw same by (intro obj_stays) (auto simp: sec_effect_def)
      next
        case (Some r)
        then show ?thesis using F x1(10) S ST sw K Kb by (intro obj_takes) (auto simp: sec_effect_def)
      qed
    qed
  qed
  ultimately show ?thesis unfolding lt_simulated_def by blast
qed

section \<open>Any lock that searches share or not\<close>

text \<open>
  An update enters only an empty section and leaves it empty; a search enters only
  without a writer.  \<open>2 ^ 64 - 2\<close> is the number of readers a lock word can count.
\<close>

locale rw_mutex =
  fixes lock unlock :: "lop \<Rightarrow> u64 \<Rightarrow> u64 option"
    and word_ok :: "u64 \<Rightarrow> nat \<Rightarrow> bool \<Rightarrow> bool"
  assumes write_in: "op \<noteq> Op_search \<Longrightarrow> word_ok l n x \<Longrightarrow> lock op l = Some l' \<Longrightarrow> n = 0 \<and> \<not> x \<and> word_ok l' 0 True"
    and write_out: "op \<noteq> Op_search \<Longrightarrow> word_ok l 0 True \<Longrightarrow> \<exists>l'. unlock op l = Some l' \<and> word_ok l' 0 False"
    and read_in: "word_ok l n x \<Longrightarrow> n < 2 ^ 64 - 2 \<Longrightarrow> lock Op_search l = Some l' \<Longrightarrow> \<not> x \<and> word_ok l' (Suc n) False"
    and read_out: "word_ok l (Suc n) False \<Longrightarrow> \<exists>l'. unlock Op_search l = Some l' \<and> word_ok l' n False"
    and opens: "word_ok l 0 False \<Longrightarrow> \<exists>l'. lock op l = Some l'"
begin

sublocale bucket_lock "lock op" "unlock op" "\<lambda>l. word_ok l 0 False" for op
proof unfold_locales
  fix l assume l: "word_ok l 0 False"
  obtain l' where l': "lock op l = Some l'" using opens [OF l] by blast
  show "\<exists>l' l''. lock op l = Some l' \<and> unlock op l' = Some l'' \<and> word_ok l'' 0 False"
  proof (cases "op = Op_search")
    case True
    then show ?thesis using read_in [OF l _ l' [unfolded True]] read_out l' by force
  next
    case False
    then show ?thesis using write_in [OF False l l'] write_out l' by blast
  qed
qed

lemma words_enter:
  assumes ws: "lt_words word_ok ws f" and N: "finite (readers f b)" "card (readers f b) < 2 ^ 64 - 2"
    and out: "\<And>c. \<not> in_section (f t) c" and T: "\<And>c. in_section T c \<longleftrightarrow> c = b"
    and l: "lock (l_op T) (ws b) = Some l"
  shows "lt_words word_ok (ws(b := l)) (f(t := T))"
proof -
  have w: "word_ok (ws c) (card (readers f c)) (writers f c \<noteq> {})"
    and alone: "\<And>u v. u \<in> writers f c \<Longrightarrow> in_section (f v) c \<Longrightarrow> v = u" for c
    using ws unfolding lt_words_def by blast+
  have t: "t \<notin> readers f c" "t \<notin> writers f c" for c using out by (simp_all add: readers_def writers_def)
  have sec: "in_section (f u) c \<longleftrightarrow> u \<in> readers f c \<union> writers f c" for u c by (auto simp: readers_def writers_def)
  have "word_ok ((ws(b := l)) c) (card (readers (f(t := T)) c)) (writers (f(t := T)) c \<noteq> {}) \<and>
     (\<forall>u v. u \<in> writers (f(t := T)) c \<longrightarrow> in_section ((f(t := T)) v) c \<longrightarrow> v = u)" for c
  proof (cases "c = b")
    case False
    then have "readers (f(t := T)) c = readers f c" "writers (f(t := T)) c = writers f c"
      using t [of c] T [of c] by (simp_all add: members_upd)
    moreover have "in_section ((f(t := T)) v) c = in_section (f v) c" for v
      using False T [of c] out [of c] by (cases "v = t") simp_all
    ultimately show ?thesis using w [of c] alone [of _ c] False by auto
  next
    case True
    show ?thesis
    proof (cases "l_op T = Op_search")
      case s: True
      then have r: "\<not> (writers f b \<noteq> {})" "word_ok l (Suc (card (readers f b))) False"
        using read_in [OF w [of b] N(2)] l by auto
      have "readers (f(t := T)) b = insert t (readers f b)" "writers (f(t := T)) b = {}"
        using s T t(1) [of b] r(1) by (simp_all add: members_upd)
      then show ?thesis using True r(2) t(1) [of b] N(1) by simp
    next
      case s: False
      then have r: "card (readers f b) = 0" "writers f b = {}" "word_ok l 0 True"
        using write_in [OF s w [of b] l] by auto
      have e: "readers f b = {}" using r(1) N(1) by simp
      have "readers (f(t := T)) b = {}" "writers (f(t := T)) b = {t}"
        using s T e r(2) by (simp_all add: members_upd)
      moreover have "in_section ((f(t := T)) v) b \<longleftrightarrow> v = t" for v
        using sec [of v b] e r(2) T [of b] by simp
      ultimately show ?thesis using True r(3) by simp
    qed
  qed
  then show ?thesis unfolding lt_words_def by blast
qed

lemma words_leave:
  assumes ws: "lt_words word_ok ws f" and N: "finite (readers f b)"
    and ins: "\<And>c. in_section (f t) c \<longleftrightarrow> c = b" and T: "\<And>c. \<not> in_section T c"
  shows "\<exists>l. unlock (l_op (f t)) (ws b) = Some l \<and> lt_words word_ok (ws(b := l)) (f(t := T))"
proof -
  have w: "word_ok (ws c) (card (readers f c)) (writers f c \<noteq> {})"
    and alone: "\<And>u v. u \<in> writers f c \<Longrightarrow> in_section (f v) c \<Longrightarrow> v = u" for c
    using ws unfolding lt_words_def by blast+
  have mem: "readers (f(t := T)) c = readers f c - {t}" "writers (f(t := T)) c = writers f c - {t}" for c
    using T by (simp_all add: members_upd)
  have tc: "t \<notin> readers f c" "t \<notin> writers f c" if "c \<noteq> b" for c
    using ins that by (simp_all add: readers_def writers_def)
  have less: "in_section ((f(t := T)) v) c \<Longrightarrow> in_section (f v) c" for v c using T by (cases "v = t") simp_all
  have "\<exists>l. unlock (l_op (f t)) (ws b) = Some l \<and> word_ok l (card (readers f b - {t})) (writers f b - {t} \<noteq> {})"
  proof (cases "l_op (f t) = Op_search")
    case True
    then have t: "t \<in> readers f b" "t \<notin> writers f b" using ins by (simp_all add: readers_def writers_def)
    have e: "writers f b = {}" using alone [of _ b t] ins [of b] t(2) by blast
    have "word_ok (ws b) (Suc (card (readers f b - {t}))) False"
      using w [of b] e card.remove [OF N t(1)] by simp
    from read_out [OF this] show ?thesis using True e by simp
  next
    case False
    then have t: "t \<in> writers f b" using ins by (simp add: writers_def)
    have only: "u = t" if "in_section (f u) b" for u using alone [OF t that] .
    have "l_op (f u) \<noteq> Op_search" if "in_section (f u) b" for u using only [OF that] False by simp
    then have e: "readers f b = {}" unfolding readers_def by blast
    have x: "writers f b - {t} = {}" using only unfolding writers_def by blast
    have "writers f b \<noteq> {}" using t by blast
    then have "word_ok (ws b) 0 True" using w [of b] e by simp
    from write_out [OF False this] show ?thesis using e x by simp
  qed
  then obtain l where l: "unlock (l_op (f t)) (ws b) = Some l"
    "word_ok l (card (readers f b - {t})) (writers f b - {t} \<noteq> {})" by blast
  have "word_ok ((ws(b := l)) c) (card (readers (f(t := T)) c)) (writers (f(t := T)) c \<noteq> {}) \<and>
     (\<forall>u v. u \<in> writers (f(t := T)) c \<longrightarrow> in_section ((f(t := T)) v) c \<longrightarrow> v = u)" for c
  proof -
    have "\<forall>u v. u \<in> writers f c - {t} \<longrightarrow> in_section ((f(t := T)) v) c \<longrightarrow> v = u"
      using alone [of _ c] less [of _ c] by blast
    moreover have "word_ok ((ws(b := l)) c) (card (readers f c - {t})) (writers f c - {t} \<noteq> {})"
    proof (cases "c = b")
      case False
      have "readers f c - {t} = readers f c" "writers f c - {t} = writers f c" using tc [OF False] by blast+
      then show ?thesis using w [of c] False by simp
    qed (use l(2) in simp)
    ultimately show ?thesis unfolding mem by blast
  qed
  then show ?thesis using l(1) unfolding lt_words_def by blast
qed

abbreviation words :: "(nat \<Rightarrow> u64) \<Rightarrow> (nat \<Rightarrow> lthr) \<Rightarrow> bool" where
  "words \<equiv> lt_words word_ok"

abbreviation simulated :: "nat \<Rightarrow> talloc \<Rightarrow> (nat \<Rightarrow> lthr) \<Rightarrow> talloc \<Rightarrow> lthr \<Rightarrow> bool" where
  "simulated \<equiv> lt_simulated word_ok"

text \<open>A step that moves the thread only.\<close>

lemma sim_quiet:
  assumes m: "lt_mem s f L" and ws: "words (locks s) f"
    and h: "lheld (f t) = {}" "lheld T = {}" "thr_ok s T L" "in_section T = in_section (f t)" "l_op T = l_op (f t)"
    and a: "a_exec (moved t (status (f t)) (status T)) (obj s f) = Some (obj s (f(t := T)))"
  shows "simulated t s f s T"
  unfolding lt_simulated_def
  using lt_mem_local [OF m _ h(1-3)] lt_words_local [OF ws h(4,5)] a by (auto simp: same_nodes_def)

lemma sim_lock:
  assumes m: "lt_mem s f L" and ws: "words (locks s) f" and pc: "l_pc (f t) = T_lock"
    and N: "\<forall>u. N \<le> u \<longrightarrow> l_pc (f u) = T_idle" "t < N" "N \<le> 2 ^ 64 - 2"
    and st: "lt_thread al lock unlock t s (f t) = (s', T)"
  shows "simulated t s f s' T"
proof -
  let ?b = "w_bucket (l_w (f t))"
  have ok: "thr_ok s (f t) L" by (rule lt_memD(6) [OF m])
  have h: "lheld (f t) = {}" using pc by (simp add: lheld_def)
  show ?thesis
  proof (cases "lock (l_op (f t)) (locks s ?b)")
    case None
    then have "s' = s" "T = f t" using st pc by (auto simp: lt_thread_def Let_def lock_op_def)
    then show ?thesis using sim_quiet [OF m ws h h ok HOL.refl HOL.refl] obj_stays by simp
  next
    case (Some l)
    have st': "s' = s\<lparr>locks := (locks s)(?b := l)\<rparr>" "T = (f t)\<lparr>l_pc := T_first\<rparr>"
      using st pc Some by (auto simp: lt_thread_def Let_def lock_op_def)
    have sn: "same_nodes s s'" by (simp add: same_nodes_def st')
    have T: "lheld T = {}" "thr_ok s T L" using ok pc by (simp_all add: st' lheld_def thr_ok_def)
    have i: "in_section T c \<longleftrightarrow> c = ?b" "\<not> in_section (f t) c" for c
      using pc by (auto simp: st' in_section_def)
    have sub: "readers f ?b \<subseteq> {..<N} - {t}"
      using N(1) i(2) by (auto simp: readers_def in_section_def not_le [symmetric])
    then have fin: "finite (readers f ?b)" by (rule finite_subset) simp
    have "card (readers f ?b) \<le> card ({..<N} - {t})" by (rule card_mono [OF _ sub]) simp
    then have "card (readers f ?b) < 2 ^ 64 - 2" using N(2,3) by simp
    then have "words ((locks s)(?b := l)) (f(t := T))"
      using i Some st'(2) by (intro words_enter [OF ws fin]) auto
    then have "words (locks s') (f(t := T))" by (simp add: st')
    moreover have "status T = status (f t)" using pc by (simp add: st' status_def Let_def)
    then have "a_exec (moved t (status (f t)) (status T)) (obj s f) = Some (obj s' (f(t := T)))"
      by (rule obj_stays) (rule same_nodes_keys [OF sn])
    ultimately show ?thesis using lt_mem_local [OF m sn h T] unfolding lt_simulated_def by blast
  qed
qed

lemma sim_unlock:
  assumes m: "lt_mem s f L" and ws: "words (locks s) f" and pc: "l_pc (f t) = T_unlock"
    and N: "\<forall>u. N \<le> u \<longrightarrow> l_pc (f u) = T_idle"
    and st: "lt_thread al lock unlock t s (f t) = (s', T)"
  shows "simulated t s f s' T"
proof -
  let ?b = "w_bucket (l_w (f t))" and ?T = "(f t)\<lparr>l_pc := T_idle\<rparr>"
  have ok: "thr_ok s (f t) L" by (rule lt_memD(6) [OF m])
  have h: "lheld (f t) = {}" using pc by (simp add: lheld_def)
  have "readers f ?b \<subseteq> {..<N}" using N by (auto simp: readers_def in_section_def not_le [symmetric])
  then have fin: "finite (readers f ?b)" by (rule finite_subset) simp
  have "in_section (f t) b \<longleftrightarrow> b = ?b" "\<not> in_section ?T b" for b using pc by (auto simp: in_section_def)
  from words_leave [OF ws fin this] obtain l
    where l: "unlock (l_op (f t)) (locks s ?b) = Some l" "words ((locks s)(?b := l)) (f(t := ?T))" by blast
  have st': "s' = s\<lparr>locks := (locks s)(?b := l)\<rparr>" "T = ?T"
    using st pc l(1) by (auto simp: lt_thread_def Let_def lock_op_def)
  have sn: "same_nodes s s'" by (simp add: same_nodes_def st')
  have T: "lheld T = {}" "thr_ok s T L" using ok pc by (simp_all add: st' lheld_def thr_ok_def)
  have "words (locks s') (f(t := T))" using l(2) by (simp add: st')
  moreover have "status (f t) = A_done (w_ret (l_w (f t)))" "status T = A_idle (w_ret (l_w (f t)))"
    using pc by (simp_all add: st' status_def Let_def)
  then have "a_exec (moved t (status (f t)) (status T)) (obj s f) = Some (obj s' (f(t := T)))"
    by (rule obj_returns) (rule same_nodes_keys [OF sn])
  ultimately show ?thesis using lt_mem_local [OF m sn h T] unfolding lt_simulated_def by blast
qed

text \<open>The test of \<open>delete\<close> outside the section: the bucket is empty at that moment.\<close>

lemma sim_test:
  assumes m: "lt_mem s f L" and ws: "words (locks s) f" and pc: "l_pc (f t) = T_test"
    and st: "lt_thread al lock unlock t s (f t) = (s', T)"
  shows "simulated t s f s' T"
proof -
  let ?w = "l_w (f t)"
  have ok: "thr_ok s (f t) L" and B: "buckets s L" by (rule lt_memD(6) [OF m], rule lt_memD(1) [OF m])
  have op: "l_op (f t) = Op_delete" using ok pc by (simp add: thr_ok_def)
  have h: "lheld (f t) = {}" "lheld T = {}" "in_section T = in_section (f t)" "l_op T = l_op (f t)" "s' = s"
    using pc st by (auto simp: lheld_def in_section_def lt_thread_def Let_def fun_eq_iff split: if_splits)
  have T: "thr_ok s T L" using ok pc st by (auto simp: lt_thread_def Let_def thr_ok_def split: if_splits)
  have "a_exec (moved t (status (f t)) (status T)) (obj s f) = Some (obj s (f(t := T)))"
  proof (cases "heads s (w_bucket ?w) = NULL")
    case True
    then have "L (w_bucket ?w) = []" using buckets_chain [OF B, of "w_bucket ?w"] by simp
    then have K: "bucket_keys s (w_bucket ?w) = {}" using bucket_keys_eq [OF B] by simp
    have "status (f t) = A_call Op_delete (w_key ?w) (w_bucket ?w)" "status T = A_done 0"
      using st pc True op by (auto simp: lt_thread_def Let_def status_def)
    then show ?thesis
      by (rule obj_takes [where K = "{}"]) (use K in \<open>simp_all add: take_effect_def fun_upd_idem\<close>)
  next
    case False
    then show ?thesis using st pc by (intro obj_stays) (auto simp: lt_thread_def Let_def status_def)
  qed
  then show ?thesis using sim_quiet [OF m ws h(1,2) T h(3,4)] h(5) by simp
qed

lemma sim_first:
  assumes m: "lt_mem s f L" and ws: "words (locks s) f" and pc: "l_pc (f t) = T_first"
    and st: "lt_thread al lock unlock t s (f t) = (s', T)"
  shows "simulated t s f s' T"
proof -
  let ?w = "l_w (f t)" and ?b = "w_bucket (l_w (f t))"
  let ?v = "?w\<lparr>w_prev := Head ?b, w_cur := heads s ?b,
    w_pc := (if l_op (f t) = Op_insert then I_loop else D_loop)\<rparr>"
  have ok: "thr_ok s (f t) L" and B: "buckets s L" by (rule lt_memD(6) [OF m], rule lt_memD(1) [OF m])
  have st': "s' = s" "T = (f t)\<lparr>l_pc := T_in, l_w := ?v\<rparr>" using st pc by (auto simp: lt_thread_def Let_def)
  have "del_gap s ?v L" unfolding del_gap_def
    by (rule exI [of _ "[]"], rule exI [of _ "L ?b"])
      (use chain_first [OF buckets_chain [OF B]] in \<open>simp add: at_gap_def\<close>)
  then have "thr_ok s T L" unfolding thr_ok_def st'(2) by (simp add: wpc_inv_def sec_pc_def)
  moreover have "lheld (f t) = {}" "lheld T = {}" "in_section T = in_section (f t)" "l_op T = l_op (f t)"
    using pc by (auto simp: st' lheld_def held_def in_section_def fun_eq_iff)
  moreover have "status T = status (f t)" using pc by (simp add: st' status_def Let_def)
  then have "a_exec (moved t (status (f t)) (status T)) (obj s f) = Some (obj s (f(t := T)))"
    by (rule obj_stays) (rule HOL.refl)
  ultimately show ?thesis using sim_quiet [OF m ws] st'(1) by blast
qed

lemma run_sim:
  assumes m: "lt_mem s f L" and ws: "words (locks s) f"
    and N: "\<forall>u. N \<le> u \<longrightarrow> l_pc (f u) = T_idle" "t < N" "N \<le> 2 ^ 64 - 2"
    and st: "lt_thread al lock unlock t s (f t) = (s', T)"
  shows "simulated t s f s' T"
proof -
  note A = m ws and ok = lt_memD(6) [OF m, of t]
  show ?thesis
  proof (cases "l_pc (f t)")
    case T_idle
    then have "s' = s" "T = f t" "lheld (f t) = {}" using st by (auto simp: lt_thread_def Let_def lheld_def)
    then show ?thesis using sim_quiet [OF A _ _ ok HOL.refl HOL.refl] obj_stays by simp
  next
    case T_ret
    have st': "s' = s" "T = (f t)\<lparr>l_pc := T_idle\<rparr>" using st T_ret by (simp_all add: lt_thread_def Let_def)
    have "thr_ok s T L" "lheld T = {}" "lheld (f t) = {}" "in_section T = in_section (f t)" "l_op T = l_op (f t)"
      using ok T_ret by (auto simp: st' thr_ok_def lheld_def in_section_def fun_eq_iff)
    moreover have "status (f t) = A_done (w_ret (l_w (f t)))" "status T = A_idle (w_ret (l_w (f t)))"
      using T_ret by (simp_all add: st' status_def Let_def)
    ultimately show ?thesis using sim_quiet [OF A] obj_returns st'(1) by simp
  qed (use sim_test [OF A _ st] sim_lock [OF A _ N st] sim_first [OF A _ st] sim_in [OF A _ st]
      sim_unlock [OF A _ N(1) st] ok in \<open>simp_all add: thr_ok_def\<close>)
qed

lemma call_sim:
  assumes m: "lt_mem s f L" and ws: "words (locks s) f"
  shows "simulated t s f s (lt_call op k b (f t))"
proof (cases "l_pc (f t) = T_idle")
  case True
  let ?T = "lt_call op k b (f t)"
  have h: "lheld (f t) = {}" "lheld ?T = {}" "thr_ok s ?T L"
    using True by (auto simp: lt_call_def lheld_def thr_ok_def)
  have "words (locks s) (f(t := ?T))"
    by (rule lt_words_outside [OF ws]) (use True in \<open>simp_all add: lt_call_def in_section_def\<close>)
  moreover have "status (f t) = A_idle (w_ret (l_w (f t)))" "status ?T = A_call op k b"
    using True by (simp_all add: lt_call_def status_def Let_def)
  ultimately show ?thesis
    using lt_mem_local [OF m _ h] obj_invoked unfolding lt_simulated_def by (auto simp: same_nodes_def)
next
  case False
  have "f(t := f t) = f" by simp
  then show ?thesis using m ws obj_stays [of "f t" f t s s] False unfolding lt_simulated_def by (auto simp: lt_call_def)
qed

lemma step_sim:
  assumes ok: "lt_ok word_ok N c" and a: "actor_of a < N" "N \<le> 2 ^ 64 - 2"
  shows "lt_ok word_ok N (lt_step al lock unlock a c)"
    and "a_exec (moved (actor_of a) (status (t_thr c (actor_of a))) (status (t_thr (lt_step al lock unlock a c) (actor_of a))))
      (lt_abs c) = Some (lt_abs (lt_step al lock unlock a c))"
proof -
  obtain L where m: "lt_mem (t_sh c) (t_thr c) L" and ws: "words (locks (t_sh c)) (t_thr c)"
    and N: "\<forall>t. N \<le> t \<longrightarrow> l_pc (t_thr c t) = T_idle"
    using ok by (auto simp: lt_ok_def)
  have abs: "lt_abs d = obj (t_sh d) (t_thr d)" for d by (simp add: lt_abs_def obj_def)
  have *: "\<exists>s' T. simulated (actor_of a) (t_sh c) (t_thr c) s' T \<and>
      lt_step al lock unlock a c = c\<lparr>t_sh := s', t_thr := (t_thr c)(actor_of a := T)\<rparr>"
  proof (cases a)
    case (Call t op k b)
    then show ?thesis using call_sim [OF m ws, of t op k b]
      by (intro exI [of _ "t_sh c"] exI [of _ "lt_call op k b (t_thr c t)"]) (simp add: actor_of_def)
  next
    case (Run t)
    obtain s' T where "lt_thread al lock unlock t (t_sh c) (t_thr c t) = (s', T)" by force
    then show ?thesis using run_sim [OF m ws N _ a(2)] a(1) Run
      by (intro exI [of _ s'] exI [of _ T]) (simp add: actor_of_def)
  qed
  then show "lt_ok word_ok N (lt_step al lock unlock a c)"
    using N a(1) by (auto simp: lt_simulated_def lt_ok_def)
  show "a_exec (moved (actor_of a) (status (t_thr c (actor_of a))) (status (t_thr (lt_step al lock unlock a c) (actor_of a))))
      (lt_abs c) = Some (lt_abs (lt_step al lock unlock a c))"
    using * unfolding abs by (auto simp: lt_simulated_def)
qed

lemma a_exec_append: "a_exec (xs @ ys) A = do { B \<leftarrow> a_exec xs A; a_exec ys B }"
  by (induction xs arbitrary: A) (simp_all add: bind_assoc)

lemma exec_sim:
  "lt_ok word_ok N c \<Longrightarrow> \<forall>a\<in>set as. actor_of a < N \<Longrightarrow> N \<le> 2 ^ 64 - 2 \<Longrightarrow>
   lt_ok word_ok N (lt_exec al lock unlock as c) \<and>
   a_exec (lt_acts al lock unlock as c) (lt_abs c) = Some (lt_abs (lt_exec al lock unlock as c))"
proof (induction as arbitrary: c)
  case Nil
  then show ?case by simp
next
  case (Cons a as)
  then have a: "actor_of a < N" by simp
  note S = step_sim [OF Cons.prems(1) a Cons.prems(3)]
  show ?case using Cons.IH [OF S(1) _ Cons.prems(3)] Cons.prems(2) S(2) by (simp add: a_exec_append Let_def)
qed

end

end
