(* ===== verification/Locked_Properties.thy ===== *)
theory Locked_Properties imports Locked_Machine begin

text \<open>
  The lock based list under any interleaving of any number of threads: every call takes
  effect at once, somewhere between its invocation and its return; the sections exclude
  each other; a thread inside one gets out.  And what two updaters do in the builds for
  one writer.
\<close>

section \<open>The locks of \<open>lock.h\<close>\<close>

definition x_word :: "xlock \<Rightarrow> u64 \<Rightarrow> nat \<Rightarrow> bool \<Rightarrow> bool" where
  "x_word m l n x \<longleftrightarrow> (case m of
     Rw \<Rightarrow> if x then n = 0 \<and> l = - 1 else n < 2 ^ 64 - 1 \<and> l = of_nat n
   | _ \<Rightarrow> if x then n = 0 \<and> l = 1 else n = 0 \<and> l = 0 \<or> n = 1 \<and> l = 1)"

lemma of_nat_word_eqs:
  assumes "n < 2 ^ 64 - 1"
  shows "(of_nat n :: u64) = 0 \<longleftrightarrow> n = 0" "(of_nat n :: u64) \<noteq> - 1"
proof -
  show "(of_nat n :: u64) \<noteq> - 1"
  proof
    assume "(of_nat n :: u64) = - 1"
    then have "(of_nat (Suc n) :: u64) = of_nat 0" by simp
    then have "Suc n = 0" by (rule of_nat_u64_inj) (use assms in simp_all)
    then show False by simp
  qed
  have "n = 0" if "(of_nat n :: u64) = of_nat 0" by (rule of_nat_u64_inj [OF that]) (use assms in simp_all)
  then show "(of_nat n :: u64) = 0 \<longleftrightarrow> n = 0" by auto
qed

lemma lock_lock_held: "lock_lock 1 = None"
  using lock_lock_was_free [of 1] by (cases "lock_lock 1") auto

interpretation x: rw_mutex "x_lock m" "x_unlock m" "x_word m" for m
proof unfold_locales
  note defs = x_lock_def x_unlock_def x_word_def spin_lock_def spin_unlock_def lock_unlock_def rw_rdlock_def
    rw_wrlock_def rw_unlock_def lock_lock_eq lock_lock_held
  fix l l' n x and op :: lop
  show "op \<noteq> Op_search \<Longrightarrow> x_word m l n x \<Longrightarrow> x_lock m op l = Some l' \<Longrightarrow> n = 0 \<and> \<not> x \<and> x_word m l' 0 True"
    using of_nat_word_eqs [of n] by (cases m) (auto simp: defs split: if_splits)
  show "op \<noteq> Op_search \<Longrightarrow> x_word m l 0 True \<Longrightarrow> \<exists>l'. x_unlock m op l = Some l' \<and> x_word m l' 0 False"
    by (cases m) (auto simp: defs)
  show "x_word m l n x \<Longrightarrow> n < 2 ^ 64 - 2 \<Longrightarrow> x_lock m Op_search l = Some l' \<Longrightarrow> \<not> x \<and> x_word m l' (Suc n) False"
    by (cases m) (auto simp: defs split: if_splits)
  show "x_word m l (Suc n) False \<Longrightarrow> \<exists>l'. x_unlock m Op_search l = Some l' \<and> x_word m l' n False"
    using of_nat_word_eqs [of "Suc n"] by (cases m) (auto simp: defs)
  show "x_word m l 0 False \<Longrightarrow> \<exists>l'. x_lock m op l = Some l'"
    by (cases m) (auto simp: defs)
qed

section \<open>The start\<close>

definition lt_start :: "ptr list \<Rightarrow> lt_sys" where
  "lt_start ps = \<lparr>t_sh = init_talloc ps, t_thr = (\<lambda>_. \<lparr>l_op = Op_search, l_pc = T_idle,
     l_w = \<lparr>w_key = 0, w_bucket = 0, w_pc = W_idle, w_prev = Head 0, w_cur = NULL, w_new = NULL, w_ret = 0\<rparr>,
     l_call = False\<rparr>)\<rparr>"

lemma lt_start_ok:
  assumes "distinct ps" and "NULL \<notin> set ps"
  shows "lt_ok (x_word m) N (lt_start ps)" "lt_abs (lt_start ps) = \<lparr>a_keys = (\<lambda>_. {}), a_thr = (\<lambda>_. A_idle 0)\<rparr>"
proof -
  let ?s = "init_talloc ps" and ?f = "t_thr (lt_start ps)"
  have mem: "heads ?s b = NULL" "node ?s p = zero_node" "locks ?s b = 0" "pool ?s = ps" for b p
    by (simp_all add: init_talloc_def init_allocator_def prealloc_def)
  have h: "hands UNIV ?f = {}" "lheld (?f t) = {}" "\<not> in_section (?f t) b" "l_pc (?f t) = T_idle" for t b
    by (simp_all add: hands_def lheld_def in_section_def lt_start_def)
  have B: "buckets ?s (\<lambda>_. [])" by (simp add: buckets_def mem)
  have "mt_ok ?s (linked (\<lambda>_. []) \<union> hands UNIV ?f)"
    unfolding h(1) using init_talloc_ok [OF assms] by (simp add: linked_def)
  then have "lt_mem ?s ?f (\<lambda>_. [])"
    using B assms(2) h(1,2,4) by (simp add: lt_mem_def closed_def mem zero_node_def thr_ok_def)
  moreover have "lt_words (x_word m) (locks ?s) ?f"
    using h(3) by (cases m) (simp_all add: lt_words_def readers_def writers_def mem x_word_def)
  ultimately show "lt_ok (x_word m) N (lt_start ps)" using h(4) by (auto simp: lt_ok_def lt_start_def)
  have "bucket_keys ?s b = {}" for b using bucket_keys_eq [OF B] by simp
  then show "lt_abs (lt_start ps) = \<lparr>a_keys = (\<lambda>_. {}), a_thr = (\<lambda>_. A_idle 0)\<rparr>"
    by (simp add: lt_abs_def lt_start_def status_def Let_def fun_eq_iff)
qed

lemma reachable_ok:
  assumes "distinct ps" "NULL \<notin> set ps" "\<forall>a\<in>set as. actor_of a < N" "N \<le> 2 ^ 64 - 2"
  shows "lt_ok (x_word m) N (lt_exec al (x_lock m) (x_unlock m) as (lt_start ps))"
  using x.exec_sim [OF lt_start_ok(1) [OF assms(1,2)] assms(3,4)] by blast

section \<open>Concrete schedules\<close>

lemma lt_eval: "lt_exec al lock unlock as c = e \<Longrightarrow> P e \<Longrightarrow> P (lt_exec al lock unlock as c)"
  by simp

lemma lt_eval_step:
  "lt_step al lock unlock a c = d \<Longrightarrow> lt_exec al lock unlock as d = e \<Longrightarrow> lt_exec al lock unlock (a # as) c = e"
  by simp

lemmas lt_machine_eval = lt_step.simps lt_call_def lt_thread_def section_step_def writer_step_def store_def finish_def
  lock_op_def rd_def wr_def lt_start_def init_talloc_def init_allocator_def prealloc_def none_wlock_def none_wunlock_def
  x_lock_def x_unlock_def spin_lock_def rw_wrlock_def rw_unlock_def rw_rdlock_def call_new_def build_get_def new_with_def switch_in_def switch_out_def new_node_def get_free_def steal_eq
  calloc_node_def zero_node_def

text \<open>Thread 0 inserts 5 while thread 1 waits to search for it.\<close>

definition demo_run :: "lt_actor list" where
  "demo_run = [Call 0 Op_insert 5 0, Run 0, Call 1 Op_search 5 0, Run 1, Run 0, Run 0, Run 0, Run 0, Run 0, Run 1, Run 0,
     Run 0, Run 0, Run 1, Run 1, Run 1, Run 1]"

lemma apart_step:
  "lt_step al lock unlock a c = d \<Longrightarrow> begins_call a c \<longrightarrow> (\<forall>t u. a = Run t \<longrightarrow> u \<noteq> t \<longrightarrow> \<not> l_call (t_thr c u)) \<Longrightarrow>
   calls_apart al lock unlock as d \<Longrightarrow> calls_apart al lock unlock (a # as) c"
  by simp

lemma demo_apart: "alloc_apart Default_alloc (x_lock Rw) (x_unlock Rw) demo_run (lt_start [64])"
  unfolding alloc_apart_def demo_run_def
  apply (rule disjI2)
  apply ((rule apart_step, (simp add: lt_machine_eval Let_def; fail), (simp add: begins_call_def lt_start_def; fail))+)
  apply (rule calls_apart.simps(1) [THEN iffD2, OF TrueI])
  done

section \<open>Every call takes effect at once\<close>

text \<open>
  C5 (linearizability): let threads numbered below \<open>2 ^ 64 - 2\<close> search, insert and
  delete under a spin lock, a test-and-set lock or a read-write lock, in any
  interleaving, in a \<open>SIMPLE_ALLOC\<close> build or, with the default allocator, as long as no two
  calls to the allocator overlap.  The calls and returns of the machine, with one moment in between for
  each call, are an execution of the object that performs every call at once: it
  accepts them all and ends with the same sets, every thread in the same call or with
  the same result.
\<close>

theorem locked_linearizable:
  assumes "distinct ps" "NULL \<notin> set ps" "\<forall>a\<in>set as. actor_of a < N" "N \<le> 2 ^ 64 - 2"
    and "alloc_apart al (x_lock m) (x_unlock m) as (lt_start ps)"
  shows "a_exec (lt_acts al (x_lock m) (x_unlock m) as (lt_start ps)) \<lparr>a_keys = (\<lambda>_. {}), a_thr = (\<lambda>_. A_idle 0)\<rparr> =
    Some (lt_abs (lt_exec al (x_lock m) (x_unlock m) as (lt_start ps)))"
  using x.exec_sim [OF lt_start_ok(1) [OF assms(1,2), where m = m and N = N] assms(3,4)]
    lt_start_ok(2) [OF assms(1,2)] by simp

lemma locked_linearizable_witness:
  "a_exec (lt_acts Default_alloc (x_lock Rw) (x_unlock Rw) demo_run (lt_start [64])) \<lparr>a_keys = (\<lambda>_. {}), a_thr = (\<lambda>_. A_idle 0)\<rparr> =
     Some (lt_abs (lt_exec Default_alloc (x_lock Rw) (x_unlock Rw) demo_run (lt_start [64])))"
  by (rule locked_linearizable [where N = 2, OF _ _ _ _ demo_apart]) (simp_all add: actor_of_def demo_run_def)

section \<open>The sections exclude each other\<close>

text \<open>
  C6 (exclusion): in every state such threads reach, under the same condition on the allocator, an updater inside the section of
  a bucket is alone there, and so is a search unless the lock is a read-write lock; no
  \<open>unlock\<close> ever aborts; and a node a thread has in its hands is in no bucket, in no
  other thread's hands and on no free list, as are the nodes of the buckets.
\<close>

theorem locked_exclusion:
  assumes "distinct ps" "NULL \<notin> set ps" "\<forall>a\<in>set as. actor_of a < N" "N \<le> 2 ^ 64 - 2"
    and "alloc_apart al (x_lock m) (x_unlock m) as (lt_start ps)"
    and c: "c = lt_exec al (x_lock m) (x_unlock m) as (lt_start ps)"
  shows "(\<forall>b t u. in_section (t_thr c t) b \<and> in_section (t_thr c u) b \<longrightarrow>
      t = u \<or> m = Rw \<and> l_op (t_thr c t) = Op_search \<and> l_op (t_thr c u) = Op_search) \<and>
    (\<forall>t. l_pc (t_thr c t) \<noteq> T_abort) \<and>
    (\<exists>L. buckets (t_sh c) L \<and> mt_ok (t_sh c) (linked L \<union> hands UNIV (t_thr c)) \<and>
      hands UNIV (t_thr c) \<inter> linked L = {} \<and>
      (\<forall>t u. t \<noteq> u \<longrightarrow> lheld (t_thr c t) \<inter> lheld (t_thr c u) = {}))"
proof -
  have ok: "lt_ok (x_word m) N c" unfolding c by (rule reachable_ok [OF assms(1-4)])
  then obtain L where L: "lt_mem (t_sh c) (t_thr c) L" and ws: "lt_words (x_word m) (locks (t_sh c)) (t_thr c)"
    by (auto simp: lt_ok_def)
  have "t = u \<or> m = Rw \<and> l_op (t_thr c t) = Op_search \<and> l_op (t_thr c u) = Op_search"
    if tu: "in_section (t_thr c t) b" "in_section (t_thr c u) b" for b t u
  proof -
    have alone: "\<And>v w. v \<in> writers (t_thr c) b \<Longrightarrow> in_section (t_thr c w) b \<Longrightarrow> w = v"
      and w: "x_word m (locks (t_sh c) b) (card (readers (t_thr c) b)) (writers (t_thr c) b \<noteq> {})"
      using ws unfolding lt_words_def by blast+
    show ?thesis
    proof (cases "t \<in> writers (t_thr c) b \<or> u \<in> writers (t_thr c) b")
      case True
      then show ?thesis using alone [of t u] alone [of u t] tu by blast
    next
      case False
      then have r: "t \<in> readers (t_thr c) b" "u \<in> readers (t_thr c) b" "l_op (t_thr c t) = Op_search"
        "l_op (t_thr c u) = Op_search" using tu by (auto simp: readers_def writers_def)
      have "t = u" if "m \<noteq> Rw"
      proof -
        have "\<forall>v. N \<le> v \<longrightarrow> l_pc (t_thr c v) = T_idle" using ok by (simp add: lt_ok_def)
        then have "readers (t_thr c) b \<subseteq> {..<N}" by (auto simp: readers_def in_section_def not_le [symmetric])
        then have f: "finite (readers (t_thr c) b)" by (rule finite_subset) simp
        have "card (readers (t_thr c) b) \<le> Suc 0"
          using w that by (cases m) (auto simp: x_word_def split: if_splits)
        then show ?thesis using r(1,2) f by (metis card_le_Suc0_iff_eq)
      qed
      then show ?thesis using r(3,4) by blast
    qed
  qed
  moreover have "\<forall>t. l_pc (t_thr c t) \<noteq> T_abort" using lt_memD(6) [OF L] by (simp add: thr_ok_def)
  moreover have "buckets (t_sh c) L" "mt_ok (t_sh c) (linked L \<union> hands UNIV (t_thr c))"
    "hands UNIV (t_thr c) \<inter> linked L = {}" "\<forall>t u. t \<noteq> u \<longrightarrow> lheld (t_thr c t) \<inter> lheld (t_thr c u) = {}"
    using L by (simp_all add: lt_mem_def)
  ultimately show ?thesis by blast
qed

lemma locked_exclusion_witness:
  "\<forall>t. l_pc (t_thr (lt_exec Default_alloc (x_lock Rw) (x_unlock Rw) demo_run (lt_start [64])) t) \<noteq> T_abort"
proof -
  have "\<forall>a\<in>set demo_run. actor_of a < 2" by (simp add: actor_of_def demo_run_def)
  then show ?thesis
    by (rule locked_exclusion [OF _ _ _ _ demo_apart HOL.refl, THEN conjunct2, THEN conjunct1, rotated 2]) simp_all
qed

section \<open>A section ends\<close>

text \<open>\<open>within s T n\<close>: running alone, the thread is out of its section after at most \<open>n\<close> steps, or crashed.\<close>

definition within :: "talloc \<Rightarrow> lthr \<Rightarrow> nat \<Rightarrow> bool" where
  "within s T n \<longleftrightarrow> (let w = l_w T; walk = (\<lambda>p k. \<exists>vs. chain (nxts s) p vs NULL \<and> length vs + k \<le> n) in
     case l_pc T of
       T_idle \<Rightarrow> True
     | T_unlock \<Rightarrow> 1 \<le> n
     | T_first \<Rightarrow> walk (heads s (w_bucket w)) 9
     | T_in \<Rightarrow> (case w_pc w of
         D_loop \<Rightarrow> walk (w_cur w) 5 | D_unlink \<Rightarrow> 4 \<le> n | D_bump \<Rightarrow> (if l_call T then 2 else 3) \<le> n
       | I_loop \<Rightarrow> walk (w_cur w) 8 | I_alloc \<Rightarrow> (if l_call T then 5 else 6) \<le> n | I_key \<Rightarrow> 4 \<le> n | I_next \<Rightarrow> 3 \<le> n | I_link \<Rightarrow> 2 \<le> n
       | W_crash \<Rightarrow> True | _ \<Rightarrow> False)
     | _ \<Rightarrow> False)"

definition at_rest :: "lthr \<Rightarrow> bool" where
  "at_rest T \<longleftrightarrow> l_pc T = T_idle \<or> l_pc T = T_in \<and> w_pc (l_w T) = W_crash"

lemma chain_from: "chain f p vs NULL \<Longrightarrow> p \<noteq> NULL \<Longrightarrow> \<exists>ys. vs = p # ys \<and> chain f (f p) ys NULL"
  by (cases vs) auto

lemma walk_next:
  assumes "\<exists>vs. chain f p vs NULL \<and> length vs + k \<le> Suc n"
  shows "p \<noteq> NULL \<Longrightarrow> \<exists>vs. chain f (f p) vs NULL \<and> length vs + k \<le> n" "p \<noteq> NULL \<Longrightarrow> k \<le> n" "k \<le> Suc n"
  using assms chain_from [of f p] by fastforce+

lemma within_in:
  assumes w: "within s T (Suc n)" and pc: "l_pc T = T_in" "w_pc (l_w T) \<noteq> W_crash" "w_pc (l_w T) \<in> op_pcs (l_op T)"
    and st: "lt_thread al lock unlock t s T = (s', T')"
  shows "within s' T' n"
proof (cases "w_pc (l_w T) \<in> {D_bump, I_alloc} \<and> \<not> l_call T")
  case True
  then have "s' = s" "T' = T\<lparr>l_call := True\<rparr>" using st pc(1) by (simp_all add: lt_thread_def Let_def)
  then show ?thesis using w pc(1) True by (auto simp: within_def Let_def)
next
  case entered: False
  obtain w' where w': "section_step al t (l_op T) s (l_w T) = (s', w')"
    and T': "T' = T\<lparr>l_w := w', l_pc := (if w_pc w' = W_idle then T_unlock else T_in), l_call := False\<rparr>"
    using st pc(1) entered by (auto simp: lt_thread_def Let_def simp del: de_Morgan_conj split: prod.splits)
  note defs = within_def Let_def section_step_def writer_step_def store_def finish_def lk_search_iter_def T'
  show ?thesis
  proof (cases "w_pc (l_w T)")
    case D_loop
    then have "\<exists>vs. chain (nxts s) (w_cur (l_w T)) vs NULL \<and> length vs + 5 \<le> Suc n"
      using w pc by (simp add: within_def Let_def)
    from walk_next [OF this] show ?thesis using w' D_loop by (auto simp: defs split: if_splits)
  next
    case I_loop
    then have "\<exists>vs. chain (nxts s) (w_cur (l_w T)) vs NULL \<and> length vs + 8 \<le> Suc n"
      using w pc by (simp add: within_def Let_def)
    from walk_next [OF this] show ?thesis using w' I_loop pc(3) by (auto simp: defs split: if_splits)
  qed (use w w' pc entered in \<open>auto simp: defs split: if_splits option.splits\<close>)
qed

lemma within_step:
  assumes w: "within s T (Suc n)" and r: "\<not> at_rest T" and ok: "thr_ok s T L" and st: "lt_thread al lock unlock t s T = (s', T')"
  shows "within s' T' n \<or> l_pc T' = T_abort"
proof (cases "l_pc T")
  case T_in
  then show ?thesis using within_in [OF w _ _ _ st] r ok by (auto simp: at_rest_def thr_ok_def sec_pc_def)
next
  case T_first
  then have "\<exists>vs. chain (nxts s) (heads s (w_bucket (l_w T))) vs NULL \<and> length vs + 9 \<le> Suc n"
    using w by (simp add: within_def Let_def)
  then show ?thesis using st T_first by (force simp: lt_thread_def within_def Let_def)
qed (use w r st in \<open>auto simp: at_rest_def within_def lt_thread_def Let_def split: option.splits\<close>)

lemma within_runs:
  assumes "lt_ok (x_word m) N c" and "t < N" "N \<le> 2 ^ 64 - 2" and "within (t_sh c) (t_thr c t) n"
  shows "\<exists>i\<le>n. at_rest (t_thr (lt_exec al (x_lock m) (x_unlock m) (replicate i (Run t)) c) t)"
  using assms
proof (induction n arbitrary: c)
  case 0
  then have "at_rest (t_thr c t)" by (auto simp: within_def at_rest_def Let_def split: lt_pc.splits wpc.splits if_splits)
  then show ?case by (intro exI [of _ 0]) simp
next
  case (Suc n)
  show ?case
  proof (cases "at_rest (t_thr c t)")
    case True
    then show ?thesis by (intro exI [of _ 0]) simp
  next
    case False
    let ?c = "lt_step al (x_lock m) (x_unlock m) (Run t) c"
    obtain s' T where st: "lt_thread al (x_lock m) (x_unlock m) t (t_sh c) (t_thr c t) = (s', T)" by force
    have ok: "lt_ok (x_word m) N ?c" by (rule x.step_sim(1)) (use Suc.prems in \<open>simp_all add: actor_of_def\<close>)
    then obtain L where "lt_mem (t_sh ?c) (t_thr ?c) L" by (auto simp: lt_ok_def)
    then have "thr_ok (t_sh ?c) (t_thr ?c t) L" by (rule lt_memD(6))
    then have "l_pc T \<noteq> T_abort" using st by (simp add: thr_ok_def)
    moreover obtain M where "thr_ok (t_sh c) (t_thr c t) M" using Suc.prems(1) lt_memD(6) unfolding lt_ok_def by blast
    ultimately have "within s' T n" using within_step [OF Suc.prems(4) False _ st] by blast
    then have "within (t_sh ?c) (t_thr ?c t) n" using st by simp
    from Suc.IH [OF ok Suc.prems(2,3) this]
    obtain i where "i \<le> n" "at_rest (t_thr (lt_exec al (x_lock m) (x_unlock m) (replicate i (Run t)) ?c) t)" by blast
    then show ?thesis by (intro exI [of _ "Suc i"]) simp
  qed
qed

lemma within_section:
  assumes ok: "lt_mem s f L" and ins: "in_section (f t) b"
  shows "within s (f t) (card (bucket_keys s b) + 9)"
proof -
  let ?w = "l_w (f t)"
  have B: "buckets s L" and T: "thr_ok s (f t) L" by (rule lt_memD(1) [OF ok], rule lt_memD(6) [OF ok])
  have b: "w_bucket ?w = b" using ins by (simp add: in_section_def)
  have "distinct (map (keyof s) (L b))" using buckets_sorted [OF B, of b] strict_sorted_iff by blast
  then have "card (keyof s ` set (L b)) = length (L b)" using distinct_card by fastforce
  then have len: "card (bucket_keys s b) = length (L b)" using bucket_keys_eq [OF B, of b] by (simp add: keys_of_def)
  have c: "chain (nxts s) (heads s b) (L b) NULL" by (rule buckets_chain [OF B])
  have g: "\<exists>vs. chain (nxts s) (w_cur ?w) vs NULL \<and> length vs \<le> length (L b)" if g: "del_gap s ?w L"
  proof -
    obtain us vs where uv: "L b = us @ vs" "w_cur ?w = first_ptr vs" using g b by (auto simp: del_gap_def at_gap_def)
    then obtain r where "chain (nxts s) r vs NULL" using c by (auto simp: chain_append)
    then have "chain (nxts s) (w_cur ?w) vs NULL" using chain_first uv(2) by metis
    then show ?thesis using uv(1) by (intro exI [of _ vs]) simp
  qed
  consider "l_pc (f t) = T_first" | "l_pc (f t) = T_unlock" | "l_pc (f t) = T_in" using ins by (auto simp: in_section_def)
  then show ?thesis
  proof cases
    case 1
    then show ?thesis using c b len by (auto simp: within_def Let_def)
  next
    case 2
    then show ?thesis by (simp add: within_def)
  next
    case 3
    then have i: "wpc_inv s ?w L" "w_pc ?w \<in> op_pcs (l_op (f t))" using T by (auto simp: thr_ok_def sec_pc_def)
    show ?thesis
    proof (cases "w_pc ?w \<in> {D_loop, I_loop}")
      case True
      then have "del_gap s ?w L" using i(1) by (auto simp: wpc_inv_def)
      then obtain vs where "chain (nxts s) (w_cur ?w) vs NULL" "length vs \<le> length (L b)" using g by blast
      then have "\<exists>vs. chain (nxts s) (w_cur ?w) vs NULL \<and> length vs + k \<le> card (bucket_keys s b) + 9" if "k \<le> 9" for k
        using that len by (intro exI [of _ vs]) simp
      from this [of 5] this [of 8] show ?thesis using True 3 by (auto simp: within_def Let_def)
    next
      case False
      then show ?thesis using i(2) 3
        by (cases "w_pc ?w") (auto simp: within_def Let_def op_pcs_def split: lop.splits)
    qed
  qed
qed

text \<open>
  C7 (a section ends): a thread that holds the lock of a bucket, wherever the others
  are stopped, is out of the section after at most as many steps of its own as the
  bucket has keys plus 9, so the lock comes free, unless it is an insertion that got no
  node, which crashes.  In a \<open>SIMPLE_ALLOC\<close> build, or with the default allocator when no calls
  to it overlapped and no other thread is stopped inside one: then a call, two steps here, is
  at most 4 accesses.
\<close>

theorem section_returns:
  assumes "distinct ps" "NULL \<notin> set ps" "\<forall>a\<in>set as. actor_of a < N" "N \<le> 2 ^ 64 - 2"
    and "alloc_apart al (x_lock m) (x_unlock m) as (lt_start ps)"
    and c: "c = lt_exec al (x_lock m) (x_unlock m) as (lt_start ps)"
    and "al = Simple_alloc \<or> (\<forall>u. u \<noteq> t \<longrightarrow> \<not> l_call (t_thr c u))" and ins: "in_section (t_thr c t) b"
  shows "\<exists>i \<le> card (bucket_keys (t_sh c) b) + 9. \<exists>T.
    T = t_thr (lt_exec al (x_lock m) (x_unlock m) (replicate i (Run t)) c) t \<and>
    (l_pc T = T_idle \<or> l_op T = Op_insert \<and> w_pc (l_w T) = W_crash \<and> w_new (l_w T) = NULL)"
proof -
  have ok: "lt_ok (x_word m) N c" unfolding c by (rule reachable_ok [OF assms(1-4)])
  then have "N \<le> t \<Longrightarrow> l_pc (t_thr c t) = T_idle" by (simp add: lt_ok_def)
  then have t: "t < N" using ins by (cases "t < N") (auto simp: in_section_def)
  obtain L where "lt_mem (t_sh c) (t_thr c) L" using ok by (auto simp: lt_ok_def)
  then have "within (t_sh c) (t_thr c t) (card (bucket_keys (t_sh c) b) + 9)" using within_section ins by blast
  from within_runs [OF ok t assms(4) this] obtain i
    where i: "i \<le> card (bucket_keys (t_sh c) b) + 9"
      "at_rest (t_thr (lt_exec al (x_lock m) (x_unlock m) (replicate i (Run t)) c) t)" by blast
  let ?d = "lt_exec al (x_lock m) (x_unlock m) (replicate i (Run t)) c"
  have "\<forall>a\<in>set (replicate i (Run t)). actor_of a < N" using t by (simp add: actor_of_def)
  then have "lt_ok (x_word m) N ?d" using x.exec_sim [OF ok _ assms(4)] by blast
  then obtain L' where "lt_mem (t_sh ?d) (t_thr ?d) L'" by (auto simp: lt_ok_def)
  then have "thr_ok (t_sh ?d) (t_thr ?d t) L'" by (rule lt_memD(6))
  then have "l_pc (t_thr ?d t) = T_idle \<or> l_op (t_thr ?d t) = Op_insert \<and> w_pc (l_w (t_thr ?d t)) = W_crash \<and>
      w_new (l_w (t_thr ?d t)) = NULL"
    using i(2) by (auto simp: at_rest_def thr_ok_def sec_pc_def)
  then show ?thesis using i(1) by blast
qed

lemma section_returns_witness:
  "\<exists>i \<le> card (bucket_keys (t_sh (lt_exec Default_alloc (x_lock Spin) (x_unlock Spin) [Call 0 Op_insert 5 0, Run 0] (lt_start [64]))) 0) + 9.
    \<exists>T. T = t_thr (lt_exec Default_alloc (x_lock Spin) (x_unlock Spin) (replicate i (Run 0))
        (lt_exec Default_alloc (x_lock Spin) (x_unlock Spin) [Call 0 Op_insert 5 0, Run 0] (lt_start [64]))) 0 \<and>
    (l_pc T = T_idle \<or> l_op T = Op_insert \<and> w_pc (l_w T) = W_crash \<and> w_new (l_w T) = NULL)"
proof -
  let ?c = "lt_exec Default_alloc (x_lock Spin) (x_unlock Spin) [Call 0 Op_insert 5 0, Run 0] (lt_start [64])"
  have "alloc_apart Default_alloc (x_lock Spin) (x_unlock Spin) [Call 0 Op_insert 5 0, Run 0] (lt_start [64])"
    by (simp add: alloc_apart_def begins_call_def lt_call_def lt_start_def)
  moreover have "in_section (t_thr ?c 0) 0" "\<forall>u. u \<noteq> 0 \<longrightarrow> \<not> l_call (t_thr ?c u)"
    by (simp_all add: lt_machine_eval Let_def in_section_def)
  ultimately show ?thesis
    by (intro section_returns [where N = 1 and ps = "[64]" and as = "[Call 0 Op_insert 5 0, Run 0]" and m = Spin])
      (simp_all add: actor_of_def)
qed

section \<open>Two updaters in a build for one writer\<close>

text \<open>Threads 0 and 1 insert 5 and 7 into bucket 0, both having read the empty head.\<close>

definition lost_insert :: "lt_actor list" where
  "lost_insert = [Call 0 Op_insert 5 0, Call 1 Op_insert 7 0, Run 0, Run 0, Run 1, Run 1] @
     replicate 7 (Run 0) @ replicate 7 (Run 1)"

text \<open>
  C8 (an insertion is lost): with \<open>ONE_WRITER\<close>, which the Makefile defines, the writer's
  lock is empty in every build but the lock based ones, and \<open>setup_test\<close> takes any number
  of updaters.  With two, both insertions return 1 and the table has one of the keys.
\<close>

theorem one_writer_loses:
  "\<exists>s f. lt_exec Default_alloc (\<lambda>_. none_wlock) (\<lambda>_. none_wunlock) lost_insert (lt_start [64, 128]) = \<lparr>t_sh = s, t_thr = f\<rparr> \<and>
     status (f 0) = A_idle 1 \<and> status (f 1) = A_idle 1 \<and> bucket_keys s 0 = {7}"
proof -
  have keys: "bucket_keys s 0 = {7}" if "heads s 0 = 128" "nxt (node s 128) = NULL" "key (node s 128) = 7" for s :: talloc
    unfolding bucket_keys_def keys_of_def using that by (auto simp: chain_nonnull)
  show ?thesis
    unfolding lost_insert_def
    apply (simp only: numeral_nat replicate.simps append.simps eval_nat_numeral)
    apply (rule lt_eval [where P = "\<lambda>c. \<exists>s f. c = \<lparr>t_sh = s, t_thr = f\<rparr> \<and> _ s f"])
     apply ((rule lt_eval_step, (simp add: lt_machine_eval Let_def; fail))+)
     apply (rule lt_exec.simps(1))
    apply (simp add: status_def keys)
    done
qed

end
