(* ===== verification/Ref_Count.thy ===== *)
theory Ref_Count imports Allocator Locks begin

text \<open>
  Reference counting: \<open>rc.c\<close> and \<open>list_rc.c\<close>.  A node in a bucket holds one
  reference, the link that leads to it; a reader takes references with
  \<open>safe_read\<close> and drops them with \<open>lfrc_refcnt_dec\<close>, which frees the node, and
  drops its reference to the next one, when the last is gone.  The operations
  are modelled as calls that run undisturbed: a loop that waits for another
  thread does not return then, which is the result \<open>None\<close>, as is the failed
  \<open>assert\<close> of \<open>lfrc_refcnt_dec\<close>.
\<close>

section \<open>Counting\<close>

partial_function (option) increment_if_not_zero ::
    "ptr \<Rightarrow> 'w alloc_scheme \<Rightarrow> (int \<times> 'w alloc_scheme) option" where
  "increment_if_not_zero p s = do {
     n \<leftarrow> rd s p;
     let old = rc n;
     if old = 0 then Some (- 1, s)
     else case CAS (rc n) old (old + 1) of (ok, v) \<Rightarrow> do {
       s \<leftarrow> wr p (\<lambda>n. n\<lparr>rc := v\<rparr>) s;
       if ok then Some (0, s) else increment_if_not_zero p s
     }
   }"

definition lfrc_refcnt_inc :: "ptr \<Rightarrow> 'w alloc_scheme \<Rightarrow> 'w alloc_scheme option" where
  "lfrc_refcnt_inc p s =
     (if p = NULL then Some s else wr p (\<lambda>n. n\<lparr>rc := snd (atomic_xadd4 (rc n) 1)\<rparr>) s)"

definition rc_new_node :: "'w alloc_scheme \<Rightarrow> (ptr \<times> 'w alloc_scheme) option" where
  "rc_new_node s = new_node s"

definition rc_free_node :: "ptr \<Rightarrow> 'w alloc_scheme \<Rightarrow> 'w alloc_scheme option" where
  "rc_free_node n s = free_node n s"

partial_function (option) lfrc_refcnt_dec :: "ptr \<Rightarrow> 'w alloc_scheme \<Rightarrow> 'w alloc_scheme option" where
  "lfrc_refcnt_dec p s =
     (let p = clean_pointer p in
      if p = NULL then Some s
      else do {
        n \<leftarrow> rd s p;
        if \<not> 0 < rc n then None
        else case atomic_xadd4 (rc n) (- 1) of (old, v) \<Rightarrow> do {
          s \<leftarrow> wr p (\<lambda>n. n\<lparr>rc := v\<rparr>) s;
          if old = 1 then do {
            s \<leftarrow> wr p (\<lambda>n. n\<lparr>gc := gc n + 1\<rparr>) s;
            n \<leftarrow> rd s p;
            s \<leftarrow> lfrc_refcnt_dec (nxt n) s;
            rc_free_node p s
          } else Some s
        }
      })"

definition lfrc_list_dec :: "ptr \<Rightarrow> 'w alloc_scheme \<Rightarrow> 'w alloc_scheme option" where
  "lfrc_list_dec nd s = lfrc_refcnt_dec nd s"

definition lfrc_list2_dec :: "ptr \<Rightarrow> 'w alloc_scheme \<Rightarrow> 'w alloc_scheme option" where
  "lfrc_list2_dec nd s = lfrc_refcnt_dec nd s"

definition lfrc_list2_inc :: "ptr \<Rightarrow> 'w alloc_scheme \<Rightarrow> 'w alloc_scheme option" where
  "lfrc_list2_inc nd s = lfrc_refcnt_inc nd s"

definition lfrc_list_inc :: "ptr \<Rightarrow> 'w alloc_scheme \<Rightarrow> 'w alloc_scheme option" where
  "lfrc_list_inc nd s = lfrc_refcnt_inc nd s"

partial_function (option) safe_read ::
    "loc \<Rightarrow> 'w alloc_scheme \<Rightarrow> (ptr \<times> 'w alloc_scheme) option" where
  "safe_read p s = do {
     q \<leftarrow> get_loc s p;
     let safe = clean_pointer q;
     if safe = NULL then Some (q, s)
     else do {
       (failed, s) \<leftarrow> increment_if_not_zero safe s;
       if failed \<noteq> 0 then safe_read p s
       else do {
         q' \<leftarrow> get_loc s p;
         if q = q' then Some (q, s)
         else do { s \<leftarrow> lfrc_refcnt_dec safe s; safe_read p s }
       }
     }
   }"

section \<open>The list\<close>

partial_function (option) rc_search_loop ::
    "int \<Rightarrow> ptr \<Rightarrow> 'w alloc_scheme \<Rightarrow> (int \<times> 'w alloc_scheme) option" where
  "rc_search_loop k c s =
     (if c = NULL then do { s \<leftarrow> lfrc_refcnt_dec c s; Some (0, s) }
      else do {
        n \<leftarrow> rd s c;
        if k \<le> key n then do {
          s \<leftarrow> lfrc_refcnt_dec c s;
          Some (if key n = k then 1 else 0, s)
        } else do {
          (next, s) \<leftarrow> safe_read (Next c) s;
          s \<leftarrow> lfrc_refcnt_dec c s;
          rc_search_loop k next s
        }
      })"

definition rc_search :: "int \<Rightarrow> nat \<Rightarrow> 'w alloc_scheme \<Rightarrow> (int \<times> 'w alloc_scheme) option" where
  "rc_search k b s = do {
     (c, s) \<leftarrow> safe_read (Head b) s;
     rc_search_loop k c s
   }"

definition rc_free_node_later :: "ptr \<Rightarrow> 'w alloc_scheme \<Rightarrow> 'w alloc_scheme option" where
  "rc_free_node_later n s = do {
     m \<leftarrow> rd s n;
     s \<leftarrow> lfrc_refcnt_inc (nxt m) s;
     lfrc_refcnt_dec n s
   }"

definition rc_init_new_node :: "'w alloc_scheme \<Rightarrow> (ptr \<times> 'w alloc_scheme) option" where
  "rc_init_new_node s = do {
     (new, s) \<leftarrow> new_node s;
     s \<leftarrow> wr new (\<lambda>n. n\<lparr>rc := snd (atomic_xadd4 (rc n) 1)\<rparr>) s;
     Some (new, s)
   }"

section \<open>The invariant\<close>

text \<open>
  Node addresses are even (the structure is aligned to a cache line), so the
  mark bit of a pointer to a node is clear.  Between operations a node in use
  has one reference and a free node none.
\<close>

definition aligned :: "ptr set" where
  "aligned = {p. even p}"

definition set_rc :: "ptr \<Rightarrow> u64 \<Rightarrow> 'w mem_scheme \<Rightarrow> 'w mem_scheme" where
  "set_rc p v s = s\<lparr>node := (node s)(p := (node s p)\<lparr>rc := v\<rparr>)\<rparr>"

definition rc_inv :: "'w alloc_scheme \<Rightarrow> ptr set \<Rightarrow> bool" where
  "rc_inv s A \<longleftrightarrow> alloc_within s A aligned \<and> (\<forall>p\<in>A. rc (node s p) = 1) \<and>
     (\<forall>p. p \<notin> A \<longrightarrow> p \<notin> set (pool s) \<longrightarrow> rc (node s p) = 0)"

lemma set_rc_simps [simp]:
  "set_rc p v (set_rc p u s) = set_rc p v s" "set_rc p (rc (node s p)) s = s"
  "heads (set_rc p v s) = heads s" "nxt (node (set_rc p v s) q) = nxt (node s q)"
  "key (node (set_rc p v s) q) = key (node s q)"
  "rc (node (set_rc p v s) q) = (if q = p then v else rc (node s q))"
  by (simp_all add: set_rc_def)

lemma set_rc_commute: "p \<noteq> q \<Longrightarrow> set_rc p u (set_rc q v s) = set_rc q v (set_rc p u s)"
  by (simp add: set_rc_def fun_upd_twist)

lemma wr_rc: "p \<noteq> NULL \<Longrightarrow> wr p (\<lambda>n. n\<lparr>rc := f (rc n)\<rparr>) s = Some (set_rc p (f (rc (node s p))) s)"
  by (simp add: mem_simps set_rc_def)

lemma inc_eq: "p \<noteq> NULL \<Longrightarrow> lfrc_refcnt_inc p s = Some (set_rc p (rc (node s p) + 1) s)"
  by (simp add: lfrc_refcnt_inc_def mem_simps set_rc_def atomic_xadd4_def)

lemma increment_eq:
  "p \<noteq> NULL \<Longrightarrow> rc (node s p) \<noteq> 0 \<Longrightarrow>
   increment_if_not_zero p s = Some (0, set_rc p (rc (node s p) + 1) s)"
  by (subst increment_if_not_zero.simps) (simp add: mem_simps set_rc_def Let_def)

lemma dec_NULL [simp]: "lfrc_refcnt_dec NULL s = Some s"
  by (subst lfrc_refcnt_dec.simps) (simp add: clean_pointer_def)

lemma dec_shared:
  assumes "even p" "p \<noteq> NULL" "rc (node s p) \<noteq> 0" "rc (node s p) \<noteq> 1"
  shows "lfrc_refcnt_dec p s = Some (set_rc p (rc (node s p) - 1) s)"
  using assms by (subst lfrc_refcnt_dec.simps)
    (simp add: clean_even mem_simps Let_def atomic_xadd4_def word_gt_0 set_rc_def)

lemma dec_last:
  assumes "even p" "p \<noteq> NULL" "rc (node s p) = 1"
  shows "lfrc_refcnt_dec p s = do {
      s \<leftarrow> lfrc_refcnt_dec (nxt (node s p))
        (s\<lparr>node := (node s)(p := (node s p)\<lparr>rc := 0, gc := gc (node s p) + 1\<rparr>)\<rparr>);
      free_node p s }"
  using assms by (subst lfrc_refcnt_dec.simps)
    (simp add: clean_even mem_simps Let_def atomic_xadd4_def rc_free_node_def [abs_def])

lemma safe_read_eq:
  assumes "get_loc s l = Some q" "even q" "q \<noteq> NULL" "rc (node s q) \<noteq> 0"
  shows "safe_read l s = Some (q, set_rc q (rc (node s q) + 1) s)"
proof -
  have "get_loc (set_rc q v s) l = Some q" for v
    using assms(1) by (cases l) (auto simp: rd_def split: if_splits)
  then show ?thesis using assms
    by (subst safe_read.simps) (simp add: clean_even increment_eq Let_def)
qed

lemma safe_read_NULL: "get_loc s l = Some NULL \<Longrightarrow> safe_read l s = Some (NULL, s)"
  by (subst safe_read.simps) (simp add: clean_pointer_def)

section \<open>Retiring and allocating nodes\<close>

lemma rc_free_node_later_eff:
  assumes R: "rc_inv s (insert p A)" and p: "p \<notin> A" "p \<noteq> NULL" and nx: "nxt (node s p) \<in> insert NULL A"
  shows "\<exists>s'. rc_free_node_later p s = Some s' \<and> rc_inv s' A \<and> heads s' = heads s \<and> locks s' = locks s \<and>
    (\<forall>q. key (node s' q) = key (node s q) \<and> nxt (node s' q) = nxt (node s q) \<and>
         rc (node s' q) = (if q = p then 0 else rc (node s q)) \<and>
         gc (node s' q) = (if q = p then gc (node s p) + 1 else gc (node s q)))"
proof -
  let ?q = "nxt (node s p)"
  let ?s = "s\<lparr>node := (node s)(p := (node s p)\<lparr>rc := 0, gc := gc (node s p) + 1\<rparr>)\<rparr>"
  have W: "alloc_within s (insert p A) aligned" and rc: "rc (node s p) = 1" "\<forall>p\<in>A. rc (node s p) = 1"
    and zero: "\<forall>x. x \<notin> insert p A \<longrightarrow> x \<notin> set (pool s) \<longrightarrow> rc (node s x) = 0"
    using R by (auto simp: rc_inv_def)
  have al: "even p" "\<forall>x\<in>A. even x" using alloc_within_sub [OF W] by (auto simp: aligned_def)
  have step: "rc_free_node_later p s = free_node p ?s"
  proof (cases "?q = NULL")
    case True
    then show ?thesis using p(2) al(1) rc(1)
      by (simp add: rc_free_node_later_def mem_simps lfrc_refcnt_inc_def dec_last)
  next
    case False
    then have q: "?q \<in> A" "?q \<noteq> p" "even ?q" "rc (node s ?q) = 1" using nx p al rc by auto
    let ?s1 = "set_rc ?q 2 s"
    let ?s2 = "?s1\<lparr>node := (node ?s1)(p := (node ?s1 p)\<lparr>rc := 0, gc := gc (node ?s1 p) + 1\<rparr>)\<rparr>"
    have "rc (node ?s2 ?q) = 2" using q(2) by simp
    then have "lfrc_refcnt_dec ?q ?s2 = Some (set_rc ?q 1 ?s2)"
      using dec_shared [of ?q ?s2] q(3) False by simp
    moreover have "set_rc ?q 1 ?s2 = ?s"
      using q(2,4) by (simp add: set_rc_def fun_upd_twist) (simp add: fun_upd_idem_iff flip: q(4))
    moreover have "lfrc_refcnt_dec p ?s1 = do { s \<leftarrow> lfrc_refcnt_dec ?q ?s2; free_node p s }"
      using dec_last [of p ?s1] al(1) p(2) rc(1) q(2) by simp
    ultimately show ?thesis using p(2) False q(4)
      by (simp add: rc_free_node_later_def mem_simps inc_eq)
  qed
  have "alloc_within ?s (insert p A) aligned" using W by (rule alloc_within_cong) simp_all
  then obtain s' where s': "free_node p ?s = Some s'" "alloc_within s' A aligned" "mr_only ?s s'"
    "pool s' = pool ?s"
    using free_node_within [OF _ p(1)] by blast
  note m = mr_only_node [OF s'(3)]
  have "\<forall>x. x \<notin> A \<longrightarrow> x \<notin> set (pool s') \<longrightarrow> rc (node s' x) = 0" using zero s'(4) by (simp add: m)
  moreover have "\<forall>x\<in>A. rc (node s' x) = 1" using rc(2) p(1) by (auto simp: m)
  ultimately have "rc_inv s' A" using s'(2) by (simp add: rc_inv_def)
  moreover have "heads s' = heads s" "locks s' = locks s" using s'(3) by (simp_all add: mr_only_def)
  ultimately show ?thesis using step s'(1) by (simp add: m)
qed

lemma rc_init_new_node_eff:
  assumes R: "rc_inv s A" and n: "rc_init_new_node s = Some (n, s')"
  shows "n \<noteq> NULL" "n \<notin> A" "keeps A s s'" "rc_inv s' (insert n A)"
proof -
  have W: "alloc_within s A aligned" and rc: "\<forall>p\<in>A. rc (node s p) = 1"
    and zero: "\<forall>x. x \<notin> A \<longrightarrow> x \<notin> set (pool s) \<longrightarrow> rc (node s x) = 0"
    using R by (auto simp: rc_inv_def)
  obtain s1 where s1: "new_node s = Some (n, s1)" "s' = set_rc n (rc (node s1 n) + 1) s1" and nn: "n \<noteq> NULL"
    using n by (cases "n = NULL")
      (auto simp: rc_init_new_node_def bind_eq_Some_iff mem_simps set_rc_def atomic_xadd4_def wr_def
        split: if_splits)
  obtain k: "keeps A s s1" "set (pool s) \<subseteq> insert n (set (pool s1))" "n \<notin> A"
    "alloc_within s1 (insert n A) aligned"
    and nd: "if n \<in> set (pool s) then node s1 = (node s)(n := zero_node) else node s1 = node s"
    using new_node_within [OF W] s1(1) nn by auto
  have z: "rc (node s1 n) = 0" using nd zero k(3) by (auto simp: zero_node_def split: if_splits)
  have e: "rc (node s1 x) = rc (node s x)" if "x \<noteq> n" for x using nd that by (auto split: if_splits)
  show "n \<noteq> NULL" "n \<notin> A" by fact+
  show "keeps A s s'" using k(1,3) s1(2) by (auto simp: keeps_def set_rc_def)
  have p: "pool s' = pool s1" by (simp add: s1(2) set_rc_def)
  have "alloc_within s' (insert n A) aligned"
    using k(4) by (rule alloc_within_cong) (simp_all add: s1(2) set_rc_def)
  moreover have "rc (node s' x) = (if x = n then 1 else rc (node s x))" for x
    using z e by (simp add: s1(2))
  ultimately show "rc_inv s' (insert n A)" using rc zero k(2,3) p by (auto simp: rc_inv_def)
qed

interpretation rc: list_writer rc_init_new_node rc_free_node_later rc_inv
  none_wlock none_wunlock "\<lambda>_. True"
proof unfold_locales
  fix s :: "'w alloc_scheme" and A n s'
  assume "rc_inv s A" "rc_init_new_node s = Some (n, s')"
  then show "keeps A s s' \<and> (n \<noteq> NULL \<longrightarrow> n \<notin> A \<and> rc_inv s' (insert n A))"
    using rc_init_new_node_eff by blast
next
  fix s :: "'w alloc_scheme" and A p
  assume "rc_inv s (insert p A)" "p \<notin> A" "p \<noteq> NULL" "nxt (node s p) \<in> insert NULL A"
  then show "\<exists>s'. rc_free_node_later p s = Some s' \<and> keeps A s s' \<and> rc_inv s' A"
    using rc_free_node_later_eff [of s p A] by (auto simp: keeps_def)
qed (auto simp: rc_inv_def intro: alloc_within_cong)

section \<open>The search\<close>

text \<open>While a search stands at a node, that node has two references.\<close>

lemma rc_search_loop_eq:
  assumes "chain (nxts s) y (y # ys) NULL" and "sorted_wrt (<) (map (keyof s) (y # ys))"
    and "\<forall>x\<in>set (y # ys). even x \<and> rc (node s x) = 1"
  shows "rc_search_loop k y (set_rc y 2 s) = Some (if k \<in> keys_of s (y # ys) then 1 else 0, s)"
  using assms
proof (induction ys arbitrary: y)
  case Nil
  then have y: "y \<noteq> NULL" "nxt (node s y) = NULL" "even y" "rc (node s y) = 1" by auto
  have d: "lfrc_refcnt_dec y (set_rc y 2 s) = Some s"
    using dec_shared [of y "set_rc y 2 s"] y set_rc_simps(2) [of y s] by simp
  have e: "rc_search_loop k NULL s = Some (0, s)" by (subst rc_search_loop.simps) simp
  show ?case using y d e
    by (subst rc_search_loop.simps) (auto simp: mem_simps safe_read_NULL)
next
  case (Cons z zs)
  then have y: "y \<noteq> NULL" "nxt (node s y) = z" "even y" "rc (node s y) = 1"
    and z: "z \<noteq> NULL" "even z" "rc (node s z) = 1" "chain (nxts s) z (z # zs) NULL" by auto
  have "distinct (y # z # zs)" by (rule chain_distinct [OF Cons.prems(1)])
  then have yz: "z \<noteq> y" by auto
  have d: "lfrc_refcnt_dec y (set_rc y 2 s) = Some s"
    using dec_shared [of y "set_rc y 2 s"] y set_rc_simps(2) [of y s] by simp
  show ?case
  proof (cases "k \<le> keyof s y")
    case True
    then have "k \<notin> keys_of s (z # zs)" using Cons.prems(2) by (auto simp: keys_of_def)
    then show ?thesis using True y d by (subst rc_search_loop.simps) (auto simp: mem_simps)
  next
    case False
    have sr: "safe_read (Next y) (set_rc y 2 s) = Some (z, set_rc z 2 (set_rc y 2 s))"
      using safe_read_eq [of "set_rc y 2 s" "Next y" z] y z yz by (simp add: mem_simps)
    have "lfrc_refcnt_dec y (set_rc z 2 (set_rc y 2 s)) = Some (set_rc y 1 (set_rc z 2 (set_rc y 2 s)))"
      using dec_shared [of y "set_rc z 2 (set_rc y 2 s)"] y yz by simp
    also have "set_rc y 1 (set_rc z 2 (set_rc y 2 s)) = set_rc z 2 s"
      using set_rc_simps(2) [of y s] y(4) yz by (simp add: set_rc_commute [of y z])
    finally have "rc_search_loop k y (set_rc y 2 s) = rc_search_loop k z (set_rc z 2 s)"
      using False y sr by (subst rc_search_loop.simps) (simp add: mem_simps)
    also have "\<dots> = Some (if k \<in> keys_of s (z # zs) then 1 else 0, s)"
      by (rule Cons.IH [OF z(4)]) (use Cons.prems in auto)
    finally show ?thesis using False by auto
  qed
qed

lemma rc_search_eq:
  assumes B: "buckets s L" and R: "rc_inv s (linked L)"
  shows "rc_search k b s = Some (if k \<in> keys_of s (L b) then 1 else 0, s)"
proof -
  have al: "\<forall>x\<in>linked L. even x \<and> rc (node s x) = 1"
    using R alloc_within_sub by (auto simp: rc_inv_def aligned_def)
  note ch = buckets_chain [OF B, of b]
  show ?thesis
  proof (cases "L b")
    case Nil
    then have h: "heads s b = NULL" using ch by simp
    have "rc_search_loop k NULL s = Some (0, s)" by (subst rc_search_loop.simps) simp
    then show ?thesis using h Nil by (simp add: rc_search_def safe_read_NULL)
  next
    case (Cons y ys)
    then have y: "heads s b = y" "y \<noteq> NULL" "chain (nxts s) y (y # ys) NULL" using ch by auto
    have m: "\<forall>x\<in>set (y # ys). even x \<and> rc (node s x) = 1" using al linkedI [of _ L b] Cons by auto
    have "safe_read (Head b) s = Some (y, set_rc y 2 s)" using safe_read_eq [of s "Head b" y] y m by simp
    then show ?thesis
      using rc_search_loop_eq [OF y(3) _ m] buckets_sorted [OF B, of b] Cons
      by (simp add: rc_search_def)
  qed
qed

end
