(* ===== verification/Ref_Count_Properties.thy ===== *)
theory Ref_Count_Properties imports Ref_Count begin

text \<open>The properties of the reference-counted list.\<close>

section \<open>Searching\<close>

text \<open>
  (\<open>search\<close>): it answers with the membership of the key and gives back every
  reference it took; the memory ends exactly as it was.
\<close>

theorem rc_search_restores:
  assumes "buckets s L" and "rc_inv s (linked L)"
  shows "rc_search k b s = Some (if k \<in> bucket_keys s b then 1 else 0, s)"
  using rc_search_eq [OF assms] by (simp add: bucket_keys_eq [OF assms(1)])

lemma increment_zero: "p \<noteq> NULL \<Longrightarrow> rc (node s p) = 0 \<Longrightarrow> increment_if_not_zero p s = Some (- 1, s)"
  by (subst increment_if_not_zero.simps) (simp add: mem_simps Let_def)

text \<open>
  (no resurrection): as long as a link leads to a node without references,
  \<open>safe_read\<close> does not return; it never hands out such a node.
\<close>

theorem safe_read_never_revives:
  assumes "get_loc s l = Some q" and "clean_pointer q \<noteq> NULL" and "rc (node s (clean_pointer q)) = 0"
  shows "safe_read l s = None"
proof (rule ccontr)
  assume "safe_read l s \<noteq> None"
  then obtain y where "safe_read l s = Some y" by blast
  then show False using assms
  proof (induction l s y rule: safe_read.raw_induct [rotated, consumes 1, case_names 1])
    case (1 f l s y)
    then show ?case by (simp add: increment_zero Let_def)
  qed
qed

section \<open>Updating\<close>

definition rc_list_ok :: "'w alloc_scheme \<Rightarrow> (nat \<Rightarrow> ptr list) \<Rightarrow> bool" where
  "rc_list_ok s L \<longleftrightarrow> buckets s L \<and> rc_inv s (linked L)"

lemma rc_list_ok_writer: "rc_list_ok s L \<longleftrightarrow> writer_ok rc_inv (\<lambda>_. True) s L"
  by (simp add: rc_list_ok_def writer_ok_def)

text \<open>
  (\<open>delete\<close> with reference counting): it returns whether the key was in the
  bucket, takes it out, and leaves every reference count of the list at one and
  of the free nodes at zero.
\<close>

theorem rc_delete_set:
  assumes "rc_list_ok s L"
  shows "\<exists>s' L'. delete none_wlock none_wunlock g rc_free_node_later k b s =
      Some (if k \<in> bucket_keys s b then 1 else 0, s') \<and> rc_list_ok s' L' \<and>
    bucket_keys s' = (bucket_keys s)(b := bucket_keys s b - {k})"
  using rc.delete_set [OF assms [unfolded rc_list_ok_writer]] unfolding rc_list_ok_writer .

text \<open>
  (\<open>insert\<close> with reference counting): the same for an insertion; a NULL from
  the allocator crashes in \<open>init_new_node\<close> already.
\<close>

theorem rc_insert_set:
  assumes "rc_list_ok s L" and "k \<notin> bucket_keys s b"
  shows "(\<exists>s' L'. insert_w none_wlock none_wunlock rc_init_new_node k b s = Some (1, s') \<and>
      rc_list_ok s' L' \<and> bucket_keys s' = (bucket_keys s)(b := insert k (bucket_keys s b))) \<or>
    (insert_w none_wlock none_wunlock rc_init_new_node k b s = None \<and>
      (\<exists>l. rc_init_new_node (s\<lparr>locks := l\<rparr>) = None))"
proof -
  obtain l where r: "if \<exists>n s2. rc_init_new_node (s\<lparr>locks := l\<rparr>) = Some (n, s2) \<and> n \<noteq> NULL
    then \<exists>s' L'. insert_w none_wlock none_wunlock rc_init_new_node k b s = Some (1, s') \<and>
       writer_ok rc_inv (\<lambda>_. True) s' L' \<and>
       bucket_keys s' = (bucket_keys s)(b := insert k (bucket_keys s b))
    else insert_w none_wlock none_wunlock rc_init_new_node k b s = None"
    using rc.insert_absent_set [OF assms(1) [unfolded rc_list_ok_writer] assms(2)] by blast
  have R: "rc_inv (s\<lparr>locks := l\<rparr>) (linked L)"
    using assms(1) rc.rinv_locks by (auto simp: rc_list_ok_def)
  show ?thesis
  proof (cases "rc_init_new_node (s\<lparr>locks := l\<rparr>)")
    case None
    then show ?thesis using r by auto
  next
    case (Some x)
    then obtain n s2 where "rc_init_new_node (s\<lparr>locks := l\<rparr>) = Some (n, s2)" by (cases x) auto
    moreover from this have "n \<noteq> NULL" by (rule rc_init_new_node_eff(1) [OF R])
    ultimately show ?thesis using r unfolding rc_list_ok_writer by auto
  qed
qed

section \<open>A node a reader still holds\<close>

text \<open>
  (a held node is not freed): if a reader holds a reference when the node is
  retired, the allocator is not called, the node keeps its key and its link, and
  the next node gets a second reference; when the reader drops its own, the node
  is freed with its generation bumped and all counts are as after an undisturbed
  retirement.
\<close>

theorem held_node_survives:
  assumes R: "rc_inv s (insert p A)" and p: "p \<notin> A" "p \<noteq> NULL" and q: "nxt (node s p) = q" "q \<in> A"
  shows "\<exists>s1 s2. rc_free_node_later p (set_rc p 2 s) = Some s1 \<and> s1 = set_rc q 2 s \<and>
    lfrc_refcnt_dec p s1 = Some s2 \<and> rc_inv s2 A \<and> gc (node s2 p) = gc (node s p) + 1"
proof -
  have W: "alloc_within s (insert p A) aligned" and rc: "rc (node s p) = 1" "rc (node s q) = 1"
    using R q(2) by (auto simp: rc_inv_def)
  have al: "even p" "even q" and qn: "q \<noteq> NULL" "q \<noteq> p"
    using alloc_within_sub [OF W] q p alloc_ok_Set [OF alloc_within_ok [OF W]] by (auto simp: aligned_def)
  have "rc_free_node_later p (set_rc p 2 s) = lfrc_refcnt_dec p (set_rc q 2 (set_rc p 2 s))"
    using p(2) q(1) qn rc by (simp add: rc_free_node_later_def mem_simps inc_eq)
  also have "\<dots> = Some (set_rc p 1 (set_rc q 2 (set_rc p 2 s)))"
    using dec_shared [of p "set_rc q 2 (set_rc p 2 s)"] al p(2) qn by simp
  also have "set_rc p 1 (set_rc q 2 (set_rc p 2 s)) = set_rc q 2 s"
    using set_rc_simps(2) [of p s] rc(1) qn(2) by (simp add: set_rc_commute [of p q])
  finally have 1: "rc_free_node_later p (set_rc p 2 s) = Some (set_rc q 2 s)" .
  obtain s2 where s2: "rc_free_node_later p s = Some s2" "rc_inv s2 A"
    "gc (node s2 p) = gc (node s p) + 1"
    using rc_free_node_later_eff [OF R p] q by auto
  have "rc_free_node_later p s = lfrc_refcnt_dec p (set_rc q 2 s)"
    using p(2) q(1) qn(1) rc(2) by (simp add: rc_free_node_later_def mem_simps inc_eq)
  then have "lfrc_refcnt_dec p (set_rc q 2 s) = Some s2" using s2(1) by simp
  then show ?thesis using 1 s2(2,3) by blast
qed

section \<open>Witnesses\<close>

definition rc_mem :: "ptr list \<Rightarrow> alloc" where
  "rc_mem ps = init_allocator \<lparr>node = (\<lambda>_. zero_node), heads = (\<lambda>_. NULL), locks = (\<lambda>_. 0),
     pool = ps, freelist = NULL, frct = 0, lfl = NULL, lfl_tail = NULL, lcnt = 0,
     nbmallocs = 0, nbfl = 0\<rparr>"

lemma rc_mem_ok: "rc_list_ok (rc_mem [64, 128]) (\<lambda>_. [])"
proof -
  have "alloc_inv (rc_mem [64, 128]) {} [] []"
    by (simp add: rc_mem_def init_allocator_def prealloc_def alloc_inv_def)
  moreover have "set (pool (rc_mem [64, 128])) \<subseteq> aligned"
    by (simp add: rc_mem_def init_allocator_def prealloc_def aligned_def)
  ultimately have "alloc_within (rc_mem [64, 128]) {} aligned"
    unfolding alloc_within_def by (intro exI [of _ "[]"]) simp
  then show ?thesis
    by (simp add: rc_list_ok_def rc_inv_def buckets_def linked_def rc_mem_def init_allocator_def
        prealloc_def zero_node_def)
qed

text \<open>Two nodes in use, one before the other.\<close>

definition rc_demo :: alloc where
  "rc_demo = (rc_mem [])\<lparr>node := (\<lambda>_. zero_node)(64 := zero_node\<lparr>key := 3, nxt := 128, rc := 1\<rparr>,
     128 := zero_node\<lparr>key := 5, rc := 1\<rparr>), heads := (\<lambda>_. NULL)(0 := 64)\<rparr>"

lemma rc_demo_ok: "rc_list_ok rc_demo ((\<lambda>_. [])(0 := [64, 128]))"
proof -
  have l: "linked ((\<lambda>_. [])(0 := [64, 128])) = {64, 128}" by (auto simp: linked_def split: if_splits)
  have "alloc_inv rc_demo {64, 128} [] []"
    by (simp add: rc_demo_def rc_mem_def init_allocator_def prealloc_def alloc_inv_def)
  moreover have "{64, 128} \<subseteq> aligned" "pool rc_demo = []"
    by (simp_all add: aligned_def rc_demo_def rc_mem_def init_allocator_def prealloc_def)
  ultimately have "alloc_within rc_demo {64, 128} aligned"
    unfolding alloc_within_def by (intro exI [of _ "[]"]) auto
  then show ?thesis unfolding rc_list_ok_def rc_inv_def l
    by (auto simp: buckets_def rc_demo_def zero_node_def)
qed

lemma rc_search_restores_witness:
  "rc_search 5 0 rc_demo = Some (if 5 \<in> bucket_keys rc_demo 0 then 1 else 0, rc_demo)"
  using rc_search_restores [of rc_demo] rc_demo_ok unfolding rc_list_ok_def by blast

lemma safe_read_never_revives_witness: "safe_read (Head 0) (set_rc 64 0 rc_demo) = None"
proof -
  have c: "clean_pointer 64 = 64" by (rule clean_even) simp
  show ?thesis by (rule safe_read_never_revives [of _ _ 64]) (simp_all add: c rc_demo_def)
qed

lemma rc_delete_set_witness:
  "\<exists>s' L'. delete none_wlock none_wunlock False rc_free_node_later 5 0 rc_demo =
      Some (if 5 \<in> bucket_keys rc_demo 0 then 1 else 0, s') \<and> rc_list_ok s' L'"
  using rc_delete_set [OF rc_demo_ok, of False 5 0] by blast

lemma rc_insert_set_witness:
  "\<exists>s' L'. insert_w none_wlock none_wunlock rc_init_new_node 5 0 (rc_mem [64, 128]) = Some (1, s') \<and>
     rc_list_ok s' L'"
proof -
  have "bucket_keys (rc_mem [64, 128]) 0 = {}"
    using bucket_keys_eq [of "rc_mem [64, 128]" "\<lambda>_. []"] rc_mem_ok by (simp add: rc_list_ok_def)
  moreover have "rc_init_new_node ((rc_mem [64, 128])\<lparr>locks := l\<rparr>) \<noteq> None" for l
    by (simp add: rc_init_new_node_def new_node_def get_free_def steal_eq calloc_node_def rc_mem_def
        init_allocator_def prealloc_def mem_simps)
  ultimately show ?thesis using rc_insert_set [OF rc_mem_ok, of 5 0] by blast
qed

lemma held_node_survives_witness:
  "\<exists>s1 s2. rc_free_node_later 64 (set_rc 64 2 rc_demo) = Some s1 \<and> lfrc_refcnt_dec 64 s1 = Some s2 \<and>
     rc_inv s2 {128}"
proof -
  have "linked ((\<lambda>_. [])(0 := [64, 128])) = insert (64 :: ptr) {128}"
    by (auto simp: linked_def split: if_splits)
  then have "rc_inv rc_demo (insert 64 {128})" using rc_demo_ok by (simp add: rc_list_ok_def)
  from held_node_survives [OF this, of 128] show ?thesis by (auto simp: rc_demo_def)
qed

end
