(* ===== verification/Ref_Count_Machine.thy ===== *)
theory Ref_Count_Machine imports Ref_Count Gecos_Search Allocator_Threads begin

text \<open>
  \<open>list_rc.c\<close> and \<open>rc.c\<close> under interleaving: any number of searches and one updater,
  one access to shared memory at a time.  Every thread may be the one that drops the
  last reference, so every thread frees nodes, to the free list of its own.  A call
  of the allocator is one step.
\<close>

section \<open>Dropping a reference\<close>

text \<open>
  The program points of \<open>lfrc_refcnt_dec\<close>: \<open>K_assert\<close> is the assertion, \<open>K_gc\<close> and
  \<open>K_next\<close> follow when the count went to 0.  \<open>d_stack\<close> are the nodes of the calls that
  wait for the recursive one, innermost first: \<open>K_free\<close> frees the first.
\<close>

datatype kpc = K_done | K_assert ptr | K_xadd ptr | K_gc ptr | K_next ptr | K_free | K_fail

record drop =
  d_pc :: kpc
  d_stack :: "ptr list"

definition unwind :: "ptr list \<Rightarrow> drop" where
  "unwind st = \<lparr>d_pc = (if st = [] then K_done else K_free), d_stack = st\<rparr>"

definition enter :: "ptr \<Rightarrow> ptr list \<Rightarrow> drop" where
  "enter p st = (let p = clean_pointer p in
     if p = NULL then unwind st else \<lparr>d_pc = K_assert p, d_stack = st\<rparr>)"

definition dec_step :: "nat \<Rightarrow> talloc \<Rightarrow> drop \<Rightarrow> talloc \<times> drop" where
  "dec_step t s d = (case d_pc d of
     K_done \<Rightarrow> (s, d)
   | K_assert p \<Rightarrow> (s, case rd s p of
       None \<Rightarrow> d\<lparr>d_pc := K_fail\<rparr>
     | Some n \<Rightarrow> d\<lparr>d_pc := (if 0 < rc n then K_xadd p else K_fail)\<rparr>)
   | K_xadd p \<Rightarrow> (case rd s p of
       None \<Rightarrow> (s, d\<lparr>d_pc := K_fail\<rparr>)
     | Some n \<Rightarrow> (case atomic_xadd4 (rc n) (- 1) of (old, v) \<Rightarrow>
         (set_rc p v s, if old = 1 then d\<lparr>d_pc := K_gc p\<rparr> else unwind (d_stack d))))
   | K_gc p \<Rightarrow> (case wr p (\<lambda>n. n\<lparr>gc := gc n + 1\<rparr>) s of
       None \<Rightarrow> (s, d\<lparr>d_pc := K_fail\<rparr>)
     | Some s' \<Rightarrow> (s', d\<lparr>d_pc := K_next p\<rparr>))
   | K_next p \<Rightarrow> (s, case rd s p of
       None \<Rightarrow> d\<lparr>d_pc := K_fail\<rparr>
     | Some n \<Rightarrow> enter (nxt n) (p # d_stack d))
   | K_free \<Rightarrow> (case d_stack d of
       [] \<Rightarrow> (s, unwind [])
     | p # st \<Rightarrow> (case thread_free t p s of
         None \<Rightarrow> (s, d\<lparr>d_pc := K_fail\<rparr>)
       | Some s' \<Rightarrow> (s', unwind st)))
   | K_fail \<Rightarrow> (s, d))"

section \<open>The search\<close>

text \<open>
  \<open>X_load\<close> to \<open>X_undo\<close> are \<open>safe_read(x_prev)\<close>, with \<open>increment_if_not_zero\<close> at \<open>X_count\<close>
  and \<open>X_cas\<close>; \<open>X_check\<close> compares the pointer again and \<open>X_undo\<close> gives the reference
  back.  \<open>X_drop\<close> drops the node the search leaves, \<open>X_last\<close> the one it ends at.
\<close>

datatype xpc = X_load | X_count | X_cas | X_check | X_undo | X_key | X_eq | X_drop | X_last int
  | X_fault | X_ret int

record xreader =
  x_key :: int
  x_bucket :: nat
  x_pc :: xpc
  x_prev :: loc
  x_q :: ptr
  x_old :: u64
  x_cur :: ptr
  x_drop :: drop

definition x_init :: "int \<Rightarrow> nat \<Rightarrow> xreader" where
  "x_init k b = \<lparr>x_key = k, x_bucket = b, x_pc = X_load, x_prev = Head b, x_q = NULL, x_old = 0,
     x_cur = NULL, x_drop = unwind []\<rparr>"

definition x_next :: "xreader \<Rightarrow> xreader" where
  "x_next r = r\<lparr>x_cur := x_q r, x_pc := (if x_q r = NULL then X_ret 0 else X_key)\<rparr>"

text \<open>\<open>safe_read\<close> returns \<open>x_q\<close>: it is the head, or the next node and \<open>cur\<close> is dropped.\<close>

definition x_got :: "xreader \<Rightarrow> xreader" where
  "x_got r = (case x_prev r of
     Head b \<Rightarrow> x_next r
   | Next p \<Rightarrow> r\<lparr>x_pc := X_drop, x_drop := enter (x_cur r) []\<rparr>)"

definition x_dec :: "nat \<Rightarrow> (xreader \<Rightarrow> xreader) \<Rightarrow> talloc \<Rightarrow> xreader \<Rightarrow> talloc \<times> xreader" where
  "x_dec t f s r = (case dec_step t s (x_drop r) of (s', d) \<Rightarrow>
     (s', let r = r\<lparr>x_drop := d\<rparr> in
        if d_pc d = K_done then f r else if d_pc d = K_fail then r\<lparr>x_pc := X_fault\<rparr> else r))"

definition x_search_step :: "nat \<Rightarrow> talloc \<Rightarrow> xreader \<Rightarrow> talloc \<times> xreader" where
  "x_search_step t s r = (case x_pc r of
     X_load \<Rightarrow> (s, case get_loc s (x_prev r) of
       None \<Rightarrow> r\<lparr>x_pc := X_fault\<rparr>
     | Some q \<Rightarrow> (let r = r\<lparr>x_q := q\<rparr> in if clean_pointer q = NULL then x_got r else r\<lparr>x_pc := X_count\<rparr>))
   | X_count \<Rightarrow> (s, case rd s (clean_pointer (x_q r)) of
       None \<Rightarrow> r\<lparr>x_pc := X_fault\<rparr>
     | Some n \<Rightarrow> if rc n = 0 then r\<lparr>x_pc := X_load\<rparr> else r\<lparr>x_old := rc n, x_pc := X_cas\<rparr>)
   | X_cas \<Rightarrow> (case rd s (clean_pointer (x_q r)) of
       None \<Rightarrow> (s, r\<lparr>x_pc := X_fault\<rparr>)
     | Some n \<Rightarrow> (case CAS (rc n) (x_old r) (x_old r + 1) of (ok, v) \<Rightarrow>
         (set_rc (clean_pointer (x_q r)) v s, r\<lparr>x_pc := (if ok then X_check else X_count)\<rparr>)))
   | X_check \<Rightarrow> (s, case get_loc s (x_prev r) of
       None \<Rightarrow> r\<lparr>x_pc := X_fault\<rparr>
     | Some q \<Rightarrow> if x_q r = q then x_got r
         else r\<lparr>x_pc := X_undo, x_drop := enter (clean_pointer (x_q r)) []\<rparr>)
   | X_undo \<Rightarrow> x_dec t (\<lambda>r. r\<lparr>x_pc := X_load\<rparr>) s r
   | X_key \<Rightarrow> (s, case rd s (x_cur r) of
       None \<Rightarrow> r\<lparr>x_pc := X_fault\<rparr>
     | Some n \<Rightarrow> if x_key r \<le> key n then r\<lparr>x_pc := X_eq\<rparr> else r\<lparr>x_prev := Next (x_cur r), x_pc := X_load\<rparr>)
   | X_eq \<Rightarrow> (s, case rd s (x_cur r) of
       None \<Rightarrow> r\<lparr>x_pc := X_fault\<rparr>
     | Some n \<Rightarrow> r\<lparr>x_pc := X_last (if key n = x_key r then 1 else 0), x_drop := enter (x_cur r) []\<rparr>)
   | X_drop \<Rightarrow> x_dec t x_next s r
   | X_last v \<Rightarrow> x_dec t (\<lambda>r. r\<lparr>x_pc := X_ret v\<rparr>) s r
   | X_fault \<Rightarrow> (s, r)
   | X_ret v \<Rightarrow> (s, r))"

section \<open>The updater\<close>

text \<open>
  \<open>delete\<close> and \<open>insert\<close> of \<open>list_writer.c\<close> as in \<open>writer_step\<close>, with the
  \<open>init_new_node\<close> and \<open>free_node_later\<close> of \<open>list_rc.c\<close>: \<open>Sub_xadd\<close> counts the new node,
  \<open>Sub_inc\<close> the node behind the deleted one, whose own reference is dropped at \<open>D_free\<close>.
\<close>

datatype wsub = Sub_none | Sub_xadd | Sub_inc ptr

record xwriter =
  xw :: writer
  xw_sub :: wsub
  xw_drop :: drop

definition xw_release :: "xwriter \<Rightarrow> xwriter" where
  "xw_release W = W\<lparr>xw := (xw W)\<lparr>w_pc := D_free\<rparr>, xw_sub := Sub_none, xw_drop := enter (w_cur (xw W)) []\<rparr>"

definition xw_crash :: "xwriter \<Rightarrow> xwriter" where
  "xw_crash W = W\<lparr>xw := (xw W)\<lparr>w_pc := W_crash\<rparr>, xw_sub := Sub_none\<rparr>"

definition xw_step :: "talloc \<Rightarrow> xwriter \<Rightarrow> talloc \<times> xwriter" where
  "xw_step s W = (let w = xw W in case xw_sub W of
     Sub_xadd \<Rightarrow> (case rd s (w_new w) of
       None \<Rightarrow> (s, xw_crash W)
     | Some n \<Rightarrow> (set_rc (w_new w) (snd (atomic_xadd4 (rc n) 1)) s,
         W\<lparr>xw := w\<lparr>w_pc := I_key\<rparr>, xw_sub := Sub_none\<rparr>))
   | Sub_inc p \<Rightarrow> (case rd s p of
       None \<Rightarrow> (s, xw_crash W)
     | Some n \<Rightarrow> (set_rc p (snd (atomic_xadd4 (rc n) 1)) s, xw_release W))
   | Sub_none \<Rightarrow>
       (if w_pc w = I_alloc then (case thread_new 0 s of
          None \<Rightarrow> (s, xw_crash W)
        | Some (n, s') \<Rightarrow> (s', W\<lparr>xw := w\<lparr>w_new := n\<rparr>, xw_sub := Sub_xadd\<rparr>))
        else if w_pc w = D_bump then (s, case rd s (w_cur w) of
          None \<Rightarrow> xw_crash W
        | Some n \<Rightarrow> if nxt n = NULL then xw_release W else W\<lparr>xw_sub := Sub_inc (nxt n)\<rparr>)
        else if w_pc w = D_free then (case dec_step 0 s (xw_drop W) of (s', d) \<Rightarrow>
          (s', let W = W\<lparr>xw_drop := d\<rparr> in
             if d_pc d = K_done then W\<lparr>xw := finish 1 w\<rparr> else if d_pc d = K_fail then xw_crash W else W))
        else (case writer_step s w of (s', w') \<Rightarrow> (s', W\<lparr>xw := w'\<rparr>))))"

section \<open>The system\<close>

text \<open>Thread 0 is the updater, thread \<open>Suc i\<close> the reader \<open>i\<close>.\<close>

record x_sys =
  x_sh :: talloc
  x_upd :: xwriter
  x_rds :: "nat \<Rightarrow> xreader"

fun x_step :: "actor \<Rightarrow> x_sys \<Rightarrow> x_sys" where
  "x_step (Start_delete k b) c = c\<lparr>x_upd := (x_upd c)\<lparr>xw := start_delete k b (xw (x_upd c))\<rparr>\<rparr>"
| "x_step (Start_insert k b) c = c\<lparr>x_upd := (x_upd c)\<lparr>xw := start_insert (x_sh c) k b (xw (x_upd c))\<rparr>\<rparr>"
| "x_step Updater c = (case xw_step (x_sh c) (x_upd c) of (s, W) \<Rightarrow> c\<lparr>x_sh := s, x_upd := W\<rparr>)"
| "x_step (Reader i) c = (case x_search_step (Suc i) (x_sh c) (x_rds c i) of
     (s, r) \<Rightarrow> c\<lparr>x_sh := s, x_rds := (x_rds c)(i := r)\<rparr>)"
| "x_step (Start_search i k b) c = (case x_pc (x_rds c i) of
     X_ret v \<Rightarrow> c\<lparr>x_rds := (x_rds c)(i := x_init k b)\<rparr>
   | _ \<Rightarrow> c)"

primrec x_exec :: "actor list \<Rightarrow> x_sys \<Rightarrow> x_sys" where
  "x_exec [] c = c"
| "x_exec (a # as) c = x_exec as (x_step a c)"

primrec x_visited :: "actor list \<Rightarrow> x_sys \<Rightarrow> x_sys list" where
  "x_visited [] c = [c]"
| "x_visited (a # as) c = c # x_visited as (x_step a c)"

end
