(* ===== verification/Ref_Count_Counts.thy ===== *)
theory Ref_Count_Counts imports Ref_Count_Machine begin

text \<open>
  The accounting invariant of the reference counting machine: the count of a node is
  the number of references to it, and who holds them.
\<close>

section \<open>References\<close>

text \<open>
  A reference is held by the list (the link that leads to a node of a bucket), by the
  link of an unlinked node, or by a local variable of a thread.
\<close>

datatype slot = S_cur | S_nxt | S_dec

datatype src = By_link ptr | By_dead ptr | By_thread nat slot

definition refs ::
    "ptr set \<Rightarrow> ptr set \<Rightarrow> (ptr \<Rightarrow> ptr) \<Rightarrow> (nat \<Rightarrow> slot \<Rightarrow> ptr option) \<Rightarrow> src \<Rightarrow> ptr option" where
  "refs A Z f own x = (case x of
     By_link p \<Rightarrow> if p \<in> A then Some p else None
   | By_dead z \<Rightarrow> if z \<in> Z \<and> f z \<noteq> NULL then Some (f z) else None
   | By_thread t sl \<Rightarrow> own t sl)"

definition cnt :: "(src \<Rightarrow> ptr option) \<Rightarrow> ptr \<Rightarrow> nat" where
  "cnt R p = card {x. R x = Some p}"

lemma holders_finite: "finite (dom R) \<Longrightarrow> finite {x. R x = Some p}"
  by (rule finite_subset [of _ "dom R"]) auto

lemma cnt_add:
  assumes "finite (dom R)" and "R x = None"
  shows "cnt (R(x \<mapsto> p)) q = (if q = p then Suc (cnt R q) else cnt R q)"
proof -
  have "{y. (R(x \<mapsto> p)) y = Some q} = (if q = p then insert x {y. R y = Some q} else {y. R y = Some q})"
    using assms(2) by auto
  then show ?thesis using assms(2) holders_finite [OF assms(1), of p] by (simp add: cnt_def)
qed

lemma cnt_del:
  assumes "finite (dom R)" and "R x = Some p"
  shows "cnt R q = (if q = p then Suc (cnt (R(x := None)) q) else cnt (R(x := None)) q)"
proof -
  have "(R(x := None))(x \<mapsto> p) = R" using assms(2) by (simp add: fun_upd_idem)
  then show ?thesis using cnt_add [of "R(x := None)" x p q] assms(1) by simp
qed

lemma cnt_move:
  assumes "finite (dom R)" and "R x = Some p" and "R y = None"
  shows "cnt (R(x := None, y \<mapsto> p)) = cnt R"
proof (rule ext)
  fix q
  have "finite (dom (R(x := None)))" using assms(1) by simp
  moreover have "(R(x := None)) y = None" using assms(3) by simp
  ultimately have "cnt (R(x := None, y \<mapsto> p)) q =
      (if q = p then Suc (cnt (R(x := None)) q) else cnt (R(x := None)) q)" by (rule cnt_add)
  then show "cnt (R(x := None, y \<mapsto> p)) q = cnt R q" using cnt_del [OF assms(1,2), of q] by simp
qed

lemma cnt_0: "finite (dom R) \<Longrightarrow> cnt R p = 0 \<longleftrightarrow> p \<notin> ran R"
  using holders_finite [of R p] by (auto simp: cnt_def ran_def)

lemma cnt_dom: "finite (dom R) \<Longrightarrow> cnt R p \<le> card (dom R)"
  unfolding cnt_def by (rule card_mono) auto

lemma cnt_two: "R x = Some p \<Longrightarrow> R y = Some p \<Longrightarrow> x \<noteq> y \<Longrightarrow> cnt R p \<noteq> 1"
proof
  assume "R x = Some p" "R y = Some p" "x \<noteq> y" "cnt R p = 1"
  then obtain z where "{x. R x = Some p} = {z}" unfolding cnt_def by (meson card_1_singletonE)
  then have "x = z" "y = z" using \<open>R x = Some p\<close> \<open>R y = Some p\<close> by blast+
  then show False using \<open>x \<noteq> y\<close> by simp
qed

lemma refs_upd:
  "refs A Z f (own(t := (own t)(sl := v))) = (refs A Z f own)(By_thread t sl := v)"
  "refs (insert p A) Z f own = (refs A Z f own)(By_link p \<mapsto> p)"
  "refs (A - {p}) Z f own = (refs A Z f own)(By_link p := None)"
  "refs A (insert z Z) f own = (refs A Z f own)(By_dead z := if f z = NULL then None else Some (f z))"
  "refs A (Z - {z}) f own = (refs A Z f own)(By_dead z := None)"
  by (auto simp: refs_def fun_eq_iff split: src.split)

text \<open>The counts of the nodes agree with the references; \<open>n\<close> bounds their number.\<close>

definition counted :: "talloc \<Rightarrow> (src \<Rightarrow> ptr option) \<Rightarrow> nat \<Rightarrow> bool" where
  "counted s R n \<longleftrightarrow> finite (dom R) \<and> card (dom R) \<le> n \<and>
     (\<forall>p. p \<notin> set (pool s) \<longrightarrow> rc (node s p) = of_nat (cnt R p))"

lemma counted_add:
  assumes c: "counted s R n" and x: "R x = None"
  shows "counted (set_rc p (rc (node s p) + 1) s) (R(x \<mapsto> p)) (Suc n)"
proof -
  have f: "finite (dom R)" "card (dom R) \<le> n" and r: "\<And>p. p \<notin> set (pool s) \<Longrightarrow> rc (node s p) = of_nat (cnt R p)"
    using c by (auto simp: counted_def)
  have "card (insert x (dom R)) \<le> Suc n" using f by (simp add: card_insert_if)
  then have "card (dom (R(x \<mapsto> p))) \<le> Suc n" by simp
  moreover have "rc (node (set_rc p (rc (node s p) + 1) s) q) = of_nat (cnt (R(x \<mapsto> p)) q)"
    if "q \<notin> set (pool s)" for q
    using r [OF that] cnt_add [OF f(1) x, of p q] by (cases "q = p") (simp_all add: set_rc_def)
  ultimately show ?thesis using f(1) by (simp add: counted_def set_rc_def)
qed

lemma counted_del:
  assumes c: "counted s R n" and x: "R x = Some p"
  shows "counted (set_rc p (rc (node s p) - 1) s) (R(x := None)) n"
proof -
  have f: "finite (dom R)" "card (dom R) \<le> n" and r: "\<And>p. p \<notin> set (pool s) \<Longrightarrow> rc (node s p) = of_nat (cnt R p)"
    using c by (auto simp: counted_def)
  have "card (dom R - {x}) \<le> card (dom R)" by (rule card_Diff1_le)
  then have "card (dom (R(x := None))) \<le> n" using f(2) by simp
  moreover have "rc (node (set_rc p (rc (node s p) - 1) s) q) = of_nat (cnt (R(x := None)) q)"
    if "q \<notin> set (pool s)" for q
    using r [OF that] cnt_del [OF f(1) x, of q] by (cases "q = p") (simp_all add: set_rc_def)
  ultimately show ?thesis using f(1) by (simp add: counted_def set_rc_def)
qed

lemma counted_move:
  assumes c: "counted s R n" and x: "R x = Some p" "R y = None"
  shows "counted s (R(x := None, y \<mapsto> p)) n"
proof -
  have f: "finite (dom R)" using c by (simp add: counted_def)
  have "x \<noteq> y" using x by auto
  then have "dom (R(x := None, y \<mapsto> p)) = insert y (dom R - {x})" using x by auto
  moreover have "x \<in> dom R" "y \<notin> dom R" using x by auto
  then have "card (insert y (dom R - {x})) = card (dom R)"
    using f card_Suc_Diff1 [OF f \<open>x \<in> dom R\<close>] card_insert_disjoint [of "dom R - {x}" y] by simp
  ultimately show ?thesis using c f cnt_move [OF f x] by (simp add: counted_def)
qed

lemma counted_rc:
  assumes c: "counted s R n" and n: "n < 2 ^ 64" and p: "p \<notin> set (pool s)"
  shows "rc (node s p) = 0 \<longleftrightarrow> p \<notin> ran R" "rc (node s p) = 1 \<longleftrightarrow> cnt R p = 1"
proof -
  have f: "finite (dom R)" "rc (node s p) = of_nat (cnt R p)" and "card (dom R) \<le> n"
    using c p by (auto simp: counted_def)
  then have b: "cnt R p < 2 ^ 64" using cnt_dom [OF f(1), of p] n by linarith
  have "(of_nat (cnt R p) :: u64) = of_nat k \<longleftrightarrow> cnt R p = k" if "k < 2 ^ 64" for k
    using of_nat_u64_inj [OF _ b that] by auto
  from this [of 0] this [of 1] show "rc (node s p) = 0 \<longleftrightarrow> p \<notin> ran R" "rc (node s p) = 1 \<longleftrightarrow> cnt R p = 1"
    using f cnt_0 [OF f(1), of p] by simp_all
qed

lemma counted_cong:
  assumes "counted s R n" and "\<And>p. rc (node s' p) = rc (node s p)" and "pool s' = pool s"
  shows "counted s' R n"
  using assms by (simp add: counted_def)

lemma counted_Suc: "counted s R n \<Longrightarrow> counted s R (Suc n)"
  by (simp add: counted_def)

section \<open>The invariant\<close>

definition zeroed :: "drop \<Rightarrow> ptr set" where
  "zeroed d = (case d_pc d of K_gc p \<Rightarrow> {p} | K_next p \<Rightarrow> {p} | _ \<Rightarrow> {})"

definition d_ref :: "drop \<Rightarrow> ptr option" where
  "d_ref d = (case d_pc d of K_assert p \<Rightarrow> Some p | K_xadd p \<Rightarrow> Some p | _ \<Rightarrow> None)"

definition stacked :: "(nat \<Rightarrow> drop) \<Rightarrow> ptr set" where
  "stacked dr = (\<Union>t. set (d_stack (dr t)))"

text \<open>Every thread reclaims nodes of its own.\<close>

definition drops_ok :: "(nat \<Rightarrow> drop) \<Rightarrow> ptr set \<Rightarrow> bool" where
  "drops_ok dr Z \<longleftrightarrow>
     (\<forall>t. distinct (d_stack (dr t)) \<and> zeroed (dr t) \<subseteq> Z \<and> d_pc (dr t) \<noteq> K_fail \<and>
        (d_pc (dr t) = K_free \<longrightarrow> d_stack (dr t) \<noteq> []) \<and> (d_pc (dr t) = K_done \<longrightarrow> d_stack (dr t) = [])) \<and>
     (\<forall>t u. t \<noteq> u \<longrightarrow> set (d_stack (dr t)) \<inter> set (d_stack (dr u)) = {} \<and> zeroed (dr t) \<inter> zeroed (dr u) = {})"

text \<open>
  \<open>A\<close> are the nodes that count the reference of the list, \<open>N\<close> a new node not yet
  counted, \<open>Z\<close> the unlinked nodes that still have theirs to the next node.
\<close>

definition core ::
    "talloc \<Rightarrow> ptr set \<Rightarrow> ptr set \<Rightarrow> ptr set \<Rightarrow> (nat \<Rightarrow> slot \<Rightarrow> ptr option) \<Rightarrow> (nat \<Rightarrow> drop) \<Rightarrow> nat \<Rightarrow> bool" where
  "core s A N Z own dr n \<longleftrightarrow>
     counted s (refs A Z (nxts s) own) n \<and> ran (refs A Z (nxts s) own) \<subseteq> A \<union> Z \<and>
     (\<forall>p\<in>Z. p \<notin> ran (refs A Z (nxts s) own) \<longleftrightarrow> (\<exists>t. p \<in> zeroed (dr t))) \<and>
     (\<forall>t. own t S_dec = d_ref (dr t)) \<and> drops_ok dr Z \<and>
     A \<inter> Z = {} \<and> N \<inter> (A \<union> Z) = {} \<and> stacked dr \<inter> (A \<union> N \<union> Z) = {} \<and>
     mt_ok s (A \<union> N \<union> Z \<union> stacked dr) \<and> even_mem s \<and> (\<forall>p\<in>A \<union> N \<union> Z \<union> stacked dr. even p) \<and>
     (\<forall>z\<in>Z. nxt (node s z) \<noteq> NULL \<longrightarrow> keyof s z < keyof s (nxt (node s z)))"

lemma coreD:
  assumes "core s A N Z own dr n"
  shows "counted s (refs A Z (nxts s) own) n" "ran (refs A Z (nxts s) own) \<subseteq> A \<union> Z"
    "\<And>p. p \<in> Z \<Longrightarrow> p \<notin> ran (refs A Z (nxts s) own) \<longleftrightarrow> (\<exists>t. p \<in> zeroed (dr t))"
    "\<And>t. own t S_dec = d_ref (dr t)" "drops_ok dr Z"
    "A \<inter> Z = {}" "N \<inter> (A \<union> Z) = {}" "stacked dr \<inter> (A \<union> N \<union> Z) = {}"
    "mt_ok s (A \<union> N \<union> Z \<union> stacked dr)" "even_mem s" "\<And>p. p \<in> A \<union> N \<union> Z \<union> stacked dr \<Longrightarrow> even p"
    "\<And>z. z \<in> Z \<Longrightarrow> nxt (node s z) \<noteq> NULL \<Longrightarrow> keyof s z < keyof s (nxt (node s z))"
  using assms unfolding core_def by simp_all

lemma core_pool:
  assumes "core s A N Z own dr n"
  shows "(A \<union> N \<union> Z \<union> stacked dr) \<inter> set (pool s) = {}" "NULL \<notin> A \<union> N \<union> Z \<union> stacked dr"
proof -
  have "mt_ok s (A \<union> N \<union> Z \<union> stacked dr)" using coreD(9) [OF assms] .
  then show "(A \<union> N \<union> Z \<union> stacked dr) \<inter> set (pool s) = {}" "NULL \<notin> A \<union> N \<union> Z \<union> stacked dr"
    unfolding mt_ok_def mt_inv_def by blast+
qed

lemma core_ref:
  assumes c: "core s A N Z own dr n" and n: "n < 2 ^ 64" and o: "own t sl = Some p"
  shows "p \<in> A \<union> Z" "p \<noteq> NULL" "even p" "p \<notin> set (pool s)" "rc (node s p) \<noteq> 0"
    "p \<in> ran (refs A Z (nxts s) own)"
proof -
  have "refs A Z (nxts s) own (By_thread t sl) = Some p" using o by (simp add: refs_def)
  then show r: "p \<in> ran (refs A Z (nxts s) own)" by (rule ranI)
  then show p: "p \<in> A \<union> Z" using coreD(2) [OF c] by blast
  show "p \<noteq> NULL" "even p" "p \<notin> set (pool s)"
    using p core_pool [OF c] coreD(11) [OF c] by auto
  then show "rc (node s p) \<noteq> 0" using counted_rc(1) [OF coreD(1) [OF c] n] r by simp
qed

section \<open>Dropping a reference keeps the accounts\<close>

lemma ran_del: "R x = Some p \<Longrightarrow> q \<noteq> p \<Longrightarrow> q \<in> ran (R(x := None)) \<longleftrightarrow> q \<in> ran R"
  by (auto simp: ran_def) (metis option.inject)

lemma ran_del_sub: "ran (R(x := None)) \<subseteq> ran R"
  by (auto simp: ran_def)

lemma ran_move:
  assumes "R x = Some p" and "R y = None"
  shows "ran (R(x := None, y \<mapsto> p)) = ran R"
proof -
  have "ran (R(x := None, y \<mapsto> p)) = insert p (ran (R(x := None)))" using assms(2) by simp
  moreover have "insert p (ran (R(x := None))) = ran R"
  proof (rule set_eqI)
    show "q \<in> insert p (ran (R(x := None))) \<longleftrightarrow> q \<in> ran R" for q
      using ran_del [of R x p q, OF assms(1)] ranI [of R x p, OF assms(1)] by (cases "q = p") simp_all
  qed
  ultimately show ?thesis by simp
qed

lemma stacked_upd: "stacked (dr(t := d)) = set (d_stack d) \<union> (\<Union>u\<in>- {t}. set (d_stack (dr u)))"
  by (auto simp: stacked_def split: if_splits)

lemma stacked_same: "d_stack d = d_stack (dr t) \<Longrightarrow> stacked (dr(t := d)) = stacked dr"
  unfolding stacked_def by (rule SUP_cong) simp_all

lemma drops_okD:
  assumes "drops_ok dr Z"
  shows "distinct (d_stack (dr t))" "zeroed (dr t) \<subseteq> Z" "d_pc (dr t) \<noteq> K_fail"
    "d_pc (dr t) = K_free \<Longrightarrow> d_stack (dr t) \<noteq> []" "d_pc (dr t) = K_done \<Longrightarrow> d_stack (dr t) = []"
    "t \<noteq> u \<Longrightarrow> set (d_stack (dr t)) \<inter> set (d_stack (dr u)) = {}"
    "t \<noteq> u \<Longrightarrow> zeroed (dr t) \<inter> zeroed (dr u) = {}"
  using assms by (simp_all add: drops_ok_def)

lemma drops_okI:
  assumes "drops_ok dr Z" and "distinct (d_stack d)" and "zeroed d \<subseteq> Z'" and "d_pc d \<noteq> K_fail"
    and "d_pc d = K_free \<Longrightarrow> d_stack d \<noteq> []" and "d_pc d = K_done \<Longrightarrow> d_stack d = []"
    and "\<And>u. u \<noteq> t \<Longrightarrow> set (d_stack d) \<inter> set (d_stack (dr u)) = {}"
    and "\<And>u. u \<noteq> t \<Longrightarrow> zeroed d \<inter> zeroed (dr u) = {} \<and> zeroed (dr u) \<subseteq> Z'"
  shows "drops_ok (dr(t := d)) Z'"
  unfolding drops_ok_def
proof (intro conjI allI impI)
  note D = drops_okD [OF assms(1)]
  show "distinct (d_stack ((dr(t := d)) u))" for u using assms(2) D(1) by simp
  show "zeroed ((dr(t := d)) u) \<subseteq> Z'" for u using assms(3,8) by (cases "u = t") simp_all
  show "d_pc ((dr(t := d)) u) \<noteq> K_fail" for u using assms(4) D(3) by simp
  show "d_stack ((dr(t := d)) u) \<noteq> []" if "d_pc ((dr(t := d)) u) = K_free" for u
    using that assms(5) D(4) by (cases "u = t") simp_all
  show "d_stack ((dr(t := d)) u) = []" if "d_pc ((dr(t := d)) u) = K_done" for u
    using that assms(6) D(5) by (cases "u = t") simp_all
  fix u v :: nat
  assume uv: "u \<noteq> v"
  show "set (d_stack ((dr(t := d)) u)) \<inter> set (d_stack ((dr(t := d)) v)) = {}"
    using uv D(6) [OF uv] assms(7) [of u] assms(7) [of v] by (cases "u = t"; cases "v = t") auto
  show "zeroed ((dr(t := d)) u) \<inter> zeroed ((dr(t := d)) v) = {}"
    using uv D(7) [OF uv] assms(8) [of u] assms(8) [of v] by (cases "u = t"; cases "v = t") auto
qed

text \<open>A step that only moves within the call.\<close>

lemma core_drop:
  assumes c: "core s A N Z own dr n" and "d_ref d = d_ref (dr t)" and z: "zeroed d = zeroed (dr t)"
    and st: "d_stack d = d_stack (dr t)" and "d_pc d \<notin> {K_fail, K_free, K_done}"
  shows "core s A N Z own (dr(t := d)) n"
proof -
  note C = coreD [OF c] and D = drops_okD [OF coreD(5) [OF c]]
  have "drops_ok (dr(t := d)) Z"
    by (rule drops_okI [OF C(5)]) (use D(1,2) D(6) [of t] D(7) [of t] D(2) z st assms(5) in auto)
  moreover have "(\<exists>u. p \<in> zeroed ((dr(t := d)) u)) \<longleftrightarrow> (\<exists>u. p \<in> zeroed (dr u))" for p
    using z by (metis fun_upd_apply)
  ultimately show ?thesis
    using c assms(2) unfolding core_def stacked_same [of d dr t, OF st] by simp
qed

lemma core_mem:
  assumes c: "core s A N Z own dr n" and "\<And>p. rc (node s' p) = rc (node s p)"
    and nx: "\<And>p. p \<in> Z \<Longrightarrow> nxt (node s' p) = nxt (node s p)"
    and k: "\<And>z. z \<in> Z \<Longrightarrow> keyof s' z = keyof s z \<and> keyof s' (nxt (node s z)) = keyof s (nxt (node s z))"
    and "pool s' = pool s" and "even_mem s'" and mt: "mt_ok s' (A \<union> N \<union> Z \<union> stacked dr)"
  shows "core s' A N Z own dr n"
proof -
  note C = coreD [OF c]
  have R: "refs A Z (nxts s') own = refs A Z (nxts s) own"
    using nx by (auto simp: refs_def fun_eq_iff split: src.split)
  have "keyof s' z < keyof s' (nxt (node s' z))" if "z \<in> Z" "nxt (node s' z) \<noteq> NULL" for z
    using that C(12) nx k by simp
  moreover have "counted s' (refs A Z (nxts s) own) n" using counted_cong [OF C(1)] assms(2,5) by simp
  ultimately show ?thesis using C(2-8) C(11) assms(6) mt unfolding core_def R by simp
qed

text \<open>The count goes down: the thread's reference is gone, and it may have been the last.\<close>

lemma core_xadd:
  assumes c: "core s A N Z own dr n" and n: "n < 2 ^ 64" and pc: "d_pc (dr t) = K_xadd p"
    and d: "d = (if rc (node s p) = 1 then (dr t)\<lparr>d_pc := K_gc p\<rparr> else unwind (d_stack (dr t)))"
  shows "core (set_rc p (rc (node s p) - 1) s) A N Z (own(t := (own t)(S_dec := None))) (dr(t := d)) n"
proof -
  note C = coreD [OF c] and D = drops_okD [OF coreD(5) [OF c]]
  let ?R = "refs A Z (nxts s) own" and ?x = "By_thread t S_dec" and ?s = "set_rc p (rc (node s p) - 1) s"
  have o: "own t S_dec = Some p" using C(4) [of t] pc by (simp add: d_ref_def)
  note P = core_ref [OF c n o]
  have x: "?R ?x = Some p" using o by (simp add: refs_def)
  have f: "finite (dom ?R)" using C(1) by (simp add: counted_def)
  let ?R' = "?R(?x := None)"
  have R': "refs A Z (nxts ?s) (own(t := (own t)(S_dec := None))) = ?R'"
    unfolding refs_upd(1) set_rc_simps(4) ..
  have cn: "cnt ?R p = Suc (cnt ?R' p)" using cnt_del [OF f x, of p] by simp
  have last: "rc (node s p) = 1 \<longleftrightarrow> p \<notin> ran ?R'"
    using counted_rc(2) [OF C(1) n P(4)] cn cnt_0 [of ?R' p] f by simp
  have pZ: "p \<in> Z" if "rc (node s p) = 1"
  proof (rule ccontr)
    assume "p \<notin> Z"
    then have "?R (By_link p) = Some p" using P(1) by (simp add: refs_def)
    then show False using cnt_two [of ?R ?x p "By_link p", OF x] counted_rc(2) [OF C(1) n P(4)] that by simp
  qed
  have zt: "zeroed (dr t) = {}" "\<And>u. p \<notin> zeroed (dr u)"
    using pc C(3) [of p] P(6) D(2) by (auto simp: zeroed_def)
  have zd: "zeroed d = (if rc (node s p) = 1 then {p} else {})" "d_stack d = d_stack (dr t)"
    "d_pc d \<noteq> K_fail" "d_pc d = K_free \<Longrightarrow> d_stack d \<noteq> []" "d_pc d = K_done \<Longrightarrow> d_stack d = []" "d_ref d = None"
    unfolding d by (auto simp: zeroed_def unwind_def d_ref_def split: if_splits)
  have dz: "q \<notin> ran ?R' \<longleftrightarrow> (\<exists>u. q \<in> zeroed ((dr(t := d)) u))" if q: "q \<in> Z" for q
  proof (cases "q = p")
    case True
    have "(\<exists>u. p \<in> zeroed ((dr(t := d)) u)) \<longleftrightarrow> p \<in> zeroed d" using zt(2) by (metis fun_upd_apply)
    then show ?thesis using True last zd(1) by auto
  next
    case False
    have "(\<exists>u. q \<in> zeroed ((dr(t := d)) u)) \<longleftrightarrow> (\<exists>u. q \<in> zeroed (dr u))"
      using False zt(1) zd(1) by (auto split: if_splits)
    then show ?thesis using False C(3) [OF q] ran_del [of ?R ?x p q, OF x] by simp
  qed
  have "drops_ok (dr(t := d)) Z"
  proof (rule drops_okI [OF C(5)])
    show "zeroed d \<subseteq> Z" using zd(1) pZ by auto
    show "zeroed d \<inter> zeroed (dr u) = {} \<and> zeroed (dr u) \<subseteq> Z" if "u \<noteq> t" for u using zd(1) zt(2) D(2) by auto
    show "set (d_stack d) \<inter> set (d_stack (dr u)) = {}" if "u \<noteq> t" for u using zd(2) D(6) that by metis
  qed (use zd D(1) in auto)
  moreover have "counted ?s ?R' n" by (rule counted_del [OF C(1) x])
  moreover have "ran ?R' \<subseteq> A \<union> Z" using C(2) ran_del_sub [of ?R] by blast
  moreover have "mt_ok ?s (A \<union> N \<union> Z \<union> stacked dr)" by (rule mt_ok_cong [OF C(9)]) (simp_all add: set_rc_def)
  moreover have "even_mem ?s" using C(10) by (simp add: even_mem_def set_rc_def)
  moreover have "\<forall>z\<in>Z. nxt (node ?s z) \<noteq> NULL \<longrightarrow> keyof ?s z < keyof ?s (nxt (node ?s z))" using C(12) by simp
  ultimately show ?thesis
    unfolding core_def R' stacked_same [of d dr t, OF zd(2)] using C(4,6-8,11) dz zd(6) by simp
qed

text \<open>The reference of the link is taken over by the recursive call.\<close>

lemma core_next:
  assumes c: "core s A N Z own dr n" and pc: "d_pc (dr t) = K_next p"
    and d: "d = enter (nxt (node s p)) (p # d_stack (dr t))"
  shows "core s A N (Z - {p}) (own(t := (own t)(S_dec := d_ref d))) (dr(t := d)) n"
    "p \<in> Z" "p \<notin> ran (refs A Z (nxts s) own)" "stacked (dr(t := d)) = insert p (stacked dr)"
proof -
  note C = coreD [OF c] and D = drops_okD [OF coreD(5) [OF c]]
  let ?R = "refs A Z (nxts s) own" and ?x = "By_thread t S_dec" and ?q = "nxt (node s p)"
  have zt: "zeroed (dr t) = {p}" using pc by (simp add: zeroed_def)
  then show p: "p \<in> Z" using D(2) [of t] by simp
  then show pr: "p \<notin> ran ?R" using C(3) zt by blast
  have o: "own t S_dec = None" using C(4) [of t] pc by (simp add: d_ref_def)
  then have x: "?R ?x = None" by (simp add: refs_def)
  have q: "?q \<in> A \<union> Z \<and> ?q \<in> ran ?R \<and> even ?q \<and> ?q \<noteq> p" if "?q \<noteq> NULL"
  proof -
    have "?R (By_dead p) = Some ?q" using p that by (simp add: refs_def)
    then have r: "?q \<in> ran ?R" by (rule ranI)
    then have m: "?q \<in> A \<union> Z" using C(2) by (rule rev_subsetD)
    moreover have "?q \<noteq> p" using r pr by metis
    ultimately show ?thesis using r C(11) [of ?q] by blast
  qed
  then have dq: "d = (if ?q = NULL then unwind (p # d_stack (dr t)) else \<lparr>d_pc = K_assert ?q, d_stack = p # d_stack (dr t)\<rparr>)"
    unfolding d enter_def by (simp add: clean_even Let_def)
  have zd: "zeroed d = {}" "d_stack d = p # d_stack (dr t)" "d_ref d = (if ?q = NULL then None else Some ?q)"
    "d_pc d \<noteq> K_fail" "d_pc d \<noteq> K_done"
    unfolding dq by (simp_all add: zeroed_def d_ref_def unwind_def)
  show sd: "stacked (dr(t := d)) = insert p (stacked dr)"
    unfolding stacked_upd zd(2) by (auto simp: stacked_def)
  have ps: "p \<notin> stacked dr" using C(8) p by blast
  have pz: "p \<notin> zeroed (dr u)" if "u \<noteq> t" for u using D(7) [OF that] zt by auto
  let ?R' = "refs A (Z - {p}) (nxts s) (own(t := (own t)(S_dec := d_ref d)))"
  have R': "?R' = (if ?q = NULL then ?R else ?R(By_dead p := None, ?x \<mapsto> ?q))"
  proof (cases "?q = NULL")
    case True
    then have "?R (By_dead p) = None" by (simp add: refs_def)
    then show ?thesis using True zd(3) o x unfolding refs_upd by (simp add: fun_upd_idem)
  next
    case False
    then show ?thesis using zd(3) unfolding refs_upd by simp
  qed
  have b: "?R (By_dead p) = Some ?q" if "?q \<noteq> NULL" using p that by (simp add: refs_def)
  have cr: "counted s ?R' n"
  proof (cases "?q = NULL")
    case True
    then show ?thesis using C(1) unfolding R' by simp
  next
    case False
    then show ?thesis using counted_move [of s ?R n "By_dead p" ?q ?x, OF C(1) b x] unfolding R' by simp
  qed
  have rn: "ran ?R' = ran ?R"
  proof (cases "?q = NULL")
    case True
    then show ?thesis unfolding R' by simp
  next
    case False
    then show ?thesis using ran_move [of ?R "By_dead p" ?q ?x, OF b x] unfolding R' by simp
  qed
  have "drops_ok (dr(t := d)) (Z - {p})"
  proof (rule drops_okI [OF C(5)])
    show "distinct (d_stack d)" using zd(2) D(1) [of t] ps by (auto simp: stacked_def)
    show "zeroed d \<inter> zeroed (dr u) = {} \<and> zeroed (dr u) \<subseteq> Z - {p}" if "u \<noteq> t" for u
      using zd(1) pz [OF that] D(2) [of u] by auto
    show "set (d_stack d) \<inter> set (d_stack (dr u)) = {}" if "u \<noteq> t" for u
      using zd(2) D(6) [OF that] ps by (auto simp: stacked_def)
  qed (use zd in auto)
  moreover have "q \<notin> ran ?R \<longleftrightarrow> (\<exists>u. q \<in> zeroed ((dr(t := d)) u))" if "q \<in> Z - {p}" for q
  proof -
    have "(\<exists>u. q \<in> zeroed ((dr(t := d)) u)) \<longleftrightarrow> (\<exists>u. q \<in> zeroed (dr u))"
      using that zt zd(1) by (metis Diff_iff empty_iff fun_upd_apply)
    then show ?thesis using C(3) that by simp
  qed
  moreover have "(own(t := (own t)(S_dec := d_ref d))) u S_dec = d_ref ((dr(t := d)) u)" for u
    using C(4) by simp
  moreover have "A \<union> N \<union> (Z - {p}) \<union> insert p (stacked dr) = A \<union> N \<union> Z \<union> stacked dr" using p by blast
  moreover have "ran ?R \<subseteq> A \<union> (Z - {p})" using C(2) pr by blast
  moreover have "insert p (stacked dr) \<inter> (A \<union> N \<union> (Z - {p})) = {}" using C(6-8) p by blast
  moreover have "A \<inter> (Z - {p}) = {}" "N \<inter> (A \<union> (Z - {p})) = {}" using C(6,7) by blast+
  ultimately show "core s A N (Z - {p}) (own(t := (own t)(S_dec := d_ref d))) (dr(t := d)) n"
    unfolding core_def rn sd using cr C(9-12) by simp
qed

text \<open>A node whose references are all gone goes to the free list of the thread.\<close>

lemma core_free:
  assumes c: "core s A N Z own dr n" and pc: "d_pc (dr t) = K_free" "d_stack (dr t) = p # st"
  shows "\<exists>s'. thread_free t p s = Some s' \<and> core s' A N Z (own(t := (own t)(S_dec := None))) (dr(t := unwind st)) n \<and>
    stacked (dr(t := unwind st)) \<subseteq> stacked dr"
proof -
  note C = coreD [OF c] and D = drops_okD [OF coreD(5) [OF c]]
  let ?U = "A \<union> N \<union> Z \<union> stacked dr" and ?d = "unwind st"
  have p: "p \<in> stacked dr" "p \<in> ?U" using pc(2) unfolding stacked_def by (metis UN_I UNIV_I list.set_intros(1)) (use pc(2) in \<open>auto simp: stacked_def intro!: exI [of _ t]\<close>)
  obtain F G where "mt_inv s ?U F G" using C(9) by (auto simp: mt_ok_def)
  then obtain s' where s': "thread_free t p s = Some s'" "mt_ok s' (?U - {p})" using thread_free_ok p(2) by blast
  note M = thread_free_mem [OF s'(1)]
  note m = mr_only_node [OF M(1)]
  have zd: "zeroed ?d = {}" "zeroed (dr t) = {}" "d_stack ?d = st" "d_ref ?d = None" "d_ref (dr t) = None"
    using pc(1) by (simp_all add: zeroed_def unwind_def d_ref_def)
  have own: "own(t := (own t)(S_dec := None)) = own" using C(4) [of t] zd(5) by (simp add: fun_upd_idem)
  have pn: "p \<notin> set st" "p \<notin> set (d_stack (dr u))" if "u \<noteq> t" for u
    using D(1) [of t] D(6) [OF that] pc(2) by auto
  have pst: "p \<notin> set st" using D(1) [of t] pc(2) by simp
  have sd: "stacked (dr(t := ?d)) = stacked dr - {p}"
    unfolding stacked_upd zd(3) using pn(2) pst pc(2) stacked_upd [of dr t "dr t"] by auto
  have "p \<notin> A \<union> N \<union> Z" using p(1) C(8) by blast
  then have U: "A \<union> N \<union> Z \<union> stacked (dr(t := ?d)) = ?U - {p}" unfolding sd by blast
  have "drops_ok (dr(t := ?d)) Z"
  proof (rule drops_okI [OF C(5)])
    show "set (d_stack ?d) \<inter> set (d_stack (dr u)) = {}" if "u \<noteq> t" for u
      using zd(3) D(6) [OF that] pc(2) by auto
  qed (use zd D(1) [of t] D(2) pc(2) in \<open>auto simp: unwind_def split: if_splits\<close>)
  moreover have "(\<exists>u. q \<in> zeroed ((dr(t := ?d)) u)) \<longleftrightarrow> (\<exists>u. q \<in> zeroed (dr u))" for q
    using zd(1,2) by (metis fun_upd_apply)
  moreover have "own u S_dec = d_ref ((dr(t := ?d)) u)" for u using C(4) zd(4,5) by simp
  moreover have "refs A Z (nxts s') own = refs A Z (nxts s) own" by (simp add: m)
  moreover have "counted s' (refs A Z (nxts s) own) n" by (rule counted_cong [OF C(1)]) (simp_all add: m M(2))
  moreover have "even_mem s'" using M(3) [OF C(10)] C(11) [OF p(2)] by simp
  moreover have "stacked (dr(t := ?d)) \<inter> (A \<union> N \<union> Z) = {}" unfolding sd using C(8) by blast
  moreover have "\<forall>q\<in>?U - {p}. even q" using C(11) by blast
  ultimately have "core s' A N Z own (dr(t := ?d)) n"
    unfolding core_def U using s'(2) C(2,3,6,7,12) by (simp add: m)
  then show ?thesis using s'(1) sd unfolding own by blast
qed

definition rc_frame :: "talloc \<Rightarrow> talloc \<Rightarrow> bool" where
  "rc_frame s s' \<longleftrightarrow> heads s' = heads s \<and> pool s' = pool s \<and>
     (\<forall>p. key (node s' p) = key (node s p) \<and> nxt (node s' p) = nxt (node s p))"

lemma rc_frame_set_rc: "rc_frame s (set_rc p v s)"
  by (simp add: rc_frame_def) (simp add: set_rc_def)

lemma rc_frame_refl: "rc_frame s s"
  by (simp add: rc_frame_def)

lemma core_dec:
  assumes c: "core s A N Z own dr n" and n: "n < 2 ^ 64" and st: "dec_step t s (dr t) = (s', d)"
  shows "\<exists>Z'. core s' A N Z' (own(t := (own t)(S_dec := d_ref d))) (dr(t := d)) n \<and> Z' \<subseteq> Z \<and>
    Z' \<union> stacked (dr(t := d)) \<subseteq> Z \<union> stacked dr \<and> (\<forall>p\<in>Z - Z'. p \<notin> ran (refs A Z (nxts s) own)) \<and>
    rc_frame s s'"
proof -
  note C = coreD [OF c] and D = drops_okD [OF coreD(5) [OF c]]
  have o: "own t S_dec = d_ref (dr t)" by (rule C(4))
  have same: ?thesis if "core s' A N Z own (dr(t := d)) n" "d_ref d = own t S_dec" "stacked (dr(t := d)) = stacked dr"
      "rc_frame s s'"
    using that by (intro exI [of _ Z]) (simp add: fun_upd_idem)
  show ?thesis
  proof (cases "d_pc (dr t)")
    case K_done
    then show ?thesis using c st o by (intro same) (auto simp: dec_step_def fun_upd_idem rc_frame_refl)
  next
    case (K_assert p)
    then have "own t S_dec = Some p" using o by (simp add: d_ref_def)
    note P = core_ref [OF c n this]
    have st': "s' = s" "d = (dr t)\<lparr>d_pc := K_xadd p\<rparr>"
      using st K_assert P(2,5) by (auto simp: dec_step_def mem_simps word_gt_0)
    have "core s A N Z own (dr(t := d)) n"
      by (rule core_drop [OF c]) (simp_all add: st' d_ref_def zeroed_def K_assert)
    then show ?thesis
      by (intro same) (simp_all add: st' o d_ref_def K_assert stacked_same rc_frame_refl)
  next
    case (K_xadd p)
    then have "own t S_dec = Some p" using o by (simp add: d_ref_def)
    note P = core_ref [OF c n this]
    have st': "s' = set_rc p (rc (node s p) - 1) s"
      "d = (if rc (node s p) = 1 then (dr t)\<lparr>d_pc := K_gc p\<rparr> else unwind (d_stack (dr t)))"
      using st K_xadd P(2) by (auto simp: dec_step_def mem_simps atomic_xadd4_def)
    have "d_ref d = None" "stacked (dr(t := d)) = stacked dr"
      unfolding st'(2) by (auto simp: d_ref_def unwind_def stacked_same)
    then show ?thesis
      using core_xadd [OF c n K_xadd st'(2)] rc_frame_set_rc unfolding st'(1) by (intro exI [of _ Z]) simp
  next
    case (K_gc p)
    then have "p \<in> Z" using D(2) [of t] by (simp add: zeroed_def)
    then have p: "p \<noteq> NULL" using core_pool(2) [OF c] by blast
    have st': "s' = s\<lparr>node := (node s)(p := (node s p)\<lparr>gc := gc (node s p) + 1\<rparr>)\<rparr>" "d = (dr t)\<lparr>d_pc := K_next p\<rparr>"
      using st K_gc p by (auto simp: dec_step_def mem_simps)
    have k: "core s A N Z own (dr(t := d)) n"
      by (rule core_drop [OF c]) (simp_all add: st' d_ref_def zeroed_def K_gc)
    have m: "mt_ok s' (A \<union> N \<union> Z \<union> stacked (dr(t := d)))"
      by (rule mt_ok_cong [OF coreD(9) [OF k]]) (simp_all add: st')
    have e: "even_mem s'" using C(10) by (simp add: even_mem_def st')
    have "core s' A N Z own (dr(t := d)) n"
      by (rule core_mem [OF k _ _ _ _ e m]) (simp_all add: st'(1))
    moreover have "rc_frame s s'" by (simp add: rc_frame_def st')
    ultimately show ?thesis by (intro same) (simp_all add: st' o d_ref_def K_gc stacked_same)
  next
    case (K_next p)
    have "p \<in> Z" using K_next D(2) [of t] by (simp add: zeroed_def)
    then have p: "p \<noteq> NULL" using core_pool(2) [OF c] by blast
    have st': "s' = s" "d = enter (nxt (node s p)) (p # d_stack (dr t))"
      using st K_next p by (auto simp: dec_step_def mem_simps)
    note x = core_next [OF c K_next st'(2)]
    have "Z - {p} \<union> stacked (dr(t := d)) \<subseteq> Z \<union> stacked dr" using x(2) unfolding x(4) by auto
    moreover have "\<forall>q\<in>Z - (Z - {p}). q \<notin> ran (refs A Z (nxts s) own)" using x(3) by blast
    ultimately show ?thesis using x(1) rc_frame_refl unfolding st'(1) by (intro exI [of _ "Z - {p}"]) blast
  next
    case K_free
    then obtain p ps where ps: "d_stack (dr t) = p # ps" using D(4) by (cases "d_stack (dr t)") auto
    obtain s'' where x: "thread_free t p s = Some s''"
      "core s'' A N Z (own(t := (own t)(S_dec := None))) (dr(t := unwind ps)) n"
      "stacked (dr(t := unwind ps)) \<subseteq> stacked dr"
      using core_free [OF c K_free ps] by blast
    have st': "s' = s''" "d = unwind ps" using st K_free ps x(1) by (auto simp: dec_step_def)
    have "d_ref d = None" by (simp add: st' unwind_def d_ref_def)
    moreover have "rc_frame s s'"
      using thread_free_mem(1,2) [OF x(1)] by (simp add: rc_frame_def mr_only_node mr_only_heads st'(1))
    ultimately show ?thesis using x(2,3) unfolding st' by (intro exI [of _ Z]) auto
  next
    case K_fail
    then show ?thesis using D(3) [of t] by simp
  qed
qed

section \<open>Taking and moving references\<close>

text \<open>A count that is not 0 is that of a node with references.\<close>

lemma core_acquire:
  assumes c: "core s A N Z own dr n" and n: "n < 2 ^ 64" and p: "p \<notin> set (pool s)" "rc (node s p) \<noteq> 0"
    and sl: "own t sl = None" "sl \<noteq> S_dec"
  shows "core (set_rc p (rc (node s p) + 1) s) A N Z (own(t := (own t)(sl \<mapsto> p))) dr (Suc n)"
proof -
  note C = coreD [OF c]
  let ?R = "refs A Z (nxts s) own" and ?x = "By_thread t sl" and ?s = "set_rc p (rc (node s p) + 1) s"
  have x: "?R ?x = None" using sl(1) by (simp add: refs_def)
  have pr: "p \<in> ran ?R" using counted_rc(1) [OF C(1) n p(1)] p(2) by blast
  have R': "refs A Z (nxts ?s) (own(t := (own t)(sl \<mapsto> p))) = ?R(?x \<mapsto> p)"
    unfolding refs_upd(1) set_rc_simps(4) ..
  have rn: "ran (?R(?x \<mapsto> p)) = ran ?R" using pr x by (simp add: insert_absorb)
  have "counted ?s (?R(?x \<mapsto> p)) (Suc n)" by (rule counted_add [OF C(1) x])
  moreover have "mt_ok ?s (A \<union> N \<union> Z \<union> stacked dr)" by (rule mt_ok_cong [OF C(9)]) (simp_all add: set_rc_def)
  moreover have "even_mem ?s" using C(10) by (simp add: even_mem_def set_rc_def)
  moreover have "(own(t := (own t)(sl \<mapsto> p))) u S_dec = d_ref (dr u)" for u using C(4) sl(2) by simp
  ultimately show ?thesis unfolding core_def R' rn using C(2,3,5-8,11,12) by simp
qed

lemma core_move:
  assumes c: "core s A N Z own dr n" and a: "own t a = Some p" and b: "own t b = None"
    and "a \<noteq> S_dec" "b \<noteq> S_dec"
  shows "core s A N Z (own(t := (own t)(a := None, b \<mapsto> p))) dr n"
proof -
  note C = coreD [OF c]
  let ?R = "refs A Z (nxts s) own" and ?x = "By_thread t a" and ?y = "By_thread t b"
  have xy: "?R ?x = Some p" "?R ?y = None" using a b by (simp_all add: refs_def)
  have R': "refs A Z (nxts s) (own(t := (own t)(a := None, b \<mapsto> p))) = ?R(?x := None, ?y \<mapsto> p)"
    by (auto simp: refs_def fun_eq_iff split: src.split)
  have rn: "ran (?R(?x := None, ?y \<mapsto> p)) = ran ?R" by (rule ran_move [of ?R ?x p ?y, OF xy])
  have "counted s (?R(?x := None, ?y \<mapsto> p)) n" by (rule counted_move [of s ?R n ?x p ?y, OF C(1) xy])
  moreover have "(own(t := (own t)(a := None, b \<mapsto> p))) u S_dec = d_ref (dr u)" for u
    using C(4) assms(4,5) by simp
  ultimately show ?thesis unfolding core_def R' rn using C(2,3,5-12) by simp
qed

text \<open>A thread begins to drop a reference it holds.\<close>

lemma core_enter:
  assumes c: "core s A N Z own dr n" and a: "own t a = Some p" "a \<noteq> S_dec" and d: "d_pc (dr t) = K_done"
  shows "core s A N Z (own(t := (own t)(a := None, S_dec \<mapsto> p))) (dr(t := enter p [])) n"
    "enter p [] = \<lparr>d_pc = K_assert p, d_stack = []\<rparr>" "stacked (dr(t := enter p [])) = stacked dr"
proof -
  note C = coreD [OF c] and D = drops_okD [OF coreD(5) [OF c]]
  let ?R = "refs A Z (nxts s) own" and ?x = "By_thread t a" and ?y = "By_thread t S_dec"
  have o: "own t S_dec = None" using C(4) [of t] d by (simp add: d_ref_def)
  have xy: "?R ?x = Some p" "?R ?y = None" using a o by (simp_all add: refs_def)
  have "p \<in> A \<union> Z" using C(2) xy(1) by (meson ranI subsetD)
  then have p: "p \<noteq> NULL" "even p" using core_pool(2) [OF c] C(11) by blast+
  show e: "enter p [] = \<lparr>d_pc = K_assert p, d_stack = []\<rparr>" using p by (simp add: enter_def clean_even)
  have sd: "d_stack (dr t) = []" using D(5) d by simp
  then show ss: "stacked (dr(t := enter p [])) = stacked dr" by (intro stacked_same) (simp add: e)
  have z: "zeroed (enter p []) = {}" "zeroed (dr t) = {}" using d by (simp_all add: e zeroed_def)
  have R': "refs A Z (nxts s) (own(t := (own t)(a := None, S_dec \<mapsto> p))) = ?R(?x := None, ?y \<mapsto> p)"
    by (auto simp: refs_def fun_eq_iff split: src.split)
  have rn: "ran (?R(?x := None, ?y \<mapsto> p)) = ran ?R" by (rule ran_move [of ?R ?x p ?y, OF xy])
  have "counted s (?R(?x := None, ?y \<mapsto> p)) n" by (rule counted_move [of s ?R n ?x p ?y, OF C(1) xy])
  moreover have "(own(t := (own t)(a := None, S_dec \<mapsto> p))) u S_dec = d_ref ((dr(t := enter p [])) u)" for u
    using C(4) by (simp add: e d_ref_def)
  moreover have "drops_ok (dr(t := enter p [])) Z"
    by (rule drops_okI [OF C(5)]) (use D(2) z in \<open>auto simp: e\<close>)
  moreover have "(\<exists>u. q \<in> zeroed ((dr(t := enter p [])) u)) \<longleftrightarrow> (\<exists>u. q \<in> zeroed (dr u))" for q
    using z by (metis fun_upd_apply)
  ultimately show "core s A N Z (own(t := (own t)(a := None, S_dec \<mapsto> p))) (dr(t := enter p [])) n"
    unfolding core_def R' rn ss using C(2,3,6-12) by simp
qed

lemma core_Suc: "core s A N Z own dr n \<Longrightarrow> core s A N Z own dr (Suc n)"
  by (simp add: core_def counted_Suc)

end
