(* ===== verification/Ref_Count_Threads.thy ===== *)
theory Ref_Count_Threads imports Ref_Count_Counts begin

text \<open>
  The threads of the reference counting machine keep the accounts: what references a
  search and the updater hold at each of their program points, and that each of their
  steps is one of the moves of the accounting.
\<close>

section \<open>A search\<close>

definition own_r :: "xreader \<Rightarrow> slot \<Rightarrow> ptr option" where
  "own_r r sl = (case sl of
     S_cur \<Rightarrow> if x_pc r \<in> {X_key, X_eq} \<or>
         x_pc r \<in> {X_load, X_count, X_cas, X_check, X_undo} \<and> x_prev r = Next (x_cur r)
       then Some (x_cur r) else None
   | S_nxt \<Rightarrow> if x_pc r = X_check \<or> x_pc r = X_drop \<and> x_q r \<noteq> NULL then Some (x_q r) else None
   | S_dec \<Rightarrow> d_ref (x_drop r))"

definition dropping :: "xreader \<Rightarrow> bool" where
  "dropping r \<longleftrightarrow> (case x_pc r of X_undo \<Rightarrow> True | X_drop \<Rightarrow> True | X_last v \<Rightarrow> True | _ \<Rightarrow> False)"

definition rd_ok :: "talloc \<Rightarrow> xreader \<Rightarrow> bool" where
  "rd_ok s r \<longleftrightarrow> x_pc r \<noteq> X_fault \<and> (dropping r \<or> d_pc (x_drop r) = K_done) \<and>
     (x_pc r \<in> {X_load, X_count, X_cas, X_check, X_undo} \<longrightarrow>
        x_prev r = Head (x_bucket r) \<or> x_prev r = Next (x_cur r)) \<and>
     (x_pc r \<in> {X_count, X_cas, X_check} \<longrightarrow> x_q r \<noteq> NULL \<and> x_q r \<notin> set (pool s) \<and> even (x_q r)) \<and>
     (x_pc r = X_cas \<longrightarrow> x_old r \<noteq> 0)"

text \<open>What a step may do to the unlinked nodes: only those without references leave.\<close>

definition reclaims ::
    "talloc \<Rightarrow> ptr set \<Rightarrow> ptr set \<Rightarrow> (nat \<Rightarrow> slot \<Rightarrow> ptr option) \<Rightarrow> (nat \<Rightarrow> drop) \<Rightarrow> talloc \<Rightarrow> ptr set \<Rightarrow> (nat \<Rightarrow> drop) \<Rightarrow> bool" where
  "reclaims s A Z own dr s' Z' dr' \<longleftrightarrow> Z' \<subseteq> Z \<and> Z' \<union> stacked dr' \<subseteq> Z \<union> stacked dr \<and>
     (\<forall>p\<in>Z - Z'. p \<notin> ran (refs A Z (nxts s) own)) \<and> rc_frame s s'"

lemma reclaims_refl: "rc_frame s s' \<Longrightarrow> stacked dr' = stacked dr \<Longrightarrow> reclaims s A Z own dr s' Z dr'"
  by (simp add: reclaims_def)

definition rd_stepped ::
    "talloc \<Rightarrow> ptr set \<Rightarrow> ptr set \<Rightarrow> ptr set \<Rightarrow> (nat \<Rightarrow> slot \<Rightarrow> ptr option) \<Rightarrow> (nat \<Rightarrow> drop) \<Rightarrow> nat \<Rightarrow> nat \<Rightarrow>
     talloc \<Rightarrow> xreader \<Rightarrow> bool" where
  "rd_stepped s A N Z own dr n t s' r' \<longleftrightarrow> (\<exists>Z'.
     core s' A N Z' (own(t := own_r r')) (dr(t := x_drop r')) (Suc n) \<and>
     reclaims s A Z own dr s' Z' (dr(t := x_drop r')) \<and> rd_ok s' r')"

lemma rd_quiet:
  assumes "core s A N Z own dr n" and "own t = own_r r" and "dr t = x_drop r"
    and "own_r r' = own_r r" and "x_drop r' = x_drop r" and "rd_ok s r'"
  shows "rd_stepped s A N Z own dr n t s r'"
proof -
  have "own(t := own_r r') = own" "dr(t := x_drop r') = dr" using assms(2-5) by (simp_all add: fun_upd_idem)
  then show ?thesis unfolding rd_stepped_def using core_Suc [OF assms(1)] assms(6) rc_frame_refl
    by (intro exI [of _ Z]) (simp add: reclaims_refl)
qed

lemma rd_enter:
  assumes c: "core s A N Z own dr n" and o: "own t = own_r r" and d: "dr t = x_drop r" "d_pc (x_drop r) = K_done"
    and a: "own_r r a = Some p" "a \<noteq> S_dec" and "own_r r' = (own_r r)(a := None, S_dec \<mapsto> p)"
    and "x_drop r' = enter p []" and "rd_ok s r'"
  shows "rd_stepped s A N Z own dr n t s r'"
proof -
  have "own t a = Some p" "d_pc (dr t) = K_done" using o a(1) d by simp_all
  note x = core_enter [OF c this(1) a(2) this(2)]
  have "core s A N Z (own(t := own_r r')) (dr(t := x_drop r')) n"
    using x(1) unfolding assms(7,8) o [symmetric] by simp
  then show ?thesis unfolding rd_stepped_def using core_Suc x(3) assms(8,9) rc_frame_refl
    by (intro exI [of _ Z]) (simp add: reclaims_refl)
qed

lemma rd_dec:
  assumes c: "core s A N Z own dr n" and n: "n < 2 ^ 64" and o: "own t = own_r r" and d: "dr t = x_drop r"
    and st: "x_dec t f s r = (s', r')"
    and go: "\<And>d. d_pc d \<noteq> K_done \<Longrightarrow> d_pc d \<noteq> K_fail \<Longrightarrow> own_r (r\<lparr>x_drop := d\<rparr>) = (own_r r)(S_dec := d_ref d) \<and>
      rd_ok s' (r\<lparr>x_drop := d\<rparr>)"
    and fin: "\<And>d. d_pc d = K_done \<Longrightarrow> d_stack d = [] \<Longrightarrow> x_drop (f (r\<lparr>x_drop := d\<rparr>)) = d \<and> rd_ok s' (f (r\<lparr>x_drop := d\<rparr>)) \<and>
      (own_r (f (r\<lparr>x_drop := d\<rparr>)) = (own_r r)(S_dec := None) \<or>
       (\<exists>p. own_r r S_nxt = Some p \<and> own_r r S_cur = None \<and>
          own_r (f (r\<lparr>x_drop := d\<rparr>)) = (own_r r)(S_dec := None, S_nxt := None, S_cur \<mapsto> p)))"
  shows "rd_stepped s A N Z own dr n t s' r'"
proof -
  obtain d where x: "dec_step t s (dr t) = (s', d)"
    and r': "r' = (let r = r\<lparr>x_drop := d\<rparr> in
        if d_pc d = K_done then f r else if d_pc d = K_fail then r\<lparr>x_pc := X_fault\<rparr> else r)"
    using st d by (auto simp: x_dec_def split: prod.splits)
  obtain Z' where z: "core s' A N Z' (own(t := (own t)(S_dec := d_ref d))) (dr(t := d)) n"
    "reclaims s A Z own dr s' Z' (dr(t := d))"
    using core_dec [OF c n x] unfolding reclaims_def by blast
  have "drops_ok (dr(t := d)) Z'" by (rule coreD(5) [OF z(1)])
  from drops_okD(3) [OF this, of t] drops_okD(5) [OF this, of t]
  have k: "d_pc d \<noteq> K_fail" "d_pc d = K_done \<Longrightarrow> d_stack d = []" by simp_all
  show ?thesis
  proof (cases "d_pc d = K_done")
    case False
    then have "r' = r\<lparr>x_drop := d\<rparr>" using r' k(1) by simp
    then show ?thesis unfolding rd_stepped_def using core_Suc [OF z(1)] z(2) go [OF False k(1)] o
      by (intro exI [of _ Z']) simp
  next
    case True
    then have r: "r' = f (r\<lparr>x_drop := d\<rparr>)" using r' by simp
    have dn: "d_ref d = None" using True by (simp add: d_ref_def)
    note dd = fin [OF True k(2) [OF True]]
    from dd consider "own_r r' = (own_r r)(S_dec := None)" |
      p where "own_r r S_nxt = Some p" "own_r r S_cur = None" "own_r r' = (own_r r)(S_dec := None, S_nxt := None, S_cur \<mapsto> p)"
      unfolding r by blast
    then show ?thesis
    proof cases
      case 1
      then show ?thesis unfolding rd_stepped_def using core_Suc [OF z(1)] z(2) dd o dn r
        by (intro exI [of _ Z']) simp
    next
      case 2
      let ?own = "own(t := (own t)(S_dec := d_ref d))"
      have "core s' A N Z' (?own(t := (?own t)(S_nxt := None, S_cur \<mapsto> p))) (dr(t := d)) n"
        by (rule core_move [OF z(1)]) (use 2 o in simp_all)
      moreover have "?own(t := (?own t)(S_nxt := None, S_cur \<mapsto> p)) = own(t := own_r r')"
        using 2(3) o dn by simp
      ultimately have "core s' A N Z' (own(t := own_r r')) (dr(t := d)) (Suc n)" using core_Suc by simp
      then show ?thesis unfolding rd_stepped_def using z(2) dd r by (intro exI [of _ Z']) simp
    qed
  qed
qed

lemma own_r_simps [simp]: "own_r r S_dec = d_ref (x_drop r)"
  by (simp add: own_r_def)

lemma own_r_eqI:
  assumes "own_r r' S_cur = f S_cur" "own_r r' S_nxt = f S_nxt" "own_r r' S_dec = f S_dec"
  shows "own_r r' = f"
proof (rule ext)
  show "own_r r' sl = f sl" for sl using assms by (cases sl) simp_all
qed

text \<open>The pointer a search reads is NULL or that of a node that was allocated once.\<close>

lemma read_prev:
  assumes c: "core s A N Z own dr n" and n: "n < 2 ^ 64" and o: "own t = own_r r" and ok: "rd_ok s r"
    and pc: "x_pc r \<in> {X_load, X_check}" and cl: "closed s" and h: "\<And>b. heads s b \<notin> set (pool s)"
  shows "\<exists>q. get_loc s (x_prev r) = Some q \<and> even q \<and> q \<notin> set (pool s)"
proof (cases "x_prev r")
  case (Head b)
  then show ?thesis using coreD(10) [OF c] h by (simp add: even_mem_def)
next
  case (Next p)
  then have p: "p = x_cur r" using ok pc by (auto simp: rd_ok_def)
  then have "own t S_cur = Some (x_cur r)" using pc Next o by (auto simp: own_r_def)
  note P = core_ref [OF c n this]
  show ?thesis using P(2,4) coreD(10) [OF c] cl Next p by (auto simp: rd_def even_mem_def closed_def)
qed

lemma x_reader_core:
  assumes c: "core s A N Z own dr n" and n: "n < 2 ^ 64" and o: "own t = own_r r" and d: "dr t = x_drop r"
    and ok: "rd_ok s r" and cl: "closed s" and h: "\<And>b. heads s b \<notin> set (pool s)"
    and st: "x_search_step t s r = (s', r')"
  shows "rd_stepped s A N Z own dr n t s' r'"
proof -
  note quiet = rd_quiet [OF c o d] and ent = rd_enter [OF c o d] and dec = rd_dec [OF c n o d]
  note prev = read_prev [OF c n o ok _ cl h]
  have cur: "x_cur r \<noteq> NULL \<and> even (x_cur r)" if "own_r r S_cur = Some (x_cur r)"
    using core_ref [OF c n, of t S_cur "x_cur r"] o that by simp
  show ?thesis
  proof (cases "x_pc r")
    case X_load
    obtain q where q: "get_loc s (x_prev r) = Some q" "even q" "q \<notin> set (pool s)" using prev X_load by auto
    have s': "s' = s" and r': "r' = (let r = r\<lparr>x_q := q\<rparr> in if q = NULL then x_got r else r\<lparr>x_pc := X_count\<rparr>)"
      using st X_load q by (auto simp: x_search_step_def clean_even)
    show ?thesis
    proof (cases "q = NULL")
      case False
      then show ?thesis unfolding s'
        by (intro quiet) (use r' X_load ok q in \<open>auto simp: own_r_def rd_ok_def dropping_def fun_eq_iff split: slot.split\<close>)
    next
      case True
      show ?thesis
      proof (cases "x_prev r")
        case (Head b)
        then have "r' = r\<lparr>x_q := q, x_cur := q, x_pc := X_ret 0\<rparr>" using r' True by (simp add: x_got_def x_next_def)
        then show ?thesis unfolding s'
          by (intro quiet) (use X_load ok Head in \<open>auto simp: own_r_def rd_ok_def dropping_def fun_eq_iff split: slot.split\<close>)
      next
        case (Next p)
        then have p: "p = x_cur r" using ok X_load by (auto simp: rd_ok_def)
        then have "r' = r\<lparr>x_q := q, x_pc := X_drop, x_drop := enter (x_cur r) []\<rparr>"
          using r' True Next by (simp add: x_got_def)
        moreover have o1: "own_r r S_cur = Some (x_cur r)" using X_load Next p by (simp add: own_r_def)
        moreover have "enter (x_cur r) [] = \<lparr>d_pc = K_assert (x_cur r), d_stack = []\<rparr>"
          using cur [OF o1] by (simp add: enter_def clean_even)
        ultimately show ?thesis unfolding s'
          by (intro ent [of S_cur "x_cur r"] own_r_eqI)
            (use X_load ok True in \<open>auto simp: own_r_def rd_ok_def dropping_def d_ref_def\<close>)
      qed
    qed
  next
    case X_count
    then have q: "x_q r \<noteq> NULL" "even (x_q r)" using ok by (auto simp: rd_ok_def)
    have s': "s' = s" "r' = (if rc (node s (x_q r)) = 0 then r\<lparr>x_pc := X_load\<rparr>
        else r\<lparr>x_old := rc (node s (x_q r)), x_pc := X_cas\<rparr>)"
      using st X_count q by (auto simp: x_search_step_def clean_even mem_simps)
    show ?thesis unfolding s'(1)
      by (intro quiet) (use s'(2) X_count ok in \<open>auto simp: own_r_def rd_ok_def dropping_def fun_eq_iff split: slot.split\<close>)
  next
    case X_cas
    then have q: "x_q r \<noteq> NULL" "even (x_q r)" "x_q r \<notin> set (pool s)" "x_old r \<noteq> 0" using ok by (auto simp: rd_ok_def)
    show ?thesis
    proof (cases "rc (node s (x_q r)) = x_old r")
      case False
      then have "s' = s" "r' = r\<lparr>x_pc := X_count\<rparr>"
        using st X_cas q by (auto simp: x_search_step_def clean_even mem_simps)
      then show ?thesis
        by (simp, intro quiet) (use X_cas ok in \<open>auto simp: own_r_def rd_ok_def dropping_def fun_eq_iff split: slot.split\<close>)
    next
      case True
      then have s': "s' = set_rc (x_q r) (rc (node s (x_q r)) + 1) s" "r' = r\<lparr>x_pc := X_check\<rparr>"
        using st X_cas q by (auto simp: x_search_step_def clean_even mem_simps)
      have sl: "own t S_nxt = None" using o X_cas by (simp add: own_r_def)
      have "own_r r' = (own_r r)(S_nxt \<mapsto> x_q r)" by (rule own_r_eqI) (use X_cas s'(2) in \<open>simp_all add: own_r_def\<close>)
      then have e: "own(t := own_r r') = own(t := (own t)(S_nxt \<mapsto> x_q r))" using o by simp
      have dd: "dr(t := x_drop r') = dr" using d s'(2) by (simp add: fun_upd_idem)
      have "core s' A N Z (own(t := own_r r')) (dr(t := x_drop r')) (Suc n)"
        unfolding e dd s'(1) by (rule core_acquire [OF c n q(3)]) (use True q(4) sl in simp_all)
      moreover have "rd_ok s' r'" using ok X_cas s' by (auto simp: rd_ok_def dropping_def set_rc_def)
      moreover have "rc_frame s s'" unfolding s'(1) by (rule rc_frame_set_rc)
      ultimately show ?thesis unfolding rd_stepped_def dd by (intro exI [of _ Z]) (simp add: reclaims_refl)
    qed
  next
    case X_check
    obtain q where q: "get_loc s (x_prev r) = Some q" using prev X_check by auto
    have xq: "x_q r \<noteq> NULL" "even (x_q r)" using ok X_check by (auto simp: rd_ok_def)
    have en: "enter (x_q r) [] = \<lparr>d_pc = K_assert (x_q r), d_stack = []\<rparr>"
      using xq by (simp add: enter_def clean_even)
    have s': "s' = s" and r': "r' = (if x_q r = q then x_got r else r\<lparr>x_pc := X_undo, x_drop := enter (x_q r) []\<rparr>)"
      using st X_check q xq by (auto simp: x_search_step_def clean_even)
    show ?thesis
    proof (cases "x_q r = q")
      case False
      then show ?thesis unfolding s'
        by (intro ent [of S_nxt "x_q r"] own_r_eqI)
          (use X_check ok r' en in \<open>auto simp: own_r_def rd_ok_def dropping_def d_ref_def\<close>)
    next
      case True
      show ?thesis
      proof (cases "x_prev r")
        case (Head b)
        then have rr: "r' = r\<lparr>x_cur := x_q r, x_pc := X_key\<rparr>" using r' True xq by (simp add: x_got_def x_next_def)
        have a: "own t S_nxt = Some (x_q r)" "own t S_cur = None" using o X_check Head by (simp_all add: own_r_def)
        have "own_r r' = (own_r r)(S_nxt := None, S_cur \<mapsto> x_q r)"
          by (rule own_r_eqI) (use X_check rr in \<open>simp_all add: own_r_def\<close>)
        then have e: "own(t := own_r r') = own(t := (own t)(S_nxt := None, S_cur \<mapsto> x_q r))" using o by simp
        have dd: "dr(t := x_drop r') = dr" using d rr by (simp add: fun_upd_idem)
        have "core s A N Z (own(t := own_r r')) (dr(t := x_drop r')) n"
          unfolding e dd by (rule core_move [OF c a]) simp_all
        moreover have "rd_ok s r'" using ok X_check rr by (auto simp: rd_ok_def dropping_def)
        ultimately show ?thesis unfolding rd_stepped_def s' using core_Suc rc_frame_refl dd
          by (intro exI [of _ Z]) (simp add: reclaims_refl)
      next
        case (Next p)
        then have p: "p = x_cur r" using ok X_check by (auto simp: rd_ok_def)
        then have rr: "r' = r\<lparr>x_pc := X_drop, x_drop := enter (x_cur r) []\<rparr>" using r' True Next by (simp add: x_got_def)
        have o1: "own_r r S_cur = Some (x_cur r)" using X_check Next p by (simp add: own_r_def)
        then have "enter (x_cur r) [] = \<lparr>d_pc = K_assert (x_cur r), d_stack = []\<rparr>"
          using cur [OF o1] by (simp add: enter_def clean_even)
        then show ?thesis unfolding s'
          by (intro ent [of S_cur "x_cur r"] own_r_eqI)
            (use X_check ok rr xq o1 in \<open>auto simp: own_r_def rd_ok_def dropping_def d_ref_def\<close>)
      qed
    qed
  next
    case X_undo
    then have "x_dec t (\<lambda>r. r\<lparr>x_pc := X_load\<rparr>) s r = (s', r')" using st by (simp add: x_search_step_def)
    then show ?thesis
      by (rule dec) (use X_undo ok in \<open>auto simp: own_r_def rd_ok_def dropping_def d_ref_def intro!: own_r_eqI disjI1\<close>)
  next
    case X_key
    then have "own_r r S_cur = Some (x_cur r)" by (simp add: own_r_def)
    then have s': "s' = s" "r' = (if x_key r \<le> keyof s (x_cur r) then r\<lparr>x_pc := X_eq\<rparr>
        else r\<lparr>x_prev := Next (x_cur r), x_pc := X_load\<rparr>)"
      using st X_key cur by (auto simp: x_search_step_def mem_simps)
    show ?thesis unfolding s'(1)
      by (intro quiet) (use s'(2) X_key ok in \<open>auto simp: own_r_def rd_ok_def dropping_def fun_eq_iff split: slot.split\<close>)
  next
    case X_eq
    then have o1: "own_r r S_cur = Some (x_cur r)" by (simp add: own_r_def)
    then have s': "s' = s" "r' = r\<lparr>x_pc := X_last (if keyof s (x_cur r) = x_key r then 1 else 0), x_drop := enter (x_cur r) []\<rparr>"
      using st X_eq cur by (auto simp: x_search_step_def mem_simps)
    have "enter (x_cur r) [] = \<lparr>d_pc = K_assert (x_cur r), d_stack = []\<rparr>"
      using cur [OF o1] by (simp add: enter_def clean_even)
    then show ?thesis unfolding s'(1)
      by (intro ent [of S_cur "x_cur r"] own_r_eqI)
        (use X_eq ok s'(2) o1 in \<open>auto simp: own_r_def rd_ok_def dropping_def d_ref_def\<close>)
  next
    case X_drop
    then have "x_dec t x_next s r = (s', r')" using st by (simp add: x_search_step_def)
    then show ?thesis
    proof (rule dec)
      fix d :: drop
      show "own_r (r\<lparr>x_drop := d\<rparr>) = (own_r r)(S_dec := d_ref d) \<and> rd_ok s' (r\<lparr>x_drop := d\<rparr>)"
        using X_drop ok by (auto simp: own_r_def rd_ok_def dropping_def intro!: own_r_eqI)
      assume dn: "d_pc d = K_done"
      let ?r = "x_next (r\<lparr>x_drop := d\<rparr>)"
      have "own_r ?r = (own_r r)(S_dec := None) \<or> (\<exists>p. own_r r S_nxt = Some p \<and> own_r r S_cur = None \<and>
          own_r ?r = (own_r r)(S_dec := None, S_nxt := None, S_cur \<mapsto> p))"
      proof (cases "x_q r = NULL")
        case True
        then show ?thesis using X_drop dn by (intro disjI1 own_r_eqI) (simp_all add: own_r_def x_next_def d_ref_def)
      next
        case False
        then have "own_r ?r = (own_r r)(S_dec := None, S_nxt := None, S_cur \<mapsto> x_q r)"
          using X_drop dn by (intro own_r_eqI) (simp_all add: own_r_def x_next_def d_ref_def)
        then show ?thesis using X_drop False by (simp add: own_r_def)
      qed
      then show "x_drop ?r = d \<and> rd_ok s' ?r \<and> (own_r ?r = (own_r r)(S_dec := None) \<or>
          (\<exists>p. own_r r S_nxt = Some p \<and> own_r r S_cur = None \<and>
             own_r ?r = (own_r r)(S_dec := None, S_nxt := None, S_cur \<mapsto> p)))"
        using dn by (simp add: rd_ok_def dropping_def x_next_def)
    qed
  next
    case (X_last v)
    then have "x_dec t (\<lambda>r. r\<lparr>x_pc := X_ret v\<rparr>) s r = (s', r')" using st by (simp add: x_search_step_def)
    then show ?thesis
      by (rule dec) (use X_last ok in \<open>auto simp: own_r_def rd_ok_def dropping_def d_ref_def intro!: own_r_eqI disjI1\<close>)
  next
    case X_fault
    then show ?thesis using ok by (simp add: rd_ok_def)
  next
    case (X_ret v)
    then have "s' = s" "r' = r" using st by (auto simp: x_search_step_def)
    then show ?thesis using quiet ok by simp
  qed
qed

end
