(* ===== verification/Ref_Count_Updater.thy ===== *)
theory Ref_Count_Updater imports Ref_Count_Threads Threaded_Writer begin

text \<open>
  The updater of the reference counting machine: its place in the bucket, as in
  \<open>Gecos_Search\<close>, and its references.
\<close>

section \<open>The updater's place\<close>

lemma winvq_bare_cong:
  assumes "winvq (bare s) w L Q" and f: "rc_frame s s'" and Q: "Q' \<subseteq> Q"
  shows "winvq (bare s') w L Q'"
proof -
  note W = winvD [OF assms(1)]
  have n: "nxts s' = nxts s" "keyof s' = keyof s" "heads s' = heads s" "pool s' = pool s"
    using f by (simp_all add: rc_frame_def)
  have "buckets s' L" using W(1) n by (simp add: buckets_def)
  moreover have "wpc_inv s' w L" using W(5) wpc_inv_cong [of s' s w L] f by (simp add: rc_frame_def)
  moreover have "closed s'" using W(4) f by (simp add: closed_def rc_frame_def)
  moreover have "alloc_ok (bare s') (linked L \<union> held w \<union> Q')" using W(2) Q by (auto simp: bare_alloc_ok n(4))
  moreover have "Q' \<inter> (linked L \<union> held w) = {}" using W(6) Q by blast
  ultimately show ?thesis using W(3) by (simp add: winvq_def)
qed

definition abs_w :: "xwriter \<Rightarrow> writer" where
  "abs_w W = (let w = xw W in
     if w_pc w = D_free then w\<lparr>w_pc := W_idle\<rparr> else if xw_sub W = Sub_xadd then w\<lparr>w_pc := I_key\<rparr> else w)"

text \<open>The nodes in the updater's hands: with the reference of the list, and the new one without.\<close>

definition cheld :: "xwriter \<Rightarrow> ptr set" where
  "cheld W = (if w_pc (xw W) = D_free then {} else held (xw W))"

definition nheld :: "xwriter \<Rightarrow> ptr set" where
  "nheld W = (if xw_sub W = Sub_xadd then {w_new (xw W)} - {NULL} else {})"

definition own_w :: "xwriter \<Rightarrow> slot \<Rightarrow> ptr option" where
  "own_w W sl = (case sl of S_dec \<Rightarrow> d_ref (xw_drop W) | _ \<Rightarrow> None)"

text \<open>No link of an unlinked node leads to the new node.\<close>

definition new_private :: "talloc \<Rightarrow> xwriter \<Rightarrow> ptr set \<Rightarrow> bool" where
  "new_private s W Z \<longleftrightarrow> (w_pc (abs_w W) \<in> {I_key, I_next, I_link} \<longrightarrow> w_new (xw W) \<noteq> NULL \<longrightarrow>
     (\<forall>z\<in>Z. nxt (node s z) \<noteq> w_new (xw W)))"

definition wr_ok :: "talloc \<Rightarrow> xwriter \<Rightarrow> (nat \<Rightarrow> ptr list) \<Rightarrow> ptr set \<Rightarrow> ptr set \<Rightarrow> bool" where
  "wr_ok s W L Z S \<longleftrightarrow> winvq (bare s) (abs_w W) L (Z \<union> S) \<and> even (w_cur (xw W)) \<and> even (w_new (xw W)) \<and>
     (xw_sub W = Sub_xadd \<longrightarrow> w_pc (xw W) = I_alloc) \<and>
     (\<forall>p. xw_sub W = Sub_inc p \<longrightarrow> w_pc (xw W) = D_bump \<and> p = nxt (node s (w_cur (xw W))) \<and> p \<noteq> NULL) \<and>
     (w_pc (xw W) \<noteq> D_free \<longrightarrow> d_pc (xw_drop W) = K_done) \<and> new_private s W Z"

lemma abs_held: "wr_ok s W L Z S \<Longrightarrow> held (abs_w W) = cheld W \<union> nheld W"
  by (auto simp: wr_ok_def abs_w_def cheld_def nheld_def held_def Let_def)

section \<open>The steps of \<open>list_writer.c\<close>\<close>

lemma set_loc_even:
  fixes s :: talloc
  assumes "set_loc l v s = Some s'"
  shows "even_mem s \<Longrightarrow> even v \<Longrightarrow> even_mem s'"
  using assms by (cases l; auto simp: wr_def even_mem_def split: if_splits)

lemma writer_step_locals:
  assumes "writer_step s w = (s', w')" and "w_pc w \<notin> {I_alloc, D_free, D_bump}"
  shows "w_new w' = w_new w" "w_pc w' \<noteq> D_free" "w_pc w' \<in> {I_key, I_next, I_link} \<Longrightarrow> w_pc w \<in> {I_key, I_next}"
    "w_pc w' = D_bump \<Longrightarrow> w_pc w = D_unlink"
  using assms
  by (cases "w_pc w"; auto simp: writer_step_def store_def finish_def Let_def split: option.splits if_splits; fail)+

lemma even_memD: "even_mem s \<Longrightarrow> even (nxt (node s p))" "even_mem s \<Longrightarrow> even (heads s b)"
  by (simp_all add: even_mem_def)

lemma writer_step_even:
  fixes s :: talloc
  assumes "writer_step s w = (s', w')" and "w_pc w \<notin> {I_alloc, D_free, D_bump}"
    and e: "even_mem s" "even (w_cur w)" "even (w_new w)"
  shows "even_mem s'" "even (w_cur w')"
proof -
  have wr: "even_mem s'" if "wr p f s = Some s'" "\<And>m. mr_next (f m) = mr_next m" "\<And>m. even (nxt m) \<Longrightarrow> even (nxt (f m))" for p f s'
    using that e(1) by (auto simp: wr_def even_mem_def split: if_splits)
  show "even (w_cur w')" using assms(1,2) e
    by (cases "w_pc w") (auto simp: writer_step_def store_def finish_def Let_def even_memD split: option.splits if_splits)
  show "even_mem s'" using assms(1,2) e
    by (cases "w_pc w")
      (auto simp: writer_step_def store_def finish_def Let_def even_memD split: option.splits if_splits
        elim!: set_loc_even wr)
qed

section \<open>What a step of the updater does to the nodes\<close>

text \<open>
  Nodes of a bucket stay or are the one just unlinked; that one is unlinked for good
  next; unlinked nodes stay unless they have no references.
\<close>

definition up_evolves ::
    "talloc \<Rightarrow> xwriter \<Rightarrow> (nat \<Rightarrow> ptr list) \<Rightarrow> ptr set \<Rightarrow> (nat \<Rightarrow> slot \<Rightarrow> ptr option) \<Rightarrow>
     talloc \<Rightarrow> xwriter \<Rightarrow> (nat \<Rightarrow> ptr list) \<Rightarrow> ptr set \<Rightarrow> bool" where
  "up_evolves s W L Z own s' W' L' Z' \<longleftrightarrow> set (pool s') \<subseteq> set (pool s) \<and>
     (\<forall>p b. p \<in> set (L b) \<longrightarrow> keyof s' p = keyof s p \<and>
        (p \<in> set (L' b) \<or> w_pc (xw W') = D_bump \<and> w_bucket (xw W') = b \<and> w_cur (xw W') = p \<and> nxt (node s' p) = nxt (node s p))) \<and>
     (\<forall>p. w_pc (xw W) = D_bump \<and> w_cur (xw W) = p \<longrightarrow> keyof s' p = keyof s p \<and> nxt (node s' p) = nxt (node s p) \<and>
        (p \<in> Z' \<or> w_pc (xw W') = D_bump \<and> w_bucket (xw W') = w_bucket (xw W) \<and> w_cur (xw W') = p)) \<and>
     (\<forall>p\<in>Z. keyof s' p = keyof s p \<and> nxt (node s' p) = nxt (node s p) \<and>
        (p \<in> Z' \<or> p \<notin> ran (refs (linked L \<union> cheld W) Z (nxts s) own)))"

definition wr_stepped ::
    "talloc \<Rightarrow> xwriter \<Rightarrow> (nat \<Rightarrow> ptr list) \<Rightarrow> ptr set \<Rightarrow> (nat \<Rightarrow> slot \<Rightarrow> ptr option) \<Rightarrow> (nat \<Rightarrow> drop) \<Rightarrow> nat \<Rightarrow>
     talloc \<Rightarrow> xwriter \<Rightarrow> bool" where
  "wr_stepped s W L Z own dr n s' W' \<longleftrightarrow> (\<exists>L' Z'.
     core s' (linked L' \<union> cheld W') (nheld W') Z' (own(0 := own_w W')) (dr(0 := xw_drop W')) (Suc n) \<and>
     wr_ok s' W' L' Z' (stacked (dr(0 := xw_drop W'))) \<and> up_evolves s W L Z own s' W' L' Z')"

lemma wr_plain:
  assumes c: "core s (linked L \<union> cheld W) (nheld W) Z own dr n" and o: "own 0 = own_w W" "dr 0 = xw_drop W"
    and ok: "wr_ok s W L Z (stacked dr)"
    and pc: "xw_sub W = Sub_none" "w_pc (xw W) \<notin> {I_alloc, D_free, D_bump}"
    and st: "xw_step s W = (s', W')"
  shows "wr_stepped s W L Z own dr n s' W'"
proof -
  let ?w = "xw W" and ?Q = "Z \<union> stacked dr" and ?w' = "xw W'"
  have aw: "abs_w W = ?w" using pc by (simp add: abs_w_def Let_def)
  have st': "writer_step s ?w = (s', ?w')" and W': "W' = W\<lparr>xw := ?w'\<rparr>"
    using st pc by (auto simp: xw_step_def Let_def split: prod.splits)
  have inv: "winvq (bare s) ?w L ?Q" and ev: "even (w_cur ?w)" "even (w_new ?w)" and np: "new_private s W Z"
    using ok by (simp_all add: wr_ok_def aw)
  note raw = writer_step_raw [OF st' pc(2)] and loc = writer_step_locals [OF st' pc(2)]
  have sb: "writer_step (bare s) ?w = (bare s', ?w')" by (rule writer_step_bare [OF st']) (use pc(2) in auto)
  obtain L' base' where x: "winvq (bare s') ?w' L' ?Q"
    "evolves (bare s) ?w L (\<lambda>p. gc (node s p)) (\<lambda>_. 0) (bare s') ?w' L' base' (\<lambda>_. 0)"
    using writer_step_inv [OF inv _ sb, of "\<lambda>p. gc (node s p)" "\<lambda>_. 0" 0] pc(2) by (auto simp: eras_def)
  have park: "node s' p = node s p" if "p \<in> ?Q" for p
    using writer_step_parked(1) [OF inv sb _ that] pc(2) by simp
  have bump: "w_pc ?w' = D_bump \<Longrightarrow> node s' (w_cur ?w') = node s (w_cur ?w')"
    using writer_step_parked(2) [OF inv sb] pc(2) by simp
  have "cheld W = held ?w" "cheld W' = held ?w'" using pc(2) loc(2) by (simp_all add: cheld_def)
  then have A: "linked L' \<union> cheld W' = linked L \<union> cheld W" using plain_nodes [OF inv x(1) sb pc(2)] by simp
  have sub: "xw_sub W' = Sub_none" "xw_drop W' = xw_drop W"
    using arg_cong [OF W', of xw_sub] arg_cong [OF W', of xw_drop] pc(1) by simp_all
  have "own_w W' = own_w W" unfolding own_w_def sub(2) ..
  then have own: "own(0 := own_w W') = own" using o by (simp add: fun_upd_idem)
  have N: "nheld W' = nheld W" and dr: "dr(0 := xw_drop W') = dr" and aw': "abs_w W' = ?w'"
    using o sub pc(1) loc(2) by (simp_all add: nheld_def fun_upd_idem abs_w_def Let_def)
  have e: "even_mem s'" "even (w_cur ?w')" using writer_step_even [OF st' pc(2) coreD(10) [OF c] ev] .
  have "core s' (linked L \<union> cheld W) (nheld W) Z own dr n"
  proof (rule core_mem [OF c _ _ _ _ e(1)])
    show "keyof s' z = keyof s z \<and> keyof s' (nxt (node s z)) = keyof s (nxt (node s z))" if z: "z \<in> Z" for z
    proof -
      have "nxt (node s z) \<noteq> w_new ?w" if "w_pc ?w = I_key" "w_new ?w \<noteq> NULL"
        using np z that by (simp add: new_private_def aw)
      then show ?thesis using park [of z] z raw(3) [of "nxt (node s z)"] by auto
    qed
    show "mt_ok s' (linked L \<union> cheld W \<union> nheld W \<union> Z \<union> stacked dr)"
      by (rule mt_ok_cong [OF coreD(9) [OF c]]) (simp_all add: raw)
  qed (use raw park in auto)
  moreover have "new_private s' W' Z"
    using np loc(1,3) park unfolding new_private_def aw aw' by auto
  then have "wr_ok s' W' L' Z (stacked dr)"
    using ok x(1) e(2) ev(2) loc(1,2) pc sub unfolding wr_ok_def aw' by auto
  moreover have "up_evolves s W L Z own s' W' L' Z"
  proof -
    have "keyof s' p = keyof s p \<and> inlist ?w' L' b p" if "p \<in> set (L b)" for p b
    proof -
      have "p \<notin> set (pool s)" using winv_pool [OF inv] linkedI that by fastforce
      then show ?thesis using x(2) that by (simp add: evolves_def inlist_def)
    qed
    then have "keyof s' p = keyof s p \<and> (p \<in> set (L' b) \<or> w_pc ?w' = D_bump \<and> w_bucket ?w' = b \<and> w_cur ?w' = p \<and>
        nxt (node s' p) = nxt (node s p))" if "p \<in> set (L b)" for p b
      using that bump unfolding inlist_def by metis
    then show ?thesis unfolding up_evolves_def using park raw(4) pc(2) by auto
  qed
  ultimately show ?thesis unfolding wr_stepped_def
    by (intro exI [of _ L'] exI [of _ Z]) (simp add: A N own dr core_Suc)
qed

section \<open>The steps of \<open>list_rc.c\<close>\<close>

text \<open>The new node gets the reference of the list.\<close>

lemma core_count_new:
  assumes c: "core s A N Z own dr n" and p: "p \<in> N"
  shows "core (set_rc p (rc (node s p) + 1) s) (insert p A) (N - {p}) Z own dr (Suc n)"
proof -
  note C = coreD [OF c]
  let ?R = "refs A Z (nxts s) own" and ?s = "set_rc p (rc (node s p) + 1) s"
  have pA: "p \<notin> A" "p \<notin> Z" "p \<notin> stacked dr" using p C(7,8) by blast+
  then have x: "?R (By_link p) = None" by (simp add: refs_def)
  have R': "refs (insert p A) Z (nxts ?s) own = ?R(By_link p \<mapsto> p)" unfolding refs_upd(2) set_rc_simps(4) ..
  have rn: "ran (?R(By_link p \<mapsto> p)) = insert p (ran ?R)" using x by simp
  have U: "insert p A \<union> (N - {p}) \<union> Z \<union> stacked dr = A \<union> N \<union> Z \<union> stacked dr" using p by blast
  have "counted ?s (?R(By_link p \<mapsto> p)) (Suc n)" by (rule counted_add [of s ?R n, OF C(1) x])
  moreover have "mt_ok ?s (A \<union> N \<union> Z \<union> stacked dr)" by (rule mt_ok_cong [OF C(9)]) (simp_all add: set_rc_def)
  moreover have "even_mem ?s" using C(10) by (simp add: even_mem_def set_rc_def)
  moreover have "q \<notin> insert p (ran ?R) \<longleftrightarrow> (\<exists>t. q \<in> zeroed (dr t))" if "q \<in> Z" for q using C(3) [OF that] pA(2) that by auto
  moreover have "insert p A \<inter> Z = {}" "(N - {p}) \<inter> (insert p A \<union> Z) = {}" "insert p (ran ?R) \<subseteq> insert p A \<union> Z"
    "stacked dr \<inter> (insert p A \<union> (N - {p}) \<union> Z) = {}"
    using C(2,6-8) pA by blast+
  ultimately show ?thesis unfolding core_def R' rn U using C(4,5,11,12) by simp
qed

text \<open>
  The deleted node: its link becomes a reference to the node behind it, and the
  updater begins to drop the reference the list had.
\<close>

lemma core_retire:
  assumes c: "core s A N Z own dr n" and p: "p \<in> A" and o: "own t S_dec = None" "d_pc (dr t) = K_done"
    and q: "q = nxt (node s p)" "q \<noteq> NULL \<Longrightarrow> q \<in> A \<and> keyof s p < keyof s q"
    and s': "s' = (if q = NULL then s else set_rc q (rc (node s q) + 1) s)"
  shows "core s' (A - {p}) N (insert p Z) (own(t := (own t)(S_dec \<mapsto> p))) (dr(t := enter p [])) (Suc n)"
    "enter p [] = \<lparr>d_pc = K_assert p, d_stack = []\<rparr>" "stacked (dr(t := enter p [])) = stacked dr"
proof -
  note C = coreD [OF c] and D = drops_okD [OF coreD(5) [OF c]]
  let ?R = "refs A Z (nxts s) own" and ?x = "By_link p" and ?y = "By_thread t S_dec" and ?z = "By_dead p"
  have pn: "p \<notin> Z" "p \<notin> N" "p \<notin> stacked dr" "p \<noteq> NULL" "even p"
    using p C(6-8) core_pool(2) [OF c] C(11) by blast+
  show e: "enter p [] = \<lparr>d_pc = K_assert p, d_stack = []\<rparr>" using pn by (simp add: enter_def clean_even)
  have sd: "d_stack (dr t) = []" using D(5) o(2) by simp
  then show ss: "stacked (dr(t := enter p [])) = stacked dr" by (intro stacked_same) (simp add: e)
  have z: "zeroed (enter p []) = {}" "zeroed (dr t) = {}" using o(2) by (simp_all add: e zeroed_def)
  have xy: "?R ?x = Some p" "?R ?y = None" "?R ?z = None" using p o(1) pn(1) by (simp_all add: refs_def)
  let ?M = "?R(?x := None, ?y \<mapsto> p)"
  let ?R' = "if q = NULL then ?M else ?M(?z \<mapsto> q)"
  have M: "?M ?z = None" "ran ?M = ran ?R" using xy(3) ran_move [of ?R ?x p ?y, OF xy(1,2)] by simp_all
  have cM: "counted s ?M n" by (rule counted_move [of s ?R n ?x p ?y, OF C(1) xy(1,2)])
  have nx: "nxts s' = nxts s" "keyof s' = keyof s" unfolding s' by auto
  have R': "refs (A - {p}) (insert p Z) (nxts s') (own(t := (own t)(S_dec \<mapsto> p))) = ?R'"
    unfolding nx by (auto simp: refs_def fun_eq_iff q(1) split: src.split)
  have cn: "counted s' ?R' (Suc n)"
    using counted_add [of s ?M n ?z q, OF cM M(1)] counted_Suc [OF cM] by (simp add: s')
  have "q \<in> ran ?R" if "q \<noteq> NULL"
  proof -
    have "?R (By_link q) = Some q" using q(2) that by (simp add: refs_def)
    then show ?thesis by (rule ranI)
  qed
  then have rn: "ran ?R' = ran ?R" using M by (auto simp: insert_absorb)
  have pr: "p \<in> ran ?R" using xy(1) by (rule ranI)
  have U: "A - {p} \<union> N \<union> insert p Z \<union> stacked dr = A \<union> N \<union> Z \<union> stacked dr" using p by blast
  have "drops_ok (dr(t := enter p [])) (insert p Z)"
    by (rule drops_okI [OF C(5)]) (use D(2) z in \<open>auto simp: e\<close>)
  moreover have "(\<exists>u. r \<in> zeroed ((dr(t := enter p [])) u)) \<longleftrightarrow> (\<exists>u. r \<in> zeroed (dr u))" for r
    using z by (metis fun_upd_apply)
  moreover have "r \<notin> ran ?R \<longleftrightarrow> (\<exists>t. r \<in> zeroed (dr t))" if "r \<in> insert p Z" for r
    using C(3) [of r] D(2) that pn(1) pr by blast
  moreover have "(own(t := (own t)(S_dec \<mapsto> p))) u S_dec = d_ref ((dr(t := enter p [])) u)" for u
    using C(4) by (simp add: e d_ref_def)
  moreover have "mt_ok s' (A \<union> N \<union> Z \<union> stacked dr)" by (rule mt_ok_cong [OF C(9)]) (simp_all add: s' set_rc_def)
  moreover have "even_mem s'" using C(10) by (simp add: even_mem_def s' set_rc_def)
  moreover have "ran ?R \<subseteq> A - {p} \<union> insert p Z" "(A - {p}) \<inter> insert p Z = {}" "N \<inter> (A - {p} \<union> insert p Z) = {}"
    "stacked dr \<inter> (A - {p} \<union> N \<union> insert p Z) = {}"
    using C(2,6-8) pn by blast+
  moreover have "\<forall>z\<in>insert p Z. nxt (node s' z) \<noteq> NULL \<longrightarrow> keyof s' z < keyof s' (nxt (node s' z))"
    using C(12) q by (simp add: nx fun_cong [OF nx(1)] fun_cong [OF nx(2)])
  ultimately show "core s' (A - {p}) N (insert p Z) (own(t := (own t)(S_dec \<mapsto> p))) (dr(t := enter p [])) (Suc n)"
    unfolding core_def R' rn ss U using cn C(11) by simp
qed

lemma own_w_cong: "xw_drop W' = xw_drop W \<Longrightarrow> own_w W' = own_w W"
  by (rule ext) (simp add: own_w_def split: slot.split)

lemma own_w_upd: "own_w W' = (own_w W)(S_dec := d_ref (xw_drop W'))"
  by (auto simp: own_w_def fun_eq_iff split: slot.split)

lemma wr_alloc:
  assumes c: "core s (linked L \<union> cheld W) (nheld W) Z own dr n" and o: "own 0 = own_w W" "dr 0 = xw_drop W"
    and ok: "wr_ok s W L Z (stacked dr)" and pc: "xw_sub W = Sub_none" "w_pc (xw W) = I_alloc"
    and st: "xw_step s W = (s', W')"
  shows "wr_stepped s W L Z own dr n s' W'"
proof -
  let ?w = "xw W" and ?Q = "Z \<union> stacked dr"
  note C = coreD [OF c]
  have aw: "abs_w W = ?w" and ch: "cheld W = {}" "nheld W = {}" "held ?w = {}"
    using pc by (simp_all add: abs_w_def Let_def cheld_def nheld_def held_def)
  have inv: "winvq (bare s) ?w L ?Q" using ok by (simp add: wr_ok_def aw)
  note W = winvD [OF inv]
  have C9: "mt_ok s (linked L \<union> ?Q)" using C(9) ch by (simp add: Un_assoc)
  obtain m s1 where m: "thread_new 0 s = Some (m, s1)" and mQ: "m \<notin> linked L \<union> ?Q"
    and mt: "mt_ok s1 (linked L \<union> ({m} - {NULL}) \<union> ?Q)"
    and wq: "winvq (bare s1) (?w\<lparr>w_new := m, w_pc := I_key\<rparr>) L ?Q"
    and ps: "set (pool s1) \<subseteq> set (pool s)" and nd: "\<forall>p. p \<noteq> m \<longrightarrow> node s1 p = node s p"
    using alloc_step [OF inv C9 pc(2)] by blast
  note M = thread_new_mem [OF m]
  let ?W = "W\<lparr>xw := ?w\<lparr>w_new := m\<rparr>, xw_sub := Sub_xadd\<rparr>"
  have st': "s' = s1" "W' = ?W" using st pc m by (auto simp: xw_step_def Let_def)
  let ?U = "linked L \<union> Z \<union> stacked dr"
  have mU: "m \<notin> ?U" using mQ by simp
  have N: "nheld ?W = {m} - {NULL}" and A: "cheld ?W = {}" and aw': "abs_w ?W = ?w\<lparr>w_new := m, w_pc := I_key\<rparr>"
    using pc by (simp_all add: nheld_def cheld_def held_def abs_w_def Let_def)
  have mt: "mt_ok s1 (linked L \<union> ({m} - {NULL}) \<union> Z \<union> stacked dr)" using mt by (simp add: Un_assoc)
  let ?R = "refs (linked L) Z (nxts s) own"
  have nz: "node s1 z = node s z" if "z \<in> ?U" for z using nd mU that by metis
  have R: "refs (linked L) Z (nxts s1) own = ?R"
    by (auto simp: refs_def fun_eq_iff nz split: src.split)
  have tz: "nxt (node s z) \<noteq> m" if "z \<in> Z" "m \<noteq> NULL" for z
  proof
    assume "nxt (node s z) = m"
    then have "?R (By_dead z) = Some m" using that by (simp add: refs_def)
    then have "m \<in> ran ?R" by (rule ranI)
    then show False using C(2) mU ch by auto
  qed
  have "counted s1 ?R n"
  proof -
    have f: "finite (dom ?R)" "card (dom ?R) \<le> n" "\<And>p. p \<notin> set (pool s) \<Longrightarrow> rc (node s p) = of_nat (cnt ?R p)"
      using C(1) ch by (auto simp: counted_def)
    have "rc (node s1 p) = of_nat (cnt ?R p)" if p: "p \<notin> set (pool s1)" for p
    proof (cases "p \<in> set (pool s)")
      case True
      then have pm: "p = m" "node s1 m = zero_node" using M(3) p by auto
      have "m \<notin> ran ?R" using C(2) mU ch by auto
      then show ?thesis using cnt_0 [OF f(1), of m] pm by (simp add: zero_node_def)
    next
      case False
      then have "node s1 p = node s p" using M(3) by (cases "p = m") auto
      then show ?thesis using f(3) [OF False] by simp
    qed
    then show ?thesis using f(1,2) by (simp add: counted_def)
  qed
  moreover have "even m" "even_mem s1" using M(4) [OF C(10)] by simp_all
  moreover have "nxt (node s1 z) \<noteq> NULL \<longrightarrow> keyof s1 z < keyof s1 (nxt (node s1 z))" if "z \<in> Z" for z
  proof -
    have "node s1 z = node s z" using nz that by simp
    moreover have "nxt (node s z) \<noteq> NULL \<Longrightarrow> node s1 (nxt (node s z)) = node s (nxt (node s z))"
      using nd tz [OF that] by (cases "m = NULL") auto
    ultimately show ?thesis using C(12) [OF that] by auto
  qed
  moreover have "({m} - {NULL}) \<inter> (linked L \<union> Z) = {}" "stacked dr \<inter> (linked L \<union> ({m} - {NULL}) \<union> Z) = {}"
    using mU C(8) ch by auto
  ultimately have core: "core s1 (linked L) ({m} - {NULL}) Z own dr n"
    unfolding core_def R using C(2-6,11) ch mt by auto
  have "winvq (bare s1) (abs_w ?W) L ?Q" using wq unfolding aw' .
  then have "wr_ok s1 ?W L Z (stacked dr)"
    using ok pc M(4) [OF C(10)] tz nz unfolding wr_ok_def new_private_def by (auto simp: aw')
  moreover have "up_evolves s W L Z own s1 ?W L Z"
    using ps nz pc unfolding up_evolves_def by (auto simp: linked_def)
  moreover have "own_w ?W = own_w W" by (rule own_w_cong) simp
  then have "own(0 := own_w ?W) = own" "dr(0 := xw_drop ?W) = dr" using o by (simp_all add: fun_upd_idem)
  ultimately show ?thesis unfolding wr_stepped_def st'
    by (intro exI [of _ L] exI [of _ Z]) (simp add: N A core_Suc [OF core])
qed

text \<open>A step that only touches counts leaves the updater where it is.\<close>

lemma wr_ok_frame:
  assumes "wr_ok s W L Z S" and f: "rc_frame s s'" and "Z' \<union> S' \<subseteq> Z \<union> S" and Z: "Z' \<subseteq> Z"
  shows "wr_ok s' W L Z' S'"
proof -
  have "winvq (bare s') (abs_w W) L (Z' \<union> S')"
    by (rule winvq_bare_cong [OF _ f assms(3)]) (use assms(1) in \<open>simp add: wr_ok_def\<close>)
  moreover have "nxt (node s' p) = nxt (node s p)" for p using f by (simp add: rc_frame_def)
  ultimately show ?thesis using assms(1) Z by (auto simp: wr_ok_def new_private_def)
qed

lemma wr_xadd:
  assumes c: "core s (linked L \<union> cheld W) (nheld W) Z own dr n" and o: "own 0 = own_w W" "dr 0 = xw_drop W"
    and ok: "wr_ok s W L Z (stacked dr)" and sub: "xw_sub W = Sub_xadd"
    and st: "xw_step s W = (s', W')"
  shows "wr_stepped s W L Z own dr n s' W'"
proof -
  let ?w = "xw W" and ?m = "w_new (xw W)"
  have pc: "w_pc ?w = I_alloc" using ok sub by (simp add: wr_ok_def)
  have inv: "winvq (bare s) (?w\<lparr>w_pc := I_key\<rparr>) L (Z \<union> stacked dr)"
    using ok sub pc by (simp add: wr_ok_def abs_w_def Let_def)
  have ch: "cheld W = {}" "nheld W = {?m} - {NULL}" using sub pc by (simp_all add: cheld_def held_def nheld_def)
  have ow: "own(0 := own_w W') = own" "dr(0 := xw_drop W') = dr" if "xw_drop W' = xw_drop W"
    using o that by (simp_all add: own_w_def [abs_def] fun_upd_idem)
  show ?thesis
  proof (cases "?m = NULL")
    case True
    then have st': "s' = s" "W' = xw_crash W" using st sub by (auto simp: xw_step_def Let_def mem_simps)
    have "winvq (bare s) (?w\<lparr>w_pc := W_crash\<rparr>) L (Z \<union> stacked dr)"
      using inv True by (simp add: winvq_def held_def wpc_inv_def)
    then have "wr_ok s (xw_crash W) L Z (stacked dr)"
      using ok pc unfolding wr_ok_def xw_crash_def by (simp add: abs_w_def new_private_def Let_def)
    moreover have "up_evolves s W L Z own s (xw_crash W) L Z" using pc by (simp add: up_evolves_def)
    moreover have "cheld (xw_crash W) = {}" "nheld (xw_crash W) = {}"
      by (simp_all add: xw_crash_def cheld_def nheld_def held_def)
    ultimately show ?thesis unfolding wr_stepped_def st'(1) using core_Suc [OF c] ch True ow st'(2)
      by (intro exI [of _ L] exI [of _ Z]) (simp add: xw_crash_def)
  next
    case False
    let ?s = "set_rc ?m (rc (node s ?m) + 1) s"
    have st': "s' = ?s" "W' = W\<lparr>xw := ?w\<lparr>w_pc := I_key\<rparr>, xw_sub := Sub_none\<rparr>"
      using st sub False by (auto simp: xw_step_def Let_def mem_simps atomic_xadd4_def)
    have aw: "abs_w W' = abs_w W" "xw_drop W' = xw_drop W" using st'(2) sub pc by (simp_all add: abs_w_def Let_def)
    have ch': "cheld W' = {?m}" "nheld W' = {}" using st'(2) False by (simp_all add: cheld_def held_def nheld_def)
    have f: "rc_frame s ?s" by (rule rc_frame_set_rc)
    have "core ?s (linked L \<union> cheld W') (nheld W') Z own dr (Suc n)"
      using core_count_new [OF c, of ?m] ch ch' False by simp
    moreover have "wr_ok ?s W L Z (stacked dr)" by (rule wr_ok_frame [OF ok f]) simp_all
    then have "wr_ok ?s W' L Z (stacked dr)"
      using aw pc st'(2) unfolding wr_ok_def new_private_def by simp
    moreover have "up_evolves s W L Z own ?s W' L Z"
      using f pc unfolding up_evolves_def rc_frame_def by simp
    ultimately show ?thesis unfolding wr_stepped_def st'(1) using ow [OF aw(2)]
      by (intro exI [of _ L] exI [of _ Z]) simp
  qed
qed

text \<open>The updater lets go of the node it unlinked.\<close>

lemma wr_release:
  assumes c: "core s (linked L \<union> cheld W) (nheld W) Z own dr n" and o: "own 0 = own_w W" "dr 0 = xw_drop W"
    and ok: "wr_ok s W L Z (stacked dr)" and pc: "w_pc (xw W) = D_bump" and q: "q = nxt (node s (w_cur (xw W)))"
    and s': "s' = (if q = NULL then s else set_rc q (rc (node s q) + 1) s)" and W': "W' = xw_release W"
  shows "wr_stepped s W L Z own dr n s' W'"
proof -
  let ?w = "xw W" and ?p = "w_cur (xw W)"
  have aw: "abs_w W = ?w" using ok pc by (auto simp: abs_w_def wr_ok_def Let_def)
  have inv: "winvq (bare s) ?w L (Z \<union> stacked dr)" using ok by (simp add: wr_ok_def aw)
  note W = winvD [OF inv]
  have h: "held ?w = {?p}" using pc by (simp add: held_def)
  have ch: "cheld W = {?p}" "nheld W = {}" using pc ok h by (auto simp: cheld_def nheld_def wr_ok_def)
  have pl: "?p \<notin> linked L" using W(3) h by simp
  have "wpc_inv s ?w L" using W(5) by simp
  then have "\<exists>us vs. L (w_bucket ?w) = us @ vs \<and> nxt (node s ?p) = first_ptr vs \<and>
      (\<forall>x\<in>set us. keyof s x < keyof s ?p) \<and> (\<forall>x\<in>set vs. keyof s ?p < keyof s x)"
    using pc by (simp add: wpc_inv_def)
  then obtain us vs where uv: "L (w_bucket ?w) = us @ vs" "q = first_ptr vs" "\<forall>x\<in>set vs. keyof s ?p < keyof s x"
    unfolding q [symmetric] by blast
  have ql: "q \<in> linked L \<and> keyof s ?p < keyof s q" if qn: "q \<noteq> NULL"
  proof -
    have "q \<in> set vs" using uv(2) qn by (cases vs) auto
    then show ?thesis using uv(1,3) linkedI [of q L "w_bucket ?w"] by simp
  qed
  have d: "d_pc (xw_drop W) = K_done" using ok pc by (simp add: wr_ok_def)
  note R = core_retire [OF c _ _ _ q _ s', of 0]
  have R: "core s' (linked L \<union> cheld W - {?p}) (nheld W) (insert ?p Z) (own(0 := (own 0)(S_dec \<mapsto> ?p)))
      (dr(0 := enter ?p [])) (Suc n)"
    "enter ?p [] = \<lparr>d_pc = K_assert ?p, d_stack = []\<rparr>" "stacked (dr(0 := enter ?p [])) = stacked dr"
    using R ch ql o d by (simp_all add: own_w_def d_ref_def)
  have Wx: "xw W' = ?w\<lparr>w_pc := D_free\<rparr>" "xw_sub W' = Sub_none" "xw_drop W' = enter ?p []"
    by (simp_all add: W' xw_release_def)
  have f: "rc_frame s s'" using rc_frame_set_rc rc_frame_refl by (simp add: s')
  have A: "linked L \<union> cheld W - {?p} = linked L \<union> cheld W'" "nheld W = nheld W'"
    using ch pl Wx by (auto simp: cheld_def nheld_def)
  have own: "own(0 := own_w W') = own(0 := (own 0)(S_dec \<mapsto> ?p))"
    using o Wx(3) R(2) own_w_upd [of W' W] by (simp add: d_ref_def)
  have aw': "abs_w W' = ?w\<lparr>w_pc := W_idle\<rparr>" using Wx by (simp add: abs_w_def Let_def)
  have "winvq (bare s) (?w\<lparr>w_pc := W_idle\<rparr>) L (insert ?p Z \<union> stacked dr)"
    using W h pl unfolding winvq_def bare_alloc_ok by (auto simp: held_def wpc_inv_def)
  then have "winvq (bare s') (abs_w W') L (insert ?p Z \<union> stacked dr)"
    unfolding aw' by (rule winvq_bare_cong [OF _ f order_refl])
  then have "wr_ok s' W' L (insert ?p Z) (stacked dr)"
    using ok Wx unfolding wr_ok_def new_private_def aw' by simp
  moreover have "up_evolves s W L Z own s' W' L (insert ?p Z)"
    using f unfolding up_evolves_def rc_frame_def by simp
  ultimately show ?thesis unfolding wr_stepped_def
    using R(1,3) A own Wx(3) by (intro exI [of _ L] exI [of _ "insert ?p Z"]) simp
qed

lemma wr_bump:
  assumes c: "core s (linked L \<union> cheld W) (nheld W) Z own dr n" and o: "own 0 = own_w W" "dr 0 = xw_drop W"
    and ok: "wr_ok s W L Z (stacked dr)" and pc: "w_pc (xw W) = D_bump" and st: "xw_step s W = (s', W')"
  shows "wr_stepped s W L Z own dr n s' W'"
proof -
  let ?p = "w_cur (xw W)"
  let ?q = "nxt (node s ?p)"
  have aw: "abs_w W = xw W" using ok pc by (auto simp: abs_w_def wr_ok_def Let_def)
  have "?p \<in> held (xw W)" using pc by (simp add: held_def)
  then have p: "?p \<noteq> NULL"
    using winvD(2) [of "bare s" "xw W" L "Z \<union> stacked dr"] ok by (auto simp: wr_ok_def aw bare_alloc_ok)
  show ?thesis
  proof (cases "xw_sub W")
    case (Sub_inc q)
    then have q: "q = ?q" "q \<noteq> NULL" using ok by (auto simp: wr_ok_def)
    then have "s' = set_rc ?q (rc (node s ?q) + 1) s" "W' = xw_release W"
      using st Sub_inc by (auto simp: xw_step_def Let_def mem_simps atomic_xadd4_def)
    then show ?thesis using q by (intro wr_release [OF c o ok pc HOL.refl]) simp_all
  next
    case Sub_xadd
    then show ?thesis using ok pc by (simp add: wr_ok_def)
  next
    case Sub_none
    show ?thesis
    proof (cases "?q = NULL")
      case True
      then have "s' = s" "W' = xw_release W" using st Sub_none pc p by (auto simp: xw_step_def Let_def mem_simps)
      then show ?thesis using True by (intro wr_release [OF c o ok pc HOL.refl]) simp_all
    next
      case False
      then have st': "s' = s" "W' = W\<lparr>xw_sub := Sub_inc ?q\<rparr>"
        using st Sub_none pc p by (auto simp: xw_step_def Let_def mem_simps)
      have x: "cheld W' = cheld W" "nheld W' = nheld W" "abs_w W' = abs_w W" "xw_drop W' = xw_drop W" "xw W' = xw W"
        using st'(2) Sub_none by (simp_all add: cheld_def nheld_def abs_w_def Let_def)
      have "own_w W' = own_w W" by (rule own_w_cong [OF x(4)])
      then have "own(0 := own_w W') = own" "dr(0 := xw_drop W') = dr" using o x by (simp_all add: fun_upd_idem)
      moreover have "wr_ok s W' L Z (stacked dr)"
        using ok pc False st'(2) unfolding wr_ok_def new_private_def x(3) by simp
      moreover have "up_evolves s W L Z own s W' L Z" using pc x(5) by (simp add: up_evolves_def)
      ultimately show ?thesis unfolding wr_stepped_def st'(1) using core_Suc [OF c] x
        by (intro exI [of _ L] exI [of _ Z]) simp
    qed
  qed
qed

lemma wr_free:
  assumes c: "core s (linked L \<union> cheld W) (nheld W) Z own dr n" and n: "n < 2 ^ 64"
    and o: "own 0 = own_w W" "dr 0 = xw_drop W"
    and ok: "wr_ok s W L Z (stacked dr)" and pc: "w_pc (xw W) = D_free" and st: "xw_step s W = (s', W')"
  shows "wr_stepped s W L Z own dr n s' W'"
proof -
  let ?w = "xw W"
  have sub: "xw_sub W = Sub_none" using ok pc by (cases "xw_sub W") (auto simp: wr_ok_def)
  obtain d where x: "dec_step 0 s (dr 0) = (s', d)"
    and W': "W' = (let W = W\<lparr>xw_drop := d\<rparr> in
        if d_pc d = K_done then W\<lparr>xw := finish 1 ?w\<rparr> else if d_pc d = K_fail then xw_crash W else W)"
    using st sub pc o(2) by (auto simp: xw_step_def Let_def split: prod.splits)
  obtain Z' where z: "core s' (linked L \<union> cheld W) (nheld W) Z' (own(0 := (own 0)(S_dec := d_ref d))) (dr(0 := d)) n"
    "Z' \<subseteq> Z" "Z' \<union> stacked (dr(0 := d)) \<subseteq> Z \<union> stacked dr"
    "\<forall>p\<in>Z - Z'. p \<notin> ran (refs (linked L \<union> cheld W) Z (nxts s) own)" "rc_frame s s'"
    using core_dec [OF c n x] by blast
  have "d_pc d \<noteq> K_fail" using drops_okD(3) [OF coreD(5) [OF z(1)], of 0] by simp
  then have Wx: "xw_drop W' = d" "xw_sub W' = Sub_none" "xw W' = (if d_pc d = K_done then finish 1 ?w else ?w)"
    using W' sub by (auto simp: Let_def)
  have ch: "cheld W' = cheld W" "nheld W' = nheld W" using Wx sub pc by (auto simp: cheld_def nheld_def finish_def held_def)
  have own: "own(0 := own_w W') = own(0 := (own 0)(S_dec := d_ref d))"
    using o(1) own_w_upd [of W' W] Wx(1) by simp
  have ok': "wr_ok s' W L Z' (stacked (dr(0 := d)))" by (rule wr_ok_frame [OF ok z(5,3,2)])
  have "winvq (bare s') (abs_w W') L (Z' \<union> stacked (dr(0 := d)))"
    using ok' Wx pc unfolding wr_ok_def
    by (auto simp: abs_w_def Let_def finish_def winvq_def held_def wpc_inv_def)
  then have "wr_ok s' W' L Z' (stacked (dr(0 := d)))"
    using ok' Wx pc unfolding wr_ok_def new_private_def by (auto simp: finish_def abs_w_def Let_def)
  moreover have "up_evolves s W L Z own s' W' L Z'"
    using z(4,5) pc unfolding up_evolves_def rc_frame_def by auto
  ultimately show ?thesis unfolding wr_stepped_def
    using core_Suc [OF z(1)] ch own Wx(1) by (intro exI [of _ L] exI [of _ Z']) simp
qed

lemma x_updater_core:
  assumes c: "core s (linked L \<union> cheld W) (nheld W) Z own dr n" and n: "n < 2 ^ 64"
    and o: "own 0 = own_w W" "dr 0 = xw_drop W"
    and ok: "wr_ok s W L Z (stacked dr)" and st: "xw_step s W = (s', W')"
  shows "wr_stepped s W L Z own dr n s' W'"
proof -
  have sub: "xw_sub W = Sub_none" if "w_pc (xw W) \<noteq> D_bump" "xw_sub W \<noteq> Sub_xadd"
    using ok that by (cases "xw_sub W") (auto simp: wr_ok_def)
  consider "xw_sub W = Sub_xadd" | "xw_sub W \<noteq> Sub_xadd" "w_pc (xw W) = D_bump"
    | "xw_sub W \<noteq> Sub_xadd" "w_pc (xw W) = D_free" | "xw_sub W \<noteq> Sub_xadd" "w_pc (xw W) = I_alloc"
    | "xw_sub W \<noteq> Sub_xadd" "w_pc (xw W) \<notin> {I_alloc, D_free, D_bump}"
    by auto
  then show ?thesis
  proof cases
    case 1
    show ?thesis by (rule wr_xadd [OF c o ok 1 st])
  next
    case 2
    show ?thesis by (rule wr_bump [OF c o ok 2(2) st])
  next
    case 3
    show ?thesis by (rule wr_free [OF c n o ok 3(2) st])
  next
    case 4
    then show ?thesis using sub by (intro wr_alloc [OF c o ok _ 4(2) st]) simp
  next
    case 5
    then show ?thesis using sub by (intro wr_plain [OF c o ok _ 5(2) st]) simp
  qed
qed

end
