(* ===== verification/Search_Evidence.thy ===== *)
theory Search_Evidence imports Gecos_Search begin

text \<open>
  What a search that holds on to unlinked nodes knows, for RCU and for reference
  counting.  \<open>H\<close> collects the key sets its bucket has had since the search began; \<open>seen\<close>
  is what the key of a node it can reach says about the answer, \<open>after\<close> what it knows of
  the pointer it follows next.
\<close>

definition seen :: "'w mem_scheme \<Rightarrow> int set set \<Rightarrow> int \<Rightarrow> ptr \<Rightarrow> bool" where
  "seen s H k p \<longleftrightarrow> (keyof s p = k \<longrightarrow> (\<exists>K\<in>H. k \<in> K)) \<and> (k < keyof s p \<longrightarrow> (\<exists>K\<in>H. k \<notin> K))"

definition after :: "'w mem_scheme \<Rightarrow> int set set \<Rightarrow> int \<Rightarrow> ptr set \<Rightarrow> ptr \<Rightarrow> bool" where
  "after s H k A p \<longleftrightarrow> (if p = NULL then \<exists>K\<in>H. k \<notin> K else p \<in> A \<and> seen s H k p)"

lemma after_mono:
  assumes "after s H k A p" and "H \<subseteq> H'" and "A \<subseteq> A'" and "\<And>q. q \<in> A \<Longrightarrow> keyof s' q = keyof s q"
  shows "after s' H' k A' p"
  using assms unfolding after_def seen_def by (auto split: if_splits)

text \<open>The node behind one of the bucket is in the bucket.\<close>

lemma linked_after:
  assumes inv: "winvq s w L Q" and p: "p \<in> set (L b)" and k: "keyof s p < k" and H: "bucket_keys s b \<in> H"
  shows "after s H k (set (L b)) (nxt (node s p))"
proof -
  have i: "inlist w L b p" using p by (simp add: inlist_def)
  have "nxt (node s p) = NULL \<or> nxt (node s p) \<in> set (L b)"
  proof -
    obtain us vs where "L b = us @ vs" "nxt (node s p) = first_ptr vs" using inlist_split [OF inv i] by blast
    then show ?thesis by (cases vs) auto
  qed
  then show ?thesis using next_evid [OF inv i k H, of "\<lambda>_. 0" 0]
    by (auto simp: after_def seen_def evid_def)
qed

lemma head_after:
  assumes inv: "winvq s w L Q" and H: "bucket_keys s b \<in> H"
  shows "after s H k (set (L b)) (heads s b)"
proof (cases "heads s b = NULL")
  case True
  then show ?thesis using empty_bucket [OF inv True] H by (auto simp: after_def)
next
  case False
  then have "heads s b \<in> set (L b)" using winv_heads(1) [OF inv, of b] by (cases "L b") auto
  then show ?thesis using head_evid [OF inv False H, of "\<lambda>_. 0" k 0] False
    by (auto simp: after_def seen_def evid_def)
qed

end
