(* ===== verification/Ref_Count_System.thy ===== *)
theory Ref_Count_System imports Ref_Count_Updater Search_Evidence begin

text \<open>
  Whole executions of the reference counting machine: the accounts stay right, and
  what a search knows when it walks over unlinked nodes it holds.
\<close>

section \<open>The invariant of the system\<close>

definition own_of :: "x_sys \<Rightarrow> nat \<Rightarrow> slot \<Rightarrow> ptr option" where
  "own_of c t = (case t of 0 \<Rightarrow> own_w (x_upd c) | Suc i \<Rightarrow> own_r (x_rds c i))"

definition drop_of :: "x_sys \<Rightarrow> nat \<Rightarrow> drop" where
  "drop_of c t = (case t of 0 \<Rightarrow> xw_drop (x_upd c) | Suc i \<Rightarrow> x_drop (x_rds c i))"

definition x_inv :: "x_sys \<Rightarrow> (nat \<Rightarrow> ptr list) \<Rightarrow> ptr set \<Rightarrow> nat \<Rightarrow> bool" where
  "x_inv c L Z n \<longleftrightarrow>
     core (x_sh c) (linked L \<union> cheld (x_upd c)) (nheld (x_upd c)) Z (own_of c) (drop_of c) n \<and>
     wr_ok (x_sh c) (x_upd c) L Z (stacked (drop_of c)) \<and> (\<forall>i. rd_ok (x_sh c) (x_rds c i))"

text \<open>\<open>n\<close> bounds the number of references, which the 64-bit counts must not exceed.\<close>

definition x_ok :: "nat \<Rightarrow> x_sys \<Rightarrow> bool" where
  "x_ok n c \<longleftrightarrow> (\<exists>L Z. x_inv c L Z n)"

lemma own_of_simps [simp]: "own_of c 0 = own_w (x_upd c)" "own_of c (Suc i) = own_r (x_rds c i)"
  "drop_of c 0 = xw_drop (x_upd c)" "drop_of c (Suc i) = x_drop (x_rds c i)"
  by (simp_all add: own_of_def drop_of_def)

lemma own_of_upd:
  "own_of (c\<lparr>x_sh := s, x_upd := W\<rparr>) = (own_of c)(0 := own_w W)"
  "drop_of (c\<lparr>x_sh := s, x_upd := W\<rparr>) = (drop_of c)(0 := xw_drop W)"
  "own_of (c\<lparr>x_sh := s, x_rds := (x_rds c)(i := r)\<rparr>) = (own_of c)(Suc i := own_r r)"
  "drop_of (c\<lparr>x_sh := s, x_rds := (x_rds c)(i := r)\<rparr>) = (drop_of c)(Suc i := x_drop r)"
  by (auto simp: own_of_def drop_of_def fun_eq_iff split: nat.split)

lemma rd_ok_pool:
  assumes ok: "rd_ok s r" and sub: "set (pool s') \<subseteq> set (pool s)"
  shows "rd_ok s' r"
proof -
  have "x_q r \<notin> set (pool s) \<Longrightarrow> x_q r \<notin> set (pool s')" using sub by blast
  then show ?thesis using ok by (simp add: rd_ok_def)
qed

text \<open>What the updater does between calls: nothing.\<close>

lemma x_start:
  assumes inv: "x_inv c L Z n" and W': "W' = (x_upd c)\<lparr>xw := w'\<rparr>"
    and w': "w' = start_delete k b (xw (x_upd c)) \<or> w' = start_insert (x_sh c) k b (xw (x_upd c))"
  shows "x_inv (c\<lparr>x_upd := W'\<rparr>) L Z n"
    "up_evolves (x_sh c) (x_upd c) L Z (own_of c) (x_sh c) W' L Z"
proof -
  let ?W = "x_upd c" and ?s = "x_sh c"
  have core: "core ?s (linked L \<union> cheld ?W) (nheld ?W) Z (own_of c) (drop_of c) n"
    and ok: "wr_ok ?s ?W L Z (stacked (drop_of c))" and rd: "\<And>i. rd_ok ?s (x_rds c i)"
    using inv by (auto simp: x_inv_def)
  have "x_inv (c\<lparr>x_upd := W'\<rparr>) L Z n \<and> up_evolves ?s ?W L Z (own_of c) ?s W' L Z"
  proof (cases "w_pc (xw ?W) = W_idle")
    case False
    then have "W' = ?W" using W' w' by (auto simp: start_delete_def start_insert_def)
    then show ?thesis using inv by (simp add: up_evolves_def)
  next
    case True
    then have sub: "xw_sub ?W = Sub_none" using ok by (cases "xw_sub ?W") (auto simp: wr_ok_def)
    have aw: "abs_w ?W = xw ?W" "abs_w W' = w'" and pc: "w_pc w' \<in> {D_test, I_loop}"
      using True sub W' w' by (auto simp: abs_w_def Let_def start_delete_def start_insert_def)
    have h: "cheld W' = cheld ?W" "nheld W' = nheld ?W" "xw_drop W' = xw_drop ?W" "xw_sub W' = Sub_none" "xw W' = w'"
      using True sub W' pc by (auto simp: cheld_def nheld_def held_def)
    have "winvq (bare ?s) (xw ?W) L (Z \<union> stacked (drop_of c))" using ok by (simp add: wr_ok_def aw)
    from start_delete_inv(1) [OF this, of k b] start_insert_inv(1) [OF this, of k b]
    have i: "winvq (bare ?s) w' L (Z \<union> stacked (drop_of c))" using w' by (auto simp: start_insert_def)
    have ev: "even (w_cur w')" "even (w_new w')"
      using ok w' coreD(10) [OF core] True by (auto simp: wr_ok_def start_delete_def start_insert_def even_mem_def)
    have "wr_ok ?s W' L Z (stacked (drop_of c))"
      using ok True i ev pc h unfolding wr_ok_def aw new_private_def by auto
    moreover have "own_of (c\<lparr>x_upd := W'\<rparr>) = own_of c" "drop_of (c\<lparr>x_upd := W'\<rparr>) = drop_of c"
      using own_w_cong [OF h(3)] h(3) by (auto simp: own_of_def drop_of_def fun_eq_iff split: nat.split)
    ultimately show ?thesis using core rd h True by (simp add: x_inv_def up_evolves_def)
  qed
  then show "x_inv (c\<lparr>x_upd := W'\<rparr>) L Z n" "up_evolves ?s ?W L Z (own_of c) ?s W' L Z" by simp_all
qed

lemma x_closed:
  assumes "x_inv c L Z n"
  shows "closed (x_sh c)" "heads (x_sh c) b \<notin> set (pool (x_sh c))"
    "winvq (bare (x_sh c)) (abs_w (x_upd c)) L (Z \<union> stacked (drop_of c))"
proof -
  show i: "winvq (bare (x_sh c)) (abs_w (x_upd c)) L (Z \<union> stacked (drop_of c))"
    using assms by (simp add: x_inv_def wr_ok_def)
  show "closed (x_sh c)" using winvD(4) [OF i] by simp
  show "heads (x_sh c) b \<notin> set (pool (x_sh c))" using winv_heads(2) [OF i] by simp
qed

lemma x_step_inv:
  assumes inv: "x_inv c L Z n" and n: "n < 2 ^ 64" and c': "c' = x_step a c"
  shows "\<exists>L' Z'. x_inv c' L' Z' (Suc n) \<and>
    up_evolves (x_sh c) (x_upd c) L Z (own_of c) (x_sh c') (x_upd c') L' Z' \<and>
    ((\<exists>i. a = Reader i) \<longrightarrow> L' = L \<and> rc_frame (x_sh c) (x_sh c') \<and> x_upd c' = x_upd c)"
proof -
  let ?s = "x_sh c" and ?W = "x_upd c"
  have core: "core ?s (linked L \<union> cheld ?W) (nheld ?W) Z (own_of c) (drop_of c) n"
    and ok: "wr_ok ?s ?W L Z (stacked (drop_of c))" and rd: "\<And>i. rd_ok ?s (x_rds c i)"
    using inv by (auto simp: x_inv_def)
  have more: "x_inv c L' Z' n \<Longrightarrow> x_inv c L' Z' (Suc n)" for c L' Z' by (simp add: x_inv_def core_Suc)
  show ?thesis
  proof (cases a)
    case (Start_delete k b)
    then have "c' = c\<lparr>x_upd := ?W\<lparr>xw := start_delete k b (xw ?W)\<rparr>\<rparr>" using c' by simp
    then show ?thesis using more [OF x_start(1) [OF inv HOL.refl]] x_start(2) [OF inv HOL.refl] Start_delete by fastforce
  next
    case (Start_insert k b)
    then have "c' = c\<lparr>x_upd := ?W\<lparr>xw := start_insert ?s k b (xw ?W)\<rparr>\<rparr>" using c' by simp
    then show ?thesis using more [OF x_start(1) [OF inv HOL.refl]] x_start(2) [OF inv HOL.refl] Start_insert by fastforce
  next
    case Updater
    obtain s' W' where st: "xw_step ?s ?W = (s', W')" by force
    then have c'': "c' = c\<lparr>x_sh := s', x_upd := W'\<rparr>" using c' Updater by simp
    have "wr_stepped ?s ?W L Z (own_of c) (drop_of c) n s' W'"
      by (rule x_updater_core [OF core n _ _ ok st]) simp_all
    then obtain L' Z' where x:
      "core s' (linked L' \<union> cheld W') (nheld W') Z' ((own_of c)(0 := own_w W')) ((drop_of c)(0 := xw_drop W')) (Suc n)"
      "wr_ok s' W' L' Z' (stacked ((drop_of c)(0 := xw_drop W')))" "up_evolves ?s ?W L Z (own_of c) s' W' L' Z'"
      by (auto simp: wr_stepped_def)
    have "set (pool s') \<subseteq> set (pool ?s)" using x(3) by (simp add: up_evolves_def)
    then have "x_inv c' L' Z' (Suc n)" using x rd_ok_pool [OF rd] unfolding x_inv_def c'' own_of_upd by simp
    then show ?thesis using x(3) c'' Updater by auto
  next
    case (Reader i)
    let ?r = "x_rds c i"
    obtain s' r' where st: "x_search_step (Suc i) ?s ?r = (s', r')" by force
    then have c'': "c' = c\<lparr>x_sh := s', x_rds := (x_rds c)(i := r')\<rparr>" using c' Reader by simp
    have "rd_stepped ?s (linked L \<union> cheld ?W) (nheld ?W) Z (own_of c) (drop_of c) n (Suc i) s' r'"
      by (rule x_reader_core [OF core n _ _ rd x_closed(1) [OF inv] x_closed(2) [OF inv] st]) simp_all
    then obtain Z' where x:
      "core s' (linked L \<union> cheld ?W) (nheld ?W) Z' ((own_of c)(Suc i := own_r r')) ((drop_of c)(Suc i := x_drop r')) (Suc n)"
      "reclaims ?s (linked L \<union> cheld ?W) Z (own_of c) (drop_of c) s' Z' ((drop_of c)(Suc i := x_drop r'))" "rd_ok s' r'"
      by (auto simp: rd_stepped_def)
    have f: "rc_frame ?s s'" "Z' \<subseteq> Z" "Z' \<union> stacked ((drop_of c)(Suc i := x_drop r')) \<subseteq> Z \<union> stacked (drop_of c)"
      using x(2) by (simp_all add: reclaims_def)
    have p: "pool s' = pool ?s" using f(1) by (simp add: rc_frame_def)
    have "wr_ok s' ?W L Z' (stacked ((drop_of c)(Suc i := x_drop r')))" by (rule wr_ok_frame [OF ok f(1,3,2)])
    then have "x_inv c' L Z' (Suc n)"
      using x(1,3) rd_ok_pool [OF rd, of s'] p unfolding x_inv_def c'' own_of_upd by simp
    moreover have "up_evolves ?s ?W L Z (own_of c) s' ?W L Z'"
      using x(2) f(1) unfolding up_evolves_def reclaims_def rc_frame_def by auto
    ultimately show ?thesis using c'' f(1) by (intro exI [of _ L] exI [of _ Z']) simp
  next
    case (Start_search i k b)
    have ev: "up_evolves ?s ?W L Z (own_of c) ?s ?W L Z" by (simp add: up_evolves_def)
    show ?thesis
    proof (cases "\<exists>v. x_pc (x_rds c i) = X_ret v")
      case False
      then have "c' = c" using c' Start_search by (auto split: xpc.splits)
      then show ?thesis using more [OF inv] ev Start_search by auto
    next
      case True
      let ?r = "x_rds c i"
      obtain v where v: "x_pc ?r = X_ret v" using True by blast
      then have c'': "c' = c\<lparr>x_rds := (x_rds c)(i := x_init k b)\<rparr>" using c' Start_search by simp
      have d: "d_pc (x_drop ?r) = K_done" using rd [of i] v by (simp add: rd_ok_def dropping_def)
      then have "d_stack (x_drop ?r) = []" using drops_okD(5) [OF coreD(5) [OF core], of "Suc i"] by simp
      then have xd: "x_drop ?r = unwind []" using d by (simp add: unwind_def)
      have "own_r ?r = own_r (x_init k b)"
        by (rule own_r_eqI) (use v xd in \<open>simp_all add: own_r_def x_init_def\<close>)
      then have "own_of c' = own_of c" "drop_of c' = drop_of c"
        using xd c'' by (auto simp: own_of_def drop_of_def fun_eq_iff x_init_def split: nat.split)
      moreover have "rd_ok ?s (x_init k b)" by (simp add: rd_ok_def x_init_def dropping_def unwind_def)
      ultimately have "x_inv c' L Z n" using inv rd unfolding x_inv_def c'' by simp
      then show ?thesis using more [of c' L Z] ev c'' Start_search by (intro exI [of _ L] exI [of _ Z]) simp
    qed
  qed
qed

section \<open>What a search knows\<close>

text \<open>
  \<open>Y\<close> are nodes unlinked from the bucket of the search since it began that it could
  still get to: they wait for a reference to go, or the updater has them in its hands.
\<close>

definition at_bump :: "xwriter \<Rightarrow> nat \<Rightarrow> ptr \<Rightarrow> bool" where
  "at_bump W b p \<longleftrightarrow> w_pc (xw W) = D_bump \<and> w_cur (xw W) = p \<and> w_bucket (xw W) = b"

definition x_unl ::
    "talloc \<Rightarrow> xwriter \<Rightarrow> (nat \<Rightarrow> ptr list) \<Rightarrow> ptr set \<Rightarrow> int set set \<Rightarrow> xreader \<Rightarrow> ptr set \<Rightarrow> bool" where
  "x_unl s W L Z H r Y \<longleftrightarrow> (\<forall>p\<in>Y. (p \<in> Z \<or> at_bump W (x_bucket r) p) \<and>
     (keyof s p < x_key r \<longrightarrow> after s H (x_key r) (set (L (x_bucket r)) \<union> Y) (nxt (node s p))))"

definition x_pos :: "talloc \<Rightarrow> ptr set \<Rightarrow> int set set \<Rightarrow> xreader \<Rightarrow> bool" where
  "x_pos s B H r \<longleftrightarrow> (let cur = (x_prev r = Next (x_cur r) \<longrightarrow> x_cur r \<in> B \<and> keyof s (x_cur r) < x_key r) in
     case x_pc r of
       X_key \<Rightarrow> x_cur r \<noteq> NULL \<and> after s H (x_key r) B (x_cur r)
     | X_eq \<Rightarrow> x_cur r \<in> B \<and> seen s H (x_key r) (x_cur r) \<and> x_key r \<le> keyof s (x_cur r)
     | X_drop \<Rightarrow> after s H (x_key r) B (x_q r)
     | X_last v \<Rightarrow> \<exists>K\<in>H. v = (if x_key r \<in> K then 1 else 0)
     | X_ret v \<Rightarrow> \<exists>K\<in>H. v = (if x_key r \<in> K then 1 else 0)
     | X_fault \<Rightarrow> True
     | _ \<Rightarrow> cur)"

lemma bare_know [simp]: "bucket_keys (bare s) b = bucket_keys s b" "after (bare s) H k A p = after s H k A p"
  by (simp_all add: bucket_keys_def keys_of_def after_def seen_def)

text \<open>A step of another thread, or what a step of its own does to the nodes.\<close>

lemma x_others:
  assumes inv: "x_inv c L Z n" and r: "r = x_rds c i"
    and u: "x_unl (x_sh c) (x_upd c) L Z H r Y" and pos: "x_pos (x_sh c) (set (L (x_bucket r)) \<union> Y) H r"
    and ev: "up_evolves (x_sh c) (x_upd c) L Z (own_of c) s' W' L' Z'"
    and H: "bucket_keys (x_sh c) (x_bucket r) \<in> H" and sub: "H \<subseteq> H'"
  shows "\<exists>Y'. x_unl s' W' L' Z' H' r Y' \<and> x_pos s' (set (L' (x_bucket r)) \<union> Y') H' r"
proof -
  let ?s = "x_sh c" and ?W = "x_upd c" and ?b = "x_bucket r" and ?k = "x_key r"
  let ?R = "refs (linked L \<union> cheld ?W) Z (nxts ?s) (own_of c)"
  have i: "winvq (bare ?s) (abs_w ?W) L (Z \<union> stacked (drop_of c))" by (rule x_closed(3) [OF inv])
  let ?B = "set (L ?b) \<union> Y"
  let ?Y = "{p \<in> Y \<union> (set (L ?b) - set (L' ?b)). p \<in> Z' \<or> at_bump W' ?b p}"
  let ?B' = "set (L' ?b) \<union> ?Y"
  have lost: "keyof s' p = keyof ?s p \<and> (p \<in> set (L' ?b) \<or> at_bump W' ?b p \<and> nxt (node s' p) = nxt (node ?s p))"
    if "p \<in> set (L ?b)" for p using ev that unfolding up_evolves_def at_bump_def by blast
  have bump: "keyof s' p = keyof ?s p \<and> nxt (node s' p) = nxt (node ?s p) \<and> (p \<in> Z' \<or> at_bump W' ?b p)"
    if "at_bump ?W ?b p" for p
    using ev that unfolding up_evolves_def at_bump_def by (elim conjE) (drule spec [of _ p], simp, blast)
  have dead: "keyof s' p = keyof ?s p \<and> nxt (node s' p) = nxt (node ?s p) \<and> (p \<in> Z' \<or> p \<notin> ran ?R)"
    if "p \<in> Z" for p using ev that unfolding up_evolves_def by blast
  have Y: "p \<in> Z \<or> at_bump ?W ?b p" if "p \<in> Y" for p using u that by (simp add: x_unl_def)
  have keys: "keyof s' p = keyof ?s p" if "p \<in> ?B" for p using that Y lost bump dead by blast
  have stayL: "p \<in> ?B'" if "p \<in> set (L ?b)" for p using lost [OF that] that by blast
  have stay: "p \<in> ?B'" if "p \<in> ?B" "p \<in> ran ?R" for p
    using that Y [of p] stayL bump dead by blast
  have own: "p \<in> ran ?R" if "own_r r sl = Some p" for p sl
  proof -
    have "?R (By_thread (Suc i) sl) = Some p" using that r by (simp add: refs_def)
    then show ?thesis by (rule ranI)
  qed
  have to: "after s' H' ?k ?B' p" if "after ?s H ?k ?B p" "p \<noteq> NULL \<Longrightarrow> p \<in> ?B'" for p
    using that keys [of p] sub unfolding after_def seen_def by (auto split: if_splits)
  have linked: "after ?s H ?k (set (L ?b)) (nxt (node ?s p))" if "p \<in> set (L ?b)" "keyof ?s p < ?k" for p
    using linked_after [OF i, of p ?b ?k H] that H by simp
  have "x_unl s' W' L' Z' H' r ?Y"
    unfolding x_unl_def
  proof (intro ballI conjI impI)
    fix p assume p: "p \<in> ?Y"
    then show "p \<in> Z' \<or> at_bump W' ?b p" by simp
    assume "keyof s' p < ?k"
    then have k: "keyof ?s p < ?k" using keys [of p] p by auto
    have same: "nxt (node s' p) = nxt (node ?s p)" using p Y lost bump dead by blast
    have "after ?s H ?k ?B (nxt (node ?s p)) \<and> (nxt (node ?s p) \<noteq> NULL \<longrightarrow> nxt (node ?s p) \<in> ?B')"
    proof (cases "p \<in> set (L ?b)")
      case True
      then show ?thesis using linked [OF True k] stayL after_mono [of ?s H ?k "set (L ?b)" _ H ?B ?s]
        by (auto simp: after_def split: if_splits)
    next
      case False
      then have pY: "p \<in> Y" using p by blast
      then have a: "after ?s H ?k ?B (nxt (node ?s p))" using u k by (simp add: x_unl_def)
      moreover have "nxt (node ?s p) \<in> ?B'" if nn: "nxt (node ?s p) \<noteq> NULL"
      proof (cases "p \<in> Z")
        case True
        then have "?R (By_dead p) = Some (nxt (node ?s p))" using nn by (simp add: refs_def)
        then have "nxt (node ?s p) \<in> ran ?R" by (rule ranI)
        then show ?thesis using stay a nn by (auto simp: after_def)
      next
        case False
        then have bp: "w_pc (xw ?W) = D_bump" "w_cur (xw ?W) = p" "w_bucket (xw ?W) = ?b"
          using Y [OF pY] by (auto simp: at_bump_def)
        then have "xw_sub ?W \<noteq> Sub_xadd" using inv by (auto simp: x_inv_def wr_ok_def)
        then have "abs_w ?W = xw ?W" using bp by (simp add: abs_w_def Let_def)
        then have "inlist (xw ?W) L ?b p" "winvq (bare ?s) (xw ?W) L (Z \<union> stacked (drop_of c))"
          using bp i by (simp_all add: inlist_def)
        from inlist_split [OF this(2,1)] obtain us vs where "L ?b = us @ vs" "nxt (node ?s p) = first_ptr vs"
          by auto
        then have "nxt (node ?s p) \<in> set (L ?b)" using nn by (cases vs) auto
        then show ?thesis by (rule stayL)
      qed
      ultimately show ?thesis by blast
    qed
    then show "after s' H' ?k ?B' (nxt (node s' p))" unfolding same using to by blast
  qed
  moreover have "x_pos s' ?B' H' r"
  proof -
    have cur: "x_cur r \<in> ?B' \<and> keyof s' (x_cur r) = keyof ?s (x_cur r)"
      if "x_cur r \<in> ?B" "own_r r S_cur = Some (x_cur r)"
      using stay [OF that(1) own [OF that(2)]] keys [OF that(1)] by simp
    have key: "after s' H' ?k ?B' (x_cur r)" if "x_pc r = X_key" "after ?s H ?k ?B (x_cur r)"
      using to [OF that(2)] cur that by (auto simp: own_r_def after_def split: if_splits)
    have nx: "after s' H' ?k ?B' (x_q r)" if "x_pc r = X_drop" "after ?s H ?k ?B (x_q r)"
    proof (rule to [OF that(2)])
      assume q: "x_q r \<noteq> NULL"
      then have "own_r r S_nxt = Some (x_q r)" using that(1) by (simp add: own_r_def)
      then show "x_q r \<in> ?B'" using stay own that(2) q by (auto simp: after_def)
    qed
    have eq: "seen s' H' ?k (x_cur r)" if "seen ?s H ?k (x_cur r)" "keyof s' (x_cur r) = keyof ?s (x_cur r)"
      using that sub unfolding seen_def by auto
    show ?thesis
    proof (cases "x_pc r")
      case X_eq
      then have "own_r r S_cur = Some (x_cur r)" by (simp add: own_r_def)
      then show ?thesis using pos X_eq cur eq by (simp add: x_pos_def Let_def)
    next
      case X_key
      then show ?thesis using pos key by (simp add: x_pos_def Let_def)
    next
      case X_drop
      then show ?thesis using pos nx by (simp add: x_pos_def Let_def)
    next
      case (X_last v)
      then show ?thesis using pos sub by (auto simp: x_pos_def Let_def)
    next
      case (X_ret v)
      then show ?thesis using pos sub by (auto simp: x_pos_def Let_def)
    next
      case X_fault
      then show ?thesis by (simp add: x_pos_def Let_def)
    next
      case X_load
      then show ?thesis using pos cur by (simp add: x_pos_def Let_def own_r_def)
    next
      case X_count
      then show ?thesis using pos cur by (simp add: x_pos_def Let_def own_r_def)
    next
      case X_cas
      then show ?thesis using pos cur by (simp add: x_pos_def Let_def own_r_def)
    next
      case X_check
      then show ?thesis using pos cur by (simp add: x_pos_def Let_def own_r_def)
    next
      case X_undo
      then show ?thesis using pos cur by (simp add: x_pos_def Let_def own_r_def)
    qed
  qed
  ultimately show ?thesis by blast
qed

text \<open>A step of its own.\<close>

lemma x_dec_cases:
  assumes "x_dec t f s r = (s', r')"
  shows "\<exists>d. r' = f (r\<lparr>x_drop := d\<rparr>) \<or> r' = r\<lparr>x_drop := d\<rparr> \<or> r' = r\<lparr>x_drop := d, x_pc := X_fault\<rparr>"
  using assms by (auto simp: x_dec_def Let_def split: prod.splits if_splits)

lemma x_step_frame:
  assumes "x_search_step t s r = (s', r')"
  shows "x_key r' = x_key r \<and> x_bucket r' = x_bucket r"
proof -
  have got: "x_key (x_next r) = x_key r" "x_bucket (x_next r) = x_bucket r" "x_key (x_got r) = x_key r"
    "x_bucket (x_got r) = x_bucket r" for r
    by (simp_all add: x_next_def x_got_def split: loc.split)
  have dec: "x_key r' = x_key r \<and> x_bucket r' = x_bucket r" if "x_dec t f s r = (s', r')"
      "\<And>r. x_key (f r) = x_key r \<and> x_bucket (f r) = x_bucket r" for f
    using x_dec_cases [OF that(1)] that(2) by auto
  show ?thesis using assms
    by (cases "x_pc r")
      (auto simp: x_search_step_def got Let_def dest!: dec split: option.splits if_splits prod.splits)
qed

lemma x_own_step:
  assumes inv: "x_inv c L Z n" and n: "n < 2 ^ 64" and r: "r = x_rds c i"
    and cl: "\<And>p. p \<in> Y \<Longrightarrow> keyof (x_sh c) p < x_key r \<Longrightarrow>
      after (x_sh c) H (x_key r) (set (L (x_bucket r)) \<union> Y) (nxt (node (x_sh c) p))"
    and pos: "x_pos (x_sh c) (set (L (x_bucket r)) \<union> Y) H r"
    and H: "bucket_keys (x_sh c) (x_bucket r) \<in> H" and st: "x_search_step (Suc i) (x_sh c) r = (s', r')"
  shows "x_pos (x_sh c) (set (L (x_bucket r)) \<union> Y) H r'"
proof -
  let ?s = "x_sh c" and ?b = "x_bucket r" and ?k = "x_key r"
  let ?B = "set (L ?b) \<union> Y"
  have core: "core ?s (linked L \<union> cheld (x_upd c)) (nheld (x_upd c)) Z (own_of c) (drop_of c) n"
    and rd: "rd_ok ?s r" using inv r by (auto simp: x_inv_def)
  have w: "winvq (bare ?s) (abs_w (x_upd c)) L (Z \<union> stacked (drop_of c))" by (rule x_closed(3) [OF inv])
  have o: "own_of c (Suc i) = own_r r" using r by simp
  note cur = core_ref [OF core n, of "Suc i" S_cur]
  have read: "\<exists>q. get_loc ?s (x_prev r) = Some q \<and> even q \<and> after ?s H ?k ?B q" if pc: "x_pc r \<in> {X_load, X_check}"
  proof -
    obtain q where q: "get_loc ?s (x_prev r) = Some q" "even q"
      using read_prev [OF core n o rd pc x_closed(1,2) [OF inv]] by blast
    have "x_prev r = Head ?b \<or> x_prev r = Next (x_cur r)" using rd pc by (auto simp: rd_ok_def)
    then have "after ?s H ?k ?B q"
    proof
      assume h: "x_prev r = Head ?b"
      have "after ?s H ?k (set (L ?b)) (heads ?s ?b)" using head_after [OF w, of ?b H ?k] H by simp
      then show ?thesis using q(1) h by (auto intro: after_mono)
    next
      assume h: "x_prev r = Next (x_cur r)"
      then have c: "x_cur r \<in> ?B" "keyof ?s (x_cur r) < ?k" using pos pc by (auto simp: x_pos_def)
      have "x_cur r \<noteq> NULL" using q(1) h by (auto simp: rd_def)
      then have qn: "q = nxt (node ?s (x_cur r))" using q(1) h by (simp add: mem_simps)
      show ?thesis
      proof (cases "x_cur r \<in> Y")
        case True
        then show ?thesis using cl c(2) qn by simp
      next
        case False
        then have "x_cur r \<in> set (L ?b)" using c(1) by blast
        then have "after ?s H ?k (set (L ?b)) q" using linked_after [OF w, of "x_cur r" ?b ?k H] c(2) H qn by simp
        then show ?thesis by (auto intro: after_mono)
      qed
    qed
    then show ?thesis using q by blast
  qed
  have nx: "x_pos ?s ?B H (x_next r')" if "after ?s H ?k ?B (x_q r')" "x_key r' = ?k" for r'
    using that by (auto simp: x_pos_def x_next_def after_def)
  have got: "x_pos ?s ?B H (x_got r')" if "after ?s H ?k ?B (x_q r')" "x_key r' = ?k" for r'
  proof (cases "x_prev r'")
    case (Head b)
    then show ?thesis using nx [OF that] by (simp add: x_got_def)
  next
    case (Next p)
    then show ?thesis using that by (simp add: x_got_def x_pos_def)
  qed
  show ?thesis
  proof (cases "x_pc r")
    case X_load
    then obtain q where q: "get_loc ?s (x_prev r) = Some q" "even q" "after ?s H ?k ?B q" using read by auto
    then have "r' = (if q = NULL then x_got (r\<lparr>x_q := q\<rparr>) else r\<lparr>x_q := q, x_pc := X_count\<rparr>)"
      using st X_load by (auto simp: x_search_step_def clean_even Let_def)
    then show ?thesis using got [of "r\<lparr>x_q := q\<rparr>"] q(3) pos X_load
      by (cases "q = NULL") (simp_all add: x_pos_def Let_def)
  next
    case X_check
    then obtain q where q: "get_loc ?s (x_prev r) = Some q" "after ?s H ?k ?B q" using read by auto
    then have "r' = (if x_q r = q then x_got r else r\<lparr>x_pc := X_undo, x_drop := enter (clean_pointer (x_q r)) []\<rparr>)"
      using st X_check by (auto simp: x_search_step_def)
    then show ?thesis using got [of r] q(2) pos X_check
      by (cases "x_q r = q") (simp_all add: x_pos_def Let_def)
  next
    case X_count
    then have "x_pc r' \<in> {X_fault, X_load, X_cas}" "x_prev r' = x_prev r" "x_cur r' = x_cur r" "x_key r' = ?k"
      using st by (auto simp: x_search_step_def split: option.splits if_splits)
    then show ?thesis using pos X_count by (auto simp: x_pos_def)
  next
    case X_cas
    then have "x_pc r' \<in> {X_fault, X_check, X_count}" "x_prev r' = x_prev r" "x_cur r' = x_cur r" "x_key r' = ?k"
      using st by (auto simp: x_search_step_def split: option.splits prod.splits if_splits)
    then show ?thesis using pos X_cas by (auto simp: x_pos_def)
  next
    case X_undo
    then have "x_dec (Suc i) (\<lambda>r. r\<lparr>x_pc := X_load\<rparr>) ?s r = (s', r')" using st by (simp add: x_search_step_def)
    from x_dec_cases [OF this] show ?thesis using pos X_undo by (auto simp: x_pos_def)
  next
    case X_key
    then have k: "x_cur r \<noteq> NULL" "x_cur r \<in> ?B" "seen ?s H ?k (x_cur r)" using pos by (auto simp: x_pos_def after_def)
    then have "r' = (if ?k \<le> keyof ?s (x_cur r) then r\<lparr>x_pc := X_eq\<rparr> else r\<lparr>x_prev := Next (x_cur r), x_pc := X_load\<rparr>)"
      using st X_key by (auto simp: x_search_step_def mem_simps)
    then show ?thesis using k by (auto simp: x_pos_def)
  next
    case X_eq
    then have k: "seen ?s H ?k (x_cur r)" "?k \<le> keyof ?s (x_cur r)" using pos by (auto simp: x_pos_def)
    have "own_of c (Suc i) S_cur = Some (x_cur r)" using o X_eq by (simp add: own_r_def)
    from cur(2) [OF this] have "r' = r\<lparr>x_pc := X_last (if keyof ?s (x_cur r) = ?k then 1 else 0), x_drop := enter (x_cur r) []\<rparr>"
      using st X_eq by (auto simp: x_search_step_def mem_simps)
    then show ?thesis using k by (auto simp: x_pos_def seen_def)
  next
    case X_drop
    then have q: "after ?s H ?k ?B (x_q r)" using pos by (simp add: x_pos_def)
    have "x_dec (Suc i) x_next ?s r = (s', r')" using st X_drop by (simp add: x_search_step_def)
    from x_dec_cases [OF this] obtain d where
      "r' = x_next (r\<lparr>x_drop := d\<rparr>) \<or> r' = r\<lparr>x_drop := d\<rparr> \<or> r' = r\<lparr>x_drop := d, x_pc := X_fault\<rparr>" by blast
    then show ?thesis using nx [of "r\<lparr>x_drop := d\<rparr>"] q X_drop
      by (elim disjE) (simp_all add: x_pos_def Let_def)
  next
    case (X_last v)
    then have "x_dec (Suc i) (\<lambda>r. r\<lparr>x_pc := X_ret v\<rparr>) ?s r = (s', r')" using st by (simp add: x_search_step_def)
    from x_dec_cases [OF this] show ?thesis using pos X_last by (auto simp: x_pos_def)
  next
    case X_fault
    then show ?thesis using st pos by (simp add: x_search_step_def)
  next
    case (X_ret v)
    then show ?thesis using st pos by (simp add: x_search_step_def)
  qed
qed

section \<open>Whole executions\<close>

definition x_tracks :: "x_sys \<Rightarrow> (nat \<Rightarrow> ptr list) \<Rightarrow> ptr set \<Rightarrow> int set set \<Rightarrow> nat \<Rightarrow> ptr set \<Rightarrow> bool" where
  "x_tracks c L Z H i Y \<longleftrightarrow> x_unl (x_sh c) (x_upd c) L Z H (x_rds c i) Y \<and>
     x_pos (x_sh c) (set (L (x_bucket (x_rds c i))) \<union> Y) H (x_rds c i)"

lemma frame_know:
  assumes "rc_frame s s'"
  shows "after s' H k A p = after s H k A p" "x_pos s' B H r = x_pos s B H r" "bucket_keys s' b = bucket_keys s b"
proof -
  have k: "keyof s' = keyof s" "nxts s' = nxts s" "heads s' = heads s" using assms by (auto simp: rc_frame_def)
  have a: "after s' H k A p = after s H k A p" for k A p using fun_cong [OF k(1)] by (simp add: after_def seen_def)
  then show "after s' H k A p = after s H k A p" .
  show "x_pos s' B H r = x_pos s B H r"
    using fun_cong [OF k(1)] by (cases "x_pc r") (simp_all add: x_pos_def a seen_def Let_def)
  show "bucket_keys s' b = bucket_keys s b" unfolding bucket_keys_def keys_of_def k ..
qed

lemma x_step_tracks:
  assumes inv: "x_inv c L Z n" and n: "n < 2 ^ 64" and t: "x_tracks c L Z H i Y"
    and H: "bucket_keys (x_sh c) (x_bucket (x_rds c i)) \<in> H" and sub: "H \<subseteq> H'"
    and a: "\<And>k b. a \<noteq> Start_search i k b" and c': "c' = x_step a c"
  shows "\<exists>L' Z' Y'. x_inv c' L' Z' (Suc n) \<and> x_tracks c' L' Z' H' i Y' \<and>
    x_key (x_rds c' i) = x_key (x_rds c i) \<and> x_bucket (x_rds c' i) = x_bucket (x_rds c i)"
proof -
  let ?r = "x_rds c i" and ?s = "x_sh c"
  obtain L' Z' where x: "x_inv c' L' Z' (Suc n)"
    "up_evolves ?s (x_upd c) L Z (own_of c) (x_sh c') (x_upd c') L' Z'"
    "\<And>j. a = Reader j \<Longrightarrow> L' = L \<and> rc_frame ?s (x_sh c') \<and> x_upd c' = x_upd c"
    using x_step_inv [OF inv n c'] by blast
  have tt: "x_unl ?s (x_upd c) L Z H ?r Y" "x_pos ?s (set (L (x_bucket ?r)) \<union> Y) H ?r"
    using t by (simp_all add: x_tracks_def)
  obtain Y' where y: "x_unl (x_sh c') (x_upd c') L' Z' H' ?r Y'"
    "x_pos (x_sh c') (set (L' (x_bucket ?r)) \<union> Y') H' ?r"
    using x_others [OF inv HOL.refl tt x(2) H sub] by blast
  show ?thesis
  proof (cases "a = Reader i")
    case False
    then have "x_rds c' i = ?r"
      using a c' by (cases a) (auto split: prod.splits xpc.splits)
    then show ?thesis using x(1) y unfolding x_tracks_def by auto
  next
    case True
    obtain s' r' where st: "x_search_step (Suc i) ?s ?r = (s', r')" by force
    then have n': "x_sh c' = s'" "x_rds c' i = r'" using c' True by simp_all
    note f = x(3) [OF True]
    note fk = frame_know [of ?s "x_sh c'", OF conjunct1 [OF conjunct2 [OF f]]]
    have fr: "x_key r' = x_key ?r" "x_bucket r' = x_bucket ?r" using x_step_frame [OF st] by simp_all
    have k: "keyof (x_sh c') p = keyof ?s p" "nxt (node (x_sh c') p) = nxt (node ?s p)" for p
      using f by (simp_all add: rc_frame_def)
    have "x_pos ?s (set (L (x_bucket ?r)) \<union> Y') H' r'"
    proof (rule x_own_step [OF inv n HOL.refl _ _ _ st])
      show "after ?s H' (x_key ?r) (set (L (x_bucket ?r)) \<union> Y') (nxt (node ?s p))"
        if "p \<in> Y'" "keyof ?s p < x_key ?r" for p
        using y(1) that f unfolding x_unl_def fk(1) k by simp
      show "x_pos ?s (set (L (x_bucket ?r)) \<union> Y') H' ?r" using y(2) f unfolding fk(2) by simp
      show "bucket_keys ?s (x_bucket ?r) \<in> H'" using H sub by blast
    qed
    moreover have "x_unl (x_sh c') (x_upd c') L' Z' H' r' Y'" using y(1) fr by (simp add: x_unl_def)
    ultimately have "x_tracks c' L' Z' H' i Y'" using f fr unfolding x_tracks_def n'(2) fk(2) by simp
    then show ?thesis using x(1) fr n'(2) by blast
  qed
qed

lemma x_exec_tracks:
  assumes "x_inv c L Z n" and "n + length as < 2 ^ 64" and "x_tracks c L Z H i Y"
    and "bucket_keys (x_sh c) b \<in> H" and "x_bucket (x_rds c i) = b" and "\<And>k b. Start_search i k b \<notin> set as"
  shows "\<exists>L' Z' Y'. x_inv (x_exec as c) L' Z' (n + length as) \<and>
    x_tracks (x_exec as c) L' Z' (H \<union> (\<lambda>c. bucket_keys (x_sh c) b) ` set (x_visited as c)) i Y' \<and>
    x_key (x_rds (x_exec as c) i) = x_key (x_rds c i)"
  using assms
proof (induction as arbitrary: c L Z H Y n)
  case Nil
  then show ?case by (auto simp: insert_absorb)
next
  case (Cons a as)
  let ?c = "x_step a c" and ?K = "\<lambda>c. bucket_keys (x_sh c) b"
  let ?H = "insert (?K ?c) H"
  have "\<And>k b. a \<noteq> Start_search i k b" "n < 2 ^ 64" using Cons.prems(2,6) by auto
  then obtain L' Z' Y' where x: "x_inv ?c L' Z' (Suc n)" "x_tracks ?c L' Z' ?H i Y'"
    "x_key (x_rds ?c i) = x_key (x_rds c i)" "x_bucket (x_rds ?c i) = b"
    using x_step_tracks [OF Cons.prems(1) _ Cons.prems(3) _ _ _ HOL.refl, of ?H a] Cons.prems(4,5) by blast
  have "?K ?c \<in> ?K ` set (x_visited as ?c)" by (cases as) auto
  then have "?H \<union> ?K ` set (x_visited as ?c) = H \<union> ?K ` set (x_visited (a # as) c)"
    using Cons.prems(4) by auto
  then show ?case
    using Cons.IH [OF x(1) _ x(2) _ x(4)] Cons.prems(2,6) x(3) by simp
qed

lemma x_step_ok: "x_ok n c \<Longrightarrow> n < 2 ^ 64 \<Longrightarrow> x_ok (Suc n) (x_step a c)"
  using x_step_inv unfolding x_ok_def by blast

lemma x_exec_ok: "x_ok n c \<Longrightarrow> n + length as < 2 ^ 64 \<Longrightarrow> x_ok (n + length as) (x_exec as c)"
proof (induction as arbitrary: c n)
  case (Cons a as)
  then show ?case using Cons.IH [OF x_step_ok [OF Cons.prems(1)]] by simp
qed simp

end
