(* ===== verification/Ref_Count_Search_Properties.thy ===== *)
theory Ref_Count_Search_Properties imports Ref_Count_System Gecos_Properties begin

text \<open>
  What the reference counting list promises under interleaving: searches answer with
  the membership of their key and do not crash, a node someone holds is not freed, and
  every count is exact.
\<close>

section \<open>Free nodes\<close>

text \<open>The nodes of a free list.\<close>

inductive on_list :: "'w mem_scheme \<Rightarrow> ptr \<Rightarrow> ptr \<Rightarrow> bool" for s where
  on_list_hd: "p \<noteq> NULL \<Longrightarrow> on_list s p p"
| on_list_tl: "p \<noteq> NULL \<Longrightarrow> on_list s (mr_next (node s p)) q \<Longrightarrow> on_list s p q"

definition is_free :: "talloc \<Rightarrow> ptr \<Rightarrow> bool" where
  "is_free s p \<longleftrightarrow> p \<in> set (pool s) \<or> on_list s (freelist s) p \<or> (\<exists>t. on_list s (t_lfl (tls s t)) p)"

lemma on_list_chain: "on_list s p q \<Longrightarrow> chain (mrs s) p xs NULL \<Longrightarrow> q \<in> set xs"
proof (induction arbitrary: xs rule: on_list.induct)
  case (on_list_hd p)
  then show ?case by (cases xs) auto
next
  case (on_list_tl p q)
  then show ?case by (cases xs) auto
qed

lemma mt_ok_not_free:
  assumes "mt_ok s A" and "p \<in> A"
  shows "\<not> is_free s p"
proof -
  obtain F G where m: "mt_inv s A F G" using assms(1) by (auto simp: mt_ok_def)
  have c: "chain (mrs s) (t_lfl (tls s t)) (F t) NULL" "chain (mrs s) (freelist s) G NULL"
    "p \<notin> set (F t)" "p \<notin> set G" "p \<notin> set (pool s)" for t
    using m assms(2) unfolding mt_inv_def by blast+
  then show ?thesis using on_list_chain [OF _ c(1)] on_list_chain [OF _ c(2)] unfolding is_free_def by blast
qed

section \<open>Nobody in a call\<close>

definition at_rest :: "x_sys \<Rightarrow> bool" where
  "at_rest c \<longleftrightarrow> w_pc (xw (x_upd c)) = W_idle \<and> (\<forall>i. \<exists>v. x_pc (x_rds c i) = X_ret v)"

text \<open>Keys grow along the links of unlinked nodes, so the one with the least key has no reference.\<close>

lemma core_no_garbage:
  assumes core: "core s A N Z own dr n" and own: "\<And>t sl. own t sl = None" and dr: "\<And>t. d_pc (dr t) = K_done"
  shows "Z = {}"
proof (rule ccontr)
  assume ne: "Z \<noteq> {}"
  let ?R = "refs A Z (nxts s) own"
  have dead: "\<exists>y\<in>Z. nxt (node s y) = z \<and> z \<noteq> NULL" if "z \<in> Z" for z
  proof -
    have "z \<in> ran ?R" using coreD(3) [OF core that] dr by (simp add: zeroed_def)
    then obtain x where x: "?R x = Some z" by (auto simp: ran_def)
    then show ?thesis using own coreD(6) [OF core] that
      by (auto simp: refs_def split: src.splits if_splits)
  qed
  have "finite (dom ?R)" using coreD(1) [OF core] by (simp add: counted_def)
  then have "finite (ran ?R)" by (rule finite_ran)
  moreover have "Z \<subseteq> ran ?R" using coreD(3) [OF core] dr by (auto simp: zeroed_def)
  ultimately have "finite Z" by (rule rev_finite_subset)
  then obtain z where z: "z \<in> Z" "\<And>y. y \<in> Z \<Longrightarrow> keyof s z \<le> keyof s y"
    using ne ex_min_if_finite [of "keyof s ` Z"] by (auto simp: not_less)
  obtain y where "y \<in> Z" "nxt (node s y) = z" "z \<noteq> NULL" using dead [OF z(1)] by blast
  then show False using coreD(12) [OF core, of y] z(2) [of y] by auto
qed

lemma rest_core:
  assumes inv: "x_inv c L Z n" and r: "at_rest c"
  shows "own_of c = (\<lambda>_ _. None)" "Z = {}" "stacked (drop_of c) = {}" "cheld (x_upd c) = {}" "nheld (x_upd c) = {}"
proof -
  let ?W = "x_upd c"
  have core: "core (x_sh c) (linked L \<union> cheld ?W) (nheld ?W) Z (own_of c) (drop_of c) n"
    and ok: "wr_ok (x_sh c) ?W L Z (stacked (drop_of c))" and rd: "\<And>i. rd_ok (x_sh c) (x_rds c i)"
    using inv by (auto simp: x_inv_def)
  have w: "w_pc (xw ?W) = W_idle" and x: "\<And>i. \<exists>v. x_pc (x_rds c i) = X_ret v" using r by (auto simp: at_rest_def)
  have d: "d_pc (drop_of c t) = K_done" for t
  proof (cases t)
    case 0
    then show ?thesis using ok w by (simp add: wr_ok_def)
  next
    case (Suc i)
    obtain v where "x_pc (x_rds c i) = X_ret v" using x by blast
    then show ?thesis using rd [of i] Suc by (simp add: rd_ok_def dropping_def)
  qed
  have o: "own_of c t sl = None" for t sl
  proof (cases t)
    case 0
    then show ?thesis using d [of 0] by (simp add: own_w_def d_ref_def split: slot.split)
  next
    case (Suc i)
    obtain v where "x_pc (x_rds c i) = X_ret v" using x by blast
    then show ?thesis using d [of "Suc i"] Suc by (simp add: own_r_def d_ref_def split: slot.split)
  qed
  then show "own_of c = (\<lambda>_ _. None)" by (simp add: fun_eq_iff)
  show "Z = {}" by (rule core_no_garbage [OF core o d])
  show "stacked (drop_of c) = {}" using drops_okD(5) [OF coreD(5) [OF core] d] by (simp add: stacked_def)
  have "xw_sub ?W = Sub_none" using ok w by (cases "xw_sub ?W") (auto simp: wr_ok_def)
  then show "cheld ?W = {}" "nheld ?W = {}" using w by (auto simp: cheld_def nheld_def held_def)
qed

section \<open>Properties\<close>

text \<open>
  (the counts stay right): whatever the schedule of updater and searches, fewer
  than 2^64 steps in all, every count is the number of references to its node and no
  search ever dereferences NULL or fails the assertion of \<open>lfrc_refcnt_dec\<close>.
\<close>

theorem rc_system_ok:
  assumes "x_ok n c" and "n + length as < 2 ^ 64"
  shows "x_ok (n + length as) (x_exec as c) \<and> x_pc (x_rds (x_exec as c) i) \<noteq> X_fault"
proof -
  have ok: "x_ok (n + length as) (x_exec as c)" by (rule x_exec_ok [OF assms])
  then obtain L Z where "x_inv (x_exec as c) L Z (n + length as)" by (auto simp: x_ok_def)
  then have "rd_ok (x_sh (x_exec as c)) (x_rds (x_exec as c) i)" by (simp add: x_inv_def)
  then show ?thesis using ok by (simp add: rd_ok_def)
qed

text \<open>
  C10 (the reference counting search is linearizable): in any interleaving with the
  updater and the other searches, fewer than 2^64 steps in all, an answer is the
  membership of the key at some moment of the search.
\<close>

theorem rc_search_linearizable:
  assumes "x_ok n c" and "x_rds c i = x_init k b"
    and "\<And>k b. Start_search i k b \<notin> set as" and "n + length as < 2 ^ 64"
    and "x_pc (x_rds (x_exec as c) i) = X_ret x"
  shows "\<exists>c'\<in>set (x_visited as c). x = (if k \<in> bucket_keys (x_sh c') b then 1 else 0)"
proof -
  let ?K = "\<lambda>c. bucket_keys (x_sh c) b"
  obtain L Z where L: "x_inv c L Z n" using assms(1) by (auto simp: x_ok_def)
  have i: "x_key (x_rds c i) = k" "x_bucket (x_rds c i) = b" using assms(2) by (simp_all add: x_init_def)
  have "x_tracks c L Z {?K c} i {}" unfolding x_tracks_def assms(2)
    by (simp add: x_unl_def x_pos_def x_init_def)
  then obtain L' Z' Y' where x: "x_tracks (x_exec as c) L' Z' ({?K c} \<union> ?K ` set (x_visited as c)) i Y'"
    "x_key (x_rds (x_exec as c) i) = k"
    using x_exec_tracks [OF L assms(4), of "{?K c}" i "{}" b] assms(3) i by auto
  have "c \<in> set (x_visited as c)" by (cases as) auto
  then have "{?K c} \<union> ?K ` set (x_visited as c) = ?K ` set (x_visited as c)" by auto
  then show ?thesis using x assms(5) by (auto simp: x_tracks_def x_pos_def)
qed

text \<open>
  C11 (references protect): a node that a search holds a reference to (the current
  node, the next one it has just counted, or one it is about to drop) is neither on a
  free list nor unallocated, and its count is not 0, in any interleaving.
\<close>

theorem held_never_free:
  assumes "x_ok n c" and "n + length as < 2 ^ 64" and "own_r (x_rds (x_exec as c) i) sl = Some p"
  shows "\<not> is_free (x_sh (x_exec as c)) p \<and> rc (node (x_sh (x_exec as c)) p) \<noteq> 0"
proof -
  let ?c = "x_exec as c"
  obtain L Z where "x_inv ?c L Z (n + length as)" using x_exec_ok [OF assms(1,2)] by (auto simp: x_ok_def)
  then have core: "core (x_sh ?c) (linked L \<union> cheld (x_upd ?c)) (nheld (x_upd ?c)) Z (own_of ?c) (drop_of ?c) (n + length as)"
    by (simp add: x_inv_def)
  have "own_of ?c (Suc i) sl = Some p" using assms(3) by simp
  note r = core_ref [OF core assms(2) this]
  have "\<not> is_free (x_sh ?c) p" by (rule mt_ok_not_free [OF coreD(9) [OF core]]) (use r(1) in blast)
  then show ?thesis using r(5) by blast
qed

text \<open>
  C12 (nothing is leaked): when the updater is idle and every search has returned,
  the count of a node is 1 if a bucket links it and 0 otherwise, so no deleted node
  is kept by a forgotten reference, however the calls were interleaved; and no linked
  node is free.
\<close>

theorem rc_no_leak:
  assumes "x_ok n c" and "n + length as < 2 ^ 64" and "at_rest (x_exec as c)"
  shows "\<exists>L. buckets (x_sh (x_exec as c)) L \<and> (\<forall>p. p \<notin> set (pool (x_sh (x_exec as c))) \<longrightarrow>
    rc (node (x_sh (x_exec as c)) p) = (if \<exists>b. p \<in> set (L b) then 1 else 0)) \<and>
    (\<forall>b. \<forall>p\<in>set (L b). \<not> is_free (x_sh (x_exec as c)) p)"
proof -
  let ?c = "x_exec as c"
  let ?s = "x_sh ?c"
  obtain L Z where i: "x_inv ?c L Z (n + length as)" using x_exec_ok [OF assms(1,2)] by (auto simp: x_ok_def)
  note r = rest_core [OF i assms(3)]
  have core: "core ?s (linked L) {} {} (\<lambda>_ _. None) (drop_of ?c) (n + length as)"
    using i r by (simp add: x_inv_def)
  let ?R = "refs (linked L) {} (nxts ?s) (\<lambda>_ _. None)"
  have "cnt ?R p = (if p \<in> linked L then 1 else 0)" for p
  proof -
    have "?R x = Some p \<longleftrightarrow> p \<in> linked L \<and> x = By_link p" for x
      by (cases x) (auto simp: refs_def)
    then have "{x. ?R x = Some p} = (if p \<in> linked L then {By_link p} else {})" by auto
    then show ?thesis by (simp add: cnt_def)
  qed
  then have rc: "p \<notin> set (pool ?s) \<Longrightarrow> rc (node ?s p) = (if p \<in> linked L then 1 else 0)" for p
    using coreD(1) [OF core] by (simp add: counted_def)
  have free: "p \<in> linked L \<Longrightarrow> \<not> is_free ?s p" for p using mt_ok_not_free [OF coreD(9) [OF core]] by simp
  have lk: "(\<exists>b. p \<in> set (L b)) \<longleftrightarrow> p \<in> linked L" for p by (simp add: linked_def)
  show ?thesis
  proof (intro exI [of _ L] conjI allI impI ballI)
    show "buckets ?s L" using winvD(1) [OF x_closed(3) [OF i]] by simp
    show "rc (node ?s p) = (if \<exists>b. p \<in> set (L b) then 1 else 0)" if "p \<notin> set (pool ?s)" for p
      unfolding lk by (rule rc [OF that])
    show "\<not> is_free ?s p" if "p \<in> set (L b)" for b p using free lk that by blast
  qed
qed

section \<open>Witnesses\<close>

definition x_start_sys :: "ptr list \<Rightarrow> (nat \<Rightarrow> xreader) \<Rightarrow> x_sys" where
  "x_start_sys ps q = \<lparr>x_sh = init_talloc ps, x_upd = \<lparr>xw = init_writer, xw_sub = Sub_none, xw_drop = unwind []\<rparr>,
     x_rds = q\<rparr>"

lemma x_start_ok:
  assumes ps: "distinct ps" "NULL \<notin> set ps" "\<And>p. p \<in> set ps \<Longrightarrow> even p" and q: "\<And>i. \<exists>k b pc. q i = (x_init k b)\<lparr>x_pc := pc\<rparr> \<and> pc \<in> {X_load, X_ret 0}"
  shows "x_ok 0 (x_start_sys ps q)"
proof -
  let ?c = "x_start_sys ps q" and ?s = "init_talloc ps"
  have r: "own_r (q i) = (\<lambda>_. None)" "x_drop (q i) = unwind []" "rd_ok ?s (q i)" for i
    using q [of i] by (auto simp: x_init_def own_r_def rd_ok_def unwind_def d_ref_def dropping_def fun_eq_iff
      split: slot.split)
  have o: "own_of ?c = (\<lambda>_ _. None)" "drop_of ?c = (\<lambda>_. unwind [])"
    using r by (auto simp: own_of_def drop_of_def x_start_sys_def own_w_def unwind_def d_ref_def fun_eq_iff
      split: nat.split slot.split)
  have refs: "refs {} {} f (\<lambda>_ _. None) = Map.empty" for f by (simp add: refs_def fun_eq_iff split: src.split)
  have d: "drops_ok (\<lambda>_. unwind []) {}" "stacked (\<lambda>_. unwind []) = {}"
    by (simp_all add: drops_ok_def zeroed_def unwind_def stacked_def)
  have mt: "mt_ok ?s {}" by (rule init_talloc_ok [OF ps(1,2)])
  have ev: "even_mem ?s"
    using ps(3) by (simp add: even_mem_def init_talloc_def init_allocator_def prealloc_def zero_node_def)
  have core: "core ?s {} {} {} (\<lambda>_ _. None) (\<lambda>_. unwind []) 0"
    using mt ev d by (simp add: core_def refs counted_def cnt_def init_talloc_def init_allocator_def prealloc_def
      zero_node_def d_ref_def unwind_def)
  have "winvq (bare ?s) init_writer (\<lambda>_. []) {}"
    using ps(1,2) by (simp add: winvq_def buckets_def bare_alloc_ok init_writer_def held_def wpc_inv_def linked_def
      closed_def init_talloc_def init_allocator_def prealloc_def zero_node_def)
  then have "wr_ok ?s (x_upd ?c) (\<lambda>_. []) {} {}"
    by (simp add: wr_ok_def x_start_sys_def abs_w_def init_writer_def unwind_def new_private_def)
  then have "x_inv ?c (\<lambda>_. []) {} 0"
    using core o d r(3) by (simp add: x_inv_def x_start_sys_def cheld_def nheld_def held_def init_writer_def linked_def)
  then show ?thesis by (auto simp: x_ok_def)
qed

lemma x_eval: "x_exec as c = d \<Longrightarrow> P d \<Longrightarrow> P (x_exec as c)"
  by simp

lemma x_eval_step: "x_step a c = c' \<Longrightarrow> x_exec as c' = d \<Longrightarrow> x_exec (a # as) c = d"
  by simp

lemmas x_machine_eval = machine_eval x_step.simps xw_step_def x_search_step_def x_dec_def dec_step_def enter_def
  unwind_def x_got_def x_next_def x_init_def x_start_sys_def init_talloc_def thread_new_def thread_free_def
  switch_in_def switch_out_def xw_release_def xw_crash_def CAS_def atomic_xadd4_def set_rc_def clean_pointer_def

text \<open>
  A search holds 5 when the updater deletes it: the node survives, the search goes on
  from it and drops the last reference, which frees it; the updater then inserts 9 and
  deletes it again.
\<close>

definition x_handover :: "actor list" where
  "x_handover =
     [Start_insert 5 0, Updater, Updater, Updater, Updater, Updater, Updater,
      Reader 0, Reader 0, Reader 0, Reader 0,
      Start_delete 5 0, Updater, Updater, Updater, Updater, Updater, Updater, Updater]"

definition x_reclaim :: "actor list" where
  "x_reclaim =
     [Reader 0, Reader 0, Reader 0, Reader 0, Reader 0, Reader 0, Reader 0,
      Start_insert 9 0, Updater, Updater, Updater, Updater, Updater, Updater]"

definition x_one :: x_sys where
  "x_one = x_start_sys [64, 128] ((\<lambda>_. (x_init 7 0)\<lparr>x_pc := X_ret 0\<rparr>)(0 := x_init 7 0))"

lemma x_one_ok: "x_ok 0 x_one" "x_rds x_one 0 = x_init 7 0"
proof -
  show "x_rds x_one 0 = x_init 7 0" by (simp add: x_one_def x_start_sys_def)
  show "x_ok 0 x_one" unfolding x_one_def
  proof (rule x_start_ok)
    show "\<exists>k b pc. ((\<lambda>_. (x_init 7 0)\<lparr>x_pc := X_ret 0\<rparr>)(0 := x_init 7 0)) i = (x_init k b)\<lparr>x_pc := pc\<rparr> \<and>
      pc \<in> {X_load, X_ret 0}" for i :: nat
      by (rule exI [of _ 7], rule exI [of _ 0], cases "i = 0") (auto simp: x_init_def)
  qed auto
qed

lemma x_handover_run: "own_r (x_rds (x_exec x_handover x_one) 0) S_cur = Some 64"
  unfolding x_handover_def
  apply (rule x_eval [where P = "\<lambda>c. own_r (x_rds c 0) S_cur = Some 64"])
   apply ((rule x_eval_step, (simp add: x_machine_eval x_one_def Let_def; fail))+)
   apply (rule x_exec.simps(1))
  apply (simp add: own_r_def)
  done

lemma x_reclaim_run:
  "let c = x_exec (x_handover @ x_reclaim) x_one in x_pc (x_rds c 0) = X_ret 0 \<and> w_pc (xw (x_upd c)) = W_idle \<and>
     (\<forall>i. i \<noteq> 0 \<longrightarrow> x_pc (x_rds c i) = X_ret 0)"
  unfolding x_handover_def x_reclaim_def Let_def append.simps
  apply (rule x_eval [where P = "\<lambda>c. x_pc (x_rds c 0) = X_ret 0 \<and> w_pc (xw (x_upd c)) = W_idle \<and>
     (\<forall>i. i \<noteq> 0 \<longrightarrow> x_pc (x_rds c i) = X_ret 0)"])
   apply ((rule x_eval_step, (simp add: x_machine_eval x_one_def Let_def; fail))+)
   apply (rule x_exec.simps(1))
  apply simp
  done

lemma x_lengths: "length x_handover = 19" "length x_reclaim = 14"
  by (simp_all add: x_handover_def x_reclaim_def)

lemma rc_system_ok_witness: "x_ok 19 (x_exec x_handover x_one)"
  using rc_system_ok [OF x_one_ok(1), of x_handover] by (simp add: x_lengths)

lemma rc_search_linearizable_witness:
  "\<exists>c'\<in>set (x_visited (x_handover @ x_reclaim) x_one). (0 :: int) = (if 7 \<in> bucket_keys (x_sh c') 0 then 1 else 0)"
proof (rule rc_search_linearizable [OF x_one_ok])
  show "Start_search 0 k b \<notin> set (x_handover @ x_reclaim)" for k b by (simp add: x_handover_def x_reclaim_def)
  show "x_pc (x_rds (x_exec (x_handover @ x_reclaim) x_one) 0) = X_ret 0"
    using x_reclaim_run by (simp add: Let_def)
qed (simp add: x_lengths)

lemma held_never_free_witness:
  "\<not> is_free (x_sh (x_exec x_handover x_one)) 64 \<and> rc (node (x_sh (x_exec x_handover x_one)) 64) \<noteq> 0"
  by (rule held_never_free [OF x_one_ok(1) _ x_handover_run]) (simp add: x_lengths)

lemma rc_no_leak_witness:
  "\<exists>L. buckets (x_sh (x_exec (x_handover @ x_reclaim) x_one)) L \<and>
     (\<forall>p. p \<notin> set (pool (x_sh (x_exec (x_handover @ x_reclaim) x_one))) \<longrightarrow>
        rc (node (x_sh (x_exec (x_handover @ x_reclaim) x_one)) p) = (if \<exists>b. p \<in> set (L b) then 1 else 0)) \<and>
     (\<forall>b. \<forall>p\<in>set (L b). \<not> is_free (x_sh (x_exec (x_handover @ x_reclaim) x_one)) p)"
proof (rule rc_no_leak [OF x_one_ok(1)])
  show "at_rest (x_exec (x_handover @ x_reclaim) x_one)"
    using x_reclaim_run unfolding at_rest_def Let_def by metis
qed (simp add: x_lengths)

end
