(* ===== verification/Hazard.thy ===== *)
theory Hazard imports Allocator Locks begin

text \<open>
  Hazard pointers: \<open>hp.c\<close>, \<open>hp.h\<close> and \<open>list_hp.c\<close>.  A reader publishes the nodes
  it looks at in its slots of \<open>HP\<close>; a retired node waits in the zombie list of
  the thread that retired it until a scan finds no slot that names it.
  \<open>qsort\<close> and \<open>bsearch\<close> are the C library's: arguments of the definitions, with
  what they document as the locale \<open>libc_sort\<close>.
\<close>

section \<open>State and parameters\<close>

definition HP_K :: nat where "HP_K = 3"

definition MAX_THREAD :: nat where "MAX_THREAD = 256"

definition HP_H :: nat where "HP_H = HP_K * MAX_THREAD"

text \<open>The argument \<open>direct\<close> is the macro \<open>DIRECT_SCAN\<close>, which the Makefile leaves undefined.\<close>

definition HP_R :: "bool \<Rightarrow> nat \<Rightarrow> int" where
  "HP_R direct nbthreads = (if direct then 0 else 100 + 2 * (int nbthreads * int HP_K))"

text \<open>
  \<open>HP\<close> is the array of hazard pointers; \<open>zl_p\<close> and \<open>zl_number\<close> are the zombie lists
  \<open>zlist\<close>, by thread.
\<close>

record hp = alloc +
  HP :: "nat \<Rightarrow> ptr"
  zl_p :: "nat \<Rightarrow> ptr"
  zl_number :: "nat \<Rightarrow> int"
  nbblockeds :: int
  hp_nbretry :: nat

section \<open>The scan\<close>

text \<open>
  \<open>compare\<close>: the difference of two \<open>node_t *\<close>, counted in nodes of 64 bytes, is
  returned as an \<open>int\<close>: only its low 32 bits remain.
\<close>

definition compare :: "ptr \<Rightarrow> ptr \<Rightarrow> int" where
  "compare a b = sint (word_of_int (sint (a - b) div 64) :: 32 word)"

definition plist :: "'w hp_scheme \<Rightarrow> ptr list" where
  "plist s = map (HP s) (filter (\<lambda>i. HP s i \<noteq> NULL) [0..<HP_H])"

partial_function (option) scan_loop ::
    "(ptr \<Rightarrow> ptr list \<Rightarrow> (ptr \<Rightarrow> ptr \<Rightarrow> int) \<Rightarrow> bool) \<Rightarrow> ptr list \<Rightarrow> nat \<Rightarrow> ptr \<Rightarrow>
     'w hp_scheme \<Rightarrow> 'w hp_scheme option" where
  "scan_loop bsearch pl t tmplist s =
     (if tmplist = NULL then Some s
      else do {
        let c = tmplist;
        n \<leftarrow> rd s c;
        let tmplist = mr_next n;
        if bsearch c pl compare then do {
          s \<leftarrow> wr c (\<lambda>n. n\<lparr>mr_next := zl_p s t\<rparr>) s;
          scan_loop bsearch pl t tmplist
            (s\<lparr>zl_p := (zl_p s)(t := c), zl_number := (zl_number s)(t := zl_number s t + 1)\<rparr>)
        } else do {
          s \<leftarrow> free_node c s;
          scan_loop bsearch pl t tmplist s
        }
      })"

definition scan ::
    "(ptr list \<Rightarrow> (ptr \<Rightarrow> ptr \<Rightarrow> int) \<Rightarrow> ptr list) \<Rightarrow>
     (ptr \<Rightarrow> ptr list \<Rightarrow> (ptr \<Rightarrow> ptr \<Rightarrow> int) \<Rightarrow> bool) \<Rightarrow> bool \<Rightarrow> nat \<Rightarrow> nat \<Rightarrow>
     'w hp_scheme \<Rightarrow> 'w hp_scheme option" where
  "scan qsort bsearch direct nbthreads t s = (
     let s = s\<lparr>nbblockeds := HP_R direct nbthreads\<rparr>;
       pl = qsort (plist s) compare;
       tmplist = zl_p s t;
       s = s\<lparr>zl_p := (zl_p s)(t := NULL), zl_number := (zl_number s)(t := 0)\<rparr>
     in scan_loop bsearch pl t tmplist s)"

definition hp_free_node_later ::
    "(ptr list \<Rightarrow> (ptr \<Rightarrow> ptr \<Rightarrow> int) \<Rightarrow> ptr list) \<Rightarrow>
     (ptr \<Rightarrow> ptr list \<Rightarrow> (ptr \<Rightarrow> ptr \<Rightarrow> int) \<Rightarrow> bool) \<Rightarrow> bool \<Rightarrow> nat \<Rightarrow> nat \<Rightarrow>
     ptr \<Rightarrow> 'w hp_scheme \<Rightarrow> 'w hp_scheme option" where
  "hp_free_node_later qsort bsearch direct nbthreads t n s = do {
     s \<leftarrow> wr n (\<lambda>m. m\<lparr>mr_next := zl_p s t\<rparr>) s;
     let s = s\<lparr>zl_p := (zl_p s)(t := n), zl_number := (zl_number s)(t := zl_number s t + 1)\<rparr>;
     if HP_R direct nbthreads < zl_number s t then scan qsort bsearch direct nbthreads t s else Some s
   }"

definition hp_init_new_node :: "'w hp_scheme \<Rightarrow> (ptr \<times> 'w hp_scheme) option" where
  "hp_init_new_node s = new_node s"

section \<open>The search\<close>

text \<open>
  \<open>base\<close> is \<open>thread * K\<close>; \<open>off\<close> alternates between the two slots.  Undisturbed, the
  test \<open>*prev != cur\<close> never fails; the branch is kept as the code has it.
\<close>

partial_function (option) hp_search_loop ::
    "int \<Rightarrow> nat \<Rightarrow> nat \<Rightarrow> nat \<Rightarrow> loc \<Rightarrow> ptr \<Rightarrow> 'w hp_scheme \<Rightarrow> (int \<times> 'w hp_scheme) option" where
  "hp_search_loop k b base off prev c s =
     (if c = NULL then Some (0, s)
      else do {
        let s = s\<lparr>HP := (HP s)(base + off := c)\<rparr>;
        c' \<leftarrow> get_loc s prev;
        if c' \<noteq> c then do {
          let s = s\<lparr>hp_nbretry := hp_nbretry s + 1\<rparr>;
          hp_search_loop k b base off (Head b) (heads s b) s
        } else if and c 1 \<noteq> 0 then None
        else do {
          n \<leftarrow> rd s c;
          if k \<le> key n then Some (if key n = k then 1 else 0, s)
          else hp_search_loop k b base (1 - off) (Next c) (clean_pointer (nxt n)) s
        }
      })"

definition hp_search :: "nat \<Rightarrow> int \<Rightarrow> nat \<Rightarrow> 'w hp_scheme \<Rightarrow> (int \<times> 'w hp_scheme) option" where
  "hp_search thread k b s = hp_search_loop k b (thread * HP_K) 0 (Head b) (heads s b) s"

section \<open>The C library\<close>

text \<open>
  What \<open>qsort\<close> and \<open>bsearch\<close> document: for a comparison that is the order of some
  measure on the elements, sorting permutes the list into that order, and the
  search in a sorted list finds out whether some element compares equal.
\<close>

definition orders :: "(ptr \<Rightarrow> ptr \<Rightarrow> int) \<Rightarrow> ptr set \<Rightarrow> bool" where
  "orders cmp X \<longleftrightarrow> (\<forall>a\<in>X. \<forall>b\<in>X. (cmp a b < 0 \<longleftrightarrow> a < b) \<and> (cmp a b = 0 \<longleftrightarrow> a = b))"

locale libc_sort =
  fixes qsort :: "ptr list \<Rightarrow> (ptr \<Rightarrow> ptr \<Rightarrow> int) \<Rightarrow> ptr list"
    and bsearch :: "ptr \<Rightarrow> ptr list \<Rightarrow> (ptr \<Rightarrow> ptr \<Rightarrow> int) \<Rightarrow> bool"
  assumes qsort_sorts: "orders cmp (set xs) \<Longrightarrow> set (qsort xs cmp) = set xs \<and> sorted (qsort xs cmp)"
    and bsearch_finds: "orders cmp (insert x (set xs)) \<Longrightarrow> sorted xs \<Longrightarrow> bsearch x xs cmp \<longleftrightarrow> x \<in> set xs"
begin

lemma lookup:
  assumes "orders cmp (insert x (set xs))"
  shows "bsearch x (qsort xs cmp) cmp \<longleftrightarrow> x \<in> set xs"
proof -
  have "orders cmp (set xs)" using assms by (auto simp: orders_def)
  then have q: "set (qsort xs cmp) = set xs" "sorted (qsort xs cmp)" using qsort_sorts by auto
  then show ?thesis using bsearch_finds [of cmp x "qsort xs cmp"] assms by simp
qed

end

text \<open>An instance: insertion sort and the textbook binary search.\<close>

primrec insert_by :: "(ptr \<Rightarrow> ptr \<Rightarrow> int) \<Rightarrow> ptr \<Rightarrow> ptr list \<Rightarrow> ptr list" where
  "insert_by cmp x [] = [x]"
| "insert_by cmp x (y # ys) = (if cmp x y \<le> 0 then x # y # ys else y # insert_by cmp x ys)"

definition isort :: "ptr list \<Rightarrow> (ptr \<Rightarrow> ptr \<Rightarrow> int) \<Rightarrow> ptr list" where
  "isort xs cmp = foldr (insert_by cmp) xs []"

fun bin_search :: "ptr \<Rightarrow> ptr list \<Rightarrow> (ptr \<Rightarrow> ptr \<Rightarrow> int) \<Rightarrow> bool" where
  "bin_search x [] cmp = False"
| "bin_search x (y # ys) cmp =
     (let m = length (y # ys) div 2; z = (y # ys) ! m in
      if cmp x z < 0 then bin_search x (take m (y # ys)) cmp
      else if cmp x z = 0 then True
      else bin_search x (drop (Suc m) (y # ys)) cmp)"

lemma set_insert_by: "set (insert_by cmp x ys) = insert x (set ys)"
  by (induction ys) auto

lemma sorted_insert_by: "orders cmp (insert x (set ys)) \<Longrightarrow> sorted ys \<Longrightarrow> sorted (insert_by cmp x ys)"
proof (induction ys)
  case Nil
  then show ?case by simp
next
  case (Cons y ys)
  have le: "cmp x y \<le> 0 \<longleftrightarrow> x \<le> y" using Cons.prems(1) by (auto simp: orders_def le_less)
  have "orders cmp (insert x (set ys))" using Cons.prems(1) by (auto simp: orders_def)
  then show ?case using Cons le by (auto simp: set_insert_by)
qed

lemma isort_ok: "orders cmp (set xs) \<Longrightarrow> set (isort xs cmp) = set xs \<and> sorted (isort xs cmp)"
proof (induction xs)
  case Nil
  then show ?case by (simp add: isort_def)
next
  case (Cons x xs)
  have "orders cmp (set xs)" using Cons.prems by (auto simp: orders_def)
  then have IH: "set (isort xs cmp) = set xs" "sorted (isort xs cmp)" using Cons.IH by auto
  have e: "isort (x # xs) cmp = insert_by cmp x (isort xs cmp)" by (simp add: isort_def)
  show ?case unfolding e using IH Cons.prems sorted_insert_by [of cmp x "isort xs cmp"]
    by (simp add: set_insert_by)
qed

lemma bin_search_ok:
  "orders cmp (insert x (set xs)) \<Longrightarrow> sorted xs \<Longrightarrow> bin_search x xs cmp \<longleftrightarrow> x \<in> set xs"
proof (induction x xs cmp rule: bin_search.induct)
  case (1 x cmp)
  then show ?case by simp
next
  case (2 x y ys cmp)
  let ?l = "y # ys"
  define m where "m = length ?l div 2"
  have m: "m < length ?l" by (simp add: m_def)
  have l: "?l = take m ?l @ ?l ! m # drop (Suc m) ?l" by (rule id_take_nth_drop [OF m])
  have sub: "orders cmp (insert x (set (take m ?l)))" "orders cmp (insert x (set (drop (Suc m) ?l)))"
    using 2(3) set_take_subset [of m ?l] set_drop_subset [of "Suc m" ?l] unfolding orders_def by blast+
  have so: "sorted (take m ?l)" "sorted (drop (Suc m) ?l)" using 2(4) sorted_wrt_take sorted_wrt_drop by blast+
  have "sorted (take m ?l @ ?l ! m # drop (Suc m) ?l)" using 2(4) l by simp
  then have b: "\<forall>u\<in>set (take m ?l). u \<le> ?l ! m" "\<forall>u\<in>set (drop (Suc m) ?l). ?l ! m \<le> u"
    by (auto simp: sorted_append)
  have mem: "x \<in> set ?l \<longleftrightarrow> x \<in> set (take m ?l) \<or> x = ?l ! m \<or> x \<in> set (drop (Suc m) ?l)"
    by (subst l) auto
  have c: "cmp x (?l ! m) < 0 \<longleftrightarrow> x < ?l ! m" "cmp x (?l ! m) = 0 \<longleftrightarrow> x = ?l ! m"
    using 2(3) nth_mem [OF m] unfolding orders_def by blast+
  have e: "bin_search x ?l cmp =
      (if cmp x (?l ! m) < 0 then bin_search x (take m ?l) cmp
       else if cmp x (?l ! m) = 0 then True else bin_search x (drop (Suc m) ?l) cmp)"
    by (simp only: bin_search.simps(2) Let_def m_def)
  show ?case
  proof (rule linorder_cases [of x "?l ! m"])
    assume lt: "x < ?l ! m"
    then have "bin_search x (take m ?l) cmp \<longleftrightarrow> x \<in> set (take m ?l)"
      using 2(1) [OF m_def refl _ sub(1) so(1)] c(1) by blast
    moreover have "x \<notin> set (drop (Suc m) ?l)" using b(2) lt by (meson leD)
    ultimately show ?thesis unfolding e mem using c(1) lt by auto
  next
    assume "x = ?l ! m"
    then show ?thesis unfolding e mem using c by simp
  next
    assume gt: "?l ! m < x"
    then have n: "\<not> cmp x (?l ! m) < 0" "cmp x (?l ! m) \<noteq> 0" using c by auto
    then have "bin_search x (drop (Suc m) ?l) cmp \<longleftrightarrow> x \<in> set (drop (Suc m) ?l)"
      using 2(2) [OF m_def refl _ _ sub(2) so(2)] by blast
    moreover have "x \<notin> set (take m ?l)" using b(1) gt by (meson leD)
    ultimately show ?thesis unfolding e mem using n gt by (simp only: if_False) auto
  qed
qed

interpretation libc: libc_sort isort bin_search
  by unfold_locales (use isort_ok bin_search_ok in blast)+

section \<open>The comparison\<close>

lemma sint_diff:
  fixes a b :: ptr
  assumes "\<bar>uint a - uint b\<bar> < 2 ^ 63"
  shows "sint (a - b) = uint a - uint b"
proof -
  have "a - b = word_of_int (uint a - uint b)" by simp
  then have "sint (a - b) = signed_take_bit 63 (uint a - uint b)"
    using signed_of_int [where ?'a = int and ?'b = 64, of "uint a - uint b"] by simp
  also have "\<dots> = uint a - uint b" by (rule signed_take_bit_int_eq_self) (use assms in auto)
  finally show ?thesis .
qed

text \<open>Node addresses are multiples of 64.\<close>

definition node_addrs :: "ptr set \<Rightarrow> bool" where
  "node_addrs X \<longleftrightarrow> (\<forall>a\<in>X. 64 dvd uint a)"

lemma compare_near:
  assumes "64 dvd uint a" "64 dvd uint b" "\<bar>uint a - uint b\<bar> < 2 ^ 37"
  shows "compare a b = (uint a - uint b) div 64"
proof -
  let ?d = "(uint a - uint b) div 64"
  obtain d where d: "uint a - uint b = 64 * d" using assms(1,2) by (meson dvd_diff dvdE)
  then have "\<bar>?d\<bar> < 2 ^ 31" using assms(3) by auto
  have "compare a b = sint (word_of_int ?d :: 32 word)"
    using sint_diff [of a b] assms(3) by (simp add: compare_def)
  also have "\<dots> = signed_take_bit 31 ?d"
    using signed_of_int [where ?'a = int and ?'b = 32, of ?d] by simp
  also have "\<dots> = ?d" by (rule signed_take_bit_int_eq_self) (use \<open>\<bar>?d\<bar> < 2 ^ 31\<close> in auto)
  finally show ?thesis .
qed

lemma compare_orders:
  assumes "node_addrs X" and "\<forall>a\<in>X. \<forall>b\<in>X. \<bar>uint a - uint b\<bar> < 2 ^ 37"
  shows "orders compare X"
  unfolding orders_def
proof (intro ballI)
  fix a b assume ab: "a \<in> X" "b \<in> X"
  then have m: "64 dvd uint a" "64 dvd uint b" using assms(1) by (auto simp: node_addrs_def)
  then obtain d where d: "uint a - uint b = 64 * d" by (meson dvd_diff dvdE)
  have "\<bar>uint a - uint b\<bar> < 2 ^ 37" using assms(2) ab by blast
  then have c: "compare a b = d" using compare_near [OF m] d by simp
  have "a < b \<longleftrightarrow> uint a < uint b" "a = b \<longleftrightarrow> uint a = uint b"
    by (rule word_less_def, rule word_uint_eq_iff)
  then show "(compare a b < 0 \<longleftrightarrow> a < b) \<and> (compare a b = 0 \<longleftrightarrow> a = b)" using c d by auto
qed

section \<open>The scan\<close>

lemma alloc_inv_mr:
  assumes "alloc_inv s A F G" and "p \<in> A"
  shows "alloc_inv (s\<lparr>node := (node s)(p := (node s p)\<lparr>mr_next := v\<rparr>)\<rparr>) A F G"
proof -
  let ?s = "s\<lparr>node := (node s)(p := (node s p)\<lparr>mr_next := v\<rparr>)\<rparr>"
  have "p \<notin> set F" "p \<notin> set G" using assms by (auto simp: alloc_inv_def)
  moreover have "mrs ?s = (mrs s)(p := v)" by auto
  ultimately show ?thesis using assms(1) by (simp add: alloc_inv_def)
qed

lemma alloc_ok_mr:
  "alloc_ok s A \<Longrightarrow> p \<in> A \<Longrightarrow> alloc_ok (s\<lparr>node := (node s)(p := (node s p)\<lparr>mr_next := v\<rparr>)\<rparr>) A"
  using alloc_inv_mr unfolding alloc_ok_def by blast

text \<open>Freeing a node writes its own \<open>mr_next\<close> and, in a flush, that of the tail.\<close>

lemma free_node_frame:
  fixes s :: "'w hp_scheme"
  assumes "free_node p s = Some s'" and "p \<noteq> NULL"
  shows "q \<noteq> p \<Longrightarrow> q \<noteq> lfl_tail s \<Longrightarrow> mr_next (node s' q) = mr_next (node s q)"
    and "lfl_tail s' \<in> {NULL, p, lfl_tail s}"
    and "HP s' = HP s" "zl_p s' = zl_p s" "zl_number s' = zl_number s"
  using assms by (auto simp: free_node_def add_free_eq pushed_def flushed_def split: if_splits)

text \<open>
  Nodes \<open>D\<close> stay on the free lists whatever is freed next: once the tail is set they
  are in front of it in the private list, or in the shared one.
\<close>

definition freed :: "'w hp_scheme \<Rightarrow> ptr set \<Rightarrow> ptr set \<Rightarrow> bool" where
  "freed s A D \<longleftrightarrow> (\<exists>F G. alloc_inv s A F G \<and>
     D \<subseteq> set (if lfl_tail s = NULL then G else flush_list (lfl_tail s) F G))"

lemma freed_start: "alloc_ok s A \<Longrightarrow> freed s A {}"
  by (auto simp: freed_def alloc_ok_def)

lemma freed_ok: "freed s A D \<Longrightarrow> alloc_ok s A"
  by (auto simp: freed_def alloc_ok_def)

lemma freed_lists:
  assumes "freed s A D"
  shows "\<exists>F G. chain (mrs s) (lfl s) F NULL \<and> chain (mrs s) (freelist s) G NULL \<and> D \<subseteq> set F \<union> set G"
proof -
  obtain F G where "alloc_inv s A F G" "D \<subseteq> set (if lfl_tail s = NULL then G else flush_list (lfl_tail s) F G)"
    using assms by (auto simp: freed_def)
  then show ?thesis using set_flush_list [of "lfl_tail s" F G]
    by (intro exI [of _ F] exI [of _ G]) (auto simp: alloc_inv_def split: if_splits)
qed

lemma freed_cong:
  assumes "freed s A D" and "\<And>p. mr_next (node s' p) = mr_next (node s p)" and "lfl s' = lfl s"
    and "freelist s' = freelist s" and "lfl_tail s' = lfl_tail s" and "lcnt s' = lcnt s" and "pool s' = pool s"
  shows "freed s' A D"
  using assms alloc_inv_cong [of s A _ _ s'] unfolding freed_def by metis

lemma freed_mr:
  "freed s A D \<Longrightarrow> p \<in> A \<Longrightarrow> freed (s\<lparr>node := (node s)(p := (node s p)\<lparr>mr_next := v\<rparr>)\<rparr>) A D"
  using alloc_inv_mr unfolding freed_def by fastforce

lemma flush_list_push: "p \<noteq> t \<Longrightarrow> set (flush_list t (p # F) G) = insert p (set (flush_list t F G))"
  by (simp add: flush_list_def)

lemma free_node_freed:
  assumes f: "freed s (insert p A) D" and p: "p \<notin> A" "p \<noteq> lfl_tail s"
  shows "\<exists>s'. free_node p s = Some s' \<and> freed s' A (insert p D) \<and> mr_only s s'"
proof -
  obtain F G where inv: "alloc_inv s (insert p A) F G"
    and D: "D \<subseteq> set (if lfl_tail s = NULL then G else flush_list (lfl_tail s) F G)"
    using f by (auto simp: freed_def)
  let ?t = "if lfl_tail s = NULL then p else lfl_tail s"
  have pn: "p \<noteq> NULL" using inv by (auto simp: alloc_inv_def)
  have sub: "insert p D \<subseteq> set (flush_list ?t (p # F) G)"
    using D flush_list_push [OF p(2), of F G] by (auto simp: flush_list_def [of p])
  show ?thesis
  proof (cases "lcnt s + 1 < AMORT_FREE_ON")
    case True
    then obtain s1 where s1: "add_free p s = Some s1" "mr_only s s1" "alloc_inv s1 A (p # F) G"
      using add_free_plain [OF inv p(1)] by blast
    have "lfl_tail s1 = ?t" using s1(1) True pn by (auto simp: add_free_eq pushed_def)
    then have "freed s1 A (insert p D)" using s1(3) sub pn unfolding freed_def
      by (intro exI [of _ "p # F"] exI [of _ G]) auto
    then have "freed (s1\<lparr>nbfl := nbfl s1 + 1\<rparr>) A (insert p D)" by (rule freed_cong) simp_all
    then show ?thesis using s1 by (simp add: free_node_def mr_only_def)
  next
    case False
    then obtain s1 where s1: "add_free p s = Some s1" "mr_only s s1"
      "alloc_inv s1 A [] (flush_list ?t (p # F) G)"
      using add_free_flush [OF inv p(1)] by auto
    have "lfl_tail s1 = NULL" using s1(1) False pn by (auto simp: add_free_eq flushed_def)
    then have "freed s1 A (insert p D)" using s1(3) sub by (auto simp: freed_def)
    then have "freed (s1\<lparr>nbfl := nbfl s1 + 1\<rparr>) A (insert p D)" by (rule freed_cong) simp_all
    then show ?thesis using s1 by (simp add: free_node_def mr_only_def)
  qed
qed

text \<open>
  A scan loop over the nodes \<open>Z\<close> pushes those the search finds onto the zombie list
  \<open>Y\<close> of the thread; the others end on the allocator's free lists.
\<close>

definition zombies_ok :: "'w hp_scheme \<Rightarrow> nat \<Rightarrow> ptr set \<Rightarrow> ptr list \<Rightarrow> bool" where
  "zombies_ok s t A Z \<longleftrightarrow> chain (mrs s) (zl_p s t) Z NULL \<and> alloc_ok s (A \<union> set Z) \<and>
     A \<inter> set Z = {} \<and> lfl_tail s \<notin> set Z"

lemma scan_loop_spec:
  assumes "chain (mrs s) tmp Z NULL" and "chain (mrs s) (zl_p s t) Y NULL"
    and "freed s (A \<union> set Z \<union> set Y) D" and "A \<inter> (set Z \<union> set Y) = {}" and "set Z \<inter> set Y = {}"
    and "lfl_tail s \<notin> set Z \<union> set Y"
  shows "\<exists>s'. scan_loop bs pl t tmp s = Some s' \<and>
    freed s' (A \<union> set (filter (\<lambda>c. bs c pl compare) Z) \<union> set Y)
      (D \<union> set (filter (\<lambda>c. \<not> bs c pl compare) Z)) \<and>
    zombies_ok s' t A (rev (filter (\<lambda>c. bs c pl compare) Z) @ Y) \<and>
    zl_number s' t = zl_number s t + int (length (filter (\<lambda>c. bs c pl compare) Z)) \<and>
    (\<forall>u. u \<noteq> t \<longrightarrow> zl_p s' u = zl_p s u \<and> zl_number s' u = zl_number s u) \<and> HP s' = HP s \<and> mr_only s s'"
  using assms
proof (induction Z arbitrary: tmp s Y D)
  case Nil
  then have "tmp = NULL" by simp
  then show ?case using Nil
    by (subst scan_loop.simps) (auto simp: zombies_ok_def dest: freed_ok)
next
  case (Cons c Z)
  then have c: "tmp = c" "c \<noteq> NULL" "chain (mrs s) (mr_next (node s c)) Z NULL" by auto
  have dis: "c \<notin> set Z" "c \<notin> set Y" "c \<notin> A"
    using chain_distinct [OF Cons.prems(1)] Cons.prems(4,5) by auto
  show ?case
  proof (cases "bs c pl compare")
    case True
    let ?s1 = "s\<lparr>node := (node s)(c := (node s c)\<lparr>mr_next := zl_p s t\<rparr>)\<rparr>"
    let ?s = "?s1\<lparr>zl_p := (zl_p s)(t := c), zl_number := (zl_number s)(t := zl_number s t + 1)\<rparr>"
    have m: "mrs ?s = (mrs s)(c := zl_p s t)" by auto
    have "freed ?s1 (A \<union> set (c # Z) \<union> set Y) D" by (rule freed_mr [OF Cons.prems(3)]) simp
    then have "freed ?s (A \<union> set (c # Z) \<union> set Y) D" by (rule freed_cong) simp_all
    then have a: "freed ?s (A \<union> set Z \<union> set (c # Y)) D" by (simp add: insert_commute Un_left_commute)
    have z: "chain (mrs ?s) (mr_next (node s c)) Z NULL" unfolding m using c(3) dis(1) by simp
    have y: "chain (mrs ?s) (zl_p ?s t) (c # Y) NULL" unfolding m using Cons.prems(2) dis(2) c(2) by simp
    obtain s' where s': "scan_loop bs pl t (mr_next (node s c)) ?s = Some s'"
      "zombies_ok s' t A (rev (filter (\<lambda>c. bs c pl compare) Z) @ c # Y)"
      "zl_number s' t = zl_number ?s t + int (length (filter (\<lambda>c. bs c pl compare) Z))"
      "\<forall>u. u \<noteq> t \<longrightarrow> zl_p s' u = zl_p ?s u \<and> zl_number s' u = zl_number ?s u" "HP s' = HP ?s" "mr_only ?s s'"
      "freed s' (A \<union> set (filter (\<lambda>c. bs c pl compare) Z) \<union> set (c # Y))
        (D \<union> set (filter (\<lambda>c. \<not> bs c pl compare) Z))"
      using Cons.IH [OF z y a] Cons.prems(4-6) dis by auto
    have "scan_loop bs pl t tmp s = Some s'"
      using s'(1) c True by (subst scan_loop.simps) (simp add: mem_simps Let_def)
    moreover have "mr_only s ?s" by (simp add: mr_only_def)
    then have "mr_only s s'" using s'(6) by (rule mr_only_trans)
    ultimately show ?thesis using s'(2-5,7) True
      by (intro exI [of _ s']) (simp add: insert_commute Un_left_commute)
  next
    case False
    have "freed s (insert c (A \<union> set Z \<union> set Y)) D" "c \<notin> A \<union> set Z \<union> set Y"
      "c \<noteq> lfl_tail s" using Cons.prems(3,6) dis by auto
    then obtain s1 where s1: "free_node c s = Some s1" "freed s1 (A \<union> set Z \<union> set Y) (insert c D)" "mr_only s s1"
      using free_node_freed by blast
    note fr = free_node_frame [OF s1(1) c(2)]
    have m: "mrs s1 x = mrs s x" if "x \<in> set Z \<union> set Y" for x
      using that dis Cons.prems(6) by (intro fr(1)) auto
    have z: "chain (mrs s1) (mr_next (node s c)) Z NULL" and y: "chain (mrs s1) (zl_p s1 t) Y NULL"
      using c(3) Cons.prems(2) chain_cong [of Z "mrs s1" "mrs s"] chain_cong [of Y "mrs s1" "mrs s"] m fr(4)
      by auto
    have "NULL \<notin> set Z \<union> set Y" using chain_no_NULL [OF z] chain_no_NULL [OF y] by simp
    then have t: "lfl_tail s1 \<notin> set Z \<union> set Y" using fr(2) dis Cons.prems(6) by auto
    obtain s' where s': "scan_loop bs pl t (mr_next (node s c)) s1 = Some s'"
      "zombies_ok s' t A (rev (filter (\<lambda>c. bs c pl compare) Z) @ Y)"
      "zl_number s' t = zl_number s1 t + int (length (filter (\<lambda>c. bs c pl compare) Z))"
      "\<forall>u. u \<noteq> t \<longrightarrow> zl_p s' u = zl_p s1 u \<and> zl_number s' u = zl_number s1 u" "HP s' = HP s1" "mr_only s1 s'"
      "freed s' (A \<union> set (filter (\<lambda>c. bs c pl compare) Z) \<union> set Y)
        (insert c D \<union> set (filter (\<lambda>c. \<not> bs c pl compare) Z))"
      using Cons.IH [OF z y s1(2) _ _ t] Cons.prems(4,5) by auto
    have "scan_loop bs pl t tmp s = Some s'"
      using s'(1) s1(1) c False by (subst scan_loop.simps) (simp add: mem_simps Let_def)
    moreover have "mr_only s s'" by (rule mr_only_trans [OF s1(3) s'(6)])
    ultimately show ?thesis using s'(2-5,7) fr(3-5) False by (intro exI [of _ s']) simp
  qed
qed

text \<open>A scan with a current tail, over any library that keeps its documented promise.\<close>

context libc_sort
begin

lemma scan_spec:
  assumes Z: "zombies_ok s t A Z" and o: "orders compare (set Z \<union> set (plist s))"
  shows "\<exists>s'. scan qsort bsearch d n t s = Some s' \<and>
    freed s' (A \<union> set (filter (\<lambda>c. c \<in> set (plist s)) Z)) (set (filter (\<lambda>c. c \<notin> set (plist s)) Z)) \<and>
    zombies_ok s' t A (rev (filter (\<lambda>c. c \<in> set (plist s)) Z)) \<and>
    zl_number s' t = int (length (filter (\<lambda>c. c \<in> set (plist s)) Z)) \<and>
    (\<forall>u. u \<noteq> t \<longrightarrow> zl_p s' u = zl_p s u \<and> zl_number s' u = zl_number s u) \<and> HP s' = HP s \<and> mr_only s s'"
proof -
  let ?pl = "qsort (plist s) compare"
  let ?s = "s\<lparr>nbblockeds := HP_R d n, zl_p := (zl_p s)(t := NULL), zl_number := (zl_number s)(t := 0)\<rparr>"
  have b: "bsearch c ?pl compare \<longleftrightarrow> c \<in> set (plist s)" if "c \<in> set Z" for c
  proof (rule lookup)
    show "orders compare (insert c (set (plist s)))" using o that unfolding orders_def by blast
  qed
  have f: "filter (\<lambda>c. bsearch c ?pl compare) Z = filter (\<lambda>c. c \<in> set (plist s)) Z"
    by (rule filter_cong) (simp_all add: b)
  have nf: "filter (\<lambda>c. \<not> bsearch c ?pl compare) Z = filter (\<lambda>c. c \<notin> set (plist s)) Z"
    by (rule filter_cong) (simp_all add: b)
  have "plist (s\<lparr>nbblockeds := HP_R d n\<rparr>) = plist s" by (simp add: plist_def)
  then have e: "scan qsort bsearch d n t s = scan_loop bsearch ?pl t (zl_p s t) ?s"
    by (simp add: scan_def Let_def)
  have "freed ?s (A \<union> set Z \<union> set []) {}"
    by (rule freed_start, rule alloc_ok_cong [of s]) (use Z in \<open>simp_all add: zombies_ok_def\<close>)
  then have "\<exists>s'. scan_loop bsearch ?pl t (zl_p s t) ?s = Some s' \<and>
    freed s' (A \<union> set (filter (\<lambda>c. bsearch c ?pl compare) Z) \<union> set [])
      ({} \<union> set (filter (\<lambda>c. \<not> bsearch c ?pl compare) Z)) \<and>
    zombies_ok s' t A (rev (filter (\<lambda>c. bsearch c ?pl compare) Z) @ []) \<and>
    zl_number s' t = zl_number ?s t + int (length (filter (\<lambda>c. bsearch c ?pl compare) Z)) \<and>
    (\<forall>u. u \<noteq> t \<longrightarrow> zl_p s' u = zl_p ?s u \<and> zl_number s' u = zl_number ?s u) \<and> HP s' = HP ?s \<and> mr_only ?s s'"
    by (intro scan_loop_spec) (use Z in \<open>simp_all add: zombies_ok_def\<close>)
  then obtain s' where s': "scan_loop bsearch ?pl t (zl_p s t) ?s = Some s'"
    "zombies_ok s' t A (rev (filter (\<lambda>c. c \<in> set (plist s)) Z))"
    "zl_number s' t = int (length (filter (\<lambda>c. c \<in> set (plist s)) Z))"
    "\<forall>u. u \<noteq> t \<longrightarrow> zl_p s' u = zl_p s u \<and> zl_number s' u = zl_number s u" "HP s' = HP s" "mr_only ?s s'"
    "freed s' (A \<union> set (filter (\<lambda>c. c \<in> set (plist s)) Z)) (set (filter (\<lambda>c. c \<notin> set (plist s)) Z))"
    unfolding f nf by auto
  have "mr_only s ?s" by (simp add: mr_only_def)
  then have "mr_only s s'" using s'(6) by (rule mr_only_trans)
  then show ?thesis using e s'(1-5,7) by auto
qed

lemma retire_spec:
  assumes Z: "zombies_ok s t (insert p A) Z" and p: "p \<notin> A" "p \<noteq> NULL" "p \<noteq> lfl_tail s"
    and num: "zl_number s t = int (length Z)"
    and o: "orders compare (insert p (set Z \<union> set (plist s)))"
  shows "\<exists>s' Z'. hp_free_node_later qsort bsearch d n t p s = Some s' \<and> zombies_ok s' t A Z' \<and>
    zl_number s' t = int (length Z') \<and> mr_only s s' \<and>
    Z' = (if HP_R d n < int (length Z) + 1 then rev (filter (\<lambda>c. c \<in> set (plist s)) (p # Z)) else p # Z)"
proof -
  have c: "chain (mrs s) (zl_p s t) Z NULL" and ok: "alloc_ok s (insert p A \<union> set Z)"
    and dis: "insert p A \<inter> set Z = {}" "lfl_tail s \<notin> set Z"
    using Z by (auto simp: zombies_ok_def)
  let ?s1 = "s\<lparr>node := (node s)(p := (node s p)\<lparr>mr_next := zl_p s t\<rparr>)\<rparr>"
  let ?s = "?s1\<lparr>zl_p := (zl_p s)(t := p), zl_number := (zl_number s)(t := zl_number s t + 1)\<rparr>"
  have m: "mrs ?s = (mrs s)(p := zl_p s t)" by auto
  have "alloc_ok ?s1 (insert p A \<union> set Z)" by (rule alloc_ok_mr [OF ok]) simp
  then have "alloc_ok ?s (insert p A \<union> set Z)" by (rule alloc_ok_cong) simp_all
  then have "alloc_ok ?s (A \<union> set (p # Z))" by simp
  moreover have "chain (mrs ?s) (zl_p ?s t) (p # Z) NULL" unfolding m using c p(2) dis(1) by simp
  ultimately have Z1: "zombies_ok ?s t A (p # Z)" using dis p by (auto simp: zombies_ok_def)
  have pl: "plist ?s = plist s" by (simp add: plist_def)
  have mr: "mr_only s ?s" by (simp add: mr_only_def)
  show ?thesis
  proof (cases "HP_R d n < int (length Z) + 1")
    case False
    then have "hp_free_node_later qsort bsearch d n t p s = Some ?s"
      using p(2) num by (simp add: hp_free_node_later_def mem_simps)
    then show ?thesis using False Z1 mr num by (intro exI [of _ ?s] exI [of _ "p # Z"]) simp
  next
    case True
    then have e: "hp_free_node_later qsort bsearch d n t p s = scan qsort bsearch d n t ?s"
      using p(2) num by (simp add: hp_free_node_later_def mem_simps)
    have "orders compare (set (p # Z) \<union> set (plist ?s))" using o pl by simp
    then obtain s' where s': "scan qsort bsearch d n t ?s = Some s'"
      "zombies_ok s' t A (rev (filter (\<lambda>c. c \<in> set (plist s)) (p # Z)))"
      "zl_number s' t = int (length (filter (\<lambda>c. c \<in> set (plist s)) (p # Z)))" "mr_only ?s s'"
      using scan_spec [OF Z1] unfolding pl by blast
    have "mr_only s s'" by (rule mr_only_trans [OF mr s'(4)])
    then show ?thesis using True e s'(1-3)
      by (intro exI [of _ s'] exI [of _ "rev (filter (\<lambda>c. c \<in> set (plist s)) (p # Z))"]) simp
  qed
qed

end

section \<open>The search\<close>

lemma hp_search_loop_spec:
  assumes "chain (nxts s) c ys NULL" and "get_loc s prev = Some c" and "sorted_wrt (<) (map (keyof s) ys)"
    and "\<forall>y\<in>set ys. even y" and "off \<in> {0, 1}"
  shows "\<exists>g. hp_search_loop k b base off prev c s =
      Some (if k \<in> keys_of s ys then 1 else 0, s\<lparr>HP := g\<rparr>) \<and>
    (\<forall>i. i \<noteq> base \<longrightarrow> i \<noteq> base + 1 \<longrightarrow> g i = HP s i) \<and>
    (\<forall>us y vs. ys = us @ y # vs \<longrightarrow> (\<forall>x\<in>set us. keyof s x < k) \<longrightarrow> k \<le> keyof s y \<longrightarrow>
       g base = y \<or> g (base + 1) = y)"
  using assms
proof (induction ys arbitrary: c prev off s)
  case Nil
  then have "c = NULL" by simp
  then show ?case by (subst hp_search_loop.simps) (auto intro: exI [of _ "HP s"])
next
  case (Cons y ys)
  let ?s = "s\<lparr>HP := (HP s)(base + off := y)\<rparr>"
  have c: "c = y" "y \<noteq> NULL" "chain (nxts ?s) (nxt (node ?s y)) ys NULL" and even: "and y 1 = 0"
    using Cons.prems(1,4) by (auto simp: and_one_even)
  have lc: "get_loc ?s prev = Some y" using Cons.prems(2) c(1) by (cases prev) (auto simp: rd_def)
  have so: "sorted_wrt (<) (map (keyof ?s) ys)" "\<forall>x\<in>set ys. keyof s y < keyof s x"
    using Cons.prems(3) by simp_all
  show ?case
  proof (cases "k \<le> keyof s y")
    case True
    then have "k \<notin> keys_of s ys" using so(2) by (auto simp: keys_of_def)
    then have "hp_search_loop k b base off prev c s = Some (if k \<in> keys_of s (y # ys) then 1 else 0, ?s)"
      using c lc even True by (subst hp_search_loop.simps) (auto simp: mem_simps Let_def)
    moreover have "y' = y" if "y # ys = us @ y' # vs" "\<forall>x\<in>set us. keyof s x < k" for us y' vs
      using that True by (cases us) auto
    ultimately show ?thesis using Cons.prems(5)
      by (intro exI [of _ "(HP s)(base + off := y)"] conjI) (assumption, auto)
  next
    case False
    have n: "clean_pointer (nxt (node s y)) = nxt (node s y)"
    proof (cases ys)
      case Nil
      then show ?thesis using c(3) by (simp add: clean_pointer_def)
    next
      case (Cons z zs)
      then show ?thesis using c(3) Cons.prems(4) by (simp add: clean_even)
    qed
    have "get_loc ?s (Next y) = Some (nxt (node ?s y))" using c(2) by (simp add: mem_simps)
    then obtain g where g: "hp_search_loop k b base (1 - off) (Next y) (nxt (node ?s y)) ?s =
        Some (if k \<in> keys_of ?s ys then 1 else 0, ?s\<lparr>HP := g\<rparr>)"
      "\<forall>i. i \<noteq> base \<longrightarrow> i \<noteq> base + 1 \<longrightarrow> g i = HP ?s i"
      "\<forall>us y' vs. ys = us @ y' # vs \<longrightarrow> (\<forall>x\<in>set us. keyof ?s x < k) \<longrightarrow> k \<le> keyof ?s y' \<longrightarrow>
         g base = y' \<or> g (base + 1) = y'"
      using Cons.IH [OF c(3) _ so(1), of "Next y" "1 - off"] Cons.prems(4,5) by auto
    have "hp_search_loop k b base off prev c s =
        hp_search_loop k b base (1 - off) (Next y) (nxt (node ?s y)) ?s"
      using c lc even False n by (subst hp_search_loop.simps) (simp add: mem_simps Let_def)
    then have "hp_search_loop k b base off prev c s =
        Some (if k \<in> keys_of s (y # ys) then 1 else 0, s\<lparr>HP := g\<rparr>)"
      using g(1) False by (auto simp: keys_of_def)
    moreover have "g i = HP s i" if "i \<noteq> base" "i \<noteq> base + 1" for i
      using g(2) that Cons.prems(5) by auto
    moreover have "g base = y' \<or> g (base + 1) = y'"
      if st: "y # ys = us @ y' # vs" "\<forall>x\<in>set us. keyof s x < k" "k \<le> keyof s y'" for us y' vs
    proof (cases us)
      case Nil
      then show ?thesis using st False by simp
    next
      case (Cons x us')
      then show ?thesis using st g(3) by auto
    qed
    ultimately show ?thesis by blast
  qed
qed

end
