(* ===== verification/Hazard_Properties.thy ===== *)
theory Hazard_Properties imports Hazard begin

text \<open>
  The properties of the hazard pointer scheme: what \<open>search\<close> answers and protects,
  when the comparison of \<open>hp.c\<close> is an order, what a scan frees and keeps, and the
  bound on the retired nodes that wait.
\<close>

section \<open>Searching\<close>

text \<open>
  (\<open>search\<close> with hazard pointers): it answers with the membership of the key,
  writes only the first two slots of the calling thread, and leaves the node the
  answer was read from named in one of them.
\<close>

theorem hp_search_protects:
  assumes "buckets s L" and "\<forall>p\<in>linked L. even p"
  shows "\<exists>g. hp_search t k b s = Some (if k \<in> bucket_keys s b then 1 else 0, s\<lparr>HP := g\<rparr>) \<and>
    (\<forall>i. i \<noteq> t * HP_K \<longrightarrow> i \<noteq> t * HP_K + 1 \<longrightarrow> g i = HP s i) \<and>
    (\<forall>us y vs. L b = us @ y # vs \<longrightarrow> (\<forall>x\<in>set us. keyof s x < k) \<longrightarrow> k \<le> keyof s y \<longrightarrow>
       y \<in> {g (t * HP_K), g (t * HP_K + 1)})"
proof -
  have "\<forall>y\<in>set (L b). even y" using assms(2) linkedI [of _ L b] by blast
  then obtain g where "hp_search_loop k b (t * HP_K) 0 (Head b) (heads s b) s =
      Some (if k \<in> keys_of s (L b) then 1 else 0, s\<lparr>HP := g\<rparr>)"
    "\<forall>i. i \<noteq> t * HP_K \<longrightarrow> i \<noteq> t * HP_K + 1 \<longrightarrow> g i = HP s i"
    "\<forall>us y vs. L b = us @ y # vs \<longrightarrow> (\<forall>x\<in>set us. keyof s x < k) \<longrightarrow> k \<le> keyof s y \<longrightarrow>
       g (t * HP_K) = y \<or> g (t * HP_K + 1) = y"
    using hp_search_loop_spec [OF buckets_chain [OF assms(1), of b], of "Head b" 0 k b "t * HP_K"]
      buckets_sorted [OF assms(1), of b] by auto
  then show ?thesis unfolding hp_search_def bucket_keys_eq [OF assms(1)] by blast
qed

section \<open>The comparison\<close>

text \<open>
  C?? (\<open>compare\<close> within 128 GiB): on node addresses less than 2^37 bytes apart the
  comparison is the order of the addresses, which is what \<open>qsort\<close> and \<open>bsearch\<close>
  need.
\<close>

theorem compare_is_an_order:
  assumes "node_addrs X" and "\<forall>a\<in>X. \<forall>b\<in>X. \<bar>uint a - uint b\<bar> < 2 ^ 37"
  shows "orders compare X"
  by (rule compare_orders [OF assms])

text \<open>
  (\<open>compare\<close> beyond): the difference is cut to 32 bits, so distinct nodes can
  compare equal and three nodes can each compare below the next in a circle.
\<close>

theorem compare_truncates:
  "compare 0x40 0x4000000040 = 0 \<and> compare 0x40 0x1555555580 < 0 \<and>
   compare 0x1555555580 0x2AAAAAAAC0 < 0 \<and> compare 0x2AAAAAAAC0 0x40 < 0"
  by (simp add: compare_def)

section \<open>The scan\<close>

text \<open>
  C17 (\<open>scan\<close>): where \<open>qsort\<close> and \<open>bsearch\<close> keep their documented promise, the
  addresses of zombies and slots are within the range of the comparison and the
  allocator's tail is none of the zombies, the scan keeps exactly the zombies
  some slot names, in reverse order and counted; every other zombie is on the
  private or the shared free list of the allocator afterwards, in no case in
  use; no other zombie list and no slot is touched.
\<close>

theorem scan_keeps_hazards:
  assumes "libc_sort qsort bsearch" and "zombies_ok s t A Z" and "orders compare (set Z \<union> set (plist s))"
  shows "\<exists>s'. scan qsort bsearch d n t s = Some s' \<and>
    zombies_ok s' t A (rev (filter (\<lambda>c. c \<in> set (plist s)) Z)) \<and>
    zl_number s' t = int (length (filter (\<lambda>c. c \<in> set (plist s)) Z)) \<and>
    (\<exists>F G. chain (mrs s') (lfl s') F NULL \<and> chain (mrs s') (freelist s') G NULL \<and>
      set Z - set (plist s) \<subseteq> set F \<union> set G) \<and>
    (\<forall>u. u \<noteq> t \<longrightarrow> zl_p s' u = zl_p s u \<and> zl_number s' u = zl_number s u) \<and> HP s' = HP s \<and> mr_only s s'"
proof -
  have "set (filter (\<lambda>c. c \<notin> set (plist s)) Z) = set Z - set (plist s)" by auto
  then show ?thesis using libc_sort.scan_spec [OF assms, of d n] freed_lists by metis
qed

lemma plist_short:
  assumes "\<forall>i. i < HP_H \<longrightarrow> HP s i \<noteq> NULL \<longrightarrow> i < HP_K * nbthreads"
  shows "length (plist s) \<le> HP_K * nbthreads"
proof -
  have "length (plist s) = card (set (filter (\<lambda>i. HP s i \<noteq> NULL) [0..<HP_H]))"
    unfolding plist_def length_map by (rule distinct_card [symmetric]) simp
  also have "\<dots> \<le> card {..<HP_K * nbthreads}"
    using assms by (intro card_mono) auto
  finally show ?thesis by simp
qed

text \<open>
  (the size of \<open>plist\<close>): while only slots of running threads are set, the array
  allocated for \<open>K * nbthreads\<close> pointers is large enough.
\<close>

theorem plist_fits:
  assumes "\<forall>i. i < HP_H \<longrightarrow> HP s i \<noteq> NULL \<longrightarrow> i < HP_K * nbthreads"
  shows "length (plist s) \<le> HP_K * nbthreads"
  by (rule plist_short [OF assms])

text \<open>
  C18 (retired nodes are bounded): where \<open>qsort\<close> and \<open>bsearch\<close> keep their promise,
  the addresses are within the range of the comparison, only slots of running
  threads are set, and the allocator's tail is neither the node retired nor a
  zombie: a thread that retires a node is left with at most
  \<open>R = 100 + 2 * (nbthreads * K)\<close> nodes waiting, and with \<open>DIRECT_SCAN\<close> with at
  most \<open>K * nbthreads\<close>, one per slot; its counter is their number, and no node a
  slot names has left the list.
\<close>

theorem retired_bounded:
  assumes "libc_sort qsort bsearch" and Z: "zombies_ok s t (insert p A) Z"
    and p: "p \<notin> A" "p \<noteq> NULL" "p \<noteq> lfl_tail s"
    and num: "zl_number s t = int (length Z)"
    and o: "orders compare (insert p (set Z \<union> set (plist s)))"
    and slots: "\<forall>i. i < HP_H \<longrightarrow> HP s i \<noteq> NULL \<longrightarrow> i < HP_K * nbthreads"
  shows "\<exists>s' Z'. hp_free_node_later qsort bsearch direct nbthreads t p s = Some s' \<and> zombies_ok s' t A Z' \<and>
    zl_number s' t = int (length Z') \<and> length Z' \<le> (if direct then HP_K * nbthreads else 100 + 2 * (nbthreads * HP_K)) \<and>
    (\<forall>c\<in>insert p (set Z). c \<in> set (plist s) \<longrightarrow> c \<in> set Z')"
proof -
  obtain s' Z' where s': "hp_free_node_later qsort bsearch direct nbthreads t p s = Some s'" "zombies_ok s' t A Z'"
    "zl_number s' t = int (length Z')" and Z': "Z' = (if HP_R direct nbthreads < int (length Z) + 1
      then rev (filter (\<lambda>c. c \<in> set (plist s)) (p # Z)) else p # Z)"
    using libc_sort.retire_spec [OF assms(1) Z p num o] by blast
  have "distinct (p # Z)"
    using Z chain_distinct [of "mrs s" "zl_p s t" Z] by (auto simp: zombies_ok_def)
  then have "length (filter (\<lambda>c. c \<in> set (plist s)) (p # Z)) = card (set (filter (\<lambda>c. c \<in> set (plist s)) (p # Z)))"
    by (intro distinct_card [symmetric] distinct_filter)
  also have "\<dots> \<le> card (set (plist s))" by (intro card_mono) auto
  also have "\<dots> \<le> HP_K * nbthreads" using card_length [of "plist s"] plist_short [OF slots] by simp
  finally have "int (length (filter (\<lambda>c. c \<in> set (plist s)) (p # Z))) \<le> int (HP_K * nbthreads)"
    by (simp only: of_nat_le_iff)
  then have k: "length (filter (\<lambda>c. c \<in> set (plist s)) (p # Z)) \<le> HP_K * nbthreads" by linarith
  have "length Z' \<le> (if direct then HP_K * nbthreads else 100 + 2 * (nbthreads * HP_K))"
  proof (cases "HP_R direct nbthreads < int (length Z) + 1")
    case True
    then have "length Z' \<le> HP_K * nbthreads" using Z' k by (simp only: if_True length_rev)
    then show ?thesis by (simp add: HP_K_def)
  next
    case False
    then have "length Z' = Suc (length Z)" "\<not> direct" using Z' by (auto simp: HP_R_def)
    then show ?thesis using False by (simp add: HP_R_def HP_K_def)
  qed
  moreover have "\<forall>c\<in>insert p (set Z). c \<in> set (plist s) \<longrightarrow> c \<in> set Z'" using Z' by auto
  ultimately show ?thesis using s' by blast
qed

section \<open>The stale tail of the allocator\<close>

text \<open>A small state: three zombies 64, 128, 192 of thread 0, counter and tail as given.\<close>

definition zombie_demo :: "int \<Rightarrow> ptr \<Rightarrow> hp" where
  "zombie_demo n t = \<lparr>node = (\<lambda>_. zero_node)(64 := zero_node\<lparr>mr_next := 128\<rparr>,
       128 := zero_node\<lparr>mr_next := 192\<rparr>), heads = (\<lambda>_. NULL), locks = (\<lambda>_. 0), pool = [],
     freelist = NULL, frct = 0, lfl = NULL, lfl_tail = t, lcnt = n, nbmallocs = 0, nbfl = 0,
     HP = (\<lambda>_. NULL), zl_p = (\<lambda>_. NULL)(0 := 64), zl_number = (\<lambda>_. 0)(0 := 3), nbblockeds = 0,
     hp_nbretry = 0\<rparr>"

text \<open>
  (a scan that loses a node): the zombie 128 was once the first node freed, so
  the tail still names it.  Freeing 64 fills the counter; the flush writes the
  shared list, empty, over the link from 128 to 192.  The scan ends with 64 in
  the shared list, 128 in the private one and 192 in none.
\<close>

theorem scan_stale_tail_leaks:
  "\<exists>s'. scan isort bin_search False 1 0 (zombie_demo 99 128) = Some s' \<and>
     zl_p s' 0 = NULL \<and> zl_number s' 0 = 0 \<and> freelist s' = 64 \<and> lfl s' = 128 \<and>
     mr_next (node s' 64) = NULL \<and> mr_next (node s' 128) = NULL \<and> nbfl s' = 2"
proof -
  have pl: "plist (zombie_demo n t\<lparr>nbblockeds := x\<rparr>) = []" for n t x
    by (simp add: plist_def zombie_demo_def)
  show ?thesis
    by (simp add: scan_def pl isort_def Let_def)
      (simp add: zombie_demo_def zero_node_def scan_loop.simps mem_simps free_node_def add_free_eq
        pushed_def flushed_def)
qed

section \<open>Witnesses\<close>

lemma zombie_demo_ok: "zombies_ok (zombie_demo 0 NULL) 0 {} [64, 128, 192]"
proof -
  have "alloc_inv (zombie_demo 0 NULL) {64, 128, 192} [] []"
    by (simp add: alloc_inv_def zombie_demo_def)
  then have "alloc_ok (zombie_demo 0 NULL) {64, 128, 192}" by (rule alloc_okI)
  then show ?thesis by (simp add: zombies_ok_def zombie_demo_def zero_node_def)
qed

lemma low_orders: "X \<subseteq> {64, 128, 192, 256} \<Longrightarrow> orders compare X"
proof (rule compare_orders)
  assume X: "X \<subseteq> {64, 128, 192, 256}"
  then show "node_addrs X" by (auto simp: node_addrs_def)
  show "\<forall>a\<in>X. \<forall>b\<in>X. \<bar>uint a - uint b\<bar> < 2 ^ 37"
  proof (intro ballI)
    fix a b assume "a \<in> X" "b \<in> X"
    then have "a \<in> {64, 128, 192, 256}" "b \<in> {64, 128, 192, 256}" using X by blast+
    then show "\<bar>uint a - uint b\<bar> < 2 ^ 37" by auto
  qed
qed

lemma scan_keeps_hazards_witness:
  "\<exists>s' F G. scan isort bin_search False 1 0 ((zombie_demo 0 NULL)\<lparr>HP := (\<lambda>_. NULL)(1 := 128)\<rparr>) = Some s' \<and>
     zombies_ok s' 0 {} [128] \<and> zl_number s' 0 = 1 \<and>
     chain (mrs s') (lfl s') F NULL \<and> chain (mrs s') (freelist s') G NULL \<and> {64, 192} \<subseteq> set F \<union> set G"
proof -
  let ?s = "(zombie_demo 0 NULL)\<lparr>HP := (\<lambda>_. NULL)(1 := 128)\<rparr>"
  have pl: "set (plist ?s) = {128}" by (auto simp: plist_def HP_H_def HP_K_def MAX_THREAD_def)
  have "alloc_inv ?s {64, 128, 192} [] []" by (simp add: alloc_inv_def zombie_demo_def)
  then have "alloc_ok ?s {64, 128, 192}" by (rule alloc_okI)
  then have Z: "zombies_ok ?s 0 {} [64, 128, 192]" using zombie_demo_ok by (simp add: zombies_ok_def)
  have o: "orders compare (set [64, 128, 192] \<union> set (plist ?s))"
    unfolding pl by (rule low_orders) auto
  have "set [64, 128, 192] - set (plist ?s) = {64, 192}" unfolding pl by auto
  with scan_keeps_hazards [OF libc.libc_sort_axioms Z o, of False 1] show ?thesis
    unfolding pl by simp blast
qed

lemma plist_fits_witness: "length (plist (zombie_demo 0 NULL)) \<le> HP_K * 2"
  by (rule plist_fits) (simp add: zombie_demo_def)

lemma compare_is_an_order_witness: "orders compare {64, 192}"
  by (rule compare_is_an_order) (simp_all add: node_addrs_def)

lemma retired_bounded_witness:
  "\<exists>s' Z'. hp_free_node_later isort bin_search False 1 0 256 (zombie_demo 0 NULL) = Some s' \<and>
     zombies_ok s' 0 {} Z' \<and> length Z' \<le> 106"
proof -
  have "alloc_inv (zombie_demo 0 NULL) {64, 128, 192, 256} [] []"
    by (simp add: alloc_inv_def zombie_demo_def)
  then have "alloc_ok (zombie_demo 0 NULL) (insert 256 {} \<union> set [64, 128, 192])"
    by (intro alloc_okI) (simp add: insert_commute)
  then have Z: "zombies_ok (zombie_demo 0 NULL) 0 (insert 256 {}) [64, 128, 192]"
    using zombie_demo_ok by (simp add: zombies_ok_def)
  have pl: "plist (zombie_demo 0 NULL) = []" by (simp add: plist_def zombie_demo_def)
  have "\<exists>s' Z'. hp_free_node_later isort bin_search False 1 0 256 (zombie_demo 0 NULL) = Some s' \<and>
     zombies_ok s' 0 {} Z' \<and> zl_number s' 0 = int (length Z') \<and>
     length Z' \<le> (if False then HP_K * 1 else 100 + 2 * (1 * HP_K)) \<and>
     (\<forall>c\<in>insert 256 (set [64, 128, 192]). c \<in> set (plist (zombie_demo 0 NULL)) \<longrightarrow> c \<in> set Z')"
  proof (rule retired_bounded [OF libc.libc_sort_axioms Z])
    show "orders compare (insert 256 (set [64, 128, 192] \<union> set (plist (zombie_demo 0 NULL))))"
      unfolding pl by (rule low_orders) auto
  qed (simp_all add: zombie_demo_def)
  then show ?thesis by (auto simp: HP_K_def)
qed

definition hp_demo :: hp where
  "hp_demo = (zombie_demo 0 NULL)\<lparr>heads := (\<lambda>_. NULL)(0 := 256)\<rparr>"

lemma hp_search_protects_witness:
  "\<exists>g. hp_search 2 0 0 hp_demo = Some (if 0 \<in> bucket_keys hp_demo 0 then 1 else 0, hp_demo\<lparr>HP := g\<rparr>) \<and>
     256 \<in> {g (2 * HP_K), g (2 * HP_K + 1)}"
proof -
  have B: "buckets hp_demo ((\<lambda>_. [])(0 := [256]))"
    by (auto simp: buckets_def hp_demo_def zombie_demo_def zero_node_def)
  have E: "\<forall>p\<in>linked ((\<lambda>_. [])(0 := [256])). even (p :: ptr)"
    by (auto simp: linked_def split: if_splits)
  obtain g where g: "hp_search 2 0 0 hp_demo =
      Some (if 0 \<in> bucket_keys hp_demo 0 then 1 else 0, hp_demo\<lparr>HP := g\<rparr>)"
    "\<forall>us y vs. ((\<lambda>_. [])(0 := [256])) (0 :: nat) = us @ y # vs \<longrightarrow> (\<forall>x\<in>set us. keyof hp_demo x < 0) \<longrightarrow>
       0 \<le> keyof hp_demo y \<longrightarrow> y \<in> {g (2 * HP_K), g (2 * HP_K + 1)}"
    using hp_search_protects [OF B E, of 2 0 0] by (elim exE conjE) (rule that)
  have "0 \<le> keyof hp_demo 256" by (simp add: hp_demo_def zombie_demo_def zero_node_def)
  then have "256 \<in> {g (2 * HP_K), g (2 * HP_K + 1)}" using g(2) [rule_format, of "[]" 256 "[]"] by simp
  then show ?thesis using g(1) by blast
qed

end
