(* ===== verification/Hazard_Search.thy ===== *)
theory Hazard_Search imports Hazard_Properties Gecos_Properties begin

text \<open>
  The list with hazard pointers under interleaving: \<open>search\<close> of \<open>list_hp.c\<close> one
  access at a time against the updater of \<open>list_writer.c\<close>, whose \<open>free_node_later\<close>
  is one step.  The test \<open>*prev != cur\<close> protects a node only while \<open>prev\<close> itself is
  linked; a schedule shows what happens when it is not.
\<close>

section \<open>The machine\<close>

datatype hpc = H_head | H_protect | H_check | H_next | H_key | H_fault | H_ret int

record hreader =
  h_thread :: nat
  h_key :: int
  h_bucket :: nat
  h_pc :: hpc
  h_prev :: loc
  h_cur :: ptr
  h_next :: ptr
  h_off :: nat

definition hz_init :: "nat \<Rightarrow> int \<Rightarrow> nat \<Rightarrow> hreader" where
  "hz_init t k b = \<lparr>h_thread = t, h_key = k, h_bucket = b, h_pc = H_head, h_prev = Head b,
     h_cur = NULL, h_next = NULL, h_off = 0\<rparr>"

definition hz_loop :: "ptr \<Rightarrow> hreader \<Rightarrow> hreader" where
  "hz_loop c r = r\<lparr>h_cur := c, h_pc := (if c = NULL then H_ret 0 else H_protect)\<rparr>"

definition hz_search_step :: "'w hp_scheme \<Rightarrow> hreader \<Rightarrow> 'w hp_scheme \<times> hreader" where
  "hz_search_step s r = (case h_pc r of
     H_head \<Rightarrow> (s, hz_loop (heads s (h_bucket r)) (r\<lparr>h_prev := Head (h_bucket r)\<rparr>))
   | H_protect \<Rightarrow>
       (s\<lparr>HP := (HP s)(h_thread r * HP_K + h_off r := h_cur r)\<rparr>, r\<lparr>h_pc := H_check\<rparr>)
   | H_check \<Rightarrow> (case get_loc s (h_prev r) of
       None \<Rightarrow> (s, r\<lparr>h_pc := H_fault\<rparr>)
     | Some c \<Rightarrow>
         if c \<noteq> h_cur r then (s\<lparr>hp_nbretry := hp_nbretry s + 1\<rparr>, r\<lparr>h_pc := H_head\<rparr>)
         else (s, r\<lparr>h_pc := (if and (h_cur r) 1 \<noteq> 0 then H_fault else H_next)\<rparr>))
   | H_next \<Rightarrow> (s, case rd s (h_cur r) of
       None \<Rightarrow> r\<lparr>h_pc := H_fault\<rparr>
     | Some n \<Rightarrow> r\<lparr>h_next := nxt n, h_pc := H_key\<rparr>)
   | H_key \<Rightarrow> (s, case rd s (h_cur r) of
       None \<Rightarrow> r\<lparr>h_pc := H_fault\<rparr>
     | Some n \<Rightarrow>
         if h_key r \<le> key n then r\<lparr>h_pc := H_ret (if key n = h_key r then 1 else 0)\<rparr>
         else hz_loop (clean_pointer (h_next r)) (r\<lparr>h_prev := Next (h_cur r), h_off := 1 - h_off r\<rparr>))
   | H_fault \<Rightarrow> (s, r)
   | H_ret x \<Rightarrow> (s, r))"

text \<open>Thread 0 is the updater.\<close>

definition hz_writer_step ::
    "(ptr list \<Rightarrow> (ptr \<Rightarrow> ptr \<Rightarrow> int) \<Rightarrow> ptr list) \<Rightarrow>
     (ptr \<Rightarrow> ptr list \<Rightarrow> (ptr \<Rightarrow> ptr \<Rightarrow> int) \<Rightarrow> bool) \<Rightarrow> bool \<Rightarrow> nat \<Rightarrow> hp \<Rightarrow> writer \<Rightarrow> hp \<times> writer" where
  "hz_writer_step qsort bsearch direct n s w =
     (if w_pc w = D_bump then store (hp_free_node_later qsort bsearch direct n 0 (w_cur w) s) (finish 1 w) s w
      else writer_step s w)"

record hz_sys =
  z_sh :: hp
  z_upd :: writer
  z_rds :: "nat \<Rightarrow> hreader"

fun hz_step ::
    "(ptr list \<Rightarrow> (ptr \<Rightarrow> ptr \<Rightarrow> int) \<Rightarrow> ptr list) \<Rightarrow>
     (ptr \<Rightarrow> ptr list \<Rightarrow> (ptr \<Rightarrow> ptr \<Rightarrow> int) \<Rightarrow> bool) \<Rightarrow> bool \<Rightarrow> nat \<Rightarrow> actor \<Rightarrow> hz_sys \<Rightarrow> hz_sys" where
  "hz_step q bs d n (Start_delete k b) c = c\<lparr>z_upd := start_delete k b (z_upd c)\<rparr>"
| "hz_step q bs d n (Start_insert k b) c = c\<lparr>z_upd := start_insert (z_sh c) k b (z_upd c)\<rparr>"
| "hz_step q bs d n Updater c =
     (case hz_writer_step q bs d n (z_sh c) (z_upd c) of (s, w) \<Rightarrow> c\<lparr>z_sh := s, z_upd := w\<rparr>)"
| "hz_step q bs d n (Reader i) c =
     (case hz_search_step (z_sh c) (z_rds c i) of (s, r) \<Rightarrow> c\<lparr>z_sh := s, z_rds := (z_rds c)(i := r)\<rparr>)"
| "hz_step q bs d n (Start_search i k b) c = (case h_pc (z_rds c i) of
     H_ret x \<Rightarrow> c\<lparr>z_rds := (z_rds c)(i := hz_init (h_thread (z_rds c i)) k b)\<rparr>
   | _ \<Rightarrow> c)"

primrec hz_exec ::
    "(ptr list \<Rightarrow> (ptr \<Rightarrow> ptr \<Rightarrow> int) \<Rightarrow> ptr list) \<Rightarrow>
     (ptr \<Rightarrow> ptr list \<Rightarrow> (ptr \<Rightarrow> ptr \<Rightarrow> int) \<Rightarrow> bool) \<Rightarrow> bool \<Rightarrow> nat \<Rightarrow> actor list \<Rightarrow> hz_sys \<Rightarrow> hz_sys" where
  "hz_exec q bs d n [] c = c"
| "hz_exec q bs d n (a # as) c = hz_exec q bs d n as (hz_step q bs d n a c)"

primrec hz_visited ::
    "(ptr list \<Rightarrow> (ptr \<Rightarrow> ptr \<Rightarrow> int) \<Rightarrow> ptr list) \<Rightarrow>
     (ptr \<Rightarrow> ptr list \<Rightarrow> (ptr \<Rightarrow> ptr \<Rightarrow> int) \<Rightarrow> bool) \<Rightarrow> bool \<Rightarrow> nat \<Rightarrow> actor list \<Rightarrow> hz_sys \<Rightarrow> hz_sys list" where
  "hz_visited q bs d n [] c = [c]"
| "hz_visited q bs d n (a # as) c = c # hz_visited q bs d n as (hz_step q bs d n a c)"

section \<open>A schedule\<close>

definition init_hz :: "ptr list \<Rightarrow> (nat \<Rightarrow> hreader) \<Rightarrow> hz_sys" where
  "init_hz ps q = \<lparr>z_sh = init_allocator \<lparr>node = (\<lambda>_. zero_node), heads = (\<lambda>_. NULL), locks = (\<lambda>_. 0),
     pool = ps, freelist = NULL, frct = 0, lfl = NULL, lfl_tail = NULL, lcnt = 0,
     nbmallocs = 0, nbfl = 0, HP = (\<lambda>_. NULL), zl_p = (\<lambda>_. NULL), zl_number = (\<lambda>_. 0),
     nbblockeds = 0, hp_nbretry = 0\<rparr>, z_upd = init_writer, z_rds = q\<rparr>"

text \<open>
  \<open>three_keys\<close>: the updater fills bucket 0 with 5, 7 and 9.  \<open>late_publish\<close>: a reader
  that looks for 9 is at 5 and has read its link to 7; 5 and 7 are deleted, 7 is
  freed, since no slot names it yet, and used for 20 in bucket 1; the reader
  publishes 7, finds it still behind 5, and reads 20.
\<close>

definition three_keys :: "actor list" where
  "three_keys =
     [Start_insert 9 0, Updater, Updater, Updater, Updater, Updater,
      Start_insert 7 0, Updater, Updater, Updater, Updater, Updater,
      Start_insert 5 0, Updater, Updater, Updater, Updater, Updater]"

definition late_publish :: "actor list" where
  "late_publish =
     [Reader 1, Reader 1, Reader 1, Reader 1, Reader 1,
      Start_delete 5 0, Updater, Updater, Updater, Updater,
      Start_delete 7 0, Updater, Updater, Updater, Updater,
      Start_insert 20 1, Updater, Updater, Updater, Updater, Updater,
      Reader 1, Reader 1, Reader 1, Reader 1]"

lemma hz_eval: "hz_exec q bs d n as c = e \<Longrightarrow> P e \<Longrightarrow> P (hz_exec q bs d n as c)"
  by simp

lemma hz_eval_step:
  "hz_step q bs d n a c = c' \<Longrightarrow> hz_exec q bs d n as c' = e \<Longrightarrow> hz_exec q bs d n (a # as) c = e"
  by simp

lemma plist_demo: "HP s = (\<lambda>_. NULL)(3 := 192) \<Longrightarrow> plist s = [192]"
proof -
  assume h: "HP s = (\<lambda>_. NULL)(3 := 192)"
  have "filter (\<lambda>i. HP s i \<noteq> NULL) [0..<n] = (if 3 < n then [3] else [])" for n
    by (induction n) (auto simp: h)
  then show ?thesis by (simp add: plist_def h HP_H_def HP_K_def MAX_THREAD_def)
qed

lemma isort_one: "isort [x] cmp = [x]"
  by (simp add: isort_def)

lemma bin_search_one: "bin_search x [y] cmp \<longleftrightarrow> cmp x y = 0"
  by simp

lemma compare_demo: "compare 192 192 = 0" "compare 128 192 = -1"
  by (simp_all add: compare_def)

lemmas hz_machine_eval = plist_demo isort_one bin_search_one compare_demo hz_step.simps hz_writer_step_def hp_free_node_later_def HP_R_def scan_def
  scan_loop.simps HP_K_def
  hz_search_step_def hz_loop_def hz_init_def clean_pointer_def get_loc.simps writer_step_def
  start_insert_def start_delete_def finish_def store_def init_new_node_def osa_new_node_def new_node_def
  get_free_def steal_eq calloc_node_def free_node_def add_free_eq pushed_def flushed_def mem_simps
  set_loc.simps init_hz_def init_allocator_def prealloc_def init_writer_def zero_node_def

definition race_start :: hz_sys where
  "race_start = hz_exec isort bin_search True 2 three_keys (init_hz [64, 128, 192] (\<lambda>i. hz_init i 9 0))"

lemma race_start_eq:
  "race_start = \<lparr>z_sh = \<lparr>node = (\<lambda>_. zero_node)(64 := zero_node\<lparr>key := 9\<rparr>,
       128 := zero_node\<lparr>key := 7, nxt := 64\<rparr>, 192 := zero_node\<lparr>key := 5, nxt := 128\<rparr>),
     heads = (\<lambda>_. NULL)(0 := 192), locks = (\<lambda>_. 0), pool = [], freelist = NULL, frct = 0, lfl = NULL,
     lfl_tail = NULL, lcnt = 0, nbmallocs = 3, nbfl = 0, HP = (\<lambda>_. NULL), zl_p = (\<lambda>_. NULL),
     zl_number = (\<lambda>_. 0), nbblockeds = 0, hp_nbretry = 0\<rparr>,
     z_upd = \<lparr>w_key = 5, w_bucket = 0, w_pc = W_idle, w_prev = Head 0, w_cur = 128, w_new = 192, w_ret = 1\<rparr>,
     z_rds = (\<lambda>i. hz_init i 9 0)\<rparr>"
  unfolding race_start_def three_keys_def
  apply (rule hz_eval [where P = "\<lambda>c. c = _"])
   apply ((rule hz_eval_step, (simp add: hz_machine_eval Let_def del: bin_search.simps; fail))+)
   apply (rule hz_exec.simps(1))
  apply (simp add: hz_init_def zero_node_def numeral_3_eq_3)
  done

lemma race_end:
  "h_pc (z_rds (hz_exec isort bin_search True 2 late_publish race_start) 1) = H_ret 0"
  unfolding late_publish_def race_start_eq
  apply (rule hz_eval [where P = "\<lambda>c. h_pc (z_rds c 1) = H_ret 0"])
   apply ((rule hz_eval_step, (simp add: hz_machine_eval Let_def del: bin_search.simps; fail))+)
   apply (rule hz_exec.simps(1))
  apply simp
  done

lemma hz_all_step:
  assumes "hz_step q bs d n a c = c'" and "P c" and "\<forall>e\<in>set (hz_visited q bs d n as c'). P e"
  shows "\<forall>e\<in>set (hz_visited q bs d n (a # as) c). P e"
  using assms by simp

lemma in_bucket: "chain (nxts s) (heads s b) xs NULL \<Longrightarrow> k \<in> keys_of s xs \<Longrightarrow> k \<in> bucket_keys s b"
  by (auto simp: bucket_keys_def)

lemma nine_stays:
  "\<forall>c\<in>set (hz_visited isort bin_search True 2 late_publish race_start). 9 \<in> bucket_keys (z_sh c) 0"
  unfolding late_publish_def race_start_eq
  apply ((rule hz_all_step, (simp add: hz_machine_eval Let_def del: bin_search.simps; fail),
      (rule in_bucket [of _ _ "[192, 128, 64]"]; simp add: keys_of_def zero_node_def; fail |
       rule in_bucket [of _ _ "[128, 64]"]; simp add: keys_of_def zero_node_def; fail |
       rule in_bucket [of _ _ "[64]"]; simp add: keys_of_def zero_node_def; fail))+)
  apply simp
  apply (rule in_bucket [of _ _ "[64]"]; simp add: keys_of_def zero_node_def)
  done

text \<open>
  C37 (hazard pointers, a wrong answer): with \<open>DIRECT_SCAN\<close>, two threads and correct
  \<open>qsort\<close> and \<open>bsearch\<close>, a search for 9 answers 0 although 9 is in the bucket from
  its first step to its last.  \<open>*prev == cur\<close> holds since an unlinked node keeps its
  link; a larger \<open>R\<close> only makes the schedule longer.
\<close>

theorem hp_search_misses:
  "h_pc (z_rds (hz_exec isort bin_search True 2 late_publish race_start) 1) = H_ret 0 \<and>
   list_all (\<lambda>c. 9 \<in> bucket_keys (z_sh c) 0) (hz_visited isort bin_search True 2 late_publish race_start)"
  using race_end nine_stays unfolding list_all_iff by (rule conjI)

end
