(* ===== verification/Rcu_Properties.thy ===== *)
theory Rcu_Properties imports Rcu Search_Evidence Gecos_Properties begin

text \<open>
  What the RCU list gives under the grace periods of the library: answers of
  \<open>search\<close> are linearizable, a reader never stands on a freed node, callbacks
  never fail, and how far the counters of \<open>rcu.c\<close> are from the truth.
\<close>

section \<open>The invariant of a reader\<close>

text \<open>
  \<open>Z\<close> are the nodes unlinked from the reader's bucket since it entered: they wait
  for it, so they keep their key and their link.  \<open>H\<close> collects the key sets its
  bucket has had since.
\<close>

definition unlinked ::
    "rcu \<Rightarrow> writer \<Rightarrow> (nat \<Rightarrow> ptr list) \<Rightarrow> (ptr \<Rightarrow> nat set) \<Rightarrow> int set set \<Rightarrow> nat \<Rightarrow> ureader \<Rightarrow> ptr set \<Rightarrow> bool" where
  "unlinked s w L G H i r Z \<longleftrightarrow>
     (\<forall>p\<in>Z. p \<in> set (pending s) \<and> i \<in> G p \<or> w_pc w = D_bump \<and> w_cur w = p) \<and>
     (\<forall>p\<in>Z. keyof s p < u_key r \<longrightarrow> after s H (u_key r) (set (L (u_bucket r)) \<union> Z) (nxt (node s p)))"

definition u_inv ::
    "rcu \<Rightarrow> writer \<Rightarrow> (nat \<Rightarrow> ptr list) \<Rightarrow> (ptr \<Rightarrow> nat set) \<Rightarrow> int set set \<Rightarrow> nat \<Rightarrow> ureader \<Rightarrow> ptr set \<Rightarrow> bool" where
  "u_inv s w L G H i r Z \<longleftrightarrow> unlinked s w L G H i r Z \<and> (reading r \<or> Z = {}) \<and>
     (case u_pc r of
        U_key \<Rightarrow> u_cur r \<noteq> NULL \<and> after s H (u_key r) (set (L (u_bucket r)) \<union> Z) (u_cur r)
      | U_next \<Rightarrow> u_cur r \<noteq> NULL \<and> u_cur r \<in> set (L (u_bucket r)) \<union> Z \<and> keyof s (u_cur r) < u_key r
      | U_unlock x \<Rightarrow> \<exists>K\<in>H. x = (if u_key r \<in> K then 1 else 0)
      | U_ret x \<Rightarrow> \<exists>K\<in>H. x = (if u_key r \<in> K then 1 else 0)
      | U_fault \<Rightarrow> False
      | _ \<Rightarrow> True)"

text \<open>A step of the reader itself.\<close>

lemma u_step_inv:
  assumes r: "u_inv s w L G H i r Z" and inv: "winvq s w L Q" and H: "bucket_keys s (u_bucket r) \<in> H"
  shows "\<exists>Z'. u_inv s w L G H i (u_search_step s r) Z' \<and> (reading (u_search_step s r) \<longrightarrow> Z' = Z)"
proof -
  let ?r = "u_search_step s r" and ?A = "set (L (u_bucket r)) \<union> Z"
  have frame: "u_key ?r = u_key r" "u_bucket ?r = u_bucket r"
    by (auto simp: u_search_step_def Let_def split: upc.split option.split)
  then have un: "unlinked s w L G H i ?r X \<longleftrightarrow> unlinked s w L G H i r X" for X by (simp add: unlinked_def)
  have u: "unlinked s w L G H i r Z" using r by (simp add: u_inv_def)
  have e: "unlinked s w L G H i r {}" by (simp add: unlinked_def)
  show ?thesis
  proof (cases "u_pc r")
    case U_lock
    then show ?thesis using r un e by (intro exI [of _ "{}"]) (simp add: u_inv_def u_search_step_def reading_def)
  next
    case U_head
    have "after s H (u_key r) ?A (heads s (u_bucket r))"
      by (rule after_mono [OF head_after [OF inv H]]) auto
    then show ?thesis using U_head r un u
      by (intro exI [of _ Z]) (auto simp: u_inv_def u_search_step_def reading_def Let_def after_def
          split: if_splits)
  next
    case U_key
    then have "u_cur r \<noteq> NULL" "after s H (u_key r) ?A (u_cur r)" using r by (auto simp: u_inv_def)
    then show ?thesis using U_key un u
      by (intro exI [of _ Z])
        (auto simp: u_inv_def u_search_step_def reading_def rd_def after_def seen_def)
  next
    case U_next
    then have c: "u_cur r \<noteq> NULL" "u_cur r \<in> ?A" "keyof s (u_cur r) < u_key r"
      using r by (auto simp: u_inv_def)
    have "after s H (u_key r) ?A (nxt (node s (u_cur r)))"
    proof (cases "u_cur r \<in> Z")
      case True
      then show ?thesis using u c(3) by (simp add: unlinked_def)
    next
      case False
      then have "u_cur r \<in> set (L (u_bucket r))" using c(2) by simp
      from linked_after [OF inv this c(3) H] show ?thesis by (rule after_mono) auto
    qed
    then show ?thesis using U_next un u c(1)
      by (intro exI [of _ Z])
        (auto simp: u_inv_def u_search_step_def reading_def rd_def after_def split: if_splits)
  next
    case (U_unlock x)
    then show ?thesis using r un e
      by (intro exI [of _ "{}"]) (simp add: u_inv_def u_search_step_def reading_def)
  next
    case U_fault
    then show ?thesis using r by (simp add: u_inv_def)
  next
    case (U_ret x)
    then show ?thesis using r un e
      by (intro exI [of _ "{}"]) (simp add: u_inv_def u_search_step_def reading_def)
  qed
qed

text \<open>A step of the others: the bucket may lose nodes to \<open>Z\<close>, and those in \<open>Z\<close> stay as they are.\<close>

lemma u_inv_others:
  assumes r: "u_inv s w L G H i r Z" and inv: "winvq s w L Q" and H: "bucket_keys s (u_bucket r) \<in> H"
    and sub: "H \<subseteq> H'"
    and lost: "\<And>p. p \<in> set (L (u_bucket r)) \<Longrightarrow> keyof s' p = keyof s p \<and> (p \<in> set (L' (u_bucket r)) \<or>
       w_pc w' = D_bump \<and> w_cur w' = p \<and> nxt (node s' p) = nxt (node s p))"
    and kept: "\<And>p. p \<in> Z \<Longrightarrow> keyof s' p = keyof s p \<and> nxt (node s' p) = nxt (node s p) \<and>
       (p \<in> set (pending s') \<and> i \<in> G' p \<or> w_pc w' = D_bump \<and> w_cur w' = p)"
  shows "\<exists>Z'. u_inv s' w' L' G' H' i r Z'"
proof -
  let ?b = "u_bucket r" and ?k = "u_key r"
  let ?Z = "if reading r then Z \<union> (set (L ?b) - set (L' ?b)) else {}"
  have Z: "reading r \<or> Z = {}" using r by (simp add: u_inv_def)
  have m: "after s' H' ?k (set (L' ?b) \<union> ?Z) p" if "after s H ?k (set (L ?b) \<union> Z) p" "reading r" for p
    by (rule after_mono [OF that(1) sub]) (use lost kept that(2) in auto)
  have "unlinked s' w' L' G' H' i r ?Z"
    unfolding unlinked_def
  proof (intro conjI ballI impI)
    show "p \<in> set (pending s') \<and> i \<in> G' p \<or> w_pc w' = D_bump \<and> w_cur w' = p" if "p \<in> ?Z" for p
      using that lost [of p] kept [of p] by (auto split: if_splits)
    fix p assume p: "p \<in> ?Z" and k: "keyof s' p < ?k"
    then have rd: "reading r" by (auto split: if_splits)
    have "keyof s' p = keyof s p" "nxt (node s' p) = nxt (node s p)"
      using p lost [of p] kept [of p] by (auto split: if_splits)
    moreover have "after s H ?k (set (L ?b) \<union> Z) (nxt (node s p))" if lt: "keyof s p < ?k"
    proof (cases "p \<in> Z")
      case True
      then show ?thesis using r lt by (simp add: u_inv_def unlinked_def)
    next
      case False
      then have "p \<in> set (L ?b)" using p rd by auto
      from linked_after [OF inv this lt H] show ?thesis by (rule after_mono) auto
    qed
    ultimately show "after s' H' ?k (set (L' ?b) \<union> ?Z) (nxt (node s' p))" using m rd k by simp
  qed
  moreover have "keyof s' p = keyof s p" if "p \<in> set (L ?b) \<union> Z" for p using that lost kept by auto
  moreover have "p \<in> set (L' ?b) \<union> ?Z" if "p \<in> set (L ?b) \<union> Z" "reading r" for p using that by auto
  ultimately have "u_inv s' w' L' G' H' i r ?Z"
    using r m sub unfolding u_inv_def
    by (cases "u_pc r") (auto simp: reading_def)
  then show ?thesis by blast
qed

section \<open>Whole executions\<close>

lemma rcu_start_inv:
  assumes inv: "rcu_inv s w L F"
  shows "rcu_inv s (start_delete k b w) L F" "rcu_inv s (start_insert s k b w) L F"
proof -
  have W: "winvq s w L (set (pending s) \<union> set F)" using inv by (simp add: rcu_inv_def)
  show "rcu_inv s (start_delete k b w) L F" "rcu_inv s (start_insert s k b w) L F"
    using inv start_delete_inv(1) [OF W, of k b] start_insert_inv(1) [OF W, of k b]
    by (auto simp: rcu_inv_def start_delete_def start_insert_def)
qed

lemma rcu_step_bucket:
  assumes "\<And>k b. a \<noteq> Act (Start_search i k b)"
  shows "u_bucket (u_rds (rcu_step a c) i) = u_bucket (u_rds c i) \<and>
    u_key (u_rds (rcu_step a c) i) = u_key (u_rds c i)"
  using assms
  by (cases "(a, c)" rule: rcu_step.cases)
    (auto simp: u_search_step_def Let_def split: prod.split upc.split option.split)

lemma rcu_step_inv:
  assumes inv: "rcu_inv (u_sh c) (u_upd c) L F" and ok: "\<not> u_crash c"
    and g: "\<And>p. a = Callback p \<Longrightarrow> G p = {}"
    and H: "bucket_keys (u_sh c) (u_bucket (u_rds c i)) \<in> H"
    and r: "u_inv (u_sh c) (u_upd c) L G H i (u_rds c i) Z"
    and a: "\<And>k b. a \<noteq> Act (Start_search i k b)"
    and c': "c' = rcu_step a c" and sub: "H \<subseteq> H'"
  shows "\<exists>L' F' Z'. rcu_inv (u_sh c') (u_upd c') L' F' \<and> \<not> u_crash c' \<and>
    u_inv (u_sh c') (u_upd c') L' (waiters a c G) H' i (u_rds c' i) Z'"
proof -
  let ?s = "u_sh c" and ?w = "u_upd c" and ?r = "u_rds c i"
  have W: "winvq ?s ?w L (set (pending ?s) \<union> set F)" using inv by (simp add: rcu_inv_def)
  note others = u_inv_others [OF r W H sub]
  have Z: "reading ?r" "p \<in> set (pending ?s) \<and> i \<in> G p \<or> w_pc ?w = D_bump \<and> w_cur ?w = p" if "p \<in> Z" for p
    using that r by (auto simp: u_inv_def unlinked_def)
  have idle: ?thesis if "u_sh c' = ?s" "u_rds c' i = ?r" "\<not> u_crash c'"
      "w_pc ?w = D_bump \<Longrightarrow> u_upd c' = ?w" "rcu_inv ?s (u_upd c') L F" "a \<noteq> Act Updater"
  proof -
    have "\<exists>Z'. u_inv ?s (u_upd c') L (waiters a c G) H' i ?r Z'"
    proof (rule others)
      fix p assume p: "p \<in> Z"
      have "i \<in> waiters a c G p" if "i \<in> G p"
        using that Z(1) [OF p] \<open>u_rds c' i = ?r\<close> \<open>a \<noteq> Act Updater\<close> by (simp add: waiters_def c')
      then show "keyof ?s p = keyof ?s p \<and> nxt (node ?s p) = nxt (node ?s p) \<and>
          (p \<in> set (pending ?s) \<and> i \<in> waiters a c G p \<or> w_pc (u_upd c') = D_bump \<and> w_cur (u_upd c') = p)"
        using Z(2) [OF p] that(4) by auto
    qed simp
    then show ?thesis using that by auto
  qed
  show ?thesis
  proof (cases "(a, c)" rule: rcu_step.cases)
    case (1 k b _)
    then have a: "a = Act (Start_delete k b)" by simp
    show ?thesis using ok rcu_start_inv(1) [OF inv, of k b] by (intro idle) (auto simp: c' a start_delete_def)
  next
    case (2 k b _)
    then have a: "a = Act (Start_insert k b)" by simp
    show ?thesis using ok rcu_start_inv(2) [OF inv, of k b] by (intro idle) (auto simp: c' a start_insert_def)
  next
    case (3 _)
    then have a: "a = Act Updater" by simp
    obtain s' w' where st: "rcu_writer_step ?s ?w = (s', w')" by force
    then have n: "u_sh c' = s'" "u_upd c' = w'" "u_rds c' = u_rds c" "\<not> u_crash c'"
      using ok by (simp_all add: c' a)
    obtain L' where x: "rcu_inv s' w' L' F"
      "\<forall>p b. p \<in> set (L b) \<longrightarrow> keyof s' p = keyof ?s p \<and>
        (p \<in> set (L' b) \<or> (w_pc w' = D_bump \<and> w_bucket w' = b \<and> w_cur w' = p \<and> nxt (node s' p) = nxt (node ?s p)))"
      "\<forall>p. p \<in> set (pending ?s) \<or> w_pc ?w = D_bump \<and> w_cur ?w = p \<longrightarrow>
        p \<in> set (pending s') \<and> node s' p = node ?s p"
      using rcu_updater_inv [OF inv st] by blast
    have "\<exists>Z'. u_inv s' w' L' (waiters a c G) H' i ?r Z'"
    proof (rule others)
      fix p assume p: "p \<in> Z"
      have "i \<in> waiters a c G p" using Z [OF p] n(3) a by (auto simp del: rcu_step.simps simp: waiters_def c')
      then show "keyof s' p = keyof ?s p \<and> nxt (node s' p) = nxt (node ?s p) \<and>
          (p \<in> set (pending s') \<and> i \<in> waiters a c G p \<or> w_pc w' = D_bump \<and> w_cur w' = p)"
        using x(3) [rule_format, of p] Z(2) [OF p] by auto
    qed (use x(2) in blast)
    then show ?thesis using x(1) n by auto
  next
    case (4 j _)
    then have a: "a = Act (Reader j)" by simp
    show ?thesis
    proof (cases "j = i")
      case False
      then show ?thesis using ok inv by (intro idle) (auto simp: c' a)
    next
      case True
      have r': "u_rds c' i = u_search_step ?s ?r" "u_sh c' = ?s" "u_upd c' = ?w" "\<not> u_crash c'"
        using ok True by (simp_all add: c' a)
      obtain Z' where z: "u_inv ?s ?w L G H i (u_rds c' i) Z'" "reading (u_rds c' i) \<longrightarrow> Z' = Z"
        using u_step_inv [OF r W H] unfolding r' by blast
      have b: "u_bucket (u_rds c' i) = u_bucket ?r" using rcu_step_bucket assms(6) c' by blast
      have "\<exists>Z'. u_inv ?s ?w L (waiters a c G) H' i (u_rds c' i) Z'"
      proof (rule u_inv_others [OF z(1) W _ sub])
        fix p assume "p \<in> Z'"
        moreover have "reading (u_rds c' i)" using calculation z(1) by (auto simp: u_inv_def)
        ultimately show "keyof ?s p = keyof ?s p \<and> nxt (node ?s p) = nxt (node ?s p) \<and>
            (p \<in> set (pending ?s) \<and> i \<in> waiters a c G p \<or> w_pc ?w = D_bump \<and> w_cur ?w = p)"
          using z(2) Z(2) [of p] by (auto simp: waiters_def a c')
      qed (use H b in auto)
      then show ?thesis using inv r'(2-4) by auto
    qed
  next
    case (5 j k b _)
    then have a: "a = Act (Start_search j k b)" by simp
    then have "j \<noteq> i" using assms(6) by auto
    then show ?thesis using ok inv by (intro idle) (auto simp: c' a split: upc.split)
  next
    case (6 p _)
    then have a: "a = Callback p" by simp
    show ?thesis
    proof (cases "p \<in> set (pending ?s)")
      case False
      then show ?thesis using ok inv by (intro idle) (auto simp: c' a)
    next
      case True
      obtain s' F' where x: "free_node_cb No_count p ?s = Some s'" "mr_only ?s s'" "pending s' = pending ?s"
        "rcu_inv (s'\<lparr>pending := remove1 p (pending ?s)\<rparr>) ?w L F'"
        using callback_inv [OF inv True] by blast
      have n: "u_sh c' = s'\<lparr>pending := remove1 p (pending ?s)\<rparr>" "u_upd c' = ?w" "u_rds c' = u_rds c"
        "\<not> u_crash c'"
        using ok x(1,3) True by (simp_all add: c' a)
      have "\<exists>Z'. u_inv (u_sh c') ?w L (waiters a c G) H' i ?r Z'"
      proof (rule others)
        fix q assume q: "q \<in> Z"
        have "i \<in> waiters a c G q \<and> q \<noteq> p" if "i \<in> G q"
          using that Z(1) [OF q] n(3) a g [OF a] by (auto simp del: rcu_step.simps simp: waiters_def c')
        moreover have "q \<in> set (remove1 p (pending ?s))" if "q \<in> set (pending ?s)" "q \<noteq> p"
          using that by (simp add: in_set_remove1)
        ultimately show "keyof (u_sh c') q = keyof ?s q \<and> nxt (node (u_sh c') q) = nxt (node ?s q) \<and>
            (q \<in> set (pending (u_sh c')) \<and> i \<in> waiters a c G q \<or> w_pc ?w = D_bump \<and> w_cur ?w = q)"
          using Z(2) [OF q] by (auto simp: n(1) mr_only_node [OF x(2)])
      qed (simp add: n(1) mr_only_node [OF x(2)])
      then show ?thesis using x(4) n by auto
    qed
  qed
qed

lemma rcu_step_ok:
  assumes "rcu_ok c"
  shows "rcu_ok (rcu_step a c)"
proof -
  obtain L F where inv: "rcu_inv (u_sh c) (u_upd c) L F" and ok: "\<not> u_crash c"
    using assms by (auto simp: rcu_ok_def)
  show ?thesis
  proof (cases "(a, c)" rule: rcu_step.cases)
    case (1 k b _)
    then show ?thesis using rcu_start_inv(1) [OF inv] ok by (auto simp: rcu_ok_def)
  next
    case (2 k b _)
    then show ?thesis using rcu_start_inv(2) [OF inv] ok by (auto simp: rcu_ok_def)
  next
    case (3 _)
    obtain s' w' where st: "rcu_writer_step (u_sh c) (u_upd c) = (s', w')" by force
    then show ?thesis using rcu_updater_inv [OF inv st] ok 3 by (auto simp: rcu_ok_def)
  next
    case (6 p _)
    show ?thesis
    proof (cases "p \<in> set (pending (u_sh c))")
      case True
      obtain s' F' where "free_node_cb No_count p (u_sh c) = Some s'" "pending s' = pending (u_sh c)"
        "rcu_inv (s'\<lparr>pending := remove1 p (pending (u_sh c))\<rparr>) (u_upd c) L F'"
        using callback_inv [OF inv True] by blast
      then show ?thesis using 6 True ok unfolding rcu_ok_def by (intro conjI exI) simp_all
    qed (use 6 inv ok in \<open>auto simp: rcu_ok_def\<close>)
  qed (use inv ok in \<open>auto simp: rcu_ok_def split: upc.split\<close>)
qed

lemma rcu_exec_ok: "rcu_ok c \<Longrightarrow> rcu_ok (rcu_exec as c)"
  by (induction as arbitrary: c) (auto intro: rcu_step_ok)

lemma rcu_exec_inv:
  assumes "rcu_inv (u_sh c) (u_upd c) L F" and "\<not> u_crash c" and "grace G as c"
    and "bucket_keys (u_sh c) (u_bucket (u_rds c i)) \<in> H"
    and "u_inv (u_sh c) (u_upd c) L G H i (u_rds c i) Z"
    and "\<And>k b. Act (Start_search i k b) \<notin> set as"
  shows "\<exists>L' F' G' Z'. rcu_inv (u_sh (rcu_exec as c)) (u_upd (rcu_exec as c)) L' F' \<and>
    u_inv (u_sh (rcu_exec as c)) (u_upd (rcu_exec as c)) L' G'
      (H \<union> (\<lambda>c. bucket_keys (u_sh c) (u_bucket (u_rds c i))) ` set (rcu_visited as c)) i (u_rds (rcu_exec as c) i) Z'"
  using assms
proof (induction as arbitrary: c L F G H Z)
  case Nil
  then show ?case by (auto simp: insert_absorb)
next
  case (Cons a as)
  let ?c = "rcu_step a c" and ?K = "\<lambda>c. bucket_keys (u_sh c) (u_bucket (u_rds c i))"
  let ?H = "insert (?K ?c) H"
  have "\<And>k b. a \<noteq> Act (Start_search i k b)" and g: "\<And>p. a = Callback p \<Longrightarrow> G p = {}"
    using Cons.prems(3,6) by auto
  then obtain L' F' Z' where x: "rcu_inv (u_sh ?c) (u_upd ?c) L' F'" "\<not> u_crash ?c"
    "u_inv (u_sh ?c) (u_upd ?c) L' (waiters a c G) ?H i (u_rds ?c i) Z'"
    using rcu_step_inv [OF Cons.prems(1,2) _ Cons.prems(4,5) _ refl, of a ?H] by blast
  have "?K ?c \<in> ?K ` set (rcu_visited as ?c)" by (cases as) auto
  then have "?H \<union> ?K ` set (rcu_visited as ?c) = H \<union> ?K ` set (rcu_visited (a # as) c)"
    using Cons.prems(4) by auto
  then show ?case
    using Cons.IH [OF x(1,2) _ _ x(3)] Cons.prems(3,6) by simp
qed

lemma rcu_exec_bucket:
  "(\<And>k b. Act (Start_search i k b) \<notin> set as) \<Longrightarrow> c' \<in> set (rcu_visited as c) \<Longrightarrow>
     u_bucket (u_rds c' i) = u_bucket (u_rds c i)"
proof (induction as arbitrary: c)
  case (Cons a as)
  have "\<And>k b. a \<noteq> Act (Start_search i k b)" using Cons.prems(1) by auto
  then show ?case using Cons rcu_step_bucket [of a i c] by auto
qed simp

lemma rcu_exec_frame:
  "(\<And>k b. Act (Start_search i k b) \<notin> set as) \<Longrightarrow>
     u_bucket (u_rds (rcu_exec as c) i) = u_bucket (u_rds c i) \<and> u_key (u_rds (rcu_exec as c) i) = u_key (u_rds c i)"
proof (induction as arbitrary: c)
  case (Cons a as)
  have "\<And>k b. a \<noteq> Act (Start_search i k b)" using Cons.prems by auto
  then show ?case using Cons rcu_step_bucket [of a i c] by auto
qed simp

lemma rcu_search_exec:
  assumes ok: "rcu_ok c" and r: "u_rds c i = u_init k b"
    and one: "\<And>k b. Act (Start_search i k b) \<notin> set as" and g: "grace G as c"
  shows "\<exists>L F G Z. rcu_inv (u_sh (rcu_exec as c)) (u_upd (rcu_exec as c)) L F \<and>
    u_inv (u_sh (rcu_exec as c)) (u_upd (rcu_exec as c)) L G
      ((\<lambda>c. bucket_keys (u_sh c) b) ` set (rcu_visited as c)) i (u_rds (rcu_exec as c) i) Z"
proof -
  obtain L F where inv: "rcu_inv (u_sh c) (u_upd c) L F" and nc: "\<not> u_crash c"
    using ok by (auto simp: rcu_ok_def)
  let ?H = "{bucket_keys (u_sh c) b}" and ?K = "\<lambda>c. bucket_keys (u_sh c) (u_bucket (u_rds c i))"
  have "u_inv (u_sh c) (u_upd c) L G ?H i (u_rds c i) {}"
    unfolding r by (simp add: u_inv_def u_init_def unlinked_def)
  then obtain L' F' G' Z' where x: "rcu_inv (u_sh (rcu_exec as c)) (u_upd (rcu_exec as c)) L' F'"
    "u_inv (u_sh (rcu_exec as c)) (u_upd (rcu_exec as c)) L' G'
      (?H \<union> ?K ` set (rcu_visited as c)) i (u_rds (rcu_exec as c) i) Z'"
    using rcu_exec_inv [OF inv nc g, of i ?H "{}"] one r by (auto simp: u_init_def)
  have "?K ` set (rcu_visited as c) = (\<lambda>c. bucket_keys (u_sh c) b) ` set (rcu_visited as c)"
    using rcu_exec_bucket [OF one] r by (intro image_cong) (auto simp: u_init_def)
  moreover have "c \<in> set (rcu_visited as c)" by (cases as) auto
  ultimately have "?H \<union> ?K ` set (rcu_visited as c) = (\<lambda>c. bucket_keys (u_sh c) b) ` set (rcu_visited as c)"
    by auto
  then show ?thesis using x by metis
qed

section \<open>Properties of the list\<close>

text \<open>
  C13 (linearizability of the RCU \<open>search\<close>): from any reachable state, for any
  interleaving of the updater, the readers and the callbacks in which callbacks
  wait for the readers they have to wait for, the answer of a search is the
  membership of its key in the bucket at some moment of the search.  No bound on
  the length, unlike the lists that count generations.
\<close>

theorem rcu_search_linearizable:
  assumes "rcu_ok c" and "u_rds c i = u_init k b"
    and "\<And>k b. Act (Start_search i k b) \<notin> set as" and "grace G as c"
    and "u_pc (u_rds (rcu_exec as c) i) = U_ret x"
  shows "\<exists>c'\<in>set (rcu_visited as c). x = (if k \<in> bucket_keys (u_sh c') b then 1 else 0)"
proof -
  have "u_key (u_rds (rcu_exec as c) i) = k" using rcu_exec_frame [OF assms(3)] assms(2) by (simp add: u_init_def)
  then show ?thesis using rcu_search_exec [OF assms(1-4)] assms(5) by (auto simp: u_inv_def)
qed

text \<open>
  C14 (no use after free): under the same schedules a search never dereferences
  NULL, and the node it is about to read is never one the allocator owns.
\<close>

theorem rcu_search_safe:
  assumes "rcu_ok c" and "u_rds c i = u_init k b"
    and "\<And>k b. Act (Start_search i k b) \<notin> set as" and "grace G as c"
  shows "let r = u_rds (rcu_exec as c) i in u_pc r \<noteq> U_fault \<and>
    (u_pc r \<in> {U_key, U_next} \<longrightarrow> u_cur r \<noteq> NULL \<and> \<not> freed (u_sh (rcu_exec as c)) (u_cur r))"
proof -
  let ?r = "u_rds (rcu_exec as c) i" and ?s = "u_sh (rcu_exec as c)" and ?w = "u_upd (rcu_exec as c)"
  obtain L F G Z H where x: "rcu_inv ?s ?w L F" "u_inv ?s ?w L G H i ?r Z"
    using rcu_search_exec [OF assms] by blast
  have "\<not> freed ?s p" if "p \<in> set (L (u_bucket ?r)) \<union> Z" for p
  proof (rule not_freed [OF x(1)])
    have "p \<in> Z \<Longrightarrow> p \<in> set (pending ?s) \<or> p \<in> held ?w"
      using x(2) by (auto simp: u_inv_def unlinked_def held_def)
    then show "p \<in> linked L \<union> held ?w \<union> set (pending ?s)" using that linkedI [of p L] by blast
  qed
  then show ?thesis using x(2) by (auto simp: Let_def u_inv_def after_def)
qed

text \<open>
  (the updater and the callbacks never fail): whatever the schedule, grace
  periods or not, the buckets stay sorted and disjoint, the free lists proper
  and apart from the nodes in use, and no callback dereferences NULL.
\<close>

theorem rcu_system_ok:
  assumes "rcu_ok c"
  shows "rcu_ok (rcu_exec as c)"
  using assms by (rule rcu_exec_ok)

text \<open>
  (what a callback does): the node handed to \<open>call_rcu\<close> is not the allocator's
  until its callback runs, and is afterwards.
\<close>

theorem rcu_callback_frees:
  assumes "rcu_ok c" and "p \<in> set (pending (u_sh c))"
  shows "\<not> freed (u_sh c) p \<and>
    (let c' = rcu_step (Callback p) c in rcu_ok c' \<and> freed (u_sh c') p \<and>
       set (pending (u_sh c')) = set (pending (u_sh c)) - {p} \<and>
       bucket_keys (u_sh c') = bucket_keys (u_sh c))"
proof -
  obtain L F where inv: "rcu_inv (u_sh c) (u_upd c) L F" and ok: "\<not> u_crash c"
    using assms(1) by (auto simp: rcu_ok_def)
  obtain s' F' where x: "free_node_cb No_count p (u_sh c) = Some s'" "mr_only (u_sh c) s'"
    "pending s' = pending (u_sh c)"
    "rcu_inv (s'\<lparr>pending := remove1 p (pending (u_sh c))\<rparr>) (u_upd c) L F'"
    "freed (s'\<lparr>pending := remove1 p (pending (u_sh c))\<rparr>) p"
    using callback_inv [OF inv assms(2)] by blast
  let ?s = "s'\<lparr>pending := remove1 p (pending (u_sh c))\<rparr>"
  have c': "rcu_step (Callback p) c = c\<lparr>u_sh := ?s\<rparr>" using x(1,3) assms(2) by simp
  have B: "buckets (u_sh c) L" "buckets ?s L" "distinct (pending (u_sh c))"
    using inv x(4) by (auto simp: rcu_inv_def cb_list_def dest: winvD(1))
  have "bucket_keys ?s b = bucket_keys (u_sh c) b" for b
    unfolding bucket_keys_eq [OF B(1)] bucket_keys_eq [OF B(2)]
    by (simp add: keys_of_def mr_only_node [OF x(2)])
  then have "bucket_keys ?s = bucket_keys (u_sh c)" by (rule ext)
  moreover have "set (remove1 p (pending (u_sh c))) = set (pending (u_sh c)) - {p}"
    using B(3) by (simp add: set_remove1_eq)
  ultimately show ?thesis unfolding c' Let_def
    using not_freed [OF inv] assms(2) x(4,5) ok by (auto simp: rcu_ok_def)
qed

section \<open>The initial state\<close>

definition init_rcu :: "ptr list \<Rightarrow> rcu" where
  "init_rcu ps = init_allocator \<lparr>node = (\<lambda>_. zero_node), heads = (\<lambda>_. NULL), locks = (\<lambda>_. 0),
     pool = ps, freelist = NULL, frct = 0, lfl = NULL, lfl_tail = NULL, lcnt = 0,
     nbmallocs = 0, nbfl = 0, pending = [], cb_lfl = NULL, cb_tail = NULL, cb_lcnt = 0, cb_nbfl = 0,
     qsblockeds = 0, rcublockeds = 0, amort = 0, cb_amort = 0\<rparr>"

definition init_rcu_sys :: "ptr list \<Rightarrow> (nat \<Rightarrow> ureader) \<Rightarrow> rcu_sys" where
  "init_rcu_sys ps q = \<lparr>u_sh = init_rcu ps, u_upd = init_writer, u_rds = q, u_crash = False\<rparr>"

lemma init_rcu_ok:
  assumes "distinct ps" and "NULL \<notin> set ps"
  shows "rcu_ok (init_rcu_sys ps q)"
proof -
  have a: "alloc_inv (init_rcu ps) {} [] []"
    using assms by (simp add: init_rcu_def init_allocator_def prealloc_def alloc_inv_def)
  have "alloc_ok (init_rcu ps) {}" by (rule alloc_okI [OF a])
  then have "rcu_inv (init_rcu ps) init_writer (\<lambda>_. []) []"
    using assms
    by (simp add: rcu_inv_def winvq_def init_rcu_def init_allocator_def prealloc_def buckets_def closed_def
        zero_node_def linked_def held_def init_writer_def wpc_inv_def cb_list_def)
  then show ?thesis by (auto simp: rcu_ok_def init_rcu_sys_def)
qed

section \<open>Concrete schedules\<close>

text \<open>A callback at a moment when no reader is inside is always allowed.\<close>

lemma grace_last:
  assumes "\<And>p. G p \<subseteq> {i. reading (u_rds c i)}" and "\<And>p. Callback p \<notin> set as"
    and "\<And>i. \<not> reading (u_rds (rcu_exec as c) i)"
  shows "grace G (as @ [Callback q]) c"
  using assms
proof (induction as arbitrary: c G)
  case Nil
  then show ?case by auto
next
  case (Cons a as)
  have "waiters a c G p \<subseteq> {i. reading (u_rds (rcu_step a c) i)}" for p
    by (auto simp: waiters_def split: prod.split)
  moreover have "a \<noteq> Callback p" for p using Cons.prems(2) [of p] by auto
  ultimately show ?case using Cons.IH [of "waiters a c G" "rcu_step a c"] Cons.prems(2,3) by simp
qed

lemma rcu_eval: "rcu_exec as c = d \<Longrightarrow> P d \<Longrightarrow> P (rcu_exec as c)"
  by simp

lemma rcu_eval_step: "rcu_step a c = c' \<Longrightarrow> rcu_exec as c' = d \<Longrightarrow> rcu_exec (a # as) c = d"
  by simp

lemmas rcu_machine_eval = rcu_step.simps rcu_writer_step_def rcu_free_node_later_def count_retired_def
  free_node_cb_def count_callback_def swap_thread_def u_search_step_def u_init_def writer_step_def
  start_insert_def start_delete_def finish_def store_def init_new_node_def osa_new_node_def new_node_def
  get_free_def steal_eq calloc_node_def free_node_def add_free_eq pushed_def flushed_def mem_simps
  set_loc.simps init_rcu_sys_def init_rcu_def init_allocator_def prealloc_def init_writer_def zero_node_def

text \<open>Reader 0 is at node 5 when the updater deletes it; \<open>unlink_run\<close> stops before it goes on.\<close>

definition unlink_run :: "ractor list" where
  "unlink_run = map Act
     [Start_insert 5 0, Updater, Updater, Updater, Updater, Updater,
      Reader 0, Reader 0, Start_delete 5 0, Updater, Updater, Updater, Updater]"

definition wait_run :: "ractor list" where
  "wait_run = unlink_run @ [Act (Reader 0), Act (Reader 0)]"

lemma wait_run_end:
  "let c = rcu_exec wait_run (init_rcu_sys [64, 128] (\<lambda>_. u_init 5 0)) in
     u_pc (u_rds c 0) = U_ret 1 \<and> (\<forall>i. \<not> reading (u_rds c i)) \<and> pending (u_sh c) = [64]"
  unfolding wait_run_def unlink_run_def Let_def append_Cons append_Nil list.map
  apply (rule rcu_eval [where P = "\<lambda>c. u_pc (u_rds c 0) = U_ret 1 \<and> (\<forall>i. \<not> reading (u_rds c i)) \<and> pending (u_sh c) = [64]"])
   apply ((rule rcu_eval_step, (simp add: rcu_machine_eval Let_def; fail))+)
   apply (rule rcu_exec.simps(1))
  apply (simp add: reading_def)
  done

lemma rcu_two_nodes_ok: "rcu_ok (init_rcu_sys [64, 128] q)"
  by (rule init_rcu_ok) simp_all

lemma wait_run_grace: "grace (\<lambda>_. {}) (wait_run @ [Callback 64]) (init_rcu_sys [64, 128] (\<lambda>_. u_init 5 0))"
proof (rule grace_last)
  show "\<not> reading (u_rds (rcu_exec wait_run (init_rcu_sys [64, 128] (\<lambda>_. u_init 5 0))) i)" for i
    using wait_run_end unfolding Let_def by blast
qed (simp_all add: wait_run_def unlink_run_def)

lemma rcu_exec_append: "rcu_exec (as @ bs) c = rcu_exec bs (rcu_exec as c)"
  by (induction as arbitrary: c) simp_all

lemma callback_rds: "u_rds (rcu_step (Callback p) c) = u_rds c"
  by (simp split: option.split)

text \<open>Without a grace period the same reader stands on a node the allocator owns.\<close>

lemma without_grace:
  "let c = rcu_exec (unlink_run @ [Callback 64]) (init_rcu_sys [64, 128] (\<lambda>_. u_init 5 0)) in
     u_pc (u_rds c 0) = U_key \<and> freed (u_sh c) (u_cur (u_rds c 0))"
  unfolding unlink_run_def Let_def append_Cons append_Nil list.map
  apply (rule rcu_eval [where P = "\<lambda>c. u_pc (u_rds c 0) = U_key \<and> freed (u_sh c) (u_cur (u_rds c 0))"])
   apply ((rule rcu_eval_step, (simp add: rcu_machine_eval Let_def; fail))+)
   apply (rule rcu_exec.simps(1))
  apply (simp add: freed_def)
  apply (rule exI [of _ "[64]"])
  apply simp
  done

section \<open>Witnesses\<close>

lemma rcu_search_linearizable_witness:
  "\<exists>c'\<in>set (rcu_visited (wait_run @ [Callback 64]) (init_rcu_sys [64, 128] (\<lambda>_. u_init 5 0))).
     (1 :: int) = (if 5 \<in> bucket_keys (u_sh c') 0 then 1 else 0)"
proof (rule rcu_search_linearizable [OF rcu_two_nodes_ok, where i = 0])
  show "u_pc (u_rds (rcu_exec (wait_run @ [Callback 64]) (init_rcu_sys [64, 128] (\<lambda>_. u_init 5 0))) 0) = U_ret 1"
    using wait_run_end by (simp only: Let_def rcu_exec_append rcu_exec.simps callback_rds)
next
  show "grace (\<lambda>_. {}) (wait_run @ [Callback 64]) (init_rcu_sys [64, 128] (\<lambda>_. u_init 5 0))"
    by (rule wait_run_grace)
qed (simp_all add: init_rcu_sys_def wait_run_def unlink_run_def)

lemma rcu_search_safe_witness:
  "u_pc (u_rds (rcu_exec (wait_run @ [Callback 64]) (init_rcu_sys [64, 128] (\<lambda>_. u_init 5 0))) 0) \<noteq> U_fault"
  using rcu_search_safe [OF rcu_two_nodes_ok _ _ wait_run_grace, of 0 5 0]
  unfolding Let_def by (auto simp: init_rcu_sys_def wait_run_def unlink_run_def simp del: rcu_exec.simps)

lemma rcu_system_ok_witness: "rcu_ok (rcu_exec unlink_run (init_rcu_sys [64, 128] (\<lambda>_. u_init 5 0)))"
  by (rule rcu_system_ok [OF rcu_two_nodes_ok])

lemma rcu_callback_frees_witness:
  "let c = rcu_exec wait_run (init_rcu_sys [64, 128] (\<lambda>_. u_init 5 0)) in
     \<not> freed (u_sh c) 64 \<and> freed (u_sh (rcu_step (Callback 64) c)) 64"
  using rcu_callback_frees [of "rcu_exec wait_run (init_rcu_sys [64, 128] (\<lambda>_. u_init 5 0))" 64]
    rcu_exec_ok [OF rcu_two_nodes_ok, of wait_run "\<lambda>_. u_init 5 0"] wait_run_end
  by (simp add: Let_def del: rcu_step.simps)

end
