(* ===== verification/Rcu_Counters.thy ===== *)
theory Rcu_Counters imports Rcu_Properties begin

text \<open>
  The counters of \<open>rcu.c\<close>, one access of \<open>qsblockeds\<close> at a time: the updater counts
  a node after it was handed to \<open>call_rcu\<close>, the callback thread counts it off.  With
  \<open>RCU_COUNT_ATM\<close> the variable is only changed by atomic additions; with
  \<open>RCU_COUNT_BLC\<close> alone \<open>++\<close> and \<open>--\<close> are a load and a store each.
\<close>

section \<open>The machine\<close>

datatype count_actor = Count_node | Call_back

datatype count_pc = Cnt_idle | Cnt_store u64

datatype back_pc = Cb_idle | Cb_tmp u64 | Cb_store u64 | Cb_check | Cb_failed

text \<open>
  \<open>cn_retired\<close> and \<open>cn_called\<close> are not in the code: the nodes counted and counted off.
\<close>

record counters =
  cn_sh :: rcu
  cn_upd :: count_pc
  cn_cb :: back_pc
  cn_retired :: nat
  cn_called :: nat

text \<open>
  One access of the updater in \<open>free_node_later\<close>, or of the callback thread in
  \<open>free_node_cb\<close>: it reads \<open>tmp\<close>, subtracts, and reads again for the second assertion.
  \<open>Cb_failed\<close> is a failed assertion, which ends the process.
\<close>

definition count_step :: "counting \<Rightarrow> count_actor \<Rightarrow> counters \<Rightarrow> counters" where
  "count_step m a c = (let s = cn_sh c in
     if m = No_count \<or> cn_cb c = Cb_failed then c
     else case a of
       Count_node \<Rightarrow> (case cn_upd c of
         Cnt_idle \<Rightarrow> if m = Count_blc then c\<lparr>cn_upd := Cnt_store (qsblockeds s)\<rparr>
           else c\<lparr>cn_sh := count_retired m s, cn_retired := Suc (cn_retired c)\<rparr>
       | Cnt_store v \<Rightarrow>
           c\<lparr>cn_sh := s\<lparr>qsblockeds := v + 1\<rparr>, cn_upd := Cnt_idle, cn_retired := Suc (cn_retired c)\<rparr>)
     | Call_back \<Rightarrow> (case cn_cb c of
         Cb_idle \<Rightarrow>
           (let tmp = qsblockeds s in
            c\<lparr>cn_sh := (if rcublockeds s < tmp then s\<lparr>rcublockeds := tmp\<rparr> else s), cn_cb := Cb_tmp tmp\<rparr>)
       | Cb_tmp tmp \<Rightarrow>
           if m = Count_blc then c\<lparr>cn_cb := Cb_store (qsblockeds s)\<rparr>
           else (let s = s\<lparr>cb_amort := cb_amort s + 1\<rparr> in
             if AMORT_COUNT \<le> cb_amort s then
               if \<not> AMORT_COUNT \<le> tmp then c\<lparr>cn_cb := Cb_failed\<rparr>
               else c\<lparr>cn_sh := s\<lparr>qsblockeds := snd (atomic_xadd4 (qsblockeds s) (- AMORT_COUNT)), cb_amort := 0\<rparr>,
                 cn_cb := Cb_check, cn_called := Suc (cn_called c)\<rparr>
             else c\<lparr>cn_sh := s, cn_cb := Cb_check, cn_called := Suc (cn_called c)\<rparr>)
       | Cb_store v \<Rightarrow>
           c\<lparr>cn_sh := s\<lparr>qsblockeds := v - 1\<rparr>, cn_cb := Cb_check, cn_called := Suc (cn_called c)\<rparr>
       | Cb_check \<Rightarrow> c\<lparr>cn_cb := (if 0 \<le> sint (qsblockeds s) then Cb_idle else Cb_failed)\<rparr>
       | Cb_failed \<Rightarrow> c))"

primrec count_run :: "counting \<Rightarrow> count_actor list \<Rightarrow> counters \<Rightarrow> counters" where
  "count_run m [] c = c"
| "count_run m (a # as) c = count_run m as (count_step m a c)"

definition count_init :: "rcu \<Rightarrow> counters" where
  "count_init s = \<lparr>cn_sh = s, cn_upd = Cnt_idle, cn_cb = Cb_idle, cn_retired = 0, cn_called = 0\<rparr>"

text \<open>
  The schedule starts a callback only for a node that was handed over: with \<open>d = 0\<close>
  the node has been counted, with \<open>d = 1\<close> a callback may overtake the counting of its own
  node, which \<open>free_node_later\<close> does after \<open>call_rcu\<close>.
\<close>

primrec timely :: "counting \<Rightarrow> nat \<Rightarrow> count_actor list \<Rightarrow> counters \<Rightarrow> bool" where
  "timely m d [] c \<longleftrightarrow> True"
| "timely m d (a # as) c \<longleftrightarrow>
     (a = Call_back \<longrightarrow> cn_cb c = Cb_idle \<longrightarrow> cn_called c < cn_retired c + d) \<and> timely m d as (count_step m a c)"

text \<open>Undisturbed, the steps of a callback are \<open>count_callback\<close>.\<close>

lemma callback_alone:
  assumes "cn_cb c = Cb_idle" and "m \<noteq> No_count"
  shows "case count_callback m (cn_sh c) of
    None \<Rightarrow> \<exists>k\<le>4. cn_cb (count_run m (replicate k Call_back) c) = Cb_failed
  | Some s' \<Rightarrow> \<exists>k\<le>4. cn_sh (count_run m (replicate k Call_back) c) = s' \<and>
      cn_cb (count_run m (replicate k Call_back) c) = Cb_idle"
proof (cases m)
  case Count_blc
  have "count_run m (replicate 4 Call_back) c =
      (let s = (if rcublockeds (cn_sh c) < qsblockeds (cn_sh c)
         then (cn_sh c)\<lparr>rcublockeds := qsblockeds (cn_sh c)\<rparr> else cn_sh c)
       in c\<lparr>cn_sh := s\<lparr>qsblockeds := qsblockeds (cn_sh c) - 1\<rparr>, cn_called := Suc (cn_called c),
         cn_cb := (if 0 \<le> sint (qsblockeds (cn_sh c) - 1) then Cb_idle else Cb_failed)\<rparr>)"
    using assms(1) Count_blc by (simp add: eval_nat_numeral count_step_def Let_def)
  then show ?thesis using Count_blc by (auto simp: count_callback_def Let_def intro!: exI [of _ 4])
next
  case Count_atm
  define s0 where "s0 = (if rcublockeds (cn_sh c) < qsblockeds (cn_sh c)
    then (cn_sh c)\<lparr>rcublockeds := qsblockeds (cn_sh c)\<rparr> else cn_sh c)"
  define q where "q = qsblockeds (cn_sh c)"
  let ?s = "s0\<lparr>cb_amort := cb_amort s0 + 1\<rparr>"
  have q0: "qsblockeds s0 = q" by (simp add: s0_def q_def)
  have 1: "count_step m Call_back c = c\<lparr>cn_sh := s0, cn_cb := Cb_tmp q\<rparr>"
    using assms Count_atm by (simp add: count_step_def s0_def q_def Let_def)
  define s1 where "s1 = (if AMORT_COUNT \<le> cb_amort s0 + 1
    then ?s\<lparr>qsblockeds := q - AMORT_COUNT, cb_amort := 0\<rparr> else ?s)"
  have cb: "count_callback m (cn_sh c) =
      (if AMORT_COUNT \<le> cb_amort s0 + 1 \<and> \<not> AMORT_COUNT \<le> q then None
       else if 0 \<le> sint (qsblockeds s1) then Some s1 else None)"
    unfolding s0_def s1_def q_def count_callback_def
    by (cases "rcublockeds (cn_sh c) < qsblockeds (cn_sh c)"; cases "AMORT_COUNT \<le> cb_amort (cn_sh c) + 1")
      (simp_all add: Count_atm atomic_xadd4_def Let_def)
  show ?thesis
  proof (cases "AMORT_COUNT \<le> cb_amort s0 + 1 \<and> \<not> AMORT_COUNT \<le> q")
    case True
    then have "count_step m Call_back (c\<lparr>cn_sh := s0, cn_cb := Cb_tmp q\<rparr>) =
        c\<lparr>cn_sh := s0, cn_cb := Cb_failed\<rparr>"
      using Count_atm by (simp add: count_step_def)
    then have "cn_cb (count_run m (replicate 2 Call_back) c) = Cb_failed"
      by (simp add: numeral_2_eq_2 1)
    then show ?thesis using True by (auto simp: cb intro!: exI [of _ 2])
  next
    case False
    then have 2: "count_step m Call_back (c\<lparr>cn_sh := s0, cn_cb := Cb_tmp q\<rparr>) =
        c\<lparr>cn_sh := s1, cn_cb := Cb_check, cn_called := Suc (cn_called c)\<rparr>"
      using Count_atm by (simp add: count_step_def s1_def q0 atomic_xadd4_def)
    have 3: "count_step m Call_back (c\<lparr>cn_sh := s1, cn_cb := Cb_check, cn_called := Suc (cn_called c)\<rparr>) =
        c\<lparr>cn_sh := s1, cn_cb := (if 0 \<le> sint (qsblockeds s1) then Cb_idle else Cb_failed),
          cn_called := Suc (cn_called c)\<rparr>"
      using Count_atm by (simp add: count_step_def)
    have 4: "count_run m (replicate 3 Call_back) c = c\<lparr>cn_sh := s1,
        cn_cb := (if 0 \<le> sint (qsblockeds s1) then Cb_idle else Cb_failed), cn_called := Suc (cn_called c)\<rparr>"
      by (simp only: numeral_3_eq_3 replicate.simps count_run.simps 1 2 3)
    show ?thesis
    proof (cases "0 \<le> sint (qsblockeds s1)")
      case True
      then show ?thesis unfolding cb using False by (auto simp: 4 intro!: exI [of _ 3])
    next
      case neg: False
      then show ?thesis unfolding cb using False by (auto simp: 4 intro!: exI [of _ 3])
    qed
  qed
qed (use assms in simp)

section \<open>The amortised counter\<close>

definition ups :: "nat \<Rightarrow> nat" where "ups n = (n + 15) div 16"

definition amortised :: "nat \<Rightarrow> nat \<Rightarrow> 'w rcu_scheme \<Rightarrow> bool" where
  "amortised n m s \<longleftrightarrow> unat (amort s) = n mod 16 \<and> unat (cb_amort s) = m mod 16 \<and>
     unat (qsblockeds s) + 16 * (m div 16) = 16 * ups n"

lemma unat_incr: "unat (x :: u64) < 2 ^ 63 \<Longrightarrow> unat (x + 1) = Suc (unat x)"
  by (simp add: unat_word_ariths)

lemma unat_add16: "unat (x :: u64) < 2 ^ 63 \<Longrightarrow> unat (x + 16) = unat x + 16"
  by (simp add: unat_word_ariths)

lemma unat_sub16: "16 \<le> unat (x :: u64) \<Longrightarrow> unat (x - 16) = unat x - 16"
  by (subst unat_sub) (simp_all add: word_le_nat_alt)

lemma sint_small:
  assumes "unat (x :: u64) < 2 ^ 63"
  shows "sint x = int (unat x)"
proof -
  have "int (unat x) < int (2 ^ 63)" using assms by (simp only: of_nat_less_iff)
  then have lt: "uint x < 2 ^ 63" by simp
  have "- (2 ^ 63) \<le> uint x" by (rule order_trans [of _ 0]) simp_all
  then show ?thesis using signed_take_bit_int_eq_self [OF _ lt] by (simp add: sint_uint)
qed

lemma ups_bound: "n \<le> 16 * ups n" "16 * ups n \<le> n + 15"
  using mod_mult_div_eq [of "n + 15" 16] mod_less_divisor [of 16 "n + 15"] unfolding ups_def by linarith+

lemma ups_step: "ups (Suc n) = (if n mod 16 = 0 then Suc (ups n) else ups n)"
proof -
  define j r where "j = n div 16" and "r = n mod 16"
  then have n: "n = 16 * j + r" and r: "r < 16" by simp_all
  have "(r + 15) div 16 = (if r = 0 then 0 else 1)" "(r + 16) div 16 = 1"
    using r by (auto intro: div_nat_eqI)
  then have "ups n = j + (if r = 0 then 0 else 1)" "ups (Suc n) = j + 1"
    using div_mult_self4 [of 16 j "r + 15"] div_mult_self4 [of 16 j "r + 16"] unfolding ups_def n
    by (simp_all add: add.assoc)
  then show ?thesis by (simp flip: r_def)
qed

lemma amortised_retired:
  assumes "amortised n m s" and "n < 2 ^ 62"
  shows "amortised (Suc n) m (count_retired Count_atm s)"
proof -
  have a: "unat (amort s + 1) = Suc (n mod 16)" using assms(1) by (subst unat_incr) (auto simp: amortised_def)
  have q: "unat (qsblockeds s) < 2 ^ 63" using assms ups_bound(2) [of n] by (simp add: amortised_def)
  have t: "(16 \<le> amort s + 1) = (n mod 16 = 15)" "(amort s + 1 = 1) = (n mod 16 = 0)"
    using a by (auto simp: word_le_nat_alt word_unat_eq_iff)
  have "Suc n mod 16 = (if n mod 16 = 15 then 0 else Suc (n mod 16))" by (simp add: mod_Suc)
  then show ?thesis
    using assms(1) a t unat_add16 [OF q] unfolding amortised_def count_retired_def
    by (auto simp: AMORT_COUNT_def atomic_xadd4_def Let_def ups_step)
qed

lemma div_before: "m \<le> n \<Longrightarrow> m mod 16 = 15 \<Longrightarrow> m div 16 < ups n"
  using mod_mult_div_eq [of m 16] ups_bound(1) [of n] by linarith

definition count_inv :: "counters \<Rightarrow> bool" where
  "count_inv c \<longleftrightarrow> amortised (cn_retired c) (cn_called c) (cn_sh c) \<and> cn_upd c = Cnt_idle \<and>
     cn_called c \<le> Suc (cn_retired c) \<and>
     (case cn_cb c of
        Cb_tmp tmp \<Rightarrow> cn_called c \<le> cn_retired c \<and> (cn_called c mod 16 = 15 \<longrightarrow> 16 \<le> unat tmp)
      | Cb_store v \<Rightarrow> False
      | Cb_failed \<Rightarrow> False
      | _ \<Rightarrow> True)"

lemma amortised_cong:
  "amortised n m s \<Longrightarrow> amort s' = amort s \<Longrightarrow> cb_amort s' = cb_amort s \<Longrightarrow> qsblockeds s' = qsblockeds s \<Longrightarrow>
   amortised n m s'"
  by (simp add: amortised_def)

lemma count_node_inv:
  assumes "count_inv c" and "cn_retired c < 2 ^ 62"
  shows "count_inv (count_step Count_atm Count_node c) \<and>
    cn_retired (count_step Count_atm Count_node c) = Suc (cn_retired c)"
  using assms amortised_retired [of "cn_retired c" "cn_called c" "cn_sh c"]
  by (auto simp: count_inv_def count_step_def Let_def split: back_pc.splits)

lemma call_back_inv:
  assumes i: "count_inv c" and n: "cn_retired c < 2 ^ 62"
    and t: "cn_cb c = Cb_idle \<longrightarrow> cn_called c < cn_retired c + 1"
  shows "count_inv (count_step Count_atm Call_back c) \<and>
    cn_retired (count_step Count_atm Call_back c) = cn_retired c"
proof -
  let ?s = "cn_sh c" and ?n = "cn_retired c" and ?m = "cn_called c"
  have A: "amortised ?n ?m ?s" "cn_upd c = Cnt_idle" "?m \<le> Suc ?n" using i by (simp_all add: count_inv_def)
  have q: "unat (qsblockeds ?s) < 2 ^ 63" using A(1) n ups_bound(2) [of ?n] by (simp add: amortised_def)
  show ?thesis
  proof (cases "cn_cb c")
    case Cb_idle
    then have m: "?m \<le> ?n" using t by simp
    have "16 \<le> unat (qsblockeds ?s)" if "?m mod 16 = 15"
      using A(1) div_before [OF m that] by (auto simp: amortised_def)
    moreover have "amortised ?n ?m (?s\<lparr>rcublockeds := x\<rparr>)" for x
      using A(1) by (rule amortised_cong) simp_all
    ultimately show ?thesis using Cb_idle A m by (auto simp: count_inv_def count_step_def Let_def)
  next
    case (Cb_tmp tmp)
    then have m: "?m \<le> ?n" and tmp: "?m mod 16 = 15 \<longrightarrow> 16 \<le> unat tmp" using i by (simp_all add: count_inv_def)
    have a: "unat (cb_amort ?s + 1) = Suc (?m mod 16)"
      using A(1) by (subst unat_incr) (auto simp: amortised_def)
    have t: "(16 \<le> cb_amort ?s + 1) = (?m mod 16 = 15)" using a by (auto simp: word_le_nat_alt)
    have l: "16 \<le> unat (qsblockeds ?s)" if "?m mod 16 = 15"
      using A(1) div_before [OF m that] by (auto simp: amortised_def)
    have d: "Suc ?m div 16 = (if ?m mod 16 = 15 then Suc (?m div 16) else ?m div 16)"
      "Suc ?m mod 16 = (if ?m mod 16 = 15 then 0 else Suc (?m mod 16))"
      by (simp_all add: mod_Suc div_Suc)
    have u: "unat (qsblockeds ?s - 16) = unat (qsblockeds ?s) - 16" if "?m mod 16 = 15"
      by (rule unat_sub16 [OF l [OF that]])
    show ?thesis using Cb_tmp A m a t d u l tmp unfolding count_inv_def count_step_def amortised_def
      by (cases "?m mod 16 = 15") (auto simp: AMORT_COUNT_def atomic_xadd4_def Let_def word_le_nat_alt)
  next
    case Cb_check
    have "0 \<le> sint (qsblockeds ?s)" by (simp only: sint_small [OF q] of_nat_0_le_iff)
    then show ?thesis using Cb_check A by (auto simp: count_inv_def count_step_def Let_def)
  qed (use i in \<open>simp_all add: count_inv_def\<close>)
qed

lemma count_run_inv:
  assumes "count_inv c" and "timely Count_atm 1 as c" and "cn_retired c + length as < 2 ^ 62"
  shows "count_inv (count_run Count_atm as c) \<and> cn_retired (count_run Count_atm as c) < 2 ^ 62"
  using assms
proof (induction as arbitrary: c)
  case Nil
  then show ?case by simp
next
  case (Cons a as)
  have s: "count_inv (count_step Count_atm a c) \<and> cn_retired (count_step Count_atm a c) \<le> Suc (cn_retired c)"
    using count_node_inv [OF Cons.prems(1)] call_back_inv [OF Cons.prems(1)] Cons.prems(2,3) by (cases a) auto
  then show ?case using Cons.IH [of "count_step Count_atm a c"] Cons.prems(2,3) by auto
qed

text \<open>
  C35 (the amortised counter of waiting nodes): with \<open>RCU_COUNT_ATM\<close>, in any
  interleaving of the accesses of the updater and of the callback thread shorter
  than 2^62 in which no callback starts more than one ahead of the counting, no
  assertion of \<open>free_node_cb\<close> fails, and \<open>qsblockeds\<close> is the number of waiting nodes or
  at most 30 more.
\<close>

theorem count_atm_bounds:
  assumes "timely Count_atm 1 as (count_init s)" and "length as < 2 ^ 62"
    and "qsblockeds s = 0" "amort s = 0" "cb_amort s = 0"
  shows "let c = count_run Count_atm as (count_init s); q = sint (qsblockeds (cn_sh c)) in
    cn_cb c \<noteq> Cb_failed \<and> int (cn_retired c) - int (cn_called c) \<le> q \<and> 0 \<le> q \<and>
    q \<le> int (cn_retired c) - int (cn_called c) + 30"
proof -
  let ?c = "count_run Count_atm as (count_init s)"
  let ?n = "cn_retired ?c" and ?m = "cn_called ?c"
  have "count_inv (count_init s)" using assms(3-5) by (simp add: count_inv_def count_init_def amortised_def ups_def)
  then have c: "count_inv ?c" "?n < 2 ^ 62"
    using count_run_inv [OF _ assms(1)] assms(2) by (simp_all add: count_init_def)
  then have e: "unat (qsblockeds (cn_sh ?c)) + 16 * (?m div 16) = 16 * ups ?n" "cn_cb ?c \<noteq> Cb_failed"
    by (auto simp: count_inv_def amortised_def)
  then have q: "sint (qsblockeds (cn_sh ?c)) = int (unat (qsblockeds (cn_sh ?c)))"
    using ups_bound(2) [of ?n] c(2) by (intro sint_small) simp
  have "?m < 16 * (?m div 16) + 16" "16 * (?m div 16) \<le> ?m"
    using mod_mult_div_eq [of ?m 16] mod_less_divisor [of 16 ?m] by linarith+
  then have "int ?n - int ?m \<le> int (unat (qsblockeds (cn_sh ?c)))"
    "int (unat (qsblockeds (cn_sh ?c))) \<le> int ?n - int ?m + 30"
    using e(1) ups_bound [of ?n] by linarith+
  then show ?thesis using q e(2) by (simp add: Let_def)
qed

section \<open>The plain counter\<close>

text \<open>
  While the callback of the first node has loaded the counter for its \<open>--\<close>, the updater
  counts a second node: its \<open>++\<close> is lost.  And while the updater has loaded the counter
  for its second \<open>++\<close>, a whole callback runs: its \<open>--\<close> is lost.
\<close>

definition lost_increment :: "count_actor list" where
  "lost_increment = [Count_node, Count_node, Call_back, Call_back, Count_node, Count_node, Call_back, Call_back,
     Call_back, Call_back, Call_back, Call_back]"

definition lost_decrement :: "count_actor list" where
  "lost_decrement = [Count_node, Count_node, Count_node, Call_back, Call_back, Call_back, Call_back, Count_node,
     Call_back, Call_back, Call_back, Call_back]"

text \<open>
  C36 (the plain counter loses updates): with \<open>RCU_COUNT_BLC\<close> alone \<open>qsblockeds++\<close> and
  \<open>qsblockeds--\<close> of the two threads can fall into each other.  There are schedules, with
  every callback after the counting of its node, on which the assertion of
  \<open>free_node_cb\<close> fails, and on which all nodes are counted and called back and the counter
  says that one waits.
\<close>

theorem plain_counter_races:
  "(let s = init_rcu [] in timely Count_blc 0 lost_increment (count_init s) \<and>
     cn_cb (count_run Count_blc lost_increment (count_init s)) = Cb_failed) \<and>
   (let c = count_run Count_blc lost_decrement (count_init (init_rcu [])) in
     timely Count_blc 0 lost_decrement (count_init (init_rcu [])) \<and> cn_upd c = Cnt_idle \<and> cn_cb c = Cb_idle \<and>
     cn_retired c = cn_called c \<and> qsblockeds (cn_sh c) = 1)"
proof -
  have q: "qsblockeds (init_rcu []) = 0" "rcublockeds (init_rcu []) = 0"
    by (simp_all add: init_rcu_def init_allocator_def prealloc_def)
  show ?thesis
    unfolding Let_def lost_increment_def lost_decrement_def
    by (simp add: count_init_def count_step_def q)
qed

section \<open>Witnesses\<close>

lemma count_atm_bounds_witness:
  "let c = count_run Count_atm [Call_back, Count_node, Call_back, Count_node, Call_back] (count_init (init_rcu [])) in
     cn_cb c \<noteq> Cb_failed \<and> cn_retired c = 2 \<and> cn_called c = 1 \<and>
     1 \<le> sint (qsblockeds (cn_sh c)) \<and> sint (qsblockeds (cn_sh c)) \<le> 31"
proof -
  let ?as = "[Call_back, Count_node, Call_back, Count_node, Call_back]" and ?s = "init_rcu []"
  have q: "qsblockeds ?s = 0" "rcublockeds ?s = 0" "amort ?s = 0" "cb_amort ?s = 0"
    by (simp_all add: init_rcu_def init_allocator_def prealloc_def)
  have c: "cn_retired (count_run Count_atm ?as (count_init ?s)) = 2" "cn_called (count_run Count_atm ?as (count_init ?s)) = 1"
    "timely Count_atm 1 ?as (count_init ?s)"
    by (simp_all add: count_init_def count_step_def count_retired_def q AMORT_COUNT_def atomic_xadd4_def Let_def
        word_le_nat_alt)
  show ?thesis using count_atm_bounds [OF c(3) _ q(1,3,4)] c(1,2) unfolding Let_def by simp
qed

end
