(* ===== verification/Hash_Table.thy ===== *)
theory Hash_Table imports List_Writer begin

text \<open>
  The benchmark driver: \<open>mrow.c\<close> and the random numbers of \<open>util.h\<close>.  The hash table
  spreads the keys over the buckets, \<open>setup_test\<close> reads the configuration,
  \<open>hash_init\<close> fills the table, every thread runs \<open>run\<close> and \<open>test\<close> starts and joins
  the threads.  The list operations the driver is linked with are arguments of
  the definitions; time measurement and affinity are left out.
\<close>

section \<open>Random keys\<close>

text \<open>\<open>myrand\<close> on the thread's \<open>unsigned int thd_seed\<close>: the result and the new seed.\<close>

definition myrand :: "u32 \<Rightarrow> int \<times> u32" where
  "myrand seed = (let seed = seed * 1103515245 + 12345 in (uint ((seed div 65536) mod 32768), seed))"

definition mysrand :: "u32 \<Rightarrow> u32" where
  "mysrand seed = seed"

section \<open>Configuration\<close>

definition NB_TEST :: u64 where "NB_TEST = 2000000"

record conf =
  nbthreads :: u64
  nbupdaters :: u64
  nbreaders :: u64
  nbbuckets :: u64
  pbnodes :: u64
  nbkeys :: u64

text \<open>\<open>strtoul\<close> is the C library's; \<open>None\<close> is the exit with a message.\<close>

definition setup_test :: "(string \<Rightarrow> u64) \<Rightarrow> string list \<Rightarrow> conf option" where
  "setup_test strtoul argv =
     (if length argv < 5 then None
      else let nt = strtoul (argv ! 1); nu = strtoul (argv ! 2) in
        if nt \<le> nu then None
        else let nb = strtoul (argv ! 3); nb = (if nb = 0 then 1 else nb);
            pb = strtoul (argv ! 4); pb = (if pb = 0 then 1 else pb) in
          Some \<lparr>nbthreads = nt, nbupdaters = nu, nbreaders = nt - nu, nbbuckets = nb, pbnodes = pb,
            nbkeys = pb * nb\<rparr>)"

section \<open>Buckets\<close>

text \<open>
  \<open>get_buckets\<close>: the int key is converted to \<open>unsigned long\<close> for the remainder, the
  remainder back to an int, which indexes \<open>heads\<close> and \<open>locks\<close>.
\<close>

definition get_buckets :: "conf \<Rightarrow> int \<Rightarrow> int" where
  "get_buckets cf k = sint (ucast ((word_of_int k :: u64) mod nbbuckets cf) :: u32)"

definition bucket_of :: "conf \<Rightarrow> int \<Rightarrow> nat" where
  "bucket_of cf k = nat (get_buckets cf k)"

section \<open>Filling and emptying the table\<close>

type_synonym 's list_op = "int \<Rightarrow> nat \<Rightarrow> 's \<Rightarrow> (int \<times> 's) option"

text \<open>
  The loops over all keys in \<open>hash_init\<close> and \<open>hash_delete\<close>.  Their counter is an
  int, which overflows, undefined in C and \<open>None\<close> here, from \<open>2 ^ 31\<close> keys on.
\<close>

primrec for_keys :: "conf \<Rightarrow> 's list_op \<Rightarrow> int list \<Rightarrow> 's \<Rightarrow> 's option" where
  "for_keys cf f [] s = Some s"
| "for_keys cf f (k # ks) s = do {
     (r, s) \<leftarrow> f k (bucket_of cf k) s;
     for_keys cf f ks s
   }"

definition all_keys :: "conf \<Rightarrow> int list option" where
  "all_keys cf = (if nbkeys cf < 2 ^ 31 then Some (map int [0..<unat (nbkeys cf)]) else None)"

text \<open>
  \<open>hash_init\<close>: \<open>calloc\<close> clears the heads and the locks, \<open>lock_init\<close> initialises each
  lock, and with \<open>POPULATE\<close>, which the Makefile defines, every key is inserted.
  \<open>mem_heads\<close> and \<open>mem_locks\<close> tell whether the two calls of \<open>calloc\<close> got their memory;
  the code does not ask, and NULL crashes when the first element is used (there is a
  bucket at least).  The int counter of the loop over the locks overflows from
  \<open>2 ^ 31\<close> buckets on.  Crash and overflow are \<open>None\<close>.
\<close>

definition hash_init :: "bool \<Rightarrow> bool \<Rightarrow> bool \<Rightarrow> conf \<Rightarrow> u64 \<Rightarrow> 'w mem_scheme list_op \<Rightarrow>
    'w mem_scheme \<Rightarrow> 'w mem_scheme option" where
  "hash_init mem_heads mem_locks populate cf lock_init ins s =
     (if nbbuckets cf \<noteq> 0 \<and> \<not> mem_locks then None
      else if \<not> nbbuckets cf < 2 ^ 31 then None
      else let s = s\<lparr>heads := (\<lambda>_. NULL), locks := (\<lambda>_. lock_init)\<rparr> in
      if populate then
        if nbkeys cf \<noteq> 0 \<and> \<not> mem_heads then None
        else do {
          ks \<leftarrow> all_keys cf;
          for_keys cf ins ks s
        }
      else Some s)"

definition hash_delete :: "conf \<Rightarrow> 's list_op \<Rightarrow> 's \<Rightarrow> 's option" where
  "hash_delete cf del s = do {
     ks \<leftarrow> all_keys cf;
     for_keys cf del ks s
   }"

section \<open>The threads\<close>

text \<open>What \<open>run\<close> counts: successful insertions, deletions and searches.\<close>

record counts =
  thd_ins :: int
  thd_del :: int
  thd_sea :: int

text \<open>
  One round of an updater: an even round deletes the key, an odd one inserts it.
  \<open>drawn\<close> is the key, \<open>myrand() % nbkeys\<close>.
\<close>

definition drawn :: "conf \<Rightarrow> int \<Rightarrow> int" where
  "drawn cf r = uint ((word_of_int r :: u64) mod nbkeys cf)"

definition update_round :: "conf \<Rightarrow> 's list_op \<Rightarrow> 's list_op \<Rightarrow> u64 \<Rightarrow> int \<Rightarrow> counts \<Rightarrow> 's \<Rightarrow>
    (counts \<times> 's) option" where
  "update_round cf ins del i k n s =
     (if odd i then do {
        (x, s) \<leftarrow> ins k (bucket_of cf k) s;
        Some (n\<lparr>thd_ins := thd_ins n + x\<rparr>, s)
      } else do {
        (x, s) \<leftarrow> del k (bucket_of cf k) s;
        Some (n\<lparr>thd_del := thd_del n + x\<rparr>, s)
      })"

text \<open>
  The loop of \<open>run\<close>.  \<open>done i\<close> is what the thread reads in the shared variable \<open>done\<close>
  in round \<open>i\<close>; the loop also ends when \<open>i\<close> wraps to 0.  The remainder by 0 is a crash.
\<close>

partial_function (option) run_loop ::
    "conf \<Rightarrow> 's list_op \<Rightarrow> 's list_op \<Rightarrow> 's list_op \<Rightarrow> (u64 \<Rightarrow> bool) \<Rightarrow> bool \<Rightarrow>
     u64 \<Rightarrow> u32 \<Rightarrow> counts \<Rightarrow> 's \<Rightarrow> (u64 \<times> u32 \<times> counts \<times> 's) option" where
  "run_loop cf search ins del finished iamreader i seed n s =
     (case myrand seed of (r, seed) \<Rightarrow> if nbkeys cf = 0 then None else
        let k = drawn cf r in
        if iamreader then do {
          (x, s) \<leftarrow> search k (bucket_of cf k) s;
          let n = n\<lparr>thd_sea := thd_sea n + x\<rparr>;
          if NB_TEST \<le> i then Some (i, seed, n, s)
          else if i + 1 = 0 then Some (i + 1, seed, n, s)
          else run_loop cf search ins del finished iamreader (i + 1) seed n s
        } else do {
          (n, s) \<leftarrow> update_round cf ins del i k n s;
          if finished i then Some (i, seed, n, s)
          else if i + 1 = 0 then Some (i + 1, seed, n, s)
          else run_loop cf search ins del finished iamreader (i + 1) seed n s
        })"

definition run :: "conf \<Rightarrow> 's list_op \<Rightarrow> 's list_op \<Rightarrow> 's list_op \<Rightarrow> (u64 \<Rightarrow> bool) \<Rightarrow> u64 \<Rightarrow> u32 \<Rightarrow>
    's \<Rightarrow> (u64 \<times> u32 \<times> counts \<times> 's) option" where
  "run cf search ins del finished t time s =
     run_loop cf search ins del finished (nbupdaters cf \<le> t) 0 (mysrand (xor (ucast t) time))
       \<lparr>thd_ins = 0, thd_del = 0, thd_sea = 0\<rparr> s"

text \<open>
  The end of \<open>test\<close>: the threads are joined from the last to the first, and \<open>done\<close>
  is set once thread \<open>nbupdaters\<close>, the last reader to be joined, is.
\<close>

datatype event = Create nat | Await_ready | Set_go | Join nat | Set_done

primrec joins :: "nat \<Rightarrow> nat \<Rightarrow> event list" where
  "joins nu 0 = []"
| "joins nu (Suc i) = Join i # (if i = nu then [Set_done] else []) @ joins nu i"

definition test_events :: "conf \<Rightarrow> event list" where
  "test_events cf = map Create [0..<unat (nbthreads cf)] @ [Await_ready, Set_go] @
     joins (unat (nbupdaters cf)) (unat (nbthreads cf))"

section \<open>The table as a set\<close>

text \<open>The set the whole table stands for, and that every key is in its own bucket.\<close>

definition table :: "('s \<Rightarrow> nat \<Rightarrow> int set) \<Rightarrow> conf \<Rightarrow> 's \<Rightarrow> int set" where
  "table keys cf s = {k. k \<in> keys s (bucket_of cf k)}"

definition sorted_out :: "('s \<Rightarrow> bool) \<Rightarrow> ('s \<Rightarrow> nat \<Rightarrow> int set) \<Rightarrow> conf \<Rightarrow> 's \<Rightarrow> bool" where
  "sorted_out ok keys cf s \<longleftrightarrow> ok s \<and> (\<forall>b. \<forall>k\<in>keys s b. bucket_of cf k = b)"

section \<open>The keys a thread draws\<close>

lemma myrand_range: "myrand seed = (r, seed') \<Longrightarrow> 0 \<le> r \<and> r < 32768"
proof -
  assume "myrand seed = (r, seed')"
  then obtain w :: u32 where w: "r = uint (w mod 32768)" by (auto simp: myrand_def Let_def)
  have "uint (w mod 32768) = uint w mod 32768" by (simp add: uint_mod)
  then show ?thesis unfolding w by simp
qed

lemma drawn_range: "myrand seed = (r, seed') \<Longrightarrow> 0 \<le> drawn cf r" "myrand seed = (r, seed') \<Longrightarrow> drawn cf r < 32768"
proof -
  assume "myrand seed = (r, seed')"
  then have r: "0 \<le> r" "r < 32768" using myrand_range by auto
  have "uint (word_of_int r :: u64) = r" using r by (simp add: uint_word_of_int)
  then have "drawn cf r = r mod uint (nbkeys cf)" by (simp add: drawn_def uint_mod)
  moreover have "r mod uint (nbkeys cf) \<le> r" using r(1) by (simp add: zmod_le_nonneg_dividend)
  ultimately show "drawn cf r < 32768" using r by simp
qed (simp add: drawn_def)

lemma drawn_less: "nbkeys cf \<noteq> 0 \<Longrightarrow> 0 \<le> drawn cf r \<and> drawn cf r < uint (nbkeys cf)"
  by (simp add: drawn_def uint_mod word_neq_0_conv word_less_def)

text \<open>The keys of the next \<open>m\<close> rounds of a thread, and its seed after them.\<close>

primrec draws :: "conf \<Rightarrow> nat \<Rightarrow> u32 \<Rightarrow> int list \<times> u32" where
  "draws cf 0 seed = ([], seed)"
| "draws cf (Suc m) seed = (case myrand seed of (r, seed1) \<Rightarrow>
     case draws cf m seed1 of (ks, seed2) \<Rightarrow> (drawn cf r # ks, seed2))"

lemma draws_length: "length (fst (draws cf m seed)) = m"
  by (induction m arbitrary: seed) (simp_all add: split_def)

lemma draws_keys: "nbkeys cf \<noteq> 0 \<Longrightarrow> set (fst (draws cf m seed)) \<subseteq> {0..<uint (nbkeys cf)}"
proof (induction m arbitrary: seed)
  case (Suc m)
  then show ?case using drawn_less [of cf "fst (myrand seed)"] by (simp add: split_def)
qed simp

section \<open>What the driver relies on\<close>

lemma unat_inc: "w + 1 \<noteq> 0 \<Longrightarrow> unat (w + 1) = unat w + 1" for w :: u64
proof -
  assume a: "w + 1 \<noteq> 0"
  have lt: "unat w < 2 ^ 64" using unsigned_less [of w] by simp
  have e: "unat (w + 1) = (unat w + 1) mod 2 ^ 64" by (simp add: unat_word_ariths)
  have "unat (w + 1) \<noteq> 0" using a by (simp add: unat_eq_0)
  then have "unat w + 1 \<noteq> 2 ^ 64" using e by force
  then show ?thesis using e lt by simp
qed

lemma less_max_inc: "i < j \<Longrightarrow> i + 1 \<noteq> 0" for i j :: u64
  by (metis add_diff_cancel_right' diff_0 not_less word_order.extremum)

lemma uint_of_unat: "unat w = unat v + 1 \<Longrightarrow> uint w = uint v + 1" for w v :: u64
  by (metis of_nat_1 of_nat_add of_nat_unat)


lemma table_union: "sorted_out ok keys cf s \<Longrightarrow> table keys cf s = (\<Union>b. keys s b)"
  by (auto simp: table_def sorted_out_def)

lemma table_upd:
  "keys s' = (keys s)(bucket_of cf k := insert k (keys s (bucket_of cf k))) \<Longrightarrow>
     table keys cf s' = insert k (table keys cf s)"
  "keys s' = (keys s)(bucket_of cf k := keys s (bucket_of cf k) - {k}) \<Longrightarrow>
     table keys cf s' = table keys cf s - {k}"
  by (auto simp: table_def)

text \<open>
  The list operations: \<open>keys s b\<close> is the set bucket \<open>b\<close> stands for, \<open>room s\<close> the
  number of insertions the system has memory for.  An insertion may fail
  (\<open>None\<close>) for want of memory, nothing else may.  A reader relies on \<open>search\<close>
  alone, \<open>hash_init\<close> on \<open>insert\<close> alone.
\<close>

locale table_search =
  fixes search :: "'s list_op"
    and ok :: "'s \<Rightarrow> bool"
    and keys :: "'s \<Rightarrow> nat \<Rightarrow> int set"
  assumes search_law: "ok s \<Longrightarrow> \<exists>s'. search k b s = Some (if k \<in> keys s b then 1 else 0, s') \<and>
      ok s' \<and> keys s' = keys s"
begin

text \<open>A reader draws a key a round and searches it, up to round \<open>NB_TEST\<close>.\<close>

lemma run_reader:
  assumes "ok s" and "i \<le> NB_TEST" and "nbkeys cf \<noteq> 0"
  shows "\<exists>n' s'. run_loop cf search ins del fin True i seed n s =
      Some (NB_TEST, snd (draws cf (Suc (unat (NB_TEST - i))) seed), n', s') \<and>
    ok s' \<and> keys s' = keys s \<and> thd_ins n' = thd_ins n \<and> thd_del n' = thd_del n \<and>
    thd_sea n' = thd_sea n + int (length (filter (\<lambda>k. k \<in> table keys cf s)
      (fst (draws cf (Suc (unat (NB_TEST - i))) seed))))"
  using assms
proof (induction "unat (NB_TEST - i)" arbitrary: i seed n s rule: less_induct)
  case less
  obtain r seed1 where r: "myrand seed = (r, seed1)" by force
  let ?k = "drawn cf r"
  obtain x s1 where s1: "search ?k (bucket_of cf ?k) s = Some (x, s1)" "ok s1" "keys s1 = keys s"
    and x: "x = (if ?k \<in> table keys cf s then 1 else 0)"
    using search_law [OF less.prems(1), of ?k "bucket_of cf ?k"] unfolding table_def mem_Collect_eq by blast
  let ?n = "n\<lparr>thd_sea := thd_sea n + x\<rparr>"
  show ?case
  proof (cases "NB_TEST \<le> i")
    case True
    then have i: "i = NB_TEST" using less.prems(2) by simp
    then have "run_loop cf search ins del fin True i seed n s = Some (NB_TEST, seed1, ?n, s1)"
      using r s1(1) less.prems(3) by (subst run_loop.simps) (simp add: Let_def)
    then show ?thesis using s1 x r unfolding i by simp
  next
    case False
    then have lt: "i < NB_TEST" by simp
    have i1: "i + 1 \<le> NB_TEST" using lt by (rule inc_le)
    have i0: "i + 1 \<noteq> 0" using lt by (rule less_max_inc)
    have d: "NB_TEST - i = (NB_TEST - (i + 1)) + 1" by simp
    have "NB_TEST - i \<noteq> 0" using lt by auto
    then have u: "unat (NB_TEST - i) = Suc (unat (NB_TEST - (i + 1)))"
      using d unat_inc by (metis Suc_eq_plus1)
    obtain n' s' where IH: "run_loop cf search ins del fin True (i + 1) seed1 ?n s1 =
        Some (NB_TEST, snd (draws cf (Suc (unat (NB_TEST - (i + 1)))) seed1), n', s')"
      "ok s'" "keys s' = keys s1" "thd_ins n' = thd_ins ?n" "thd_del n' = thd_del ?n"
      "thd_sea n' = thd_sea ?n + int (length (filter (\<lambda>k. k \<in> table keys cf s1)
        (fst (draws cf (Suc (unat (NB_TEST - (i + 1)))) seed1))))"
      using less.hyps [of "i + 1" s1 seed1 ?n] u s1(2) i1 less.prems(3) by auto
    have D: "draws cf (Suc (unat (NB_TEST - i))) seed =
        (?k # fst (draws cf (Suc (unat (NB_TEST - (i + 1)))) seed1),
         snd (draws cf (Suc (unat (NB_TEST - (i + 1)))) seed1))"
      unfolding u draws.simps(2) [of cf "Suc (unat (NB_TEST - (i + 1)))"] by (simp add: r split_def)
    have "run_loop cf search ins del fin True i seed n s =
        Some (NB_TEST, snd (draws cf (Suc (unat (NB_TEST - i))) seed), n', s')"
      using r s1(1) False i0 IH(1) less.prems(3) unfolding D by (subst run_loop.simps) (simp add: Let_def)
    moreover have "table keys cf s1 = table keys cf s" using s1(3) by (simp add: table_def)
    ultimately show ?thesis using IH(2-6) s1(3) x unfolding D by (simp add: algebra_simps)
  qed
qed

end

locale table_insert =
  fixes ins :: "'s list_op"
    and ok :: "'s \<Rightarrow> bool"
    and keys :: "'s \<Rightarrow> nat \<Rightarrow> int set"
    and room :: "'s \<Rightarrow> nat"
  assumes ins_law: "ok s \<Longrightarrow> ins k b s = Some (x, s') \<Longrightarrow>
      x = (if k \<in> keys s b then 0 else 1) \<and> ok s' \<and> keys s' = (keys s)(b := insert k (keys s b)) \<and>
      room s \<le> Suc (room s')"
    and ins_returns: "ok s \<Longrightarrow> 0 < room s \<Longrightarrow> \<exists>y. ins k b s = Some y"
begin

lemma ins_sorted_out:
  assumes "sorted_out ok keys cf s" and "ins k (bucket_of cf k) s = Some (x, s')"
  shows "sorted_out ok keys cf s'" "table keys cf s' = insert k (table keys cf s)"
    "x = (if k \<in> table keys cf s then 0 else 1)" "room s \<le> Suc (room s')"
  using ins_law [OF _ assms(2)] assms(1) table_upd(1) [of keys s' s cf k]
  by (auto simp: sorted_out_def table_def)

lemma for_keys_ins:
  "sorted_out ok keys cf s \<Longrightarrow> length ks \<le> room s \<Longrightarrow> \<exists>s'. for_keys cf ins ks s = Some s' \<and>
   sorted_out ok keys cf s' \<and> table keys cf s' = set ks \<union> table keys cf s"
proof (induction ks arbitrary: s)
  case Nil
  then show ?case by simp
next
  case (Cons k ks)
  then obtain x s1 where s1: "ins k (bucket_of cf k) s = Some (x, s1)"
    using ins_returns [of s k "bucket_of cf k"] by (fastforce simp: sorted_out_def)
  note I = ins_sorted_out [OF Cons.prems(1) s1]
  have "length ks \<le> room s1" using Cons.prems(2) I(4) by simp
  from Cons.IH [OF I(1) this] show ?case using s1 I(2) by auto
qed

end

locale list_ops = table_search search ok keys + table_insert ins ok keys room
  for search ins del :: "'s list_op"
    and ok :: "'s \<Rightarrow> bool"
    and keys :: "'s \<Rightarrow> nat \<Rightarrow> int set"
    and room :: "'s \<Rightarrow> nat" +
  assumes del_law: "ok s \<Longrightarrow> \<exists>s'. del k b s = Some (if k \<in> keys s b then 1 else 0, s') \<and>
      ok s' \<and> keys s' = (keys s)(b := keys s b - {k}) \<and> room s \<le> room s'"
begin

lemma del_sorted_out:
  assumes "sorted_out ok keys cf s"
  shows "\<exists>s'. del k (bucket_of cf k) s = Some (if k \<in> table keys cf s then 1 else 0, s') \<and>
    sorted_out ok keys cf s' \<and> table keys cf s' = table keys cf s - {k} \<and> room s \<le> room s'"
proof -
  obtain s' where s': "del k (bucket_of cf k) s = Some (if k \<in> keys s (bucket_of cf k) then 1 else 0, s')"
    "ok s'" "keys s' = (keys s)(bucket_of cf k := keys s (bucket_of cf k) - {k})" "room s \<le> room s'"
    using del_law assms unfolding sorted_out_def by blast
  have "sorted_out ok keys cf s'" using assms s'(2,3) by (auto simp: sorted_out_def)
  then show ?thesis using s'(1,4) table_upd(2) [OF s'(3)] by (auto simp: table_def)
qed

lemma for_keys_del:
  "sorted_out ok keys cf s \<Longrightarrow> \<exists>s'. for_keys cf del ks s = Some s' \<and> sorted_out ok keys cf s' \<and>
   table keys cf s' = table keys cf s - set ks"
proof (induction ks arbitrary: s)
  case Nil
  then show ?case by simp
next
  case (Cons k ks)
  obtain x s1 where s1: "del k (bucket_of cf k) s = Some (x, s1)" "sorted_out ok keys cf s1"
    "table keys cf s1 = table keys cf s - {k}"
    using del_sorted_out [OF Cons.prems] by blast
  then show ?case using Cons.IH [OF s1(2)] by auto
qed

text \<open>
  An updater alternates deletions and insertions.  \<open>accounts\<close> relates the table and
  the counters of two moments of its run: the counters account for the size of
  the table, and only keys that \<open>myrand\<close> can draw were touched.
\<close>

definition accounts :: "conf \<Rightarrow> counts \<Rightarrow> 's \<Rightarrow> counts \<Rightarrow> 's \<Rightarrow> bool" where
  "accounts cf n s n' s' \<longleftrightarrow> sorted_out ok keys cf s' \<and> finite (table keys cf s') \<and> thd_sea n' = thd_sea n \<and>
     int (card (table keys cf s')) =
       int (card (table keys cf s)) + (thd_ins n' - thd_ins n) - (thd_del n' - thd_del n) \<and>
     table keys cf s' - {0..<32768} = table keys cf s - {0..<32768}"

lemma accounts_trans: "accounts cf n s n1 s1 \<Longrightarrow> accounts cf n1 s1 n2 s2 \<Longrightarrow> accounts cf n s n2 s2"
  by (simp add: accounts_def)

lemma updater_round:
  assumes "sorted_out ok keys cf s" "finite (table keys cf s)" "0 < room s" "0 \<le> k" "k < 32768"
  shows "\<exists>n' s'. update_round cf ins del i k n s = Some (n', s') \<and>
    accounts cf n s n' s' \<and> room s \<le> Suc (room s')"
proof (cases "odd i")
  case True
  obtain x s' where x: "ins k (bucket_of cf k) s = Some (x, s')"
    using ins_returns [of s k "bucket_of cf k"] assms(1,3) by (fastforce simp: sorted_out_def)
  note I = ins_sorted_out [OF assms(1) x]
  have "accounts cf n s (n\<lparr>thd_ins := thd_ins n + x\<rparr>) s'"
  proof (cases "k \<in> table keys cf s")
    case True
    then have "table keys cf s' = table keys cf s" "x = 0" using I(2,3) by (simp_all add: insert_absorb)
    then show ?thesis using I(1) assms(2) by (simp add: accounts_def)
  next
    case False
    then have "card (table keys cf s') = Suc (card (table keys cf s))" "finite (table keys cf s')" "x = 1"
      using I(2,3) assms(2) by simp_all
    then show ?thesis using I(1,2) assms(4,5) by (simp add: accounts_def)
  qed
  then show ?thesis using True x I(4) by (simp add: update_round_def)
next
  case False
  let ?x = "if k \<in> table keys cf s then 1 else 0 :: int"
  obtain s' where s': "del k (bucket_of cf k) s = Some (?x, s')"
    "sorted_out ok keys cf s'" "table keys cf s' = table keys cf s - {k}" "room s \<le> room s'"
    using del_sorted_out [OF assms(1)] by blast
  have "accounts cf n s (n\<lparr>thd_del := thd_del n + ?x\<rparr>) s'"
  proof (cases "k \<in> table keys cf s")
    case True
    have "card (table keys cf s) = Suc (card (table keys cf s'))"
      unfolding s'(3) using card.remove [OF assms(2) True] .
    moreover have "finite (table keys cf s')" unfolding s'(3) using assms(2) by simp
    moreover have "table keys cf s' - {0..<32768} = table keys cf s - {0..<32768}"
      unfolding s'(3) using assms(4,5) by auto
    ultimately show ?thesis using s'(2) True by (simp add: accounts_def)
  next
    case out: False
    then have "table keys cf s' = table keys cf s" unfolding s'(3) by simp
    then show ?thesis using out s'(2) assms(2) by (simp add: accounts_def)
  qed
  then show ?thesis using False s'(1,4) by (simp add: update_round_def)
qed

text \<open>The updater stops in the first round in which it sees \<open>done\<close>.\<close>

lemma run_updater:
  assumes "sorted_out ok keys cf s" "finite (table keys cf s)" "nbkeys cf \<noteq> 0"
    and "i \<le> j" "fin j" "\<And>x. i \<le> x \<Longrightarrow> x < j \<Longrightarrow> \<not> fin x" "unat (j - i) < room s"
  shows "\<exists>seed' n' s'. run_loop cf search ins del fin False i seed n s = Some (j, seed', n', s') \<and>
    accounts cf n s n' s'"
  using assms
proof (induction "unat (j - i)" arbitrary: i seed n s)
  case 0
  then have ij: "i = j" by (simp add: unat_eq_0)
  obtain r seed1 where r: "myrand seed = (r, seed1)" by force
  obtain n1 s1 where n1: "update_round cf ins del i (drawn cf r) n s = Some (n1, s1)" "accounts cf n s n1 s1"
    using updater_round [OF 0(2,3) _ drawn_range [OF r]] 0(8) by fastforce
  have "run_loop cf search ins del fin False i seed n s = Some (i, seed1, n1, s1)"
    using r n1(1) 0(4,6) ij by (subst run_loop.simps) (simp add: Let_def)
  then show ?case using n1(2) ij by auto
next
  case (Suc d)
  obtain r seed1 where r: "myrand seed = (r, seed1)" by force
  obtain n1 s1 where n1: "update_round cf ins del i (drawn cf r) n s = Some (n1, s1)" "accounts cf n s n1 s1" "room s \<le> Suc (room s1)"
    using updater_round [OF Suc(3,4) _ drawn_range [OF r]] Suc(9) by fastforce
  have lt: "i < j" using Suc(2,6) by (cases "i = j") auto
  then have i1: "i + 1 \<le> j" "i + 1 \<noteq> 0" by (auto simp: inc_le less_max_inc)
  have ii: "i \<le> i + 1" using unat_inc [OF i1(2)] by (simp add: word_le_nat_alt)
  have u: "unat (j - i) = unat (j - (i + 1)) + 1"
    using unat_inc [of "j - (i + 1)"] lt by simp
  have "\<exists>seed' n' s'. run_loop cf search ins del fin False (i + 1) seed1 n1 s1 = Some (j, seed', n', s') \<and>
    accounts cf n1 s1 n' s'"
  proof (rule Suc(1))
    show "d = unat (j - (i + 1))" "unat (j - (i + 1)) < room s1" using u Suc(2,9) n1(3) by simp_all
    show "sorted_out ok keys cf s1" "finite (table keys cf s1)" using n1(2) by (simp_all add: accounts_def)
    show "\<not> fin x" if "i + 1 \<le> x" "x < j" for x
      by (rule Suc(8)) (use ii that in auto)
  qed (use i1 Suc(5,7) in auto)
  then obtain seed' n' s' where IH: "run_loop cf search ins del fin False (i + 1) seed1 n1 s1 = Some (j, seed', n', s')"
    "accounts cf n1 s1 n' s'" by blast
  have "run_loop cf search ins del fin False i seed n s = Some (j, seed', n', s')"
    using r n1(1) Suc(5) Suc(8) [of i] lt i1(2) IH(1)
    by (subst run_loop.simps) (simp add: Let_def)
  then show ?case using accounts_trans [OF n1(2) IH(2)] by blast
qed

end

end
