(* ===== verification/Builds.thy ===== *)
theory Builds imports Hash_Table Gecos_Properties Sgecos Hazard Rcu List_Lock_Properties Ref_Count_Properties begin

text \<open>
  The lists the benchmark is linked with: what the driver relies on holds for the
  insertion of every list, for the search of every list, and for all three
  operations of the lists whose deletion frees at once.
\<close>

section \<open>Memory is only taken by insertions\<close>

lemma pool_more: "mem.more s = mem.more s' \<Longrightarrow> pool s = pool s'"
  by (cases s; cases s') simp

lemma wr_more: "wr p f s = Some s' \<Longrightarrow> mem.more s' = mem.more s"
  by (auto simp: wr_def split: if_splits)

lemma set_loc_keeps_more: "set_loc l v s = Some s' \<Longrightarrow> mem.more s' = mem.more s"
  by (cases l) (auto simp: wr_more)

lemma lock_op_more: "lock_op f b s = Some s' \<Longrightarrow> mem.more s' = mem.more s"
  by (auto simp: lock_op_def bind_eq_Some_iff)

lemmas step_pool = pool_more [OF wr_more] pool_more [OF set_loc_keeps_more] pool_more [OF lock_op_more]

lemma push_loop_pool:
  assumes "push_loop s = Some s'"
  shows "pool s' = pool s"
  using assms
proof (induction s s' rule: push_loop.raw_induct [rotated, consumes 1, case_names 1])
  case (1 rec s s')
  obtain t :: node_t and ok v where t: "CAS (freelist s) (mr_next t) (lfl s) = (ok, v)"
    "(if ok then Some (s\<lparr>freelist := v\<rparr>)
      else do { s \<leftarrow> wr (lfl_tail s) (\<lambda>n. n\<lparr>mr_next := v\<rparr>) (s\<lparr>freelist := v\<rparr>); rec s }) = Some s'"
  proof -
    obtain t where "rd s (lfl_tail s) = Some t" using 1(2) by (auto simp: bind_eq_Some_iff)
    then show thesis using that [of t] 1(2)
      by (cases "CAS (freelist s) (mr_next t) (lfl s)") (auto simp: Let_def split: if_splits)
  qed
  then show ?case by (auto simp: bind_eq_Some_iff split: if_splits dest!: 1(1) step_pool)
qed

lemma free_node_pool: "free_node p s = Some s' \<Longrightarrow> pool s' = pool s"
  by (auto simp: free_node_def add_free_def bind_eq_Some_iff Let_def split: if_splits
      dest!: push_loop_pool step_pool)

lemma new_node_pool: "new_node s = Some (n, s') \<Longrightarrow> length (pool s) \<le> Suc (length (pool s'))"
  by (auto simp: new_node_def get_free_def calloc_node_def steal_eq bind_eq_Some_iff
      split: if_splits list.splits)

lemma new_node_returns: "alloc_ok s A \<Longrightarrow> pool s \<noteq> [] \<Longrightarrow> \<exists>n s'. new_node s = Some (n, s') \<and> n \<noteq> NULL"
proof -
  assume "alloc_ok s A" and p: "pool s \<noteq> []"
  then obtain F G where inv: "alloc_inv s A F G" by (auto simp: alloc_ok_def)
  obtain x xs where x: "pool s = x # xs" using p by (cases "pool s") auto
  show ?thesis
    using new_node_recycles [OF inv] new_node_callocs [of s A x xs] inv x by (cases "F @ G = []") auto
qed

lemma delete_loop_pool:
  assumes "delete_loop wu g fr k b l c s = Some y"
    and "\<And>p t t'. fr p t = Some t' \<Longrightarrow> pool t' = pool t" "y = (x, s')"
  shows "pool s' = pool s"
  using assms
proof (induction wu g fr k b l c s y rule: delete_loop.raw_induct [rotated, consumes 1, case_names 1])
  case (1 rec wu g fr k b l c s y)
  have IH: "rec wu g fr k b l' c' t = Some (x, s') \<Longrightarrow> pool s' = pool t" for l' c' t
    by (rule 1(1)) (auto dest: 1(3))
  show ?case using 1(2,4)
    by (auto simp: bind_eq_Some_iff split: if_splits dest!: 1(3) step_pool IH)
qed

lemma delete_pool:
  "delete wl wu g fr k b s = Some (x, s') \<Longrightarrow> (\<And>p t t'. fr p t = Some t' \<Longrightarrow> pool t' = pool t) \<Longrightarrow>
   pool s' = pool s"
  by (auto simp: delete_def bind_eq_Some_iff split: if_splits dest!: step_pool dest: delete_loop_pool)

lemma insert_pool:
  assumes "insert_w wl wu init k b s = Some (x, s')"
    and init: "\<And>t n t'. init t = Some (n, t') \<Longrightarrow> length (pool t) \<le> Suc (length (pool t'))"
  shows "length (pool s) \<le> Suc (length (pool s'))"
  using assms(1)
  by (auto simp: insert_w_def bind_eq_Some_iff split: if_splits dest!: step_pool init)


lemma lfrc_dec_pool: "lfrc_refcnt_dec p s = Some s' \<Longrightarrow> pool s' = pool s"
proof (induction p s s' rule: lfrc_refcnt_dec.raw_induct [rotated, consumes 1, case_names 1])
  case (1 rec p s s')
  show ?case using 1(2)
    by (auto simp: bind_eq_Some_iff Let_def atomic_xadd4_def rc_free_node_def split: if_splits
        dest!: 1(1) step_pool free_node_pool)
qed

lemma rc_free_pool: "rc_free_node_later p s = Some s' \<Longrightarrow> pool s' = pool s"
  by (auto simp: rc_free_node_later_def lfrc_refcnt_inc_def bind_eq_Some_iff split: if_splits
      dest!: step_pool lfrc_dec_pool)

lemma rc_init_pool: "rc_init_new_node s = Some (n, s') \<Longrightarrow> length (pool s) \<le> Suc (length (pool s'))"
  by (auto simp: rc_init_new_node_def bind_eq_Some_iff dest!: step_pool new_node_pool)

section \<open>The lists the driver is linked with\<close>

text \<open>
  What a build of the benchmark consists of: a list writer whose scheme takes memory
  from the pool for a new node only, and a search that leaves the set alone.
  Every build gives the driver what it relies on.
\<close>

definition list_ok :: "('w mem_scheme \<Rightarrow> ptr set \<Rightarrow> bool) \<Rightarrow> (u64 \<Rightarrow> bool) \<Rightarrow> 'w mem_scheme \<Rightarrow> bool" where
  "list_ok rinv lock_free s \<longleftrightarrow> (\<exists>L. writer_ok rinv lock_free s L)"

definition room :: "'w alloc_scheme \<Rightarrow> nat" where
  "room s = length (pool s)"

locale insert_build = list_writer init_new_node free_node_later rinv wlock wunlock lock_free
  for init_new_node :: "'w alloc_scheme \<Rightarrow> (ptr \<times> 'w alloc_scheme) option"
    and free_node_later rinv wlock wunlock lock_free +
  assumes init_pool: "init_new_node t = Some (n, t') \<Longrightarrow> length (pool t) \<le> Suc (length (pool t'))"
    and init_returns: "rinv t A \<Longrightarrow> pool t \<noteq> [] \<Longrightarrow> \<exists>n t'. init_new_node t = Some (n, t') \<and> n \<noteq> NULL"
begin

lemma build_insert:
  assumes ok: "list_ok rinv lock_free s" and i: "insert_w wlock wunlock init_new_node k b s = Some (x, s')"
  shows "x = (if k \<in> bucket_keys s b then 0 else 1) \<and> list_ok rinv lock_free s' \<and>
    bucket_keys s' = (bucket_keys s)(b := insert k (bucket_keys s b)) \<and> room s \<le> Suc (room s')"
proof -
  obtain L where L: "writer_ok rinv lock_free s L" using ok by (auto simp: list_ok_def)
  have r: "room s \<le> Suc (room s')" using insert_pool [OF i init_pool] by (simp add: room_def)
  show ?thesis
  proof (cases "k \<in> bucket_keys s b")
    case True
    then show ?thesis using insert_present_set [OF L True] i r
      by (auto simp: list_ok_def insert_absorb)
  next
    case False
    then obtain s1 L' where "insert_w wlock wunlock init_new_node k b s = Some (1, s1)"
      "writer_ok rinv lock_free s1 L'" "bucket_keys s1 = (bucket_keys s)(b := insert k (bucket_keys s b))"
      using insert_absent_set [OF L False] i by (auto split: if_splits)
    then show ?thesis using False i r by (auto simp: list_ok_def)
  qed
qed

lemma build_insert_returns:
  assumes ok: "list_ok rinv lock_free s" and r: "0 < room s"
  shows "\<exists>y. insert_w wlock wunlock init_new_node k b s = Some y"
proof -
  obtain L where L: "writer_ok rinv lock_free s L" using ok by (auto simp: list_ok_def)
  have "\<exists>n s2. init_new_node (s\<lparr>locks := l\<rparr>) = Some (n, s2) \<and> n \<noteq> NULL" for l
    by (rule init_returns [OF rinv_locks]) (use L r in \<open>auto simp: writer_ok_def room_def\<close>)
  then show ?thesis
    using insert_present_set [OF L, of k b] insert_absent_set [OF L, of k b]
    by (cases "k \<in> bucket_keys s b") auto
qed

lemma list_ok_start:
  assumes "rinv s {}" and "lock_free lock_init"
  shows "list_ok rinv lock_free (s\<lparr>heads := (\<lambda>_. NULL), locks := (\<lambda>_. lock_init)\<rparr>)"
proof -
  let ?s = "s\<lparr>heads := (\<lambda>_. NULL), locks := (\<lambda>_. lock_init)\<rparr>"
  have "buckets ?s (\<lambda>_. [])" by (simp add: buckets_def)
  moreover have "rinv ?s {}" using rinv_locks [OF rinv_heads [OF assms(1)]] by simp
  ultimately have "writer_ok rinv lock_free ?s (\<lambda>_. [])" using assms(2) by (simp add: writer_ok_def linked_def)
  then show ?thesis by (auto simp: list_ok_def)
qed

end

sublocale insert_build \<subseteq> table_insert "insert_w wlock wunlock init_new_node" "list_ok rinv lock_free" bucket_keys room
  by unfold_locales (fact build_insert build_insert_returns)+

locale build = insert_build init_new_node free_node_later rinv wlock wunlock lock_free
  for init_new_node :: "'w alloc_scheme \<Rightarrow> (ptr \<times> 'w alloc_scheme) option"
    and free_node_later rinv wlock wunlock lock_free +
  fixes search :: "'w alloc_scheme list_op"
  assumes free_pool: "free_node_later p t = Some t' \<Longrightarrow> pool t' = pool t"
    and search_ok: "list_ok rinv lock_free t \<Longrightarrow>
      \<exists>t'. search k b t = Some (if k \<in> bucket_keys t b then 1 else 0, t') \<and>
        list_ok rinv lock_free t' \<and> bucket_keys t' = bucket_keys t \<and> pool t' = pool t"
begin

lemma build_delete:
  assumes ok: "list_ok rinv lock_free s"
  shows "\<exists>s'. delete wlock wunlock gclock free_node_later k b s = Some (if k \<in> bucket_keys s b then 1 else 0, s') \<and>
    list_ok rinv lock_free s' \<and> bucket_keys s' = (bucket_keys s)(b := bucket_keys s b - {k}) \<and> room s \<le> room s'"
proof -
  obtain L where L: "writer_ok rinv lock_free s L" using ok by (auto simp: list_ok_def)
  obtain s' L' where s': "delete wlock wunlock gclock free_node_later k b s =
      Some (if k \<in> bucket_keys s b then 1 else 0, s')" "writer_ok rinv lock_free s' L'"
    "bucket_keys s' = (bucket_keys s)(b := bucket_keys s b - {k})"
    using delete_set [OF L] by blast
  then show ?thesis using delete_pool [OF s'(1) free_pool] by (auto simp: list_ok_def room_def)
qed

end

sublocale build \<subseteq> list_ops search "insert_w wlock wunlock init_new_node"
  "delete wlock wunlock gclock free_node_later" "list_ok rinv lock_free" bucket_keys room
  for gclock
proof unfold_locales
  fix k b s
  assume "list_ok rinv lock_free s"
  from search_ok [OF this, of k b]
  show "\<exists>s'. search k b s = Some (if k \<in> bucket_keys s b then 1 else 0, s') \<and>
      list_ok rinv lock_free s' \<and> bucket_keys s' = bucket_keys s"
    by metis
qed (fact build_delete)+

context build
begin

lemma build_list_ops:
  "list_ops search (insert_w wlock wunlock init_new_node) (delete wlock wunlock gclock free_node_later)
     (list_ok rinv lock_free) bucket_keys room"
  by unfold_locales

end

text \<open>The list under a lock that readers take, under one they validate, and with reference counts.\<close>

lemma lk_init_returns:
  "alloc_ok t A \<Longrightarrow> pool t \<noteq> [] \<Longrightarrow> \<exists>n t'. lk_init_new_node t = Some (n, t') \<and> n \<noteq> NULL"
  unfolding lk_init_new_node_def by (rule new_node_returns)

lemma lk_insert_build:
  assumes "bucket_lock wlock wunlock lock_free"
  shows "insert_build (lk_init_new_node :: 'w alloc_scheme \<Rightarrow> _) lk_free_node_later alloc_ok wlock wunlock lock_free"
  by (intro insert_build.intro insert_build_axioms.intro lk_writer assms lk_init_returns)
    (auto simp: lk_init_new_node_def dest: new_node_pool)

lemma lk_free_pool: "lk_free_node_later p t = Some t' \<Longrightarrow> pool t' = pool t"
  by (auto simp: lk_free_node_later_def dest: free_node_pool)

lemma lk_build:
  assumes "bucket_lock wlock wunlock lock_free"
  shows "build (lk_init_new_node :: 'w alloc_scheme \<Rightarrow> _) lk_free_node_later alloc_ok wlock wunlock lock_free
    (lk_search wlock wunlock)"
proof (intro build.intro build_axioms.intro lk_insert_build assms)
  fix t :: "'w alloc_scheme" and k b
  assume "list_ok alloc_ok lock_free t"
  then obtain L where L: "writer_ok alloc_ok lock_free t L" by (auto simp: list_ok_def)
  then have w: "buckets t L" "alloc_ok t (linked L)" "\<forall>b. lock_free (locks t b)" by (auto simp: writer_ok_def)
  obtain l where l: "lk_search wlock wunlock k b t =
      Some (if k \<in> keys_of t (L b) then 1 else 0, t\<lparr>locks := (locks t)(b := l)\<rparr>)" "lock_free l"
    using bucket_lock.lk_search_spec [OF assms w(1)] w(3) by blast
  let ?t = "t\<lparr>locks := (locks t)(b := l)\<rparr>"
  have "alloc_ok ?t (linked L)" using w(2) by (rule alloc_ok_cong) simp_all
  then have "writer_ok alloc_ok lock_free ?t L" using w l(2) by (simp add: writer_ok_def)
  moreover have "bucket_keys ?t = bucket_keys t" by (simp add: bucket_keys_def fun_eq_iff keys_of_def)
  ultimately show "\<exists>t'. lk_search wlock wunlock k b t = Some (if k \<in> bucket_keys t b then 1 else 0, t') \<and>
      list_ok alloc_ok lock_free t' \<and> bucket_keys t' = bucket_keys t \<and> pool t' = pool t"
    using l(1) by (auto simp: list_ok_def bucket_keys_eq [OF w(1)])
qed (rule lk_free_pool)

definition pure_search :: "(int \<Rightarrow> nat \<Rightarrow> 's \<Rightarrow> int option) \<Rightarrow> 's list_op" where
  "pure_search f k b s = map_option (\<lambda>x. (x, s)) (f k b s)"

lemma opt_build:
  assumes "counting_lock wlock wunlock lock_free rlock runlock sec period"
  shows "build (lk_init_new_node :: 'w alloc_scheme \<Rightarrow> _) lk_free_node_later alloc_ok wlock wunlock lock_free
    (pure_search (opt_search rlock runlock vld))"
proof (intro build.intro build_axioms.intro lk_insert_build counting_lock.axioms(1) [OF assms])
  fix t :: "'w alloc_scheme" and k b
  assume ok: "list_ok alloc_ok lock_free t"
  then obtain L where L: "writer_ok alloc_ok lock_free t L" by (auto simp: list_ok_def)
  then have w: "buckets t L" "lock_free (locks t b)" by (auto simp: writer_ok_def)
  show "\<exists>t'. pure_search (opt_search rlock runlock vld) k b t = Some (if k \<in> bucket_keys t b then 1 else 0, t') \<and>
      list_ok alloc_ok lock_free t' \<and> bucket_keys t' = bucket_keys t \<and> pool t' = pool t"
    using counting_lock.opt_search_spec [OF assms w] ok by (simp add: pure_search_def bucket_keys_eq [OF w(1)])
qed (rule lk_free_pool)

interpretation spin_build: build lk_init_new_node lk_free_node_later alloc_ok spin_lock spin_unlock
  "\<lambda>l. l = 0" "lk_search spin_lock spin_unlock"
  by (rule lk_build [OF spin.bucket_lock_axioms])

interpretation seq_build: build lk_init_new_node lk_free_node_later alloc_ok seqm_wlock seqm_wunlock
  even "pure_search (opt_search seq_rlock seq_runlock True)"
  by (rule opt_build [OF seqm.counting_lock_axioms])

interpretation rc_build: build rc_init_new_node rc_free_node_later rc_inv none_wlock none_wunlock
  "\<lambda>_. True" rc_search
proof unfold_locales
  fix t :: "'w alloc_scheme" and k b
  assume ok: "list_ok rc_inv (\<lambda>_. True) t"
  then obtain L where "writer_ok rc_inv (\<lambda>_. True) t L" by (auto simp: list_ok_def)
  then have w: "buckets t L" "rc_inv t (linked L)" by (auto simp: writer_ok_def)
  show "\<exists>t'. rc_search k b t = Some (if k \<in> bucket_keys t b then 1 else 0, t') \<and>
      list_ok rc_inv (\<lambda>_. True) t' \<and> bucket_keys t' = bucket_keys t \<and> pool t' = pool t"
    using rc_search_eq [OF w] ok by (simp add: bucket_keys_eq [OF w(1)])
next
  fix t :: "'w alloc_scheme" and A
  assume "rc_inv t A" "pool t \<noteq> []"
  then obtain n t' where "new_node t = Some (n, t')" "n \<noteq> NULL"
    using new_node_returns alloc_within_ok by (metis rc_inv_def)
  then show "\<exists>n t'. rc_init_new_node t = Some (n, t') \<and> n \<noteq> NULL"
    by (simp add: rc_init_new_node_def mem_simps)
qed (auto dest: rc_init_pool rc_free_pool)

section \<open>The insertion of every list\<close>

interpretation gecos_insert: insert_build init_new_node free_node_later alloc_ok none_wlock none_wunlock "\<lambda>_. True"
proof unfold_locales
  fix t :: "'w alloc_scheme" and A
  assume "alloc_ok t A" "pool t \<noteq> []"
  then show "\<exists>n t'. init_new_node t = Some (n, t') \<and> n \<noteq> NULL"
    unfolding init_new_node_def osa_new_node_def by (rule new_node_returns)
qed (auto simp: init_new_node_def osa_new_node_def dest: new_node_pool)

interpretation osa_insert: insert_build init_new_node osa_free_node_later osa_inv none_wlock none_wunlock "\<lambda>_. True"
proof unfold_locales
  fix t :: "'w osa_scheme" and A
  assume "osa_inv t A" and p: "pool t \<noteq> []"
  then have "\<exists>B. alloc_ok t B" by (auto simp: osa_inv_def)
  then show "\<exists>n t'. init_new_node t = Some (n, t') \<and> n \<noteq> NULL"
    unfolding init_new_node_def osa_new_node_def using new_node_returns p by blast
qed (auto simp: init_new_node_def osa_new_node_def dest: new_node_pool)

text \<open>Where a build has no lock and takes its nodes from \<open>new_node\<close>, the insertion is the same.\<close>

lemma sg_insert_eq: "sg_insert = insert_w none_wlock none_wunlock init_new_node"
  by (intro ext) (simp add: sg_insert_def insert_w_def init_new_node_def osa_new_node_def none_wlock_def
      none_wunlock_def lock_op_def split_def cong: if_cong)

interpretation sg_insert: table_insert sg_insert "list_ok alloc_ok (\<lambda>_. True)" bucket_keys room
  unfolding sg_insert_eq by (rule gecos_insert.table_insert_axioms)

lemma hp_init_eq: "hp_init_new_node = init_new_node"
  by (intro ext) (simp add: hp_init_new_node_def init_new_node_def osa_new_node_def)

interpretation hp_insert: table_insert "insert_w none_wlock none_wunlock hp_init_new_node"
    "list_ok alloc_ok (\<lambda>_. True)" bucket_keys room
  unfolding hp_init_eq by (rule gecos_insert.table_insert_axioms)

lemma rcu_init_eq: "rcu_init_new_node = init_new_node"
  by (intro ext) (simp add: rcu_init_new_node_def init_new_node_def osa_new_node_def)

interpretation rcu_insert: table_insert "insert_w none_wlock none_wunlock rcu_init_new_node"
    "list_ok alloc_ok (\<lambda>_. True)" bucket_keys room
  unfolding rcu_init_eq by (rule gecos_insert.table_insert_axioms)

section \<open>The search of every list\<close>

text \<open>A search that is a machine of single accesses, run on its own.\<close>

partial_function (option) run_alone :: "('r \<Rightarrow> 'r) \<Rightarrow> ('r \<Rightarrow> int option) \<Rightarrow> 'r \<Rightarrow> int option" where
  "run_alone step ret r = (case ret r of None \<Rightarrow> run_alone step ret (step r) | Some x \<Rightarrow> Some x)"

lemma run_alone_step: "ret r = None \<Longrightarrow> run_alone step ret r = run_alone step ret (step r)"
  and run_alone_ret: "ret r = Some x \<Longrightarrow> run_alone step ret r = Some x"
  by (subst run_alone.simps; simp)+

lemma run_alone_pow:
  assumes "\<And>r x. ret r = Some x \<Longrightarrow> step r = r" and "ret ((step ^^ m) r) = Some x"
  shows "run_alone step ret r = Some x"
  using assms(2)
proof (induction m arbitrary: r)
  case 0
  then show ?case by (simp add: run_alone_ret)
next
  case (Suc m)
  then have IH: "run_alone step ret (step r) = Some x" by (simp add: funpow_swap1)
  show ?case
  proof (cases "ret r")
    case None
    then show ?thesis using IH by (simp add: run_alone_step)
  next
    case (Some y)
    then have "step r = r" by (rule assms(1))
    then show ?thesis using IH by simp
  qed
qed

definition r_answer :: "reader \<Rightarrow> int option" where
  "r_answer r = (case r_pc r of R_ret x \<Rightarrow> Some x | _ \<Rightarrow> None)"

definition gecos_search :: "version \<Rightarrow> int \<Rightarrow> nat \<Rightarrow> 'w mem_scheme \<Rightarrow> int option" where
  "gecos_search v k b s = run_alone (search_step v s) r_answer (search_init k b)"


lemma gecos_search_law:
  assumes "buckets s L"
  shows "gecos_search v k b s = Some (if k \<in> bucket_keys s b then 1 else 0)"
proof -
  obtain m where "r_pc ((search_step v s ^^ m) (search_init k b)) = R_ret (if k \<in> bucket_keys s b then 1 else 0)"
    using search_at_rest [OF assms] by blast
  moreover have "search_step v s r = r" if "r_answer r = Some x" for r x
    using that by (auto simp: r_answer_def search_step_def split: rpc.splits)
  ultimately show ?thesis unfolding gecos_search_def
    by (intro run_alone_pow [where m = m]) (auto simp: r_answer_def)
qed

definition s_answer :: "sreader \<Rightarrow> int option" where
  "s_answer r = (case s_pc r of S_ret x \<Rightarrow> Some x | _ \<Rightarrow> None)"

definition sg_search :: "int \<Rightarrow> nat \<Rightarrow> 'w mem_scheme \<Rightarrow> int option" where
  "sg_search k b s = run_alone (sg_search_step s) s_answer (sg_init k b)"

lemma sg_search_loop:
  assumes "chain (nxts s) (s_cur r) ys NULL" and "ys \<noteq> []" and "sorted_wrt (<) (map (keyof s) ys)"
    and "s_pc r = S_key" and "lgc r = locks s (s_bucket r)"
  shows "run_alone (sg_search_step s) s_answer r = Some (if s_key r \<in> keys_of s ys then 1 else 0)"
  using assms
proof (induction ys arbitrary: r)
  case Nil
  then show ?case by simp
next
  case (Cons y ys)
  then have y: "s_cur r = y" "y \<noteq> NULL" and c: "chain (nxts s) (nxt (node s y)) ys NULL" by auto
  have gt: "\<forall>x\<in>set ys. keyof s y < keyof s x" using Cons.prems(3) by simp
  let ?r = "r\<lparr>s_cur_key := keyof s y, s_next := nxt (node s y), s_pc := S_chk\<rparr>"
  have r: "run_alone (sg_search_step s) s_answer r = run_alone (sg_search_step s) s_answer (sg_search_step s ?r)"
    using y Cons.prems(4) by (simp add: run_alone_step s_answer_def sg_search_step_def mem_simps)
  show ?case
  proof (cases "s_key r \<le> keyof s y \<or> ys = []")
    case True
    have "s_key r \<notin> keys_of s ys" if "s_key r \<le> keyof s y" using gt that by (auto simp: keys_of_def)
    then have "s_answer (sg_search_step s ?r) = Some (if s_key r \<in> keys_of s (y # ys) then 1 else 0)"
      using True c Cons.prems(5) by (auto simp: s_answer_def sg_search_step_def)
    then show ?thesis unfolding r by (rule run_alone_ret)
  next
    case False
    then have "nxt (node s y) \<noteq> NULL" using c by (cases ys) auto
    then have e: "sg_search_step s ?r = ?r\<lparr>s_cur := nxt (node s y), s_pc := S_key\<rparr>"
      using False Cons.prems(5) by (simp add: sg_search_step_def)
    show ?thesis unfolding r e
      by (subst Cons.IH) (use c False Cons.prems(3,5) in auto)
  qed
qed

lemma sg_search_law:
  assumes B: "buckets s L"
  shows "sg_search k b s = Some (if k \<in> bucket_keys s b then 1 else 0)"
proof -
  let ?r = "(sg_init k b)\<lparr>lgc := locks s b, s_pc := S_head\<rparr>"
  have r: "sg_search k b s = run_alone (sg_search_step s) s_answer (sg_search_step s ?r)"
    by (simp add: sg_search_def run_alone_step s_answer_def sg_search_step_def sg_init_def)
  note ch = buckets_chain [OF B, of b]
  show ?thesis
  proof (cases "L b")
    case Nil
    then show ?thesis unfolding r using ch
      by (intro run_alone_ret) (simp add: s_answer_def sg_search_step_def sg_init_def bucket_keys_eq [OF B])
  next
    case (Cons y ys)
    then have h: "heads s b = y" "y \<noteq> NULL" using ch by auto
    then show ?thesis unfolding r bucket_keys_eq [OF B]
      using sg_search_loop [of s "sg_search_step s ?r" "L b"] ch Cons buckets_sorted [OF B, of b]
      by (simp add: sg_search_step_def sg_init_def)
  qed
qed

definition u_answer :: "ureader \<Rightarrow> int option" where
  "u_answer r = (case u_pc r of U_ret x \<Rightarrow> Some x | _ \<Rightarrow> None)"

definition rcu_search :: "int \<Rightarrow> nat \<Rightarrow> 'w mem_scheme \<Rightarrow> int option" where
  "rcu_search k b s = run_alone (u_search_step s) u_answer (u_init k b)"

lemma rcu_search_loop:
  assumes "chain (nxts s) (u_cur r) ys NULL" and "sorted_wrt (<) (map (keyof s) ys)"
    and "u_pc r = (if ys = [] then U_unlock 0 else U_key)"
  shows "run_alone (u_search_step s) u_answer r = Some (if u_key r \<in> keys_of s ys then 1 else 0)"
  using assms
proof (induction ys arbitrary: r)
  case Nil
  then show ?case
    by (simp add: run_alone_step run_alone_ret u_answer_def u_search_step_def)
next
  case (Cons y ys)
  then have y: "u_cur r = y" "y \<noteq> NULL" and c: "chain (nxts s) (nxt (node s y)) ys NULL" by auto
  have gt: "\<forall>x\<in>set ys. keyof s y < keyof s x" using Cons.prems(2) by simp
  have r: "run_alone (u_search_step s) u_answer r = run_alone (u_search_step s) u_answer (u_search_step s r)"
    using Cons.prems(3) by (simp add: run_alone_step u_answer_def)
  show ?case
  proof (cases "u_key r \<le> keyof s y")
    case True
    have "u_key r \<notin> keys_of s ys" using gt True by (auto simp: keys_of_def)
    then show ?thesis unfolding r using True y Cons.prems(3)
      by (auto simp: run_alone_step run_alone_ret u_answer_def u_search_step_def mem_simps)
  next
    case False
    have n: "nxt (node s y) = NULL \<longleftrightarrow> ys = []" using c by (cases ys) auto
    have "run_alone (u_search_step s) u_answer (u_search_step s r) =
        run_alone (u_search_step s) u_answer (u_search_step s (u_search_step s r))"
      using False y Cons.prems(3) by (simp add: run_alone_step u_answer_def u_search_step_def mem_simps)
    moreover have e: "u_search_step s (u_search_step s r) =
        r\<lparr>u_cur := nxt (node s y), u_pc := (if ys = [] then U_unlock 0 else U_key)\<rparr>"
      using False y Cons.prems(3) n by (simp add: u_search_step_def mem_simps)
    ultimately show ?thesis unfolding r
      using Cons.IH [of "r\<lparr>u_cur := nxt (node s y), u_pc := (if ys = [] then U_unlock 0 else U_key)\<rparr>"]
        c False Cons.prems(2) by simp
  qed
qed

lemma rcu_search_law:
  assumes B: "buckets s L"
  shows "rcu_search k b s = Some (if k \<in> bucket_keys s b then 1 else 0)"
proof -
  let ?r = "u_search_step s ((u_init k b)\<lparr>u_pc := U_head\<rparr>)"
  have r: "rcu_search k b s = run_alone (u_search_step s) u_answer ?r"
    by (simp add: rcu_search_def run_alone_step u_answer_def u_search_step_def u_init_def)
  note ch = buckets_chain [OF B, of b]
  have "heads s b = NULL \<longleftrightarrow> L b = []" using ch by (cases "L b") auto
  then show ?thesis unfolding r bucket_keys_eq [OF B]
    using rcu_search_loop [of s ?r "L b"] ch buckets_sorted [OF B, of b]
    by (simp add: u_search_step_def u_init_def)
qed

text \<open>Undisturbed every search answers with the membership of the key.\<close>

definition in_order :: "'w mem_scheme \<Rightarrow> bool" where
  "in_order s \<longleftrightarrow> (\<exists>L. buckets s L)"

definition aligned :: "'w mem_scheme \<Rightarrow> bool" where
  "aligned s \<longleftrightarrow> (\<exists>L. buckets s L \<and> (\<forall>p\<in>linked L. even p))"

interpretation gecos_reads: table_search "pure_search (gecos_search v)" in_order bucket_keys for v
  by unfold_locales (auto simp: pure_search_def in_order_def gecos_search_law)

interpretation sg_reads: table_search "pure_search sg_search" in_order bucket_keys
  by unfold_locales (auto simp: pure_search_def in_order_def sg_search_law)

interpretation rcu_reads: table_search "pure_search rcu_search" in_order bucket_keys
  by unfold_locales (auto simp: pure_search_def in_order_def rcu_search_law)

interpretation hp_reads: table_search "hp_search t" aligned bucket_keys for t
proof unfold_locales
  fix s :: "'w hp_scheme" and k b
  assume "aligned s"
  then obtain L where B: "buckets s L" and e: "\<forall>p\<in>linked L. even p" by (auto simp: aligned_def)
  have "\<forall>y\<in>set (L b). even y" using e linkedI [of _ L b] by blast
  then obtain g where "hp_search t k b s = Some (if k \<in> keys_of s (L b) then 1 else 0, s\<lparr>HP := g\<rparr>)"
    using hp_search_loop_spec [OF buckets_chain [OF B, of b], of "Head b" 0 k b "t * HP_K"]
      buckets_sorted [OF B, of b] by (auto simp: hp_search_def)
  moreover have B': "buckets (s\<lparr>HP := g\<rparr>) L" for g using B by (simp add: buckets_def)
  moreover have "bucket_keys (s\<lparr>HP := g\<rparr>) = bucket_keys s" for g
    using bucket_keys_eq [OF B] bucket_keys_eq [OF B', of g] by (simp add: fun_eq_iff keys_of_def)
  ultimately show "\<exists>s'. hp_search t k b s = Some (if k \<in> bucket_keys s b then 1 else 0, s') \<and>
      aligned s' \<and> bucket_keys s' = bucket_keys s"
    using e by (auto simp: aligned_def bucket_keys_eq [OF B])
qed

text \<open>The lists whose deletion bumps and frees at once, with all three operations.\<close>

lemma list_ok_in_order: "list_ok rinv lf s \<Longrightarrow> in_order s"
  by (auto simp: list_ok_def in_order_def writer_ok_def)

interpretation gecos_build: build init_new_node free_node_later alloc_ok none_wlock none_wunlock
    "\<lambda>_. True" "pure_search (gecos_search v)" for v
proof unfold_locales
  fix t :: "'w alloc_scheme" and k b
  assume ok: "list_ok alloc_ok (\<lambda>_. True) t"
  then obtain L where "buckets t L" using list_ok_in_order in_order_def by metis
  then show "\<exists>t'. pure_search (gecos_search v) k b t = Some (if k \<in> bucket_keys t b then 1 else 0, t') \<and>
      list_ok alloc_ok (\<lambda>_. True) t' \<and> bucket_keys t' = bucket_keys t \<and> pool t' = pool t"
    using gecos_search_law [of t L v k b] ok by (simp add: pure_search_def)
qed (auto simp: free_node_later_def bind_eq_Some_iff dest!: free_node_pool step_pool)

interpretation osa_build: build init_new_node osa_free_node_later osa_inv none_wlock none_wunlock
    "\<lambda>_. True" "pure_search (gecos_search v)" for v
proof unfold_locales
  fix t :: "'w osa_scheme" and k b
  assume ok: "list_ok osa_inv (\<lambda>_. True) t"
  then obtain L where "buckets t L" using list_ok_in_order in_order_def by metis
  then show "\<exists>t'. pure_search (gecos_search v) k b t = Some (if k \<in> bucket_keys t b then 1 else 0, t') \<and>
      list_ok osa_inv (\<lambda>_. True) t' \<and> bucket_keys t' = bucket_keys t \<and> pool t' = pool t"
    using gecos_search_law [of t L v k b] ok by (simp add: pure_search_def)
qed (auto simp: osa_free_node_later_def bind_eq_Some_iff split: if_splits dest!: free_node_pool step_pool)

end
