(* ===== verification/Hash_Table_Properties.thy ===== *)
theory Hash_Table_Properties imports Builds begin

text \<open>
  The properties of the benchmark driver linked with its lists: the configuration, the
  filling and emptying of the table, what a reader and an updater return with, and the
  order in which \<open>test\<close> starts and stops the threads.
\<close>

section \<open>Configuration and buckets\<close>

text \<open>
  C34 (\<open>setup_test\<close>): a configuration is accepted exactly when there are four
  arguments and more threads than updaters; then there is a reader and a bucket,
  the readers and updaters make up the threads, and the number of keys is the
  product of buckets and nodes per bucket, reduced to 64 bits.
\<close>

theorem setup_test_spec:
  "(setup_test strtoul argv = None \<longleftrightarrow> length argv < 5 \<or> strtoul (argv ! 1) \<le> strtoul (argv ! 2)) \<and>
   (\<forall>cf. setup_test strtoul argv = Some cf \<longrightarrow>
     0 < nbreaders cf \<and> uint (nbreaders cf) + uint (nbupdaters cf) = uint (nbthreads cf) \<and>
     nbbuckets cf \<noteq> 0 \<and> nbkeys cf = pbnodes cf * nbbuckets cf)"
proof -
  have "0 < a - b \<and> uint (a - b) + uint b = uint a" if "b < a" for a b :: u64
  proof -
    have "uint b < uint a" using that by (simp add: word_less_def)
    moreover have "uint (a - b) = uint a - uint b" using that by (simp add: uint_minus_simple_alt [THEN iffD1])
    ultimately show ?thesis by (simp add: word_less_def)
  qed
  then show ?thesis by (auto simp: setup_test_def Let_def not_le)
qed

lemma setup_test_spec_witness:
  "0 < nbreaders (the (setup_test (\<lambda>a. if a = ''4'' then 4 else 1) [''gecos'', ''4'', ''1'', ''1'', ''1'']))"
proof -
  have "\<exists>cf. setup_test (\<lambda>a. if a = ''4'' then 4 else 1) [''gecos'', ''4'', ''1'', ''1'', ''1''] = Some cf"
    by (simp add: setup_test_def Let_def word_le_def)
  then show ?thesis
    using setup_test_spec [of "\<lambda>a. if a = ''4'' then 4 else 1" "[''gecos'', ''4'', ''1'', ''1'', ''1'']"]
    by auto
qed

text \<open>
  (\<open>get_buckets\<close>): for a key of the benchmark, which is not negative, the
  index into \<open>heads\<close> and \<open>locks\<close> is the remainder by the number of buckets, and
  so within bounds, whatever the number of buckets.
\<close>

theorem bucket_in_range:
  assumes "0 \<le> k" "k < 2 ^ 31" "nbbuckets cf \<noteq> 0"
  shows "get_buckets cf k = k mod uint (nbbuckets cf) \<and>
    0 \<le> get_buckets cf k \<and> get_buckets cf k < uint (nbbuckets cf)"
proof -
  have b: "0 < uint (nbbuckets cf)" using assms(3) by (simp add: word_neq_0_conv word_less_def)
  define m where "m = k mod uint (nbbuckets cf)"
  have m: "0 \<le> m" "m < uint (nbbuckets cf)" "m \<le> k" unfolding m_def using assms(1) b
    by (simp_all add: zmod_le_nonneg_dividend)
  have "uint (word_of_int k :: u64) = k" using assms(1,2) by (simp add: uint_word_of_int mod_pos_pos_trivial)
  then have u: "uint ((word_of_int k :: u64) mod nbbuckets cf) = m" by (simp add: uint_mod m_def)
  have "get_buckets cf k = sint (word_of_int m :: u32)"
    unfolding get_buckets_def u [symmetric] ucast_eq [symmetric] ..
  also have "\<dots> = m"
    using m(1,3) assms(2) signed_take_bit_int_eq_self [of 31 m] by (simp add: sint_sbintrunc')
  finally show ?thesis using m m_def by simp
qed

section \<open>Filling and emptying\<close>

text \<open>
  C27 (\<open>hash_init\<close>): with fewer than \<open>2 ^ 31\<close> buckets and keys, both arrays and
  memory for all keys, and locks that are free as \<open>lock_init\<close> leaves them, populating
  the table succeeds; the table then holds exactly the keys from 0 to \<open>nbkeys - 1\<close>,
  each in its own bucket.  The hypothesis on the insertion is proved for every list:
  \<open>gecos_insert\<close>, \<open>osa_insert\<close>, \<open>sg_insert\<close>, \<open>hp_insert\<close>, \<open>rcu_insert\<close>, \<open>rc_build\<close> and,
  for every lock, \<open>lk_insert_build\<close>.  From \<open>2 ^ 31\<close> buckets or keys on the int
  counter overflows, and without one of the arrays the call crashes.
\<close>

theorem hash_init_fills:
  assumes "table_insert ins ok bucket_keys room"
    and "ok (s\<lparr>heads := (\<lambda>_. NULL), locks := (\<lambda>_. lock_init)\<rparr>)"
    and "unat (nbkeys cf) \<le> room s" and "nbbuckets cf \<noteq> 0" "nbkeys cf \<noteq> 0"
  shows "if nbbuckets cf < 2 ^ 31 \<and> nbkeys cf < 2 ^ 31 \<and> mem_heads \<and> mem_locks
    then \<exists>s'. hash_init mem_heads mem_locks True cf lock_init ins s = Some s' \<and>
      sorted_out ok bucket_keys cf s' \<and> table bucket_keys cf s' = {0..<uint (nbkeys cf)}
    else hash_init mem_heads mem_locks True cf lock_init ins s = None"
proof (cases "nbbuckets cf < 2 ^ 31 \<and> nbkeys cf < 2 ^ 31 \<and> mem_heads \<and> mem_locks")
  case True
  let ?s = "s\<lparr>heads := (\<lambda>_. NULL), locks := (\<lambda>_. lock_init)\<rparr>"
  have B: "buckets ?s (\<lambda>_. [])" by (simp add: buckets_def)
  have so: "sorted_out ok bucket_keys cf ?s"
    using bucket_keys_eq [OF B] assms(2) by (auto simp: sorted_out_def)
  have t: "table bucket_keys cf ?s = {}" using bucket_keys_eq [OF B] by (simp add: table_def)
  let ?ks = "map int [0..<unat (nbkeys cf)]"
  have "length ?ks \<le> room ?s" using assms(3) by (simp add: room_def)
  from table_insert.for_keys_ins [OF assms(1) so this]
  obtain s' where s': "for_keys cf ins ?ks ?s = Some s'"
    "sorted_out ok bucket_keys cf s'" "table bucket_keys cf s' = set ?ks"
    unfolding t by auto
  have "set ?ks = {0..<uint (nbkeys cf)}" by (simp add: image_int_atLeastLessThan)
  then have "\<exists>s'. hash_init mem_heads mem_locks True cf lock_init ins s = Some s' \<and>
      sorted_out ok bucket_keys cf s' \<and> table bucket_keys cf s' = {0..<uint (nbkeys cf)}"
    using s' True by (auto simp: hash_init_def all_keys_def)
  then show ?thesis using True by (simp only: if_True simp_thms)
next
  case False
  then show ?thesis using assms(4,5) by (subst if_not_P) (auto simp: hash_init_def all_keys_def)
qed

text \<open>
  (\<open>hash_delete\<close>): emptying a table that only holds the benchmark's keys
  leaves every bucket empty.
\<close>

theorem hash_delete_empties:
  assumes "build init fr rinv wl wu lf search" and "sorted_out (list_ok rinv lf) bucket_keys cf s"
    and "table bucket_keys cf s \<subseteq> {0..<uint (nbkeys cf)}" "nbkeys cf < 2 ^ 31"
  shows "\<exists>s'. hash_delete cf (delete wl wu gclock fr) s = Some s' \<and> list_ok rinv lf s' \<and>
    (\<forall>b. bucket_keys s' b = {})"
proof -
  let ?ks = "map int [0..<unat (nbkeys cf)]"
  obtain s' where s': "for_keys cf (delete wl wu gclock fr) ?ks s = Some s'"
    "sorted_out (list_ok rinv lf) bucket_keys cf s'" "table bucket_keys cf s' = table bucket_keys cf s - set ?ks"
    using list_ops.for_keys_del [OF build.build_list_ops [OF assms(1)] assms(2)] by blast
  have "set ?ks = {0..<uint (nbkeys cf)}" by (simp add: image_int_atLeastLessThan)
  then have "(\<Union>b. bucket_keys s' b) = {}"
    using s'(3) assms(3) table_union [OF s'(2)] by auto
  then have "bucket_keys s' b = {}" for b by auto
  then show ?thesis using s'(1,2) assms(4) by (auto simp: hash_delete_def all_keys_def sorted_out_def)
qed

section \<open>The threads\<close>

text \<open>
  C29 (\<open>run\<close>, a reader): undisturbed and with at least one key, a reader makes
  \<open>NB_TEST + 1\<close> searches, one for each key it draws from its seed, and records
  \<open>NB_TEST\<close>, the number of its last round, as its operations.  What it counts are
  the searches for keys that are in the table, all of them on a full one; the table
  is unchanged.  The hypothesis on the search is proved for every list:
  \<open>gecos_reads\<close> (all versions), \<open>sg_reads\<close>, \<open>rcu_reads\<close>, \<open>hp_reads\<close>, \<open>rc_build\<close>, and
  \<open>lk_build\<close> (every lock readers take) and \<open>opt_build\<close> (every lock they validate).  Without keys
  the first round divides by zero.
\<close>

theorem reader_run:
  assumes "table_search search ok bucket_keys" and "ok s"
    and "nbupdaters cf \<le> t" "nbkeys cf \<noteq> 0"
  shows "\<exists>n s'. run cf search ins del fin t time s =
      Some (NB_TEST, snd (draws cf (unat NB_TEST + 1) (mysrand (xor (ucast t) time))), n, s') \<and>
    ok s' \<and> bucket_keys s' = bucket_keys s \<and> thd_ins n = 0 \<and> thd_del n = 0 \<and>
    thd_sea n = int (length (filter (\<lambda>k. k \<in> table bucket_keys cf s)
      (fst (draws cf (unat NB_TEST + 1) (mysrand (xor (ucast t) time)))))) \<and>
    ({0..<uint (nbkeys cf)} \<subseteq> table bucket_keys cf s \<longrightarrow> thd_sea n = uint NB_TEST + 1)"
proof -
  let ?n = "\<lparr>thd_ins = 0, thd_del = 0, thd_sea = 0\<rparr>" and ?seed = "mysrand (xor (ucast t) time)"
  have i: "(0 :: u64) \<le> NB_TEST" by simp
  have r: "(nbupdaters cf \<le> t) = True" using assms(3) by simp
  have m: "Suc (unat (NB_TEST - 0)) = unat NB_TEST + 1" by simp
  have full: "int (length (filter (\<lambda>k. k \<in> table bucket_keys cf s) (fst (draws cf (unat NB_TEST + 1) ?seed)))) =
      uint NB_TEST + 1" if "{0..<uint (nbkeys cf)} \<subseteq> table bucket_keys cf s"
  proof -
    have "filter (\<lambda>k. k \<in> table bucket_keys cf s) (fst (draws cf (unat NB_TEST + 1) ?seed)) =
        fst (draws cf (unat NB_TEST + 1) ?seed)"
      using that draws_keys [OF assms(4)] by (subst filter_id_conv) blast
    then show ?thesis by (simp only: draws_length) simp
  qed
  show ?thesis
    using table_search.run_reader [OF assms(1,2) i assms(4), of ins del fin ?seed ?n] full
    unfolding run_def r m by (simp only: counts.select_convs add_0) metis
qed

text \<open>
  C30 (\<open>run\<close>, an updater): alone on a table in order, with at least one key and
  memory for its insertions, an updater returns in the first round in which it sees \<open>done\<close>.  Its
  counters account for the number of keys in the table, and no key from 32768 on,
  which \<open>myrand\<close> never draws, has come or gone.
\<close>

theorem updater_run:
  assumes "build init fr rinv wl wu lf search" and "sorted_out (list_ok rinv lf) bucket_keys cf s"
    and "finite (table bucket_keys cf s)" and "t < nbupdaters cf" "nbkeys cf \<noteq> 0"
    and "fin j" "\<forall>x<j. \<not> fin x" "unat j < room s"
  shows "\<exists>seed n s'. run cf search (insert_w wl wu init) (delete wl wu gclock fr) fin t time s =
      Some (j, seed, n, s') \<and>
    sorted_out (list_ok rinv lf) bucket_keys cf s' \<and> thd_sea n = 0 \<and>
    int (card (table bucket_keys cf s')) = int (card (table bucket_keys cf s)) + thd_ins n - thd_del n \<and>
    table bucket_keys cf s' - {0..<32768} = table bucket_keys cf s - {0..<32768}"
proof -
  let ?n = "\<lparr>thd_ins = 0, thd_del = 0, thd_sea = 0\<rparr>"
  note B = build.build_list_ops [OF assms(1)]
  have r: "(nbupdaters cf \<le> t) = False" using assms(4) by simp
  have "\<exists>seed n s'. run_loop cf search (insert_w wl wu init) (delete wl wu gclock fr) fin False 0
      (mysrand (xor (ucast t) time)) ?n s = Some (j, seed, n, s') \<and>
    list_ops.accounts (list_ok rinv lf) bucket_keys cf ?n s n s'"
    by (rule list_ops.run_updater [OF B assms(2,3,5)]) (use assms(6-8) in auto)
  then show ?thesis unfolding run_def r list_ops.accounts_def [OF B] by (simp, metis)
qed

section \<open>Stopping the updaters\<close>

lemma joins_set: "Join t \<in> set (joins nu i) \<longleftrightarrow> t < i" "i \<le> nu \<Longrightarrow> Set_done \<notin> set (joins nu i)"
  by (induction i) auto

lemma joins_split:
  "nu < i \<Longrightarrow> \<exists>us. joins nu i = us @ Set_done # joins nu nu \<and>
     (\<forall>t. Join t \<in> set us \<longleftrightarrow> nu \<le> t \<and> t < i) \<and> Set_done \<notin> set us"
proof (induction i)
  case 0
  then show ?case by simp
next
  case (Suc i)
  show ?case
  proof (cases "i = nu")
    case True
    then show ?thesis by (intro exI [of _ "[Join i]"]) auto
  next
    case False
    then have "nu < i" using Suc.prems by simp
    from Suc.IH [OF this] obtain us where us: "joins nu i = us @ Set_done # joins nu nu"
      "\<forall>t. Join t \<in> set us \<longleftrightarrow> nu \<le> t \<and> t < i" "Set_done \<notin> set us"
      by (elim exE conjE)
    have "joins nu (Suc i) = (Join i # us) @ Set_done # joins nu nu" using False unfolding joins.simps(2) us(1) by simp
    moreover have "\<forall>t. Join t \<in> set (Join i # us) \<longleftrightarrow> nu \<le> t \<and> t < Suc i"
    proof
      fix t
      have "nu \<le> i" using Suc.prems by simp
      then show "Join t \<in> set (Join i # us) \<longleftrightarrow> nu \<le> t \<and> t < Suc i"
        using us(2) [rule_format, of t] by (cases "t = i") auto
    qed
    moreover have "Set_done \<notin> set (Join i # us)" using us(3) by simp
    ultimately show ?thesis by blast
  qed
qed

text \<open>
  (\<open>test\<close>): with a configuration \<open>setup_test\<close> accepts, \<open>done\<close> is set exactly once:
  after every thread is created and every reader joined, and before any updater
  is joined, so no join waits for an updater that was not told to stop.
\<close>

theorem done_before_updaters_join:
  assumes "nbupdaters cf < nbthreads cf"
  shows "\<exists>us vs. test_events cf = us @ Set_done # vs \<and> Set_done \<notin> set us \<and> Set_done \<notin> set vs \<and>
    (\<forall>t. Create t \<in> set us \<longleftrightarrow> t < unat (nbthreads cf)) \<and>
    (\<forall>t. Join t \<in> set us \<longleftrightarrow> unat (nbupdaters cf) \<le> t \<and> t < unat (nbthreads cf)) \<and>
    (\<forall>t. Join t \<in> set vs \<longleftrightarrow> t < unat (nbupdaters cf))"
proof -
  have "unat (nbupdaters cf) < unat (nbthreads cf)" using assms by (simp add: word_less_nat_alt)
  from joins_split [OF this] obtain us where us: "joins (unat (nbupdaters cf)) (unat (nbthreads cf)) =
      us @ Set_done # joins (unat (nbupdaters cf)) (unat (nbupdaters cf))"
    "\<forall>t. Join t \<in> set us \<longleftrightarrow> unat (nbupdaters cf) \<le> t \<and> t < unat (nbthreads cf)" "Set_done \<notin> set us"
    by blast
  have c: "Create t \<notin> set (joins n i)" for t n i by (induction i) auto
  have "Create t \<notin> set us" for t
    using c [of t "unat (nbupdaters cf)" "unat (nbthreads cf)"] unfolding us(1) by simp
  then show ?thesis using us joins_set
    by (rule_tac exI [of _ "map Create [0..<unat (nbthreads cf)] @ [Await_ready, Set_go] @ us"],
        rule_tac exI [of _ "joins (unat (nbupdaters cf)) (unat (nbupdaters cf))"])
      (simp add: test_events_def image_iff)
qed

section \<open>Witnesses\<close>

definition demo_conf :: conf where
  "demo_conf = \<lparr>nbthreads = 3, nbupdaters = 1, nbreaders = 2, nbbuckets = 2, pbnodes = 1, nbkeys = 2\<rparr>"

lemma bucket_in_range_witness: "get_buckets demo_conf 1 = 1 mod 2 \<and> get_buckets demo_conf 1 < 2"
  using bucket_in_range [of 1 demo_conf] by (simp add: demo_conf_def)

lemma demo_ok: "list_ok alloc_ok (\<lambda>l. l = 0) (lk_mem [64])"
  "sorted_out (list_ok alloc_ok (\<lambda>l. l = 0)) bucket_keys demo_conf (lk_mem [64])"
  "table bucket_keys demo_conf (lk_mem [64]) = {}"
proof -
  show l: "list_ok alloc_ok (\<lambda>l. l = 0) (lk_mem [64])"
    unfolding list_ok_def writer_ok_def using lk_mem_ok by blast
  have "bucket_keys (lk_mem [64]) b = {}" for b
    using bucket_keys_eq [OF lk_mem_ok(1)] by (simp add: keys_of_def)
  then show "sorted_out (list_ok alloc_ok (\<lambda>l. l = 0)) bucket_keys demo_conf (lk_mem [64])"
    "table bucket_keys demo_conf (lk_mem [64]) = {}" using l by (simp_all add: sorted_out_def table_def)
qed

lemma spin_table_insert: "table_insert (insert_w spin_lock spin_unlock lk_init_new_node)
    (list_ok alloc_ok (\<lambda>l. l = 0)) bucket_keys room"
  by (rule spin_build.table_insert_axioms)

lemma hash_init_fills_witness:
  "(\<exists>s'. hash_init True True True demo_conf 0 (insert_w spin_lock spin_unlock lk_init_new_node) (lk_mem [64, 128]) = Some s' \<and>
     table bucket_keys demo_conf s' = {0, 1}) \<and>
   (\<exists>s'. hash_init True True True demo_conf 0 sg_insert (lk_mem [64, 128]) = Some s' \<and>
     table bucket_keys demo_conf s' = {0, 1})"
proof -
  let ?s = "(lk_mem [64, 128])\<lparr>heads := (\<lambda>_. NULL), locks := (\<lambda>_. 0)\<rparr>"
  have "alloc_inv (lk_mem [64, 128]) {} [] []"
    by (simp add: alloc_inv_def lk_mem_def init_allocator_def prealloc_def)
  then have ok: "alloc_ok (lk_mem [64, 128]) {}" by (rule alloc_okI)
  have "list_ok alloc_ok (\<lambda>l. l = 0) ?s" by (rule spin_build.list_ok_start [OF ok]) simp
  note spin = hash_init_fills [OF spin_table_insert this, of demo_conf True True]
  have "list_ok alloc_ok (\<lambda>_. True) ?s" by (rule gecos_insert.list_ok_start [OF ok]) simp
  note sg = hash_init_fills [OF sg_insert.table_insert_axioms this, of demo_conf True True]
  have c: "nbbuckets demo_conf < 2 ^ 31" "nbkeys demo_conf < 2 ^ 31" "nbbuckets demo_conf \<noteq> 0"
    "nbkeys demo_conf \<noteq> 0" "unat (nbkeys demo_conf) \<le> room (lk_mem [64, 128])"
    "{0..<uint (nbkeys demo_conf)} = {0, 1}"
    by (auto simp: demo_conf_def word_less_def room_def lk_mem_def init_allocator_def prealloc_def)
  show ?thesis using spin [OF c(5,3,4)] sg [OF c(5,3,4)] c(1,2,6) by auto
qed

lemma hash_delete_empties_witness:
  "\<exists>s'. hash_delete demo_conf (delete spin_lock spin_unlock False lk_free_node_later) (lk_mem [64]) = Some s' \<and>
     bucket_keys s' 0 = {}"
proof -
  have "nbkeys demo_conf < 2 ^ 31" by (simp add: demo_conf_def word_less_def)
  from hash_delete_empties [OF spin_build.build_axioms demo_ok(2) _ this, of False] demo_ok(3)
  show ?thesis by blast
qed

lemma reader_run_witness:
  "\<exists>seed n s'. run demo_conf (pure_search (gecos_search GECOS_R))
     (insert_w none_wlock none_wunlock init_new_node) (delete none_wlock none_wunlock False free_node_later)
     (\<lambda>_. False) 1 42 (lk_mem [64]) = Some (NB_TEST, seed, n, s') \<and> thd_sea n = 0"
proof -
  have "in_order (lk_mem [64])" using lk_mem_ok(1) by (auto simp: in_order_def)
  from reader_run [OF gecos_reads.table_search_axioms this, of demo_conf 1 GECOS_R
      "insert_w none_wlock none_wunlock init_new_node" "delete none_wlock none_wunlock False free_node_later"
      "\<lambda>_. False" 42] demo_ok(3)
  show ?thesis by (auto simp: demo_conf_def)
qed

lemma updater_run_witness:
  "\<exists>seed n s'. run demo_conf (lk_search spin_lock spin_unlock) (insert_w spin_lock spin_unlock lk_init_new_node)
     (delete spin_lock spin_unlock False lk_free_node_later) (\<lambda>i. i = 0) 0 42 (lk_mem [64]) =
     Some (0, seed, n, s') \<and> int (card (table bucket_keys demo_conf s')) = thd_ins n - thd_del n"
  using updater_run [OF spin_build.build_axioms demo_ok(2), of 0 "\<lambda>i. i = 0" 0 False 42] demo_ok(3)
  by (auto simp: demo_conf_def room_def lk_mem_def init_allocator_def prealloc_def)

lemma done_before_updaters_join_witness:
  "\<exists>us vs. test_events demo_conf = us @ Set_done # vs \<and> Join 2 \<in> set us \<and> Join 1 \<in> set us \<and> Join 0 \<in> set vs"
proof -
  have "nbupdaters demo_conf < nbthreads demo_conf" by (simp add: demo_conf_def word_less_def)
  from done_before_updaters_join [OF this]
  obtain us vs where "test_events demo_conf = us @ Set_done # vs"
    "\<forall>t. Join t \<in> set us \<longleftrightarrow> unat (nbupdaters demo_conf) \<le> t \<and> t < unat (nbthreads demo_conf)"
    "\<forall>t. Join t \<in> set vs \<longleftrightarrow> t < unat (nbupdaters demo_conf)" by blast
  moreover have "unat (nbupdaters demo_conf) = 1" "unat (nbthreads demo_conf) = 3" by (simp_all add: demo_conf_def)
  ultimately show ?thesis by (intro exI [of _ us] exI [of _ vs]) simp
qed

end
