(* ===== verification/Statistics.thy ===== *)
theory Statistics imports Hash_Table begin

text \<open>
  The statistics of the driver: \<open>get_sum\<close> to \<open>get_cpu_work\<close> of \<open>util.h\<close>, what \<open>run\<close>
  records of a thread, what \<open>test\<close> makes of it and what \<open>main\<close> prints (\<open>mrow.c\<close>).
  Arrays of doubles are functions from indices; pointer arithmetic shifts the index.
\<close>

section \<open>Doubles\<close>

text \<open>
  The arithmetic of \<open>double\<close> is that of the machine: a record of operations.  \<open>fp_int\<close>
  converts an integer.
\<close>

record 'd fp =
  fp_int :: "int \<Rightarrow> 'd"
  fp_add :: "'d \<Rightarrow> 'd \<Rightarrow> 'd"
  fp_sub :: "'d \<Rightarrow> 'd \<Rightarrow> 'd"
  fp_div :: "'d \<Rightarrow> 'd \<Rightarrow> 'd"
  fp_lt :: "'d \<Rightarrow> 'd \<Rightarrow> bool"
  DBL_MAX :: 'd

section \<open>\<open>util.h\<close>\<close>

definition get_sum :: "'d fp \<Rightarrow> (nat \<Rightarrow> 'd) \<Rightarrow> int \<Rightarrow> 'd" where
  "get_sum F data samples = fold (\<lambda>i sum. fp_add F sum (data i)) [0..<nat samples] (fp_int F 0)"

definition get_avg :: "'d fp \<Rightarrow> (nat \<Rightarrow> 'd) \<Rightarrow> int \<Rightarrow> 'd" where
  "get_avg F data samples =
     (let sum = fold (\<lambda>i sum. fp_add F sum (data i)) [0..<nat samples] (fp_int F 0)
      in fp_div F sum (fp_int F samples))"

definition get_max :: "'d fp \<Rightarrow> (nat \<Rightarrow> 'd) \<Rightarrow> int \<Rightarrow> 'd" where
  "get_max F data samples =
     fold (\<lambda>i max. if fp_lt F max (data i) then data i else max) [0..<nat samples] (fp_int F 0)"

definition get_min :: "'d fp \<Rightarrow> (nat \<Rightarrow> 'd) \<Rightarrow> int \<Rightarrow> 'd" where
  "get_min F data samples =
     fold (\<lambda>i min. if fp_lt F (data i) min then data i else min) [0..<nat samples] (DBL_MAX F)"

definition get_cpw :: "'d fp \<Rightarrow> (nat \<Rightarrow> 'd) \<Rightarrow> int \<Rightarrow> int \<Rightarrow> 'd" where
  "get_cpw F data samples d =
     (let sum = fold (\<lambda>i sum. fp_add F sum (data i)) [0..<nat samples] (fp_int F 0);
          sum = fp_div F sum (fp_int F samples)
      in fp_div F sum (fp_int F d))"

definition get_cpu_work :: "'d fp \<Rightarrow> (nat \<Rightarrow> 'd) \<Rightarrow> int \<Rightarrow> int \<Rightarrow> 'd" where
  "get_cpu_work F data samples mtc =
     (let sum = fold (\<lambda>i sum. fp_add F sum (data i)) [0..<nat samples] (fp_int F 0)
      in fp_div F sum (fp_int F (samples + (samples - mtc))))"

section \<open>What a thread records\<close>

text \<open>The thread-local counters besides those of \<open>counts\<close>.\<close>

record 'd thread_vars =
  v_nbmallocs :: 'd
  v_nbretry :: int
  v_nbrelink :: int
  v_nbreprev :: int
  v_nbblockeds :: 'd

record 'd thread_stats =
  thd_ops :: 'd
  thd_mallocs :: 'd
  thd_retry :: 'd
  thd_relink :: 'd
  thd_reprev :: 'd
  thd_blockeds :: 'd
  avg_time :: 'd
  thd_time :: 'd
  suc_ins :: 'd
  suc_sea :: 'd
  suc_del :: 'd

text \<open>The end of \<open>run\<close>; \<open>rcu\<close> is \<open>rcublockeds\<close> in a build with \<open>RCU\<close>.\<close>

definition record_thread ::
    "'d fp \<Rightarrow> int option \<Rightarrow> 'd \<Rightarrow> 'd \<Rightarrow> u64 \<Rightarrow> counts \<Rightarrow> 'd thread_vars \<Rightarrow> 'd thread_stats" where
  "record_thread F rcu start stop i n v =
     \<lparr>thd_ops = fp_int F (uint i), thd_mallocs = v_nbmallocs v, thd_retry = fp_int F (v_nbretry v),
      thd_relink = fp_int F (v_nbrelink v), thd_reprev = fp_int F (v_nbreprev v),
      thd_blockeds = (case rcu of Some b \<Rightarrow> fp_int F b | None \<Rightarrow> v_nbblockeds v),
      avg_time = fp_div F (fp_sub F stop start) (fp_int F (uint i)), thd_time = fp_sub F stop start,
      suc_ins = fp_int F (thd_ins n), suc_sea = fp_int F (thd_sea n), suc_del = fp_int F (thd_del n)\<rparr>"

text \<open>\<open>run\<close> as a whole: \<open>stamp\<close> are the two times \<open>d_gettimeofday\<close> returns.\<close>

definition run_thread ::
    "'d fp \<Rightarrow> int option \<Rightarrow> 'd \<times> 'd \<Rightarrow> 'd thread_vars \<Rightarrow> conf \<Rightarrow> 's list_op \<Rightarrow> 's list_op \<Rightarrow> 's list_op \<Rightarrow>
     (u64 \<Rightarrow> bool) \<Rightarrow> u64 \<Rightarrow> u32 \<Rightarrow> 's \<Rightarrow> ('d thread_stats \<times> 's) option" where
  "run_thread F rcu stamp v cf search ins del finished t time s =
     map_option (\<lambda>(i, seed, n, s). (record_thread F rcu (fst stamp) (snd stamp) i n v, s))
       (run cf search ins del finished t time s)"

section \<open>What \<open>test\<close> computes\<close>

record 'd run_stats =
  run_avg_rd :: 'd
  run_avg_wr :: 'd
  run_max_rd :: 'd
  run_max_wr :: 'd
  run_min_rd :: 'd
  run_min_wr :: 'd
  run_retry :: 'd
  run_relink :: 'd
  run_reprev :: 'd
  run_cput :: 'd
  run_mallocs :: 'd
  run_blockeds :: 'd
  run_sea :: 'd
  run_del :: 'd
  run_ins :: 'd
  trd_ops :: 'd
  twr_ops :: 'd

text \<open>An \<open>unsigned long\<close> passed as an int.\<close>

definition int_arg :: "u64 \<Rightarrow> int" where
  "int_arg w = sint (ucast w :: u32)"

definition test_stats :: "'d fp \<Rightarrow> conf \<Rightarrow> u32 \<Rightarrow> (nat \<Rightarrow> 'd thread_stats) \<Rightarrow> 'd run_stats" where
  "test_stats F cf nbcores T =
     (let rd = (\<lambda>f i. f (T (unat (nbupdaters cf) + i))); wr = (\<lambda>f i. f (T i));
          nr = int_arg (nbreaders cf); nw = int_arg (nbupdaters cf);
          mtc = (if ucast nbcores < nbreaders cf then ucast nbcores else nbreaders cf);
          time = get_avg F (rd thd_time) nr
      in \<lparr>run_avg_rd = get_avg F (rd avg_time) nr, run_avg_wr = get_avg F (wr avg_time) nw,
          run_max_rd = get_max F (rd avg_time) nr, run_max_wr = get_max F (wr avg_time) nw,
          run_min_rd = get_min F (rd avg_time) nr, run_min_wr = get_min F (wr avg_time) nw,
          run_retry = get_sum F (rd thd_retry) nr, run_relink = get_sum F (rd thd_relink) nr,
          run_reprev = get_sum F (rd thd_reprev) nr,
          run_cput = fp_div F (get_cpu_work F (rd thd_time) nr (int_arg mtc)) (fp_int F (uint NB_TEST)),
          run_mallocs = get_sum F (wr thd_mallocs) nw, run_blockeds = get_sum F (wr thd_blockeds) nw,
          run_sea = get_avg F (rd suc_sea) nr, run_del = get_avg F (wr suc_del) nw,
          run_ins = get_avg F (wr suc_ins) nw,
          trd_ops = fp_div F (get_avg F (rd thd_ops) nr) time,
          twr_ops = fp_div F (get_avg F (wr thd_ops) nw) time\<rparr>)"

section \<open>What \<open>main\<close> prints\<close>

abbreviation ITERATION :: int where "ITERATION \<equiv> 5"

text \<open>
  \<open>R i\<close> are the statistics of iteration \<open>i\<close>, \<open>T\<close> what the threads of the last one
  recorded; a line is its label and the doubles \<open>printf\<close> is given.  How they come out
  is the subject of \<open>print_line\<close>.
\<close>

definition report :: "'d fp \<Rightarrow> conf \<Rightarrow> (nat \<Rightarrow> 'd run_stats) \<Rightarrow> (nat \<Rightarrow> 'd thread_stats) \<Rightarrow> (string \<times> 'd list) list" where
  "report F cf R T =
     (let avg = (\<lambda>f. get_avg F (\<lambda>i. f (R i)) ITERATION); mx = (\<lambda>f. get_max F (\<lambda>i. f (R i)) ITERATION);
          mn = (\<lambda>f. get_min F (\<lambda>i. f (R i)) ITERATION);
          nr = int_arg (nbreaders cf); nw = int_arg (nbupdaters cf);
          rops = avg trd_ops; wops = avg twr_ops;
          rd_ops = get_avg F (\<lambda>i. thd_ops (T (unat (nbupdaters cf) + i))) nr;
          wr_ops = fp_div F (get_avg F (\<lambda>i. thd_ops (T i)) nw) (fp_int F 2)
      in [(''read ops per micsec'', [rops]), (''write ops per micsec'', [wops]),
          (''write/read'', [fp_div F wops rops]),
          (''nbmallocs'', [avg run_mallocs]), (''nbretry'', [avg run_retry]), (''nbrelink'', [avg run_relink]),
          (''nbreprev'', [avg run_reprev]), (''nbblockeds'', [avg run_blockeds]),
          (''sucess_search'', [avg run_sea, rd_ops]), (''sucess_insert'', [avg run_ins, wr_ops]),
          (''sucess_delete'', [avg run_del, wr_ops]),
          (''avg_max_read'', [mx run_avg_rd]), (''avg_avg_read'', [avg run_avg_rd]), (''avg_min_read'', [mn run_avg_rd]),
          (''avg_max_write'', [mx run_avg_wr]), (''avg_avg_write'', [avg run_avg_wr]), (''avg_min_write'', [mn run_avg_wr]),
          (''max_read'', [mx run_max_rd]), (''min_read'', [mn run_min_rd]),
          (''max_write'', [mx run_max_wr]), (''min_write'', [mn run_min_wr])])"

text \<open>\<open>main\<close>: \<open>tests cf i\<close> is what the threads of iteration \<open>i\<close> recorded; \<open>None\<close> is the exit of \<open>setup_test\<close>.\<close>

definition main_report ::
    "'d fp \<Rightarrow> (string \<Rightarrow> u64) \<Rightarrow> u32 \<Rightarrow> (conf \<Rightarrow> nat \<Rightarrow> nat \<Rightarrow> 'd thread_stats) \<Rightarrow> string list \<Rightarrow>
     (conf \<times> (string \<times> 'd list) list) option" where
  "main_report F strtoul nbcores tests argv =
     map_option (\<lambda>cf. (cf, report F cf (\<lambda>i. test_stats F cf nbcores (tests cf i)) (tests cf (nat ITERATION - 1))))
       (setup_test strtoul argv)"

section \<open>The text of a line\<close>

text \<open>
  Every number is printed with the conversion \<open>%g\<close> of C: six significant digits without
  trailing zeros, in scientific notation from a million on.  For natural numbers:
\<close>

fun decimal :: "nat \<Rightarrow> string" where
  "decimal n = (if n < 10 then [''0123456789'' ! n] else decimal (n div 10) @ [''0123456789'' ! (n mod 10)])"

declare decimal.simps [simp del]

definition round_div :: "nat \<Rightarrow> nat \<Rightarrow> nat" where
  "round_div n p = (if p < 2 * (n mod p) \<or> p = 2 * (n mod p) \<and> odd (n div p) then n div p + 1 else n div p)"

definition strip_zeros :: "string \<Rightarrow> string" where
  "strip_zeros s = rev (dropWhile (\<lambda>c. c = CHR ''0'') (rev s))"

definition print_g :: "nat \<Rightarrow> string" where
  "print_g n = (if n < 10 ^ 6 then decimal n
     else let x = length (decimal n) - 1; m = round_div n (10 ^ (x - 5));
            x = (if m = 10 ^ 6 then x + 1 else x); d = decimal m; r = strip_zeros (tl d)
       in [hd d] @ (if r = [] then [] else ''.'' @ r) @ ''e+'' @ (if x < 10 then ''0'' else []) @ decimal x)"

text \<open>What \<open>printf\<close> makes of a line, \<open>g\<close> being the conversion of a double.\<close>

definition print_line :: "('d \<Rightarrow> string) \<Rightarrow> string \<times> 'd list \<Rightarrow> string" where
  "print_line g l = (case l of (label, xs) \<Rightarrow>
     label @ '' = '' @ concat (map (\<lambda>i. (if i = 0 then [] else '' on '') @ g (xs ! i)) [0..<length xs]) @
     (if label \<in> {''avg_max_read'', ''avg_avg_read'', ''avg_min_read'', ''avg_max_write'', ''avg_avg_write'',
        ''avg_min_write'', ''max_read'', ''min_read'', ''max_write'', ''min_write''} then ''us'' else []))"

text \<open>The conversion of a double that is a natural number prints that number.\<close>

definition prints_naturals :: "'d fp \<Rightarrow> ('d \<Rightarrow> string) \<Rightarrow> bool" where
  "prints_naturals F g \<longleftrightarrow> (\<forall>n. n \<le> 2 ^ 53 \<longrightarrow> g (fp_int F (int n)) = print_g n)"

lemma print_millions: "print_g 2000001 = ''2e+06''" "print_g 2000000 = ''2e+06''"
  by (simp_all add: print_g_def decimal.simps round_div_def strip_zeros_def Let_def)

section \<open>What is known of doubles\<close>

text \<open>
  Laws of IEEE 754: numbers are ordered, a comparison with a NaN is false, NaNs
  propagate, and integers up to \<open>2 ^ 53\<close> are exact.
\<close>

locale ieee =
  fixes F :: "'d fp" and nan :: "'d \<Rightarrow> bool"
  assumes lt_num: "fp_lt F x y \<Longrightarrow> \<not> nan x \<and> \<not> nan y"
    and lt_irrefl: "\<not> fp_lt F x x"
    and lt_trans: "fp_lt F x y \<Longrightarrow> fp_lt F y z \<Longrightarrow> fp_lt F x z"
    and not_lt_trans: "\<not> nan y \<Longrightarrow> \<not> fp_lt F x y \<Longrightarrow> \<not> fp_lt F y z \<Longrightarrow> \<not> fp_lt F x z"
    and num_int: "\<bar>k\<bar> \<le> 2 ^ 53 \<Longrightarrow> \<not> nan (fp_int F k)"
    and num_max: "\<not> nan (DBL_MAX F)"
    and nan_add: "nan x \<or> nan y \<Longrightarrow> nan (fp_add F x y)"
    and nan_div: "nan x \<or> nan y \<Longrightarrow> nan (fp_div F x y)"
    and zero_div: "nan (fp_div F (fp_int F 0) (fp_int F 0))"
    and add_int: "0 \<le> j \<Longrightarrow> 0 \<le> k \<Longrightarrow> j + k \<le> 2 ^ 53 \<Longrightarrow> fp_add F (fp_int F j) (fp_int F k) = fp_int F (j + k)"
    and div_int: "0 \<le> j \<Longrightarrow> 0 < k \<Longrightarrow> j * k \<le> 2 ^ 53 \<Longrightarrow> fp_div F (fp_int F (j * k)) (fp_int F k) = fp_int F j"
begin

text \<open>The running maximum and minimum of a loop.\<close>

lemma max_loop:
  assumes "\<not> nan m" and "r = fold (\<lambda>i max. if fp_lt F max (d i) then d i else max) is m"
  shows "\<not> nan r \<and> (r = m \<or> r \<in> d ` set is) \<and> \<not> fp_lt F r m \<and> (\<forall>i\<in>set is. \<not> fp_lt F r (d i))"
  using assms
proof (induction "is" arbitrary: m)
  case Nil
  then show ?case using lt_irrefl by simp
next
  case (Cons i "is")
  let ?m = "if fp_lt F m (d i) then d i else m"
  have m: "\<not> nan ?m" "\<not> fp_lt F ?m m" "\<not> fp_lt F ?m (d i)"
    using Cons.prems(1) lt_num [of m "d i"] lt_irrefl [of m] lt_irrefl [of "d i"] lt_trans [of m "d i" m]
    by (simp_all split: if_split) blast+
  have r: "\<not> nan r" "r = ?m \<or> r \<in> d ` set is" "\<not> fp_lt F r ?m" "\<forall>i\<in>set is. \<not> fp_lt F r (d i)"
    using Cons.IH [OF m(1)] Cons.prems(2) by simp_all
  have "\<not> fp_lt F r m" "\<not> fp_lt F r (d i)" using not_lt_trans [OF m(1) r(3)] m(2,3) by blast+
  then show ?case using r(1,2,4) by (auto split: if_splits)
qed

lemma min_loop:
  assumes "\<not> nan m" and "r = fold (\<lambda>i min. if fp_lt F (d i) min then d i else min) is m"
  shows "\<not> nan r \<and> (r = m \<or> r \<in> d ` set is) \<and> \<not> fp_lt F m r \<and> (\<forall>i\<in>set is. \<not> fp_lt F (d i) r)"
  using assms
proof (induction "is" arbitrary: m)
  case Nil
  then show ?case using lt_irrefl by simp
next
  case (Cons i "is")
  let ?m = "if fp_lt F (d i) m then d i else m"
  have m: "\<not> nan ?m" "\<not> fp_lt F m ?m" "\<not> fp_lt F (d i) ?m"
    using Cons.prems(1) lt_num [of "d i" m] lt_irrefl [of m] lt_irrefl [of "d i"] lt_trans [of m "d i" m]
    by (simp_all split: if_split) blast+
  have r: "\<not> nan r" "r = ?m \<or> r \<in> d ` set is" "\<not> fp_lt F ?m r" "\<forall>i\<in>set is. \<not> fp_lt F (d i) r"
    using Cons.IH [OF m(1)] Cons.prems(2) by simp_all
  have "\<not> fp_lt F m r" "\<not> fp_lt F (d i) r"
    using not_lt_trans [OF m(1) m(2) r(3)] not_lt_trans [OF m(1) m(3) r(3)] by blast+
  then show ?case using r(1,2,4) by (auto split: if_splits)
qed

lemma get_max_props:
  "\<not> nan (get_max F d n)" "get_max F d n = fp_int F 0 \<or> (\<exists>i. int i < n \<and> get_max F d n = d i)"
  "\<not> fp_lt F (get_max F d n) (fp_int F 0)" "int i < n \<Longrightarrow> \<not> fp_lt F (get_max F d n) (d i)"
  using max_loop [OF _ get_max_def, of d n] num_int [of 0] by (auto simp: image_iff zless_nat_eq_int_zless Bex_def Ball_def)

lemma get_min_props:
  "\<not> nan (get_min F d n)" "get_min F d n = DBL_MAX F \<or> (\<exists>i. int i < n \<and> get_min F d n = d i)"
  "\<not> fp_lt F (DBL_MAX F) (get_min F d n)" "int i < n \<Longrightarrow> \<not> fp_lt F (d i) (get_min F d n)"
  using min_loop [OF num_max get_min_def, of d n] by (auto simp: image_iff zless_nat_eq_int_zless Bex_def Ball_def)

text \<open>The average of equal counts is the count.\<close>

lemma get_avg_const:
  assumes d: "\<And>i. int i < n \<Longrightarrow> d i = fp_int F c" and c: "0 \<le> c" and n: "0 < n" "c * n \<le> 2 ^ 53"
  shows "get_avg F d n = fp_int F c"
proof -
  have "fold (\<lambda>i sum. fp_add F sum (d i)) [0..<k] (fp_int F 0) = fp_int F (c * int k)" if "int k \<le> n" for k
    using that
  proof (induction k)
    case (Suc k)
    have "c * int k + c = c * int (Suc k)" by (simp add: algebra_simps)
    moreover have "c * int (Suc k) \<le> c * n" using Suc.prems c by (intro mult_left_mono) simp_all
    ultimately show ?case using Suc d [of k] add_int [of "c * int k" c] c n by simp
  qed simp
  from this [of "nat n"] show ?thesis using n div_int [OF c n] by (simp add: get_avg_def)
qed

lemma get_avg_nan: "int i < n \<Longrightarrow> nan (d i) \<Longrightarrow> nan (get_avg F d n)"
proof -
  assume i: "int i < n" "nan (d i)"
  have "nan (fold (\<lambda>i sum. fp_add F sum (d i)) is x)" if "i \<in> set is \<or> nan x" for "is" x
    using that by (induction "is" arbitrary: x) (auto simp: nan_add i(2))
  then have "nan (fold (\<lambda>i sum. fp_add F sum (d i)) [0..<nat n] (fp_int F 0))"
    using i(1) by (simp add: zless_nat_eq_int_zless)
  then show "nan (get_avg F d n)" by (simp add: get_avg_def nan_div)
qed

end

end
