(* ===== verification/Statistics_Properties.thy ===== *)
theory Statistics_Properties imports Statistics Hash_Table_Properties Complex_Main begin

text \<open>
  What the benchmark's report says.  The laws of \<open>ieee\<close> are met by exact arithmetic on
  the rational numbers with infinities and a NaN, of which doubles are the rounding.
\<close>

section \<open>Exact arithmetic\<close>

datatype xnum = NaN | Inf bool | Num rat

fun x_add :: "xnum \<Rightarrow> xnum \<Rightarrow> xnum" where
  "x_add (Num a) (Num b) = Num (a + b)"
| "x_add (Inf p) (Num b) = Inf p"
| "x_add (Num a) (Inf q) = Inf q"
| "x_add (Inf p) (Inf q) = (if p = q then Inf p else NaN)"
| "x_add _ _ = NaN"

fun x_neg :: "xnum \<Rightarrow> xnum" where
  "x_neg (Num a) = Num (- a)"
| "x_neg (Inf p) = Inf (\<not> p)"
| "x_neg NaN = NaN"

fun x_div :: "xnum \<Rightarrow> xnum \<Rightarrow> xnum" where
  "x_div (Num a) (Num b) = (if b \<noteq> 0 then Num (a / b) else if a = 0 then NaN else Inf (0 < a))"
| "x_div (Num a) (Inf q) = Num 0"
| "x_div (Inf p) (Num b) = Inf (p = (0 \<le> b))"
| "x_div _ _ = NaN"

fun x_lt :: "xnum \<Rightarrow> xnum \<Rightarrow> bool" where
  "x_lt (Num a) (Num b) = (a < b)"
| "x_lt (Num a) (Inf q) = q"
| "x_lt (Inf p) (Num b) = (\<not> p)"
| "x_lt (Inf p) (Inf q) = (\<not> p \<and> q)"
| "x_lt _ _ = False"

definition exact :: "xnum fp" where
  "exact = \<lparr>fp_int = \<lambda>k. Num (of_int k), fp_add = x_add, fp_sub = (\<lambda>a b. x_add a (x_neg b)), fp_div = x_div,
     fp_lt = x_lt, DBL_MAX = Num ((2 ^ 53 - 1) * 2 ^ 971)\<rparr>"

interpretation exact: ieee exact "\<lambda>x. x = NaN"
proof (unfold_locales, unfold exact_def, simp_all only: fp.simps)
  show "x_lt x y \<Longrightarrow> x \<noteq> NaN \<and> y \<noteq> NaN" for x y by (cases "(x, y)" rule: x_lt.cases) simp_all
  show "\<not> x_lt x x" for x by (cases x) simp_all
  show "x_lt x y \<Longrightarrow> x_lt y z \<Longrightarrow> x_lt x z" for x y z by (cases x; cases y; cases z) simp_all
  show "y \<noteq> NaN \<Longrightarrow> \<not> x_lt x y \<Longrightarrow> \<not> x_lt y z \<Longrightarrow> \<not> x_lt x z" for x y z by (cases x; cases y; cases z) auto
  show "x = NaN \<or> y = NaN \<Longrightarrow> x_add x y = NaN" for x y by (cases x; cases y) simp_all
  show "x = NaN \<or> y = NaN \<Longrightarrow> x_div x y = NaN" for x y by (cases x; cases y) simp_all
qed simp_all

section \<open>The extremes\<close>

definition greatest :: "'d fp \<Rightarrow> ('d \<Rightarrow> bool) \<Rightarrow> 'd \<Rightarrow> 'd set \<Rightarrow> 'd \<Rightarrow> bool" where
  "greatest F nan z A m \<longleftrightarrow> \<not> nan m \<and> (m = z \<or> m \<in> A) \<and> (\<forall>x\<in>A. \<not> fp_lt F m x)"

definition least :: "'d fp \<Rightarrow> ('d \<Rightarrow> bool) \<Rightarrow> 'd \<Rightarrow> 'd set \<Rightarrow> 'd \<Rightarrow> bool" where
  "least F nan z A m \<longleftrightarrow> \<not> nan m \<and> (m = z \<or> m \<in> A) \<and> (\<forall>x\<in>A. \<not> fp_lt F x m)"

text \<open>The average times of the readers, and of the updaters, over all iterations.\<close>

definition reader_times :: "conf \<Rightarrow> (nat \<Rightarrow> nat \<Rightarrow> 'd thread_stats) \<Rightarrow> 'd set" where
  "reader_times cf T = {avg_time (T it (unat (nbupdaters cf) + r)) |it r. int it < ITERATION \<and> int r < int_arg (nbreaders cf)}"

definition updater_times :: "conf \<Rightarrow> (nat \<Rightarrow> nat \<Rightarrow> 'd thread_stats) \<Rightarrow> 'd set" where
  "updater_times cf T = {avg_time (T it u) |it u. int it < ITERATION \<and> int u < int_arg (nbupdaters cf)}"

context ieee begin

lemma max_of_max:
  "greatest F nan (fp_int F 0) {d i j |i j. int i < n \<and> int j < k} (get_max F (\<lambda>i. get_max F (d i) k) n)"
  (is "greatest F nan ?z ?A ?m")
proof -
  have i: "\<not> nan (get_max F (d i) k)" "get_max F (d i) k = ?z \<or> (\<exists>j. int j < k \<and> get_max F (d i) k = d i j)"
    "int j < k \<Longrightarrow> \<not> fp_lt F (get_max F (d i) k) (d i j)" for i j
    using get_max_props [where d = "d i" and n = k] by blast+
  note o = get_max_props [where d = "\<lambda>i. get_max F (d i) k" and n = n]
  have "\<not> fp_lt F ?m (d i j)" if "int i < n" "int j < k" for i j
    by (rule not_lt_trans [OF i(1) o(4) [OF that(1)] i(3) [OF that(2)]])
  moreover have "?m = ?z \<or> ?m \<in> ?A" using o(2) i(2) by fastforce
  ultimately show ?thesis using o(1) unfolding greatest_def by blast
qed

lemma min_of_min:
  "least F nan (DBL_MAX F) {d i j |i j. int i < n \<and> int j < k} (get_min F (\<lambda>i. get_min F (d i) k) n)"
  (is "least F nan ?z ?A ?m")
proof -
  have i: "\<not> nan (get_min F (d i) k)" "get_min F (d i) k = ?z \<or> (\<exists>j. int j < k \<and> get_min F (d i) k = d i j)"
    "int j < k \<Longrightarrow> \<not> fp_lt F (d i j) (get_min F (d i) k)" for i j
    using get_min_props [where d = "d i" and n = k] by blast+
  note o = get_min_props [where d = "\<lambda>i. get_min F (d i) k" and n = n]
  have "\<not> fp_lt F (d i j) ?m" if "int i < n" "int j < k" for i j
    by (rule not_lt_trans [OF i(1) i(3) [OF that(2)] o(4) [OF that(1)]])
  moreover have "?m = ?z \<or> ?m \<in> ?A" using o(2) i(2) by fastforce
  ultimately show ?thesis using o(1) unfolding least_def by blast
qed

text \<open>Over no numbers, and over NaNs only.\<close>

lemma empty_stats:
  "get_max F d 0 = fp_int F 0" "get_min F d 0 = DBL_MAX F" "nan (get_avg F d 0)"
  by (simp_all add: get_max_def get_min_def get_avg_def zero_div)

lemma max_const: "(\<And>i. int i < n \<Longrightarrow> d i = fp_int F 0 \<or> nan (d i)) \<Longrightarrow> get_max F d n = fp_int F 0"
proof -
  assume d: "\<And>i. int i < n \<Longrightarrow> d i = fp_int F 0 \<or> nan (d i)"
  show ?thesis using get_max_props(1,2) [where d = d and n = n] d by metis
qed

lemma min_const: "(\<And>i. int i < n \<Longrightarrow> d i = DBL_MAX F \<or> nan (d i)) \<Longrightarrow> get_min F d n = DBL_MAX F"
proof -
  assume d: "\<And>i. int i < n \<Longrightarrow> d i = DBL_MAX F \<or> nan (d i)"
  show ?thesis using get_min_props(1,2) [where d = d and n = n] d by metis
qed

end

section \<open>What a reader records\<close>

text \<open>On a full table a reader records \<open>NB_TEST\<close> operations and one more successful search.\<close>

lemma reader_stats:
  assumes "table_search search ok bucket_keys" and "ok s"
    and "{0..<uint (nbkeys cf)} \<subseteq> table bucket_keys cf s" "nbkeys cf \<noteq> 0" "nbupdaters cf \<le> t"
  shows "\<exists>T s'. run_thread F rcu stamp v cf search ins del fin t time s = Some (T, s') \<and>
    thd_ops T = fp_int F (uint NB_TEST) \<and> suc_sea T = fp_int F (uint NB_TEST + 1)"
proof -
  have i: "(0 :: u64) \<le> NB_TEST" by simp
  let ?n = "\<lparr>thd_ins = 0, thd_del = 0, thd_sea = 0\<rparr>" and ?seed = "mysrand (xor (ucast t) time)"
  let ?ks = "fst (draws cf (Suc (unat (NB_TEST - 0))) ?seed)"
  obtain n s' where r: "run_loop cf search ins del fin True 0 ?seed ?n s =
      Some (NB_TEST, snd (draws cf (Suc (unat (NB_TEST - 0))) ?seed), n, s')"
    "thd_sea n = thd_sea ?n + int (length (filter (\<lambda>k. k \<in> table bucket_keys cf s) ?ks))"
    using table_search.run_reader [OF assms(1,2) i assms(4), of ins del fin ?seed ?n] by blast
  have "filter (\<lambda>k. k \<in> table bucket_keys cf s) ?ks = ?ks"
    using assms(3) draws_keys [OF assms(4)] by (subst filter_id_conv) blast
  then have "thd_sea n = uint NB_TEST + 1" using r(2) by (simp only: draws_length) simp
  then show ?thesis using r(1) assms(5)
    by (simp add: run_thread_def run_def record_thread_def del: draws.simps)
qed

lemma int_arg_small: "w < 2 ^ 31 \<Longrightarrow> int_arg w = uint w"
proof -
  assume w: "w < 2 ^ 31"
  then have u: "uint w < 2 ^ 31" by (simp add: word_less_def)
  define m where "m = uint w"
  have m: "0 \<le> m" "m < 2 ^ 31" using u by (simp_all add: m_def)
  have "int_arg w = sint (word_of_int m :: u32)" unfolding int_arg_def m_def by (simp only: ucast_eq)
  also have "\<dots> = m" using m signed_take_bit_int_eq_self [of 31 m] by (simp add: sint_sbintrunc')
  finally show "int_arg w = uint w" by (simp add: m_def)
qed

lemma setup_readers:
  assumes "setup_test strtoul argv = Some cf" and "nbthreads cf < 2 ^ 31"
  shows "0 < int_arg (nbreaders cf)" "int_arg (nbreaders cf) < 2 ^ 31"
    "int r < int_arg (nbreaders cf) \<Longrightarrow> nbupdaters cf \<le> of_nat (unat (nbupdaters cf) + r)"
proof -
  have c: "nbreaders cf = nbthreads cf - nbupdaters cf" "nbupdaters cf < nbthreads cf"
    using assms(1) by (auto simp: setup_test_def Let_def split: if_splits)
  have u: "uint (nbreaders cf) = uint (nbthreads cf) - uint (nbupdaters cf)" "uint (nbupdaters cf) < uint (nbthreads cf)"
    using c uint_minus_simple_alt [of "nbupdaters cf" "nbthreads cf"] by (simp_all add: word_less_def word_le_def)
  have t: "uint (nbthreads cf) < 2 ^ 31" using assms(2) by (simp add: word_less_def)
  have b: "uint (nbreaders cf) < 2 ^ 31" using u t uint_ge_0 [of "nbupdaters cf"] by linarith
  then have nr: "int_arg (nbreaders cf) = uint (nbreaders cf)" by (intro int_arg_small) (simp add: word_less_def)
  show "0 < int_arg (nbreaders cf)" "int_arg (nbreaders cf) < 2 ^ 31"
    using nr b u by simp_all
  show "nbupdaters cf \<le> of_nat (unat (nbupdaters cf) + r)" if "int r < int_arg (nbreaders cf)"
  proof -
    have "uint (nbupdaters cf) + int r < 2 ^ 31" using that nr u t by linarith
    then have "unat (nbupdaters cf) + r < 2 ^ 64" unfolding uint_nat by (simp only: of_nat_less_iff [symmetric, where 'a = int]) simp
    then show ?thesis unfolding word_le_nat_alt unat_of_nat by simp
  qed
qed

section \<open>Properties\<close>

text \<open>
  C31 (the extremes): the four extremes \<open>main\<close> prints are those of the average times
  of all readers, and of all updaters, over all iterations: a maximum of 0 and these,
  a minimum of \<open>DBL_MAX\<close> and these, NaNs left out.
\<close>

theorem reported_extremes:
  assumes "ieee F nan" and "main_report F strtoul nbcores tests argv = Some (cf, lines)"
  shows "\<exists>a b c d. map_of lines ''max_read'' = Some [a] \<and> greatest F nan (fp_int F 0) (reader_times cf (tests cf)) a \<and>
    map_of lines ''min_read'' = Some [b] \<and> least F nan (DBL_MAX F) (reader_times cf (tests cf)) b \<and>
    map_of lines ''max_write'' = Some [c] \<and> greatest F nan (fp_int F 0) (updater_times cf (tests cf)) c \<and>
    map_of lines ''min_write'' = Some [d] \<and> least F nan (DBL_MAX F) (updater_times cf (tests cf)) d"
proof -
  let ?rd = "\<lambda>it r. avg_time (tests cf it (unat (nbupdaters cf) + r))"
    and ?wr = "\<lambda>it u. avg_time (tests cf it u)"
  have "lines = report F cf (\<lambda>i. test_stats F cf nbcores (tests cf i)) (tests cf (nat ITERATION - 1))"
    using assms(2) by (auto simp: main_report_def)
  then have
    "map_of lines ''max_read'' = Some [get_max F (\<lambda>i. get_max F (?rd i) (int_arg (nbreaders cf))) ITERATION]"
    "map_of lines ''min_read'' = Some [get_min F (\<lambda>i. get_min F (?rd i) (int_arg (nbreaders cf))) ITERATION]"
    "map_of lines ''max_write'' = Some [get_max F (\<lambda>i. get_max F (?wr i) (int_arg (nbupdaters cf))) ITERATION]"
    "map_of lines ''min_write'' = Some [get_min F (\<lambda>i. get_min F (?wr i) (int_arg (nbupdaters cf))) ITERATION]"
    by (simp_all add: report_def test_stats_def Let_def)
  then show ?thesis unfolding reader_times_def updater_times_def
    using ieee.max_of_max [OF assms(1), of ?rd ITERATION "int_arg (nbreaders cf)"]
      ieee.min_of_min [OF assms(1), of ?rd ITERATION "int_arg (nbreaders cf)"]
      ieee.max_of_max [OF assms(1), of ?wr ITERATION "int_arg (nbupdaters cf)"]
      ieee.min_of_min [OF assms(1), of ?wr ITERATION "int_arg (nbupdaters cf)"] by blast
qed

text \<open>
  C33 (no updaters): \<open>setup_test\<close> accepts 0 updaters; then the write statistics are
  averages over nothing: NaN, with maxima 0 and minima \<open>DBL_MAX\<close>.
\<close>

theorem no_updaters_report:
  assumes "ieee F nan" and "main_report F strtoul nbcores tests argv = Some (cf, lines)" and "nbupdaters cf = 0"
  shows "\<exists>w q i j. map_of lines ''write ops per micsec'' = Some [w] \<and> nan w \<and> map_of lines ''write/read'' = Some [q] \<and> nan q \<and>
    map_of lines ''sucess_insert'' = Some [i, j] \<and> nan i \<and> nan j \<and>
    map_of lines ''max_write'' = Some [fp_int F 0] \<and> map_of lines ''min_write'' = Some [DBL_MAX F] \<and>
    map_of lines ''avg_max_write'' = Some [fp_int F 0] \<and> map_of lines ''avg_min_write'' = Some [DBL_MAX F]"
proof -
  let ?R = "\<lambda>i. test_stats F cf nbcores (tests cf i)"
  have n: "int_arg (nbupdaters cf) = 0" by (simp add: assms(3) int_arg_def)
  have l: "lines = report F cf ?R (tests cf (nat ITERATION - 1))"
    using assms(2) by (auto simp: main_report_def)
  note E = ieee.empty_stats [OF assms(1)]
  have r: "nan (twr_ops (?R i))" "nan (run_ins (?R i))" "nan (run_avg_wr (?R i))"
    "run_max_wr (?R i) = fp_int F 0" "run_min_wr (?R i) = DBL_MAX F" for i
    by (simp_all add: test_stats_def Let_def n E ieee.nan_div [OF assms(1)])
  have avg: "nan (get_avg F (\<lambda>i. f (?R i)) ITERATION)" if "\<And>i. nan (f (?R i))" for f
    by (rule ieee.get_avg_nan [OF assms(1), of 0]) (simp_all add: that)
  have m: "get_max F (\<lambda>i. run_max_wr (?R i)) ITERATION = fp_int F 0" "get_min F (\<lambda>i. run_min_wr (?R i)) ITERATION = DBL_MAX F"
    "get_max F (\<lambda>i. run_avg_wr (?R i)) ITERATION = fp_int F 0" "get_min F (\<lambda>i. run_avg_wr (?R i)) ITERATION = DBL_MAX F"
    by (rule ieee.max_const [OF assms(1)] ieee.min_const [OF assms(1)], simp add: r)+
  have "map_of lines ''write ops per micsec'' = Some [get_avg F (\<lambda>i. twr_ops (?R i)) ITERATION]"
    "map_of lines ''write/read'' = Some [fp_div F (get_avg F (\<lambda>i. twr_ops (?R i)) ITERATION) (get_avg F (\<lambda>i. trd_ops (?R i)) ITERATION)]"
    "\<exists>j. map_of lines ''sucess_insert'' = Some [get_avg F (\<lambda>i. run_ins (?R i)) ITERATION, j] \<and> nan j"
    "map_of lines ''max_write'' = Some [fp_int F 0]" "map_of lines ''min_write'' = Some [DBL_MAX F]"
    "map_of lines ''avg_max_write'' = Some [fp_int F 0]" "map_of lines ''avg_min_write'' = Some [DBL_MAX F]"
    by (simp_all add: l report_def Let_def m n E ieee.nan_div [OF assms(1)])
  then show ?thesis using avg [of twr_ops] avg [of run_ins] r ieee.nan_div [OF assms(1)] by blast
qed

text \<open>
  C32 (the count of searches): when the searches of all readers run undisturbed on a
  table that holds every key, \<open>main\<close> hands \<open>printf\<close> the numbers 2000001, of successful
  searches, and 2000000, of operations; the six digits of \<open>%g\<close> hide that there is one
  success more than operations: the line reads \<open>2e+06 on 2e+06\<close>.
\<close>

theorem search_report:
  assumes "ieee F nan" and "table_search search ok bucket_keys"
    and "main_report F strtoul nbcores tests argv = Some (cf, lines)" "nbthreads cf < 2 ^ 31" "nbkeys cf \<noteq> 0"
    and "ok s" "{0..<uint (nbkeys cf)} \<subseteq> table bucket_keys cf s"
    and "\<And>it r. int it < ITERATION \<Longrightarrow> int r < int_arg (nbreaders cf) \<Longrightarrow> \<exists>rcu stamp v fin time.
      map_option fst (run_thread F rcu stamp v cf search ins del fin
        (of_nat (unat (nbupdaters cf) + r)) time s) = Some (tests cf it (unat (nbupdaters cf) + r))"
    and "prints_naturals F g"
  shows "map_of lines ''sucess_search'' = Some [fp_int F 2000001, fp_int F 2000000] \<and>
    print_line g (''sucess_search'', [fp_int F 2000001, fp_int F 2000000]) = ''sucess_search = 2e+06 on 2e+06''"
proof -
  let ?T = "\<lambda>it r. tests cf it (unat (nbupdaters cf) + r)" and ?n = "int_arg (nbreaders cf)"
  have set: "setup_test strtoul argv = Some cf"
    and l: "lines = report F cf (\<lambda>i. test_stats F cf nbcores (tests cf i)) (tests cf (nat ITERATION - 1))"
    using assms(3) by (auto simp: main_report_def)
  note R = setup_readers [OF set assms(4)]
  have T: "thd_ops (?T it r) = fp_int F 2000000 \<and> suc_sea (?T it r) = fp_int F 2000001"
    if h: "int it < ITERATION" "int r < ?n" for it r
  proof -
    obtain rcu stamp v fin time where "map_option fst (run_thread F rcu stamp v cf search ins del fin (of_nat (unat (nbupdaters cf) + r)) time s) = Some (?T it r)"
      using assms(8) [OF h] by blast
    then show ?thesis
      using reader_stats [OF assms(2,6,7,5) R(3) [OF h(2)], of F rcu stamp v ins del fin time]
      by (auto simp: NB_TEST_def)
  qed
  have k: "2000000 * ?n \<le> 2 ^ 53" "2000001 * ?n \<le> 2 ^ 53" using R(2) by simp_all
  have "get_avg F (\<lambda>r. suc_sea (?T it r)) ?n = fp_int F 2000001" if "int it < ITERATION" for it
    by (rule ieee.get_avg_const [OF assms(1)]) (use T that R(1) k in auto)
  then have sea: "get_avg F (\<lambda>it. run_sea (test_stats F cf nbcores (tests cf it))) ITERATION = fp_int F 2000001"
    by (intro ieee.get_avg_const [OF assms(1)]) (simp_all add: test_stats_def Let_def)
  have ops: "get_avg F (\<lambda>r. thd_ops (?T (nat ITERATION - 1) r)) ?n = fp_int F 2000000"
    by (rule ieee.get_avg_const [OF assms(1)]) (use T R(1) k in auto)
  have "map_of lines ''sucess_search'' = Some [fp_int F 2000001, fp_int F 2000000]"
    using sea ops unfolding l report_def Let_def by simp
  moreover have "g (fp_int F 2000001) = print_g 2000001" "g (fp_int F 2000000) = print_g 2000000"
    using assms(9) [unfolded prints_naturals_def, rule_format, of 2000001]
      assms(9) [unfolded prints_naturals_def, rule_format, of 2000000] by simp_all
  then have "print_line g (''sucess_search'', [fp_int F 2000001, fp_int F 2000000]) =
      ''sucess_search = 2e+06 on 2e+06''"
    unfolding print_millions by (simp add: print_line_def)
  ultimately show ?thesis by blast
qed

section \<open>Witnesses\<close>

definition one_arg :: "string \<Rightarrow> u64" where
  "one_arg a = (if a = ''1'' then 1 else 0)"

definition one_reader :: conf where
  "one_reader = \<lparr>nbthreads = 1, nbupdaters = 0, nbreaders = 1, nbbuckets = 1, pbnodes = 1, nbkeys = 1\<rparr>"

abbreviation one_line :: "string list" where
  "one_line \<equiv> [''gecos'', ''1'', ''0'', ''1'', ''1'']"

lemma one_setup: "setup_test one_arg one_line = Some one_reader"
  by (simp add: setup_test_def one_arg_def one_reader_def Let_def)

definition no_vars :: "xnum thread_vars" where
  "no_vars = \<lparr>v_nbmallocs = Num 0, v_nbretry = 0, v_nbrelink = 0, v_nbreprev = 0, v_nbblockeds = Num 0\<rparr>"

text \<open>Iteration \<open>it\<close> ran from time 0 to time \<open>it\<close>.\<close>

definition one_run :: "alloc \<Rightarrow> conf \<Rightarrow> nat \<Rightarrow> nat \<Rightarrow> xnum thread_stats" where
  "one_run s cf it t = fst (the (run_thread exact None (Num 0, Num (of_nat it)) no_vars cf (lk_search spin_lock spin_unlock)
     (insert_w spin_lock spin_unlock lk_init_new_node) (delete spin_lock spin_unlock False lk_free_node_later)
     (\<lambda>_. False) (of_nat t) 42 s))"

lemma one_report:
  "main_report exact one_arg 4 (one_run s) one_line = Some (one_reader,
     report exact one_reader (\<lambda>i. test_stats exact one_reader 4 (one_run s one_reader i)) (one_run s one_reader 4))"
  by (simp add: main_report_def one_setup)

lemma reported_extremes_witness:
  "\<exists>a. map_of (report exact one_reader (\<lambda>i. test_stats exact one_reader 4 (one_run (lk_mem [64]) one_reader i))
      (one_run (lk_mem [64]) one_reader 4)) ''max_read'' = Some [a] \<and>
    greatest exact (\<lambda>x. x = NaN) (Num 0) (reader_times one_reader (one_run (lk_mem [64]) one_reader)) a"
  using reported_extremes [OF exact.ieee_axioms one_report, of "lk_mem [64]"] by (auto simp: exact_def)

lemma no_updaters_report_witness:
  "map_of (report exact one_reader (\<lambda>i. test_stats exact one_reader 4 (one_run (lk_mem [64]) one_reader i))
      (one_run (lk_mem [64]) one_reader 4)) ''write/read'' = Some [NaN]"
  using no_updaters_report [OF exact.ieee_axioms one_report, of "lk_mem [64]"] by (auto simp: one_reader_def)

text \<open>A conversion that is right on natural numbers.\<close>

definition exact_g :: "xnum \<Rightarrow> string" where
  "exact_g x = (case x of NaN \<Rightarrow> ''nan'' | Inf p \<Rightarrow> if p then ''inf'' else ''-inf''
     | Num q \<Rightarrow> print_g (nat \<lfloor>q\<rfloor>))"

lemma exact_g_prints: "prints_naturals exact exact_g"
  by (simp add: prints_naturals_def exact_def exact_g_def)

lemma search_report_witness:
  "\<exists>s xs. map_of (report exact one_reader (\<lambda>i. test_stats exact one_reader 4 (one_run s one_reader i))
      (one_run s one_reader 4)) ''sucess_search'' = Some xs \<and>
     print_line exact_g (''sucess_search'', xs) = ''sucess_search = 2e+06 on 2e+06''"
proof -
  let ?s = "lk_mem [64]"
  have "bucket_keys ?s b = {}" for b using bucket_keys_eq [OF lk_mem_ok(1)] by (simp add: keys_of_def)
  then have "sorted_out (list_ok alloc_ok (\<lambda>l. l = 0)) bucket_keys one_reader ?s"
    using demo_ok(1) by (simp add: sorted_out_def)
  moreover have "length [0 :: int] \<le> room ?s"
    by (simp add: room_def lk_mem_def init_allocator_def prealloc_def)
  ultimately obtain s :: alloc where s: "sorted_out (list_ok alloc_ok (\<lambda>l. l = 0)) bucket_keys one_reader s"
    "table bucket_keys one_reader s = set [0] \<union> table bucket_keys one_reader ?s"
    using table_insert.for_keys_ins [OF spin_build.table_insert_axioms, of one_reader ?s "[0]"] by blast
  have nk: "nbkeys one_reader = 1" by (simp add: one_reader_def)
  have full: "{0..<uint (nbkeys one_reader)} \<subseteq> table bucket_keys one_reader s"
    unfolding s(2) nk by auto
  have ok: "list_ok alloc_ok (\<lambda>l. l = 0) s" using s(1) by (simp add: sorted_out_def)
  have k: "nbkeys one_reader \<noteq> 0" "nbthreads one_reader < 2 ^ 31" "nbupdaters one_reader = 0"
    by (simp_all add: one_reader_def word_less_def)
  have "map_of (report exact one_reader (\<lambda>i. test_stats exact one_reader 4 (one_run s one_reader i))
      (one_run s one_reader 4)) ''sucess_search'' = Some [fp_int exact 2000001, fp_int exact 2000000] \<and>
    print_line exact_g (''sucess_search'', [fp_int exact 2000001, fp_int exact 2000000]) = ''sucess_search = 2e+06 on 2e+06''"
  proof (rule search_report [OF exact.ieee_axioms spin_build.table_search_axioms one_report k(2,1) ok full])
    fix it r :: nat
    have "nbupdaters one_reader \<le> of_nat r" by (simp add: k)
    from reader_stats [OF spin_build.table_search_axioms ok full k(1) this, of exact None "(Num 0, Num (of_nat it))" no_vars
        "insert_w spin_lock spin_unlock lk_init_new_node" "delete spin_lock spin_unlock False lk_free_node_later"
        "\<lambda>_. False" 42]
    have "map_option fst (run_thread exact None (Num 0, Num (of_nat it)) no_vars one_reader (lk_search spin_lock spin_unlock)
        (insert_w spin_lock spin_unlock lk_init_new_node) (delete spin_lock spin_unlock False lk_free_node_later)
        (\<lambda>_. False) (of_nat r) 42 s) = Some (one_run s one_reader it r)"
      by (auto simp: one_run_def)
    then show "\<exists>rcu stamp v fin time. map_option fst (run_thread exact rcu stamp v one_reader (lk_search spin_lock spin_unlock)
        (insert_w spin_lock spin_unlock lk_init_new_node) (delete spin_lock spin_unlock False lk_free_node_later)
        fin (of_nat (unat (nbupdaters one_reader) + r)) time s) = Some (one_run s one_reader it (unat (nbupdaters one_reader) + r))"
      unfolding k by (simp only: unat_0 add_0) blast
  qed (rule exact_g_prints)
  then show ?thesis by blast
qed

end
