(* ===== verification/Test_Machine.thy ===== *)
theory Test_Machine imports Hash_Table begin

text \<open>
  One iteration of \<open>test\<close> with its threads, under any schedule: \<open>test\<close> creates the
  threads, waits at the barrier, starts them, joins them and stops the updaters;
  every thread is \<open>run\<close>.  What the operation of a round does to the table is the
  subject of the list theories; here only who waits for whom matters, and the
  schedule says at every step of a thread whether that operation returns with it:
  it may take any number of steps, or never return.  A round with no keys divides
  by zero and takes the process down.  \<open>pthread_create\<close> is taken to succeed,
  \<open>pthread_join\<close> to wait for the end of the thread.
\<close>

section \<open>The machine\<close>

text \<open>
  A thread: not created, before its \<open>atomic_xadd4(&ready, 1)\<close>, waiting for \<open>go\<close>, at the
  operation of round \<open>i\<close>, an updater at its test of \<open>done\<close>, returned in round \<open>i\<close>.
\<close>

datatype tpc = T_none | T_start | T_wait | T_round u64 | T_check u64 | T_exit u64

text \<open>\<open>M_join i\<close>: the threads from \<open>i\<close> on are joined; \<open>M_stop i\<close>: \<open>done\<close> is to be set.\<close>

datatype mpc = M_create nat | M_ready | M_go | M_join nat | M_stop nat

record tsys =
  go :: bool
  finished :: bool
  ready :: u64
  crashed :: bool
  mpc :: mpc
  thr :: "nat \<Rightarrow> tpc"

definition next_round :: "u64 \<Rightarrow> tpc" where
  "next_round i = (if i + 1 = 0 then T_exit 0 else T_round (i + 1))"

text \<open>\<open>ret\<close>: the \<open>search\<close>, \<open>insert\<close> or \<open>delete\<close> of the round returns with this step.\<close>

definition thread_step :: "conf \<Rightarrow> nat \<Rightarrow> bool \<Rightarrow> tsys \<Rightarrow> tsys" where
  "thread_step cf t ret s = (let iamreader = nbupdaters cf \<le> of_nat t in
     case thr s t of
       T_none \<Rightarrow> s
     | T_start \<Rightarrow> s\<lparr>ready := ready s + 1, thr := (thr s)(t := T_wait)\<rparr>
     | T_wait \<Rightarrow> if go s then s\<lparr>thr := (thr s)(t := T_round 0)\<rparr> else s
     | T_round i \<Rightarrow> if nbkeys cf = 0 then s\<lparr>crashed := True\<rparr>
         else if \<not> ret then s
         else s\<lparr>thr := (thr s)(t :=
           if iamreader then (if NB_TEST \<le> i then T_exit i else next_round i) else T_check i)\<rparr>
     | T_check i \<Rightarrow> s\<lparr>thr := (thr s)(t := if finished s then T_exit i else next_round i)\<rparr>
     | T_exit i \<Rightarrow> s)"

definition main_step :: "conf \<Rightarrow> tsys \<Rightarrow> tsys" where
  "main_step cf s = (case mpc s of
     M_create i \<Rightarrow>
       if i < unat (nbthreads cf) then s\<lparr>thr := (thr s)(i := T_start), mpc := M_create (Suc i)\<rparr>
       else s\<lparr>mpc := M_ready\<rparr>
   | M_ready \<Rightarrow> if ready s \<noteq> nbthreads cf then s else s\<lparr>mpc := M_go\<rparr>
   | M_go \<Rightarrow> s\<lparr>go := True, mpc := M_join (unat (nbthreads cf))\<rparr>
   | M_join 0 \<Rightarrow> s
   | M_join (Suc i) \<Rightarrow> (case thr s i of
       T_exit n \<Rightarrow> s\<lparr>mpc := if i = unat (nbupdaters cf) then M_stop i else M_join i\<rparr>
     | _ \<Rightarrow> s)
   | M_stop i \<Rightarrow> s\<lparr>finished := True, mpc := M_join i\<rparr>)"

datatype tact = Main | Thread nat bool

definition t_step :: "conf \<Rightarrow> tact \<Rightarrow> tsys \<Rightarrow> tsys" where
  "t_step cf a s = (if crashed s then s
     else case a of Main \<Rightarrow> main_step cf s | Thread t ret \<Rightarrow> thread_step cf t ret s)"

definition t_exec :: "conf \<Rightarrow> tact list \<Rightarrow> tsys \<Rightarrow> tsys" where
  "t_exec cf as s = fold (t_step cf) as s"

definition t_init :: tsys where
  "t_init = \<lparr>go = False, finished = False, ready = 0, crashed = False, mpc = M_create 0, thr = \<lambda>_. T_none\<rparr>"

section \<open>The invariant\<close>

definition exited :: "tpc \<Rightarrow> bool" where
  "exited p \<longleftrightarrow> (\<exists>i. p = T_exit i)"

definition working :: "tpc \<Rightarrow> bool" where
  "working p \<longleftrightarrow> (case p of T_round i \<Rightarrow> True | T_check i \<Rightarrow> True | T_exit i \<Rightarrow> True | _ \<Rightarrow> False)"

definition arrived :: "tpc \<Rightarrow> bool" where
  "arrived p \<longleftrightarrow> p = T_wait \<or> working p"

text \<open>What is true of the threads for the point the main thread is at; \<open>n\<close> threads, \<open>m\<close> updaters.\<close>

definition main_inv :: "nat \<Rightarrow> nat \<Rightarrow> tsys \<Rightarrow> bool" where
  "main_inv n m s \<longleftrightarrow> (case mpc s of
     M_create i \<Rightarrow> i \<le> n \<and> \<not> go s \<and> \<not> finished s \<and> (\<forall>t. thr s t = T_none \<longleftrightarrow> i \<le> t)
   | M_ready \<Rightarrow> \<not> go s \<and> \<not> finished s
   | M_go \<Rightarrow> \<not> go s \<and> \<not> finished s \<and> (\<forall>t<n. arrived (thr s t))
   | M_join i \<Rightarrow> i \<le> n \<and> go s \<and> (finished s \<longleftrightarrow> i \<le> m) \<and> (\<forall>t<n. arrived (thr s t)) \<and> (\<forall>t<n. i \<le> t \<longrightarrow> exited (thr s t))
   | M_stop i \<Rightarrow> i = m \<and> go s \<and> \<not> finished s \<and> (\<forall>t<n. arrived (thr s t)) \<and> (\<forall>t<n. i \<le> t \<longrightarrow> exited (thr s t)))"

text \<open>\<open>k\<close> bounds the number of rounds.\<close>

definition t_inv :: "conf \<Rightarrow> nat \<Rightarrow> tsys \<Rightarrow> bool" where
  "t_inv cf k s \<longleftrightarrow> main_inv (unat (nbthreads cf)) (unat (nbupdaters cf)) s \<and>
     (\<forall>t. unat (nbthreads cf) \<le> t \<longrightarrow> thr s t = T_none) \<and>
     (mpc s \<notin> range M_create \<longrightarrow> (\<forall>t<unat (nbthreads cf). thr s t \<noteq> T_none)) \<and>
     ready s = of_nat (card {t. arrived (thr s t)}) \<and>
     (\<forall>t. working (thr s t) \<longrightarrow> go s) \<and>
     (\<forall>t i. thr s t = T_round i \<or> thr s t = T_check i \<longrightarrow> unat i \<le> k) \<and>
     (\<forall>t i. thr s t = T_check i \<longrightarrow> t < unat (nbupdaters cf)) \<and>
     (\<forall>t i. unat (nbupdaters cf) \<le> t \<longrightarrow> thr s t = T_round i \<longrightarrow> i \<le> NB_TEST) \<and>
     (\<forall>t i. unat (nbupdaters cf) \<le> t \<longrightarrow> thr s t = T_exit i \<longrightarrow> i = NB_TEST) \<and>
     (k < 2 ^ 64 \<longrightarrow> (\<forall>t<unat (nbupdaters cf). exited (thr s t) \<longrightarrow> finished s))"

lemmas state_defs = exited_def working_def arrived_def

lemma t_invD:
  assumes "t_inv cf k s"
  shows "main_inv (unat (nbthreads cf)) (unat (nbupdaters cf)) s" "\<And>t. unat (nbthreads cf) \<le> t \<Longrightarrow> thr s t = T_none"
    "mpc s \<notin> range M_create \<Longrightarrow> t < unat (nbthreads cf) \<Longrightarrow> thr s t \<noteq> T_none"
    "ready s = of_nat (card {t. arrived (thr s t)})" "\<And>t. working (thr s t) \<Longrightarrow> go s"
    "\<And>t i. thr s t = T_round i \<or> thr s t = T_check i \<Longrightarrow> unat i \<le> k"
    "\<And>t i. thr s t = T_check i \<Longrightarrow> t < unat (nbupdaters cf)"
    "\<And>t i. unat (nbupdaters cf) \<le> t \<Longrightarrow> thr s t = T_round i \<Longrightarrow> i \<le> NB_TEST"
    "\<And>t i. unat (nbupdaters cf) \<le> t \<Longrightarrow> thr s t = T_exit i \<Longrightarrow> i = NB_TEST"
    "\<And>t. k < 2 ^ 64 \<Longrightarrow> t < unat (nbupdaters cf) \<Longrightarrow> exited (thr s t) \<Longrightarrow> finished s"
  using assms unfolding t_inv_def by blast+

lemma t_inv_Suc: "t_inv cf k s \<Longrightarrow> t_inv cf (Suc k) s"
  unfolding t_inv_def by (simp add: le_Suc_eq Suc_lessD)

text \<open>The threads at the barrier are finitely many.\<close>

lemma arrived_finite: "t_inv cf k s \<Longrightarrow> finite {t. arrived (thr s t)}"
  and arrived_less: "t_inv cf k s \<Longrightarrow> {t. arrived (thr s t)} \<subseteq> {..<unat (nbthreads cf)}"
proof -
  assume i: "t_inv cf k s"
  show s: "{t. arrived (thr s t)} \<subseteq> {..<unat (nbthreads cf)}"
  proof
    fix t assume "t \<in> {t. arrived (thr s t)}"
    then have "thr s t \<noteq> T_none" by (auto simp: state_defs)
    then show "t \<in> {..<unat (nbthreads cf)}" using t_invD(2) [OF i, of t] by (cases "t < unat (nbthreads cf)") auto
  qed
  then show "finite {t. arrived (thr s t)}" by (rule finite_subset) simp
qed

text \<open>A thread moves on.\<close>

lemma t_inv_upd:
  assumes i: "t_inv cf k s" and p: "thr s t \<noteq> T_none" "\<not> exited (thr s t)" and p': "p' \<noteq> T_none"
    and ar: "arrived p'" and g: "working p' \<Longrightarrow> go s"
    and r: "r = (if arrived (thr s t) then ready s else ready s + 1)"
    and b: "\<And>i. p' = T_round i \<or> p' = T_check i \<Longrightarrow> unat i \<le> Suc k"
    and u: "\<And>i. p' = T_check i \<Longrightarrow> t < unat (nbupdaters cf)"
    and n: "\<And>i. unat (nbupdaters cf) \<le> t \<Longrightarrow> (p' = T_round i \<longrightarrow> i \<le> NB_TEST) \<and> (p' = T_exit i \<longrightarrow> i = NB_TEST)"
    and e: "Suc k < 2 ^ 64 \<Longrightarrow> t < unat (nbupdaters cf) \<Longrightarrow> exited p' \<Longrightarrow> finished s"
  shows "t_inv cf (Suc k) (s\<lparr>ready := r, thr := (thr s)(t := p')\<rparr>)"
proof -
  let ?s = "s\<lparr>ready := r, thr := (thr s)(t := p')\<rparr>"
  note D = t_invD [OF i]
  have "main_inv (unat (nbthreads cf)) (unat (nbupdaters cf)) ?s"
    using D(1) p p' ar unfolding main_inv_def by (cases "mpc s") auto
  moreover have "r = of_nat (card {v. arrived (thr ?s v)})"
  proof (cases "arrived (thr s t)")
    case True
    then have "{v. arrived (thr ?s v)} = {v. arrived (thr s v)}" using ar by auto
    then show ?thesis using r True D(4) by simp
  next
    case False
    have eq: "{v. arrived (thr ?s v)} = insert t {v. arrived (thr s v)}" using ar by auto
    have "t \<notin> {v. arrived (thr s v)}" using False by simp
    then have "card {v. arrived (thr ?s v)} = Suc (card {v. arrived (thr s v)})"
      unfolding eq by (rule card_insert_disjoint [OF arrived_finite [OF i]])
    then show ?thesis using r False D(4) by simp
  qed
  moreover have "unat (nbthreads cf) \<le> v \<Longrightarrow> thr ?s v = T_none" for v using D(2) p by (cases "v = t") auto
  moreover have "mpc ?s \<notin> range M_create \<Longrightarrow> v < unat (nbthreads cf) \<Longrightarrow> thr ?s v \<noteq> T_none" for v
    using D(3) p' by auto
  moreover have "working (thr ?s v) \<Longrightarrow> go ?s" for v using D(5) [of v] g by (cases "v = t") auto
  moreover have "thr ?s v = T_round j \<or> thr ?s v = T_check j \<Longrightarrow> unat j \<le> Suc k" for v j
    using D(6) [of v j] b [of j] by (cases "v = t") auto
  moreover have "thr ?s v = T_check j \<Longrightarrow> v < unat (nbupdaters cf)" for v j using D(7) [of v j] u [of j] by (cases "v = t") auto
  moreover have "unat (nbupdaters cf) \<le> v \<Longrightarrow> thr ?s v = T_round j \<Longrightarrow> j \<le> NB_TEST" for v j
    using D(8) [of v j] n [of j] by (cases "v = t") auto
  moreover have "unat (nbupdaters cf) \<le> v \<Longrightarrow> thr ?s v = T_exit j \<Longrightarrow> j = NB_TEST" for v j
    using D(9) [of v j] n [of j] by (cases "v = t") auto
  moreover have "Suc k < 2 ^ 64 \<Longrightarrow> v < unat (nbupdaters cf) \<Longrightarrow> exited (thr ?s v) \<Longrightarrow> finished ?s" for v
    using D(10) [of v] e by (cases "v = t") auto
  ultimately show ?thesis unfolding t_inv_def by simp
qed

lemma reader_word: "t < unat (nbthreads cf) \<Longrightarrow> nbupdaters cf \<le> of_nat t \<longleftrightarrow> unat (nbupdaters cf) \<le> t"
proof -
  assume "t < unat (nbthreads cf)"
  moreover have "unat (nbthreads cf) < 2 ^ 64" using unsigned_less [of "nbthreads cf"] by simp
  ultimately have "t < 2 ^ 64" by (rule less_trans)
  then have "unat (of_nat t :: u64) = t" unfolding unat_of_nat by simp
  then show ?thesis by (simp add: word_le_nat_alt)
qed

lemma next_round_cases:
  "(next_round i = T_exit 0 \<and> unat i = 2 ^ 64 - 1) \<or> (next_round i = T_round (i + 1) \<and> unat (i + 1) = Suc (unat i))"
proof (cases "i + 1 = 0")
  case True
  have lt: "unat i < 2 ^ 64" using unsigned_less [of i] by simp
  have "unat (i + 1) = (unat i + 1) mod 2 ^ 64" by (simp add: unat_word_ariths)
  then have "(unat i + 1) mod 2 ^ 64 = 0" using True by simp
  then have "\<not> unat i + 1 < 2 ^ 64" using mod_less [of "unat i + 1" "2 ^ 64"] by linarith
  then show ?thesis using True lt by (simp add: next_round_def)
next
  case False
  then show ?thesis using unat_inc [OF False] by (simp add: next_round_def)
qed

lemma NB_TEST_next: "i < NB_TEST \<Longrightarrow> next_round i = T_round (i + 1) \<and> i + 1 \<le> NB_TEST"
  using less_max_inc [of i NB_TEST] inc_le [of i NB_TEST] by (simp add: next_round_def)

lemma thread_step_inv:
  assumes i: "t_inv cf k s"
  shows "t_inv cf (Suc k) (thread_step cf t ret s)"
proof (cases "thr s t = T_none \<or> exited (thr s t) \<or> thr s t = T_wait \<and> \<not> go s")
  case True
  then have "thread_step cf t ret s = s" by (auto simp: thread_step_def exited_def)
  then show ?thesis using t_inv_Suc [OF i] by simp
next
  case False
  then have p: "thr s t \<noteq> T_none" "\<not> exited (thr s t)" by auto
  then have t: "t < unat (nbthreads cf)" using t_invD(2) [OF i, of t] by (cases "t < unat (nbthreads cf)") auto
  note rd = reader_word [OF t]
  note D = t_invD [OF i]
  show ?thesis
  proof (cases "thr s t")
    case T_start
    then have "thread_step cf t ret s = s\<lparr>ready := ready s + 1, thr := (thr s)(t := T_wait)\<rparr>" by (simp add: thread_step_def)
    moreover have "t_inv cf (Suc k) \<dots>" by (rule t_inv_upd [OF i p]) (auto simp: T_start state_defs)
    ultimately show ?thesis by simp
  next
    case T_wait
    then have "thread_step cf t ret s = s\<lparr>ready := ready s, thr := (thr s)(t := T_round 0)\<rparr>" "go s"
      using False by (simp_all add: thread_step_def)
    moreover from this(2) have "t_inv cf (Suc k) (s\<lparr>ready := ready s, thr := (thr s)(t := T_round 0)\<rparr>)"
      by (intro t_inv_upd [OF i p]) (auto simp: T_wait state_defs)
    ultimately show ?thesis by simp
  next
    case (T_round j)
    have j: "unat j \<le> k" "go s" using D(6) [of t j] D(5) [of t] T_round by (auto simp: working_def)
    let ?p = "if unat (nbupdaters cf) \<le> t then (if NB_TEST \<le> j then T_exit j else next_round j) else T_check j"
    consider "nbkeys cf = 0" | "nbkeys cf \<noteq> 0" "\<not> ret" | "nbkeys cf \<noteq> 0" ret by blast
    then show ?thesis
    proof cases
      case 1
      then have "thread_step cf t ret s = s\<lparr>crashed := True\<rparr>" using T_round by (simp add: thread_step_def)
      moreover have "t_inv cf (Suc k) (s\<lparr>crashed := True\<rparr>)"
        using t_inv_Suc [OF i] by (simp add: t_inv_def main_inv_def split: mpc.splits)
      ultimately show ?thesis by simp
    next
      case 2
      then have "thread_step cf t ret s = s" using T_round by (simp add: thread_step_def)
      then show ?thesis using t_inv_Suc [OF i] by simp
    next
      case 3
      have "thread_step cf t ret s = s\<lparr>ready := ready s, thr := (thr s)(t := ?p)\<rparr>"
        using T_round rd 3 by (simp add: thread_step_def)
      moreover have "t_inv cf (Suc k) \<dots>"
      proof (cases "unat (nbupdaters cf) \<le> t")
        case True
        have jn: "j \<le> NB_TEST" using D(8) [OF True T_round] .
        show ?thesis
        proof (cases "NB_TEST \<le> j")
          case ge: True
          then have "j = NB_TEST" using jn by simp
          then show ?thesis using True ge j(2) by (intro t_inv_upd [OF i p]) (auto simp: T_round state_defs)
        next
          case lt: False
          then have "next_round j = T_round (j + 1)" "j + 1 \<le> NB_TEST" "j + 1 \<noteq> 0"
            using NB_TEST_next [of j] less_max_inc [of j NB_TEST] by simp_all
          then show ?thesis using True lt j unat_inc [of j] by (intro t_inv_upd [OF i p]) (auto simp: T_round state_defs)
        qed
      next
        case False
        then show ?thesis using j by (intro t_inv_upd [OF i p]) (auto simp: T_round state_defs)
      qed
      ultimately show ?thesis by simp
    qed
  next
    case (T_check j)
    have j: "unat j \<le> k" "go s" "t < unat (nbupdaters cf)"
      using D(6) [of t j] D(5) [of t] D(7) [of t j] T_check by (auto simp: working_def)
    let ?p = "if finished s then T_exit j else next_round j"
    have "thread_step cf t ret s = s\<lparr>ready := ready s, thr := (thr s)(t := ?p)\<rparr>"
      using T_check by (simp add: thread_step_def)
    moreover have "t_inv cf (Suc k) \<dots>"
      using next_round_cases [of j] j by (intro t_inv_upd [OF i p]) (auto simp: T_check state_defs split: if_splits)
    ultimately show ?thesis by simp
  next
    case (T_exit j)
    then show ?thesis using p by (simp add: exited_def)
  qed (use p in simp)
qed

lemma main_step_inv:
  assumes i: "t_inv cf k s" and nt: "nbupdaters cf < nbthreads cf"
  shows "t_inv cf k (main_step cf s)"
proof -
  note D = t_invD [OF i]
  let ?n = "unat (nbthreads cf)" and ?m = "unat (nbupdaters cf)"
  have nm: "?m < ?n" using nt by (simp add: word_less_nat_alt)
  have mpc_only: "t_inv cf k (s\<lparr>mpc := p\<rparr>)"
    if "main_inv ?n ?m (s\<lparr>mpc := p\<rparr>)" "p \<notin> range M_create \<Longrightarrow> mpc s \<notin> range M_create \<or> (\<forall>t<?n. thr s t \<noteq> T_none)" for p
    using i that unfolding t_inv_def by auto
  show ?thesis
  proof (cases "mpc s")
    case (M_create j)
    have j: "j \<le> ?n" "\<not> go s" "\<not> finished s" "\<And>t. thr s t = T_none \<longleftrightarrow> j \<le> t"
      using D(1) M_create by (simp_all add: main_inv_def)
    show ?thesis
    proof (cases "j < ?n")
      case True
      let ?s = "s\<lparr>thr := (thr s)(j := T_start), mpc := M_create (Suc j)\<rparr>"
      have "main_step cf s = ?s" using M_create True by (simp add: main_step_def)
      have nj: "thr s j = T_none" using j(4) by simp
      have ar: "arrived (thr ?s t) \<longleftrightarrow> arrived (thr s t)" for t using nj by (auto simp: state_defs)
      have "thr ?s t = T_none \<longleftrightarrow> Suc j \<le> t" for t using j(4) [of t] by (cases "t = j") auto
      then have "main_inv ?n ?m ?s" using j(2,3) True by (simp add: main_inv_def)
      moreover have "?n \<le> t \<Longrightarrow> thr ?s t = T_none" for t using D(2) [of t] True by (cases "t = j") auto
      moreover have "ready ?s = of_nat (card {t. arrived (thr ?s t)})" using D(4) by (simp only: ar) simp
      moreover have "working (thr ?s t) \<Longrightarrow> go ?s" for t using D(5) [of t] by (cases "t = j") (auto simp: state_defs)
      moreover have "thr ?s t = T_round v \<or> thr ?s t = T_check v \<Longrightarrow> unat v \<le> k" for t v using D(6) [of t v] by (cases "t = j") auto
      moreover have "thr ?s t = T_check v \<Longrightarrow> t < ?m" for t v using D(7) [of t v] by (cases "t = j") auto
      moreover have "?m \<le> t \<Longrightarrow> thr ?s t = T_round v \<Longrightarrow> v \<le> NB_TEST" for t v using D(8) [of t v] by (cases "t = j") auto
      moreover have "?m \<le> t \<Longrightarrow> thr ?s t = T_exit v \<Longrightarrow> v = NB_TEST" for t v using D(9) [of t v] by (cases "t = j") auto
      moreover have "k < 2 ^ 64 \<Longrightarrow> t < ?m \<Longrightarrow> exited (thr ?s t) \<Longrightarrow> finished ?s" for t
        using D(10) [of t] by (cases "t = j") (auto simp: state_defs)
      ultimately have "t_inv cf k ?s" unfolding t_inv_def by simp
      then show ?thesis using \<open>main_step cf s = ?s\<close> by simp
    next
      case False
      then have "main_step cf s = s\<lparr>mpc := M_ready\<rparr>" using M_create by (simp add: main_step_def)
      moreover have "t_inv cf k (s\<lparr>mpc := M_ready\<rparr>)" by (rule mpc_only) (use j False in \<open>auto simp: main_inv_def\<close>)
      ultimately show ?thesis by simp
    qed
  next
    case M_ready
    show ?thesis
    proof (cases "ready s = nbthreads cf")
      case False
      then show ?thesis using i M_ready by (simp add: main_step_def)
    next
      case True
      let ?A = "{t. arrived (thr s t)}"
      have le: "card ?A \<le> ?n" using card_mono [OF _ arrived_less [OF i]] by simp
      have "?n < 2 ^ 64" using unsigned_less [of "nbthreads cf"] by simp
      moreover have "unat (of_nat (card ?A) :: u64) = ?n" using D(4) True by simp
      ultimately have "card ?A = ?n" using le unfolding unat_of_nat by simp
      then have "?A = {..<?n}" using card_subset_eq [OF _ arrived_less [OF i]] by simp
      then have ar: "\<forall>t<?n. arrived (thr s t)" by blast
      have "main_step cf s = s\<lparr>mpc := M_go\<rparr>" using M_ready True by (simp add: main_step_def)
      moreover have "t_inv cf k (s\<lparr>mpc := M_go\<rparr>)"
        by (rule mpc_only) (use D(1) M_ready ar in \<open>auto simp: main_inv_def\<close>)
      ultimately show ?thesis by simp
    qed
  next
    case M_go
    let ?s = "s\<lparr>go := True, mpc := M_join ?n\<rparr>"
    have "main_inv ?n ?m ?s" using D(1) M_go nm by (auto simp: main_inv_def)
    then have "t_inv cf k ?s" using i M_go unfolding t_inv_def by auto
    then show ?thesis using M_go by (simp add: main_step_def)
  next
    case (M_join j)
    have J: "j \<le> ?n" "go s" "finished s \<longleftrightarrow> j \<le> ?m" "\<forall>t<?n. arrived (thr s t)" "\<forall>t<?n. j \<le> t \<longrightarrow> exited (thr s t)"
      using D(1) M_join by (simp_all add: main_inv_def)
    show ?thesis
    proof (cases "j = 0 \<or> \<not> exited (thr s (j - 1))")
      case True
      then have "main_step cf s = s"
        using M_join by (auto simp: main_step_def exited_def split: nat.split tpc.split)
      then show ?thesis using i by simp
    next
      case False
      then obtain h v where h: "j = Suc h" "thr s h = T_exit v" by (cases j) (auto simp: exited_def)
      let ?p = "if h = ?m then M_stop h else M_join h"
      have "main_step cf s = s\<lparr>mpc := ?p\<rparr>" using M_join h by (simp add: main_step_def)
      moreover have "t_inv cf k (s\<lparr>mpc := ?p\<rparr>)"
      proof (rule mpc_only)
        have "\<forall>t<?n. h \<le> t \<longrightarrow> exited (thr s t)" using J(5) h by (metis Suc_leI exited_def le_neq_implies_less)
        then show "main_inv ?n ?m (s\<lparr>mpc := ?p\<rparr>)" using J h by (auto simp: main_inv_def)
      qed (use M_join in auto)
      ultimately show ?thesis by simp
    qed
  next
    case (M_stop j)
    let ?s = "s\<lparr>finished := True, mpc := M_join j\<rparr>"
    have "main_inv ?n ?m ?s" using D(1) M_stop nm by (auto simp: main_inv_def)
    then have "t_inv cf k ?s" using i M_stop unfolding t_inv_def by auto
    then show ?thesis using M_stop by (simp add: main_step_def)
  qed
qed

lemma t_init_inv: "t_inv cf 0 t_init"
  by (auto simp: t_inv_def t_init_def main_inv_def state_defs)

lemma t_exec_inv:
  "t_inv cf k s \<Longrightarrow> nbupdaters cf < nbthreads cf \<Longrightarrow> t_inv cf (k + length as) (t_exec cf as s)"
proof (induction as arbitrary: k s)
  case (Cons a as)
  have "t_inv cf (Suc k) (t_step cf a s)"
    using thread_step_inv [OF Cons.prems(1)] t_inv_Suc [OF main_step_inv [OF Cons.prems]]
      t_inv_Suc [OF Cons.prems(1)] by (simp add: t_step_def split: tact.split)
  then show ?case using Cons.IH [of "Suc k"] Cons.prems(2) by (simp add: t_exec_def)
qed (simp add: t_exec_def)

end
