(* ===== verification/Test_Machine_Properties.thy ===== *)
theory Test_Machine_Properties imports Test_Machine begin

text \<open>
  What \<open>test\<close> guarantees: nobody starts before everybody is ready, the updaters run as
  long as there are readers, and \<open>test\<close> returns under every schedule in which everybody
  keeps moving and every operation returns.
\<close>

section \<open>Progress\<close>

text \<open>
  How far a thread and the main thread are from the end.  An updater that has not been
  told to stop goes round at the same distance.
\<close>

definition t_rank :: "conf \<Rightarrow> tsys \<Rightarrow> nat \<Rightarrow> nat" where
  "t_rank cf s t = (if unat (nbupdaters cf) \<le> t
     then (case thr s t of T_none \<Rightarrow> unat NB_TEST + 4 | T_start \<Rightarrow> unat NB_TEST + 3 | T_wait \<Rightarrow> unat NB_TEST + 2
       | T_round i \<Rightarrow> unat NB_TEST - unat i + 1 | T_check i \<Rightarrow> 1 | T_exit i \<Rightarrow> 0)
     else (case thr s t of T_none \<Rightarrow> 6 | T_start \<Rightarrow> 5 | T_wait \<Rightarrow> 4 | T_round i \<Rightarrow> 2
       | T_check i \<Rightarrow> (if finished s then 1 else 2) | T_exit i \<Rightarrow> 0))"

definition m_rank :: "nat \<Rightarrow> mpc \<Rightarrow> nat" where
  "m_rank n p = (case p of M_create i \<Rightarrow> 2 * n + 3 + (n - i) | M_ready \<Rightarrow> 2 * n + 2 | M_go \<Rightarrow> 2 * n + 1
     | M_join i \<Rightarrow> 2 * i | M_stop i \<Rightarrow> 2 * i + 1)"

definition distance :: "conf \<Rightarrow> tsys \<Rightarrow> nat" where
  "distance cf s = m_rank (unat (nbthreads cf)) (mpc s) + (\<Sum>t<unat (nbthreads cf). t_rank cf s t)"

text \<open>There are keys, and no round has divided by their number when there were none.\<close>

definition alive :: "conf \<Rightarrow> tsys \<Rightarrow> bool" where
  "alive cf s \<longleftrightarrow> nbkeys cf \<noteq> 0 \<and> \<not> crashed s"

lemma crashed_main: "crashed (main_step cf s) = crashed s"
proof (cases "mpc s")
  case (M_join j)
  then show ?thesis by (cases j) (simp_all add: main_step_def split: tpc.split)
qed (simp_all add: main_step_def)

lemma alive_step: "alive cf s \<Longrightarrow> alive cf (t_step cf a s)"
proof (cases a)
  case (Thread t ret)
  then show "alive cf s \<Longrightarrow> ?thesis"
    by (cases "thr s t") (simp_all add: alive_def t_step_def thread_step_def)
qed (simp add: alive_def t_step_def crashed_main)

lemma alive_exec: "alive cf s \<Longrightarrow> alive cf (t_exec cf as s)"
proof (induction as arbitrary: s)
  case (Cons a as)
  then show ?case using Cons.IH [OF alive_step [OF Cons.prems]] by (simp add: t_exec_def)
qed (simp add: t_exec_def)

text \<open>The steps that bring the end nearer.\<close>

definition helpful :: "conf \<Rightarrow> tsys \<Rightarrow> tact \<Rightarrow> bool" where
  "helpful cf s a = (case a of
     Main \<Rightarrow> (case mpc s of M_create i \<Rightarrow> True | M_ready \<Rightarrow> ready s = nbthreads cf | M_go \<Rightarrow> True
       | M_join i \<Rightarrow> 0 < i \<and> exited (thr s (i - 1)) | M_stop i \<Rightarrow> True)
   | Thread t ret \<Rightarrow> t < unat (nbthreads cf) \<and> (case thr s t of T_start \<Rightarrow> True | T_wait \<Rightarrow> go s
       | T_round i \<Rightarrow> ret \<and> (unat (nbupdaters cf) \<le> t \<or> finished s) | T_check i \<Rightarrow> finished s | _ \<Rightarrow> False))"

lemma sum_upd_less:
  fixes t n :: nat
  assumes "t < n" and "\<And>u. u \<noteq> t \<Longrightarrow> g u = f u" and "g t < f t"
  shows "(\<Sum>u<n. g u) < (\<Sum>u<n. f u :: nat)"
proof (rule sum_strict_mono_ex1)
  have "g u \<le> f u" for u using assms(2) [of u] assms(3) by (cases "u = t") simp_all
  then show "\<forall>u\<in>{..<n}. g u \<le> f u" by blast
  show "\<exists>u\<in>{..<n}. g u < f u" using assms(1,3) by blast
qed simp

lemma helpful_less:
  assumes i: "t_inv cf k s" and al: "alive cf s" and h: "helpful cf s a"
  shows "distance cf (t_step cf a s) < distance cf s"
proof (cases a)
  case (Thread t ret)
  have nk: "nbkeys cf \<noteq> 0" and nc: "\<not> crashed s" using al by (simp_all add: alive_def)
  from Thread have t: "t < unat (nbthreads cf)" using h by (simp add: helpful_def)
  note rd = reader_word [OF t]
  let ?s = "thread_step cf t ret s"
  have u: "t_rank cf ?s v = t_rank cf s v" if "v \<noteq> t" for v
    using that nk by (cases "thr s t") (simp_all add: t_rank_def thread_step_def)
  have "t_rank cf ?s t < t_rank cf s t"
  proof (cases "thr s t")
    case (T_round j)
    show ?thesis
    proof (cases "unat (nbupdaters cf) \<le> t \<and> \<not> NB_TEST \<le> j")
      case True
      then have lt: "j < NB_TEST" by (metis not_le)
      have "next_round j = T_round (j + 1)" "j < NB_TEST" "j + 1 \<noteq> 0"
        using NB_TEST_next [OF lt] less_max_inc [OF lt] lt by blast+
      moreover from this have "unat (j + 1) = unat j + 1" "unat j < unat NB_TEST"
        by (simp_all add: unat_inc word_less_nat_alt)
      moreover have ret using T_round h Thread by (simp add: helpful_def)
      ultimately show ?thesis using T_round True rd nk by (simp add: t_rank_def thread_step_def)
    next
      case False
      then show ?thesis using T_round rd h Thread nk by (auto simp: t_rank_def thread_step_def helpful_def)
    qed
  next
    case (T_check j)
    then show ?thesis using h Thread by (auto simp: t_rank_def thread_step_def helpful_def)
  qed (use h Thread in \<open>auto simp: t_rank_def thread_step_def helpful_def\<close>)
  then have "(\<Sum>v<unat (nbthreads cf). t_rank cf ?s v) < (\<Sum>v<unat (nbthreads cf). t_rank cf s v)"
    by (intro sum_upd_less [OF t u])
  moreover have "mpc ?s = mpc s" by (auto simp: thread_step_def Let_def split: tpc.split)
  ultimately show ?thesis using Thread nc by (simp add: distance_def t_step_def)
next
  case Main
  have nc: "\<not> crashed s" using al by (simp add: alive_def)
  let ?s = "main_step cf s" and ?n = "unat (nbthreads cf)"
  note D = t_invD(1) [OF i]
  have le: "t_rank cf ?s t \<le> t_rank cf s t" for t
  proof (cases "mpc s")
    case (M_create j)
    then have "thr s j = T_none" using D by (simp add: main_inv_def)
    then show ?thesis using M_create by (simp add: main_step_def t_rank_def)
  next
    case (M_join j)
    then show ?thesis by (simp add: main_step_def t_rank_def split: nat.split tpc.split)
  next
    case (M_stop j)
    then show ?thesis by (simp add: main_step_def t_rank_def split: tpc.split)
  qed (simp_all add: main_step_def t_rank_def)
  have "m_rank ?n (mpc ?s) < m_rank ?n (mpc s)"
  proof (cases "mpc s")
    case (M_join j)
    then obtain m v where "j = Suc m" "thr s m = T_exit v"
      using h Main by (cases j) (auto simp: helpful_def exited_def)
    then show ?thesis using M_join by (simp add: main_step_def m_rank_def)
  qed (use h Main D in \<open>auto simp: main_step_def m_rank_def helpful_def main_inv_def\<close>)
  moreover have "(\<Sum>t<?n. t_rank cf ?s t) \<le> (\<Sum>t<?n. t_rank cf s t)" by (rule sum_mono) (rule le)
  ultimately show ?thesis using Main nc by (simp add: distance_def t_step_def)
qed

text \<open>The others do not move it away, nor take away the help of anyone.\<close>

lemma unhelpful_keeps:
  assumes i: "t_inv cf k s" and al: "alive cf s" and h: "\<not> helpful cf s a"
  shows "distance cf (t_step cf a s) < distance cf s \<or>
    distance cf (t_step cf a s) = distance cf s \<and> mpc (t_step cf a s) = mpc s \<and>
    (\<forall>b. helpful cf s b \<longrightarrow> helpful cf (t_step cf a s) b)"
proof (cases "t_step cf a s = s")
  case False
  have nk: "nbkeys cf \<noteq> 0" and nc: "\<not> crashed s" using al by (simp_all add: alive_def)
  obtain t ret where a: "a = Thread t ret"
  proof (cases a)
    case Main
    then have "main_step cf s = s" using h
      by (auto simp: helpful_def main_step_def exited_def split: mpc.splits nat.split tpc.split)
    then show ?thesis using False Main by (simp add: t_step_def)
  qed (use that in blast)
  have ne: "thread_step cf t ret s \<noteq> s" using False a nc by (simp add: t_step_def)
  have "thr s t \<noteq> T_none" using ne by (auto simp: thread_step_def)
  then have t: "t < unat (nbthreads cf)" using t_invD(2) [OF i, of t] by (cases "t < unat (nbthreads cf)") auto
  note rd = reader_word [OF t]
  have up: "t < unat (nbupdaters cf)" "\<not> finished s" "(\<exists>j. thr s t = T_round j) \<or> (\<exists>j. thr s t = T_check j)"
  proof -
    have "t < unat (nbupdaters cf) \<and> \<not> finished s \<and> ((\<exists>j. thr s t = T_round j) \<or> (\<exists>j. thr s t = T_check j))"
      using ne h a t t_invD(7) [OF i, of t] nk by (cases "thr s t") (auto simp: thread_step_def helpful_def split: if_splits)
    then show "t < unat (nbupdaters cf)" "\<not> finished s" "(\<exists>j. thr s t = T_round j) \<or> (\<exists>j. thr s t = T_check j)"
      by blast+
  qed
  define p where "p = (case thr s t of T_round j \<Rightarrow> T_check j | T_check j \<Rightarrow> next_round j | q \<Rightarrow> q)"
  have st: "thread_step cf t ret s = s\<lparr>thr := (thr s)(t := p)\<rparr>"
    using up rd nk ne by (auto simp: thread_step_def p_def split: if_splits)
  have p: "p = T_exit 0 \<or> (\<exists>j. p = T_round j) \<or> (\<exists>j. p = T_check j)"
  proof -
    have n: "next_round j = T_exit 0 \<or> (\<exists>i. next_round j = T_round i)" for j using next_round_cases [of j] by blast
    from up(3) show ?thesis
    proof (elim disjE exE)
      fix j assume "thr s t = T_check j"
      then have "p = next_round j" by (simp add: p_def)
      then show ?thesis using n [of j] by auto
    qed (simp add: p_def)
  qed
  have others: "t_rank cf (s\<lparr>thr := (thr s)(t := p)\<rparr>) v = t_rank cf s v" if "v \<noteq> t" for v
    using that by (simp add: t_rank_def)
  have old: "t_rank cf s t = 2" using up by (auto simp: t_rank_def)
  show ?thesis
  proof (cases "p = T_exit 0")
    case True
    then have "t_rank cf (s\<lparr>thr := (thr s)(t := p)\<rparr>) t < t_rank cf s t" using old up(1) by (simp add: t_rank_def)
    then have "(\<Sum>v<unat (nbthreads cf). t_rank cf (s\<lparr>thr := (thr s)(t := p)\<rparr>) v) < (\<Sum>v<unat (nbthreads cf). t_rank cf s v)"
      by (intro sum_upd_less [OF t]) (simp_all add: others)
    then show ?thesis using a st nc by (simp add: t_step_def distance_def)
  next
    case False
    then have "t_rank cf (s\<lparr>thr := (thr s)(t := p)\<rparr>) t = 2" using p up(1,2) by (auto simp: t_rank_def)
    then have "t_rank cf (s\<lparr>thr := (thr s)(t := p)\<rparr>) v = t_rank cf s v" for v
      using others old by (cases "v = t") simp_all
    then have "distance cf (t_step cf a s) = distance cf s" using a st nc by (simp add: t_step_def distance_def)
    moreover have "helpful cf (t_step cf a s) b" if b: "helpful cf s b" for b
    proof (cases b)
      case Main
      have "\<not> exited (thr s t)" using up(3) by (auto simp: exited_def)
      then show ?thesis using b Main a st nc by (auto simp: helpful_def t_step_def split: mpc.splits)
    next
      case (Thread v r)
      have "v \<noteq> t"
      proof
        assume "v = t"
        then show False using b Thread up by (auto simp: helpful_def)
      qed
      then show ?thesis using b Thread a st nc by (auto simp: helpful_def t_step_def split: tpc.splits)
    qed
    ultimately show ?thesis using a st nc by (simp add: t_step_def)
  qed
qed simp

text \<open>As long as \<open>test\<close> has not returned, someone helps.\<close>

lemma someone_helps:
  assumes i: "t_inv cf k s" and m: "mpc s \<noteq> M_join 0" and nt: "nbupdaters cf < nbthreads cf"
  shows "helpful cf s Main \<or> (\<exists>t<unat (nbthreads cf). helpful cf s (Thread t True))"
proof -
  let ?n = "unat (nbthreads cf)"
  note D = t_invD [OF i]
  show ?thesis
  proof (cases "mpc s")
    case M_ready
    show ?thesis
    proof (cases "\<forall>t<?n. arrived (thr s t)")
      case True
      then have "{t. arrived (thr s t)} = {..<?n}" using arrived_less [OF i] by blast
      then have "ready s = nbthreads cf" using D(4) by simp
      then show ?thesis using M_ready by (simp add: helpful_def)
    next
      case False
      then obtain t where t: "t < ?n" "\<not> arrived (thr s t)" by blast
      moreover have "thr s t \<noteq> T_none" using D(3) [OF _ t(1)] M_ready by auto
      ultimately have "thr s t = T_start" by (cases "thr s t") (auto simp: state_defs)
      then show ?thesis using t(1) by (auto simp: helpful_def)
    qed
  next
    case (M_join j)
    then obtain h where h: "j = Suc h" using m by (cases j) auto
    have J: "j \<le> ?n" "go s" "finished s \<longleftrightarrow> j \<le> unat (nbupdaters cf)" "\<forall>t<?n. arrived (thr s t)"
      using D(1) M_join by (simp_all add: main_inv_def)
    have hn: "h < ?n" using J(1) h by simp
    show ?thesis
    proof (cases "exited (thr s h)")
      case True
      then show ?thesis using M_join h by (simp add: helpful_def)
    next
      case False
      have "arrived (thr s h)" using J(4) hn by blast
      moreover have "thr s h = T_round v \<Longrightarrow> unat (nbupdaters cf) \<le> h \<or> finished s" for v using J(3) h by auto
      moreover have "thr s h = T_check v \<Longrightarrow> finished s" for v using D(7) [of h v] J(3) h by auto
      ultimately have "helpful cf s (Thread h True)" using False hn J(2)
        by (cases "thr s h") (auto simp: helpful_def state_defs)
      then show ?thesis using hn by blast
    qed
  qed (auto simp: helpful_def)
qed

lemma step_inv: "t_inv cf k s \<Longrightarrow> nbupdaters cf < nbthreads cf \<Longrightarrow> t_inv cf (Suc k) (t_step cf a s)"
  using t_exec_inv [of cf k s "[a]"] by (simp add: t_exec_def)

lemma step_mono: "t_inv cf k s \<Longrightarrow> alive cf s \<Longrightarrow> distance cf (t_step cf a s) \<le> distance cf s"
  using helpful_less [of cf k s a] unhelpful_keeps [of cf k s a] by (cases "helpful cf s a") auto

lemma exec_mono:
  "t_inv cf k s \<Longrightarrow> nbupdaters cf < nbthreads cf \<Longrightarrow> alive cf s \<Longrightarrow>
   distance cf (t_exec cf as s) \<le> distance cf s"
proof (induction as arbitrary: k s)
  case (Cons a as)
  then show ?case using Cons.IH [OF step_inv [OF Cons.prems(1,2), of a]] alive_step [OF Cons.prems(3), of a]
      step_mono [OF Cons.prems(1,3), of a]
    by (simp add: t_exec_def)
qed (simp add: t_exec_def)

lemma helped:
  "t_inv cf k s \<Longrightarrow> nbupdaters cf < nbthreads cf \<Longrightarrow> alive cf s \<Longrightarrow> helpful cf s a \<Longrightarrow> a \<in> set as \<Longrightarrow>
   distance cf (t_exec cf as s) < distance cf s"
proof (induction as arbitrary: k s)
  case (Cons b as)
  let ?s = "t_step cf b s"
  note I = step_inv [OF Cons.prems(1,2), of b] and AL = alive_step [OF Cons.prems(3), of b]
  have e: "t_exec cf (b # as) s = t_exec cf as ?s" by (simp add: t_exec_def)
  show ?case
  proof (cases "distance cf ?s < distance cf s")
    case True
    then show ?thesis using exec_mono [OF I Cons.prems(2) AL, of as] unfolding e by simp
  next
    case False
    then have nh: "\<not> helpful cf s b" using helpful_less [OF Cons.prems(1,3)] by blast
    then have "distance cf ?s = distance cf s" "helpful cf ?s a"
      using unhelpful_keeps [OF Cons.prems(1,3) nh] False Cons.prems(4) by auto
    moreover have "a \<in> set as" using Cons.prems(4,5) nh by auto
    ultimately show ?thesis using Cons.IH [OF I Cons.prems(2) AL] unfolding e by simp
  qed
qed simp

lemma returned_stays: "mpc s = M_join 0 \<Longrightarrow> mpc (t_exec cf as s) = M_join 0"
proof (induction as arbitrary: s)
  case (Cons a as)
  have "mpc (t_step cf a s) = M_join 0"
    using Cons.prems by (auto simp: t_step_def main_step_def thread_step_def Let_def split: tact.split tpc.split)
  then show ?case using Cons.IH by (simp add: t_exec_def)
qed (simp add: t_exec_def)

lemma blocks_approach:
  assumes "nbupdaters cf < nbthreads cf"
    and "\<And>b. b \<in> set bs \<Longrightarrow> Main \<in> set b \<and> (\<forall>t<unat (nbthreads cf). Thread t True \<in> set b)"
  shows "t_inv cf k s \<Longrightarrow> alive cf s \<Longrightarrow> distance cf s \<le> length bs \<Longrightarrow> mpc (t_exec cf (concat bs) s) = M_join 0"
  using assms(2)
proof (induction bs arbitrary: k s)
  case Nil
  have "mpc s = M_join 0"
  proof (rule ccontr)
    assume "mpc s \<noteq> M_join 0"
    then obtain a where "helpful cf s a" using someone_helps [OF Nil.prems(1) _ assms(1)] by blast
    then have "distance cf (t_step cf a s) < 0" using helpful_less [OF Nil.prems(1,2)] Nil.prems(3) by fastforce
    then show False by simp
  qed
  then show ?case by (simp add: t_exec_def)
next
  case (Cons b bs)
  let ?s = "t_exec cf b s"
  have e: "t_exec cf (concat (b # bs)) s = t_exec cf (concat bs) ?s" by (simp add: t_exec_def)
  show ?case
  proof (cases "mpc s = M_join 0")
    case True
    then show ?thesis by (rule returned_stays)
  next
    case False
    have all: "Main \<in> set b" "\<And>t. t < unat (nbthreads cf) \<Longrightarrow> Thread t True \<in> set b" using Cons.prems(4) [of b] by simp_all
    obtain a where "helpful cf s a" "a \<in> set b"
      using someone_helps [OF Cons.prems(1) False assms(1)] all by blast
    then have "distance cf ?s < distance cf s" by (rule helped [OF Cons.prems(1) assms(1) Cons.prems(2)])
    then have "distance cf ?s \<le> length bs" using Cons.prems(3) by simp
    from Cons.IH [OF t_exec_inv [OF Cons.prems(1) assms(1)] alive_exec [OF Cons.prems(2)] this]
    show ?thesis unfolding e using Cons.prems(4) by simp
  qed
qed

lemma init_distance: "distance cf t_init \<le> unat (nbthreads cf) * (unat NB_TEST + 7) + 3"
proof -
  let ?n = "unat (nbthreads cf)"
  have "t_rank cf t_init t \<le> unat NB_TEST + 4" for t by (simp add: t_rank_def t_init_def NB_TEST_def)
  then have "(\<Sum>t<?n. t_rank cf t_init t) \<le> ?n * (unat NB_TEST + 4)" using sum_bounded_above [of "{..<?n}" "t_rank cf t_init" "unat NB_TEST + 4"] by simp
  moreover have "distance cf t_init = 3 * ?n + 3 + (\<Sum>t<?n. t_rank cf t_init t)"
    by (simp add: distance_def m_rank_def t_init_def)
  moreover have "?n * (unat NB_TEST + 7) = ?n * (unat NB_TEST + 4) + 3 * ?n" by (simp add: algebra_simps)
  ultimately show ?thesis by linarith
qed

section \<open>Properties\<close>

text \<open>
  C25 (the order of \<open>test\<close>): under any schedule no thread begins its rounds before every
  thread has reached the barrier; in fewer than 2^64 steps no updater returns before
  every reader has returned from its \<open>NB_TEST\<close> rounds; and when \<open>test\<close> has joined the
  threads, all have returned.
\<close>

theorem test_order:
  assumes "setup_test strtoul argv = Some cf"
  shows "let s = t_exec cf as t_init in
    (\<forall>t u. working (thr s t) \<longrightarrow> u < unat (nbthreads cf) \<longrightarrow> arrived (thr s u)) \<and>
    (\<forall>t u. length as < 2 ^ 64 \<longrightarrow> t < unat (nbupdaters cf) \<longrightarrow> exited (thr s t) \<longrightarrow>
       unat (nbupdaters cf) \<le> u \<longrightarrow> u < unat (nbthreads cf) \<longrightarrow> thr s u = T_exit NB_TEST) \<and>
    (\<forall>t. mpc s = M_join 0 \<longrightarrow> t < unat (nbthreads cf) \<longrightarrow> exited (thr s t))"
proof -
  let ?s = "t_exec cf as t_init" and ?n = "unat (nbthreads cf)" and ?m = "unat (nbupdaters cf)"
  have nt: "nbupdaters cf < nbthreads cf" using assms by (auto simp: setup_test_def Let_def split: if_splits)
  have i: "t_inv cf (length as) ?s" using t_exec_inv [OF t_init_inv nt, of as] by simp
  note D = t_invD [OF i]
  have ar: "arrived (thr ?s u)" if "go ?s" "u < ?n" for u
    using D(1) that by (cases "mpc ?s") (auto simp: main_inv_def)
  have ex: "exited (thr ?s u)" if "finished ?s" "?m \<le> u" "u < ?n" for u
    using D(1) that by (cases "mpc ?s") (auto simp: main_inv_def)
  have "thr ?s u = T_exit NB_TEST" if "finished ?s" "?m \<le> u" "u < ?n" for u
    using ex [OF that] D(9) [OF that(2)] by (auto simp: exited_def)
  moreover have "exited (thr ?s t)" if "mpc ?s = M_join 0" "t < ?n" for t using D(1) that by (simp add: main_inv_def)
  ultimately show ?thesis using ar D(5,10) unfolding Let_def by blast
qed

text \<open>
  C26 (\<open>test\<close> returns, if the operations do): with at least one key (the product of
  \<open>setup_test\<close> can wrap to 0, and then the first round crashes), under every
  schedule made of enough blocks in each of which the main thread takes a step and
  every thread takes one with which the operation of its round, if it is in one,
  returns, whatever other steps there are, \<open>test\<close> joins all threads.  That the
  operations return is what the schedule is assumed to grant: a search may retry,
  and a thread may wait for a lock, for as long as the others keep it from
  finishing.
\<close>

theorem test_returns:
  assumes "setup_test strtoul argv = Some cf" and "nbkeys cf \<noteq> 0"
    and "\<And>b. b \<in> set bs \<Longrightarrow> Main \<in> set b \<and> (\<forall>t<unat (nbthreads cf). Thread t True \<in> set b)"
    and "unat (nbthreads cf) * (unat NB_TEST + 7) + 3 \<le> length bs"
  shows "mpc (t_exec cf (concat bs) t_init) = M_join 0"
proof -
  have nt: "nbupdaters cf < nbthreads cf" using assms(1) by (auto simp: setup_test_def Let_def split: if_splits)
  have "alive cf t_init" using assms(2) by (simp add: alive_def t_init_def)
  from blocks_approach [OF nt assms(3) t_init_inv this order_trans [OF init_distance assms(4)]]
  show ?thesis .
qed

section \<open>Witnesses\<close>

definition two_args :: "string \<Rightarrow> u64" where
  "two_args a = (if a = ''2'' then 2 else 1)"

definition two_threads :: conf where
  "two_threads = \<lparr>nbthreads = 2, nbupdaters = 1, nbreaders = 1, nbbuckets = 1, pbnodes = 1, nbkeys = 1\<rparr>"

lemma two_setup: "setup_test two_args [''gecos'', ''2'', ''1'', ''1'', ''1''] = Some two_threads"
  by (simp add: setup_test_def two_args_def two_threads_def Let_def word_le_def)

text \<open>The updater, 0, is in its first round when the reader has not yet seen \<open>go\<close>.\<close>

definition early :: "tact list" where
  "early = [Main, Thread 0 False, Main, Main, Thread 1 True, Main, Main, Thread 0 False]"

lemma test_order_witness: "arrived (thr (t_exec two_threads early t_init) 1)"
proof -
  have "thr (t_exec two_threads early t_init) 0 = T_round 0"
    by (simp add: t_exec_def early_def t_step_def main_step_def thread_step_def t_init_def two_threads_def)
  then have "working (thr (t_exec two_threads early t_init) 0)" by (simp add: working_def)
  moreover have "1 < unat (nbthreads two_threads)" by (simp add: two_threads_def)
  ultimately show ?thesis using test_order [OF two_setup, of early] unfolding Let_def by blast
qed

lemma test_returns_witness:
  "mpc (t_exec two_threads (concat (replicate 4000017 [Main, Thread 0 True, Thread 1 True])) t_init) = M_join 0"
proof (rule test_returns [OF two_setup])
  show "unat (nbthreads two_threads) * (unat NB_TEST + 7) + 3 \<le> length (replicate 4000017 [Main, Thread 0 True, Thread 1 True])"
    by (simp only: length_replicate) (simp add: two_threads_def NB_TEST_def)
  show "nbkeys two_threads \<noteq> 0" by (simp add: two_threads_def)
  fix b :: "tact list" assume "b \<in> set (replicate 4000017 [Main, Thread 0 True, Thread 1 True])"
  then have "b = [Main, Thread 0 True, Thread 1 True]" by (metis in_set_replicate)
  moreover have "t < unat (nbthreads two_threads) \<Longrightarrow> t = 0 \<or> t = 1" for t by (auto simp: two_threads_def)
  ultimately show "Main \<in> set b \<and> (\<forall>t<unat (nbthreads two_threads). Thread t True \<in> set b)" by force
qed

end
