(* ===== verification/Store_Buffers.thy ===== *)
theory Store_Buffers imports Atomics begin

text \<open>
  The barriers of \<open>atomic.h\<close> and the machine they are for: x86 with total store order.
  A store goes to the thread's buffer, in order, and reaches the memory later; a load
  sees the thread's own buffer first.  Where only one thread stores, every execution is
  one of the sequentially consistent interleavings of the other theories; the hazard
  pointer list is where two threads store, and there it is not.
\<close>

section \<open>The barriers\<close>

text \<open>
  What the functions compile to: nothing, \<open>sfence\<close>, or the full barrier of
  \<open>__sync_synchronize\<close>.
\<close>

datatype barrier = No_code | Sfence | Mfence

definition compiler_barrier :: barrier where "compiler_barrier = No_code"

definition read_read_barrier :: barrier where "read_read_barrier = compiler_barrier"

definition memory_barrier :: barrier where "memory_barrier = Mfence"

definition write_read_barrier :: barrier where "write_read_barrier = Sfence"

definition write_write_barrier :: barrier where "write_write_barrier = compiler_barrier"

definition spin_lock_barrier :: barrier where "spin_lock_barrier = compiler_barrier"

definition spin_unlock_barrier :: barrier where "spin_unlock_barrier = compiler_barrier"

section \<open>Threads\<close>

text \<open>The next instruction of a thread from its local state \<open>'l\<close>; cells are of type \<open>'a\<close>.\<close>

datatype ('a, 'l) ins = Load 'a "u64 \<Rightarrow> 'l" | Store 'a u64 'l | Fence barrier 'l | Stop

type_synonym ('a, 'l) code = "nat \<Rightarrow> 'l \<Rightarrow> ('a, 'l) ins"

text \<open>The sequentially consistent machine.\<close>

record ('a, 'l) sc =
  cells :: "'a \<Rightarrow> u64"
  loc_of_thr :: "nat \<Rightarrow> 'l"

definition sc_step :: "('a, 'l) code \<Rightarrow> nat \<Rightarrow> ('a, 'l) sc \<Rightarrow> ('a, 'l) sc" where
  "sc_step p t c = (case p t (loc_of_thr c t) of
     Load a f \<Rightarrow> c\<lparr>loc_of_thr := (loc_of_thr c)(t := f (cells c a))\<rparr>
   | Store a v l \<Rightarrow> c\<lparr>cells := (cells c)(a := v), loc_of_thr := (loc_of_thr c)(t := l)\<rparr>
   | Fence b l \<Rightarrow> c\<lparr>loc_of_thr := (loc_of_thr c)(t := l)\<rparr>
   | Stop \<Rightarrow> c)"

primrec sc_exec :: "('a, 'l) code \<Rightarrow> nat list \<Rightarrow> ('a, 'l) sc \<Rightarrow> ('a, 'l) sc" where
  "sc_exec p [] c = c"
| "sc_exec p (t # ts) c = sc_exec p ts (sc_step p t c)"

text \<open>
  The machine with store buffers.  A store through \<open>sfence\<close> stays in the buffer: stores
  leave it in order anyway.  \<open>Mfence\<close> waits for it to be empty.
\<close>

record ('a, 'l) tso = "('a, 'l) sc" +
  buf :: "nat \<Rightarrow> ('a \<times> u64) list"

primrec applied :: "('a \<times> u64) list \<Rightarrow> ('a \<Rightarrow> u64) \<Rightarrow> 'a \<Rightarrow> u64" where
  "applied [] m = m"
| "applied (w # ws) m = applied ws (m(fst w := snd w))"

definition passes :: "barrier \<Rightarrow> ('a \<times> u64) list \<Rightarrow> bool" where
  "passes b ws \<longleftrightarrow> (b = Mfence \<longrightarrow> ws = [])"

datatype tact = Exec nat | Drain nat

definition tso_step :: "('a, 'l) code \<Rightarrow> tact \<Rightarrow> ('a, 'l) tso \<Rightarrow> ('a, 'l) tso" where
  "tso_step p x s = (case x of
     Exec t \<Rightarrow> (case p t (loc_of_thr s t) of
       Load a f \<Rightarrow> s\<lparr>loc_of_thr := (loc_of_thr s)(t := f (applied (buf s t) (cells s) a))\<rparr>
     | Store a v l \<Rightarrow> s\<lparr>buf := (buf s)(t := buf s t @ [(a, v)]), loc_of_thr := (loc_of_thr s)(t := l)\<rparr>
     | Fence b l \<Rightarrow> if passes b (buf s t) then s\<lparr>loc_of_thr := (loc_of_thr s)(t := l)\<rparr> else s
     | Stop \<Rightarrow> s)
   | Drain t \<Rightarrow> (case buf s t of
       [] \<Rightarrow> s
     | w # ws \<Rightarrow> s\<lparr>cells := (cells s)(fst w := snd w), buf := (buf s)(t := ws)\<rparr>))"

primrec tso_exec :: "('a, 'l) code \<Rightarrow> tact list \<Rightarrow> ('a, 'l) tso \<Rightarrow> ('a, 'l) tso" where
  "tso_exec p [] s = s"
| "tso_exec p (x # xs) s = tso_exec p xs (tso_step p x s)"

section \<open>One writer\<close>

text \<open>
  \<open>lag q m l ws l'\<close>: from local state \<open>l\<close> and memory \<open>m\<close> the writer, alone, gets to \<open>l'\<close>
  and stores \<open>ws\<close> on the way.
\<close>

inductive lag :: "('l \<Rightarrow> ('a, 'l) ins) \<Rightarrow> ('a \<Rightarrow> u64) \<Rightarrow> 'l \<Rightarrow> ('a \<times> u64) list \<Rightarrow> 'l \<Rightarrow> bool" for q where
  lag_here: "lag q m l [] l"
| lag_load: "q l = Load a f \<Longrightarrow> lag q m (f (m a)) ws l' \<Longrightarrow> lag q m l ws l'"
| lag_fence: "q l = Fence b k \<Longrightarrow> lag q m k ws l' \<Longrightarrow> lag q m l ws l'"
| lag_store: "q l = Store a v k \<Longrightarrow> lag q (m(a := v)) k ws l' \<Longrightarrow> lag q m l ((a, v) # ws) l'"

lemma lag_extend:
  assumes "lag q m l ws l'"
  shows "q l' = Load a f \<Longrightarrow> lag q m l ws (f (applied ws m a))"
    and "q l' = Fence b k \<Longrightarrow> lag q m l ws k"
    and "q l' = Store a v k \<Longrightarrow> lag q m l (ws @ [(a, v)]) k"
  using assms by (induction rule: lag.induct) (auto intro: lag.intros)

text \<open>The sequentially consistent machine catches up: over the next store, or to the end.\<close>

definition alone :: "('a, 'l) code \<Rightarrow> nat \<Rightarrow> ('a, 'l) sc \<Rightarrow> ('a, 'l) sc \<Rightarrow> bool" where
  "alone p w c d \<longleftrightarrow> (\<exists>i. sc_exec p (replicate i w) c = d)"

lemma alone_refl: "alone p w c c"
  unfolding alone_def by (rule exI [of _ 0]) simp

lemma alone_step: "alone p w (sc_step p w c) d \<Longrightarrow> alone p w c d"
  unfolding alone_def
proof (elim exE)
  fix i assume "sc_exec p (replicate i w) (sc_step p w c) = d"
  then show "\<exists>i. sc_exec p (replicate i w) c = d" by (intro exI [of _ "Suc i"]) simp
qed

lemma lag_end:
  "lag (p w) m l ws l' \<Longrightarrow> ws = [] \<Longrightarrow> cells c = m \<Longrightarrow> loc_of_thr c w = l \<Longrightarrow>
   alone p w c (c\<lparr>loc_of_thr := (loc_of_thr c)(w := l')\<rparr>)"
proof (induction arbitrary: c rule: lag.induct)
  case (lag_here m l)
  then have e: "c\<lparr>loc_of_thr := (loc_of_thr c)(w := l)\<rparr> = c" by (simp add: fun_upd_idem)
  show ?case unfolding e by (rule alone_refl)
next
  case (lag_load l a f m ws l')
  let ?c = "sc_step p w c"
  have "?c = c\<lparr>loc_of_thr := (loc_of_thr c)(w := f (m a))\<rparr>" using lag_load by (simp add: sc_step_def)
  then have e: "cells ?c = cells c" "loc_of_thr ?c w = f (m a)"
    "?c\<lparr>loc_of_thr := (loc_of_thr ?c)(w := l')\<rparr> = c\<lparr>loc_of_thr := (loc_of_thr c)(w := l')\<rparr>" by simp_all
  have "alone p w ?c (?c\<lparr>loc_of_thr := (loc_of_thr ?c)(w := l')\<rparr>)"
    by (rule lag_load.IH) (use e lag_load.prems in simp_all)
  then show ?case unfolding e(3) by (rule alone_step)
next
  case (lag_fence l b k m ws l')
  let ?c = "sc_step p w c"
  have "?c = c\<lparr>loc_of_thr := (loc_of_thr c)(w := k)\<rparr>" using lag_fence by (simp add: sc_step_def)
  then have e: "cells ?c = cells c" "loc_of_thr ?c w = k"
    "?c\<lparr>loc_of_thr := (loc_of_thr ?c)(w := l')\<rparr> = c\<lparr>loc_of_thr := (loc_of_thr c)(w := l')\<rparr>" by simp_all
  have "alone p w ?c (?c\<lparr>loc_of_thr := (loc_of_thr ?c)(w := l')\<rparr>)"
    by (rule lag_fence.IH) (use e lag_fence.prems in simp_all)
  then show ?case unfolding e(3) by (rule alone_step)
qed simp

lemma lag_drain:
  "lag (p w) m l ws l' \<Longrightarrow> ws = (a, v) # vs \<Longrightarrow> cells c = m \<Longrightarrow> loc_of_thr c w = l \<Longrightarrow>
   \<exists>k. lag (p w) (m(a := v)) k vs l' \<and> alone p w c (c\<lparr>cells := m(a := v), loc_of_thr := (loc_of_thr c)(w := k)\<rparr>)"
proof (induction arbitrary: c rule: lag.induct)
  case (lag_load l b f m ws l')
  have d: "sc_step p w c = c\<lparr>loc_of_thr := (loc_of_thr c)(w := f (m b))\<rparr>" using lag_load by (simp add: sc_step_def)
  obtain k where "lag (p w) (m(a := v)) k vs l'"
    "alone p w (sc_step p w c) (c\<lparr>cells := m(a := v), loc_of_thr := (loc_of_thr c)(w := k)\<rparr>)"
    using lag_load.IH [of "sc_step p w c"] lag_load.prems d
    by (auto simp: fun_upd_same simp del: fun_upd_apply)
  then show ?case using alone_step by blast
next
  case (lag_fence l b k m ws l')
  have d: "sc_step p w c = c\<lparr>loc_of_thr := (loc_of_thr c)(w := k)\<rparr>" using lag_fence by (simp add: sc_step_def)
  obtain j where "lag (p w) (m(a := v)) j vs l'"
    "alone p w (sc_step p w c) (c\<lparr>cells := m(a := v), loc_of_thr := (loc_of_thr c)(w := j)\<rparr>)"
    using lag_fence.IH [of "sc_step p w c"] lag_fence.prems d
    by (auto simp: fun_upd_same simp del: fun_upd_apply)
  then show ?case using alone_step by blast
next
  case (lag_store l b u k m ws l')
  have "sc_step p w c = c\<lparr>cells := m(a := v), loc_of_thr := (loc_of_thr c)(w := k)\<rparr>"
    using lag_store by (simp add: sc_step_def)
  then have "alone p w c (c\<lparr>cells := m(a := v), loc_of_thr := (loc_of_thr c)(w := k)\<rparr>)"
    using alone_step alone_refl by metis
  then show ?case using lag_store by blast
qed simp

text \<open>The memories agree, everybody but the writer stands where it stands, the writer may be ahead.\<close>

definition follows :: "('a, 'l) code \<Rightarrow> nat \<Rightarrow> ('a, 'l) tso \<Rightarrow> ('a, 'l) sc \<Rightarrow> bool" where
  "follows p w s c \<longleftrightarrow> cells c = cells s \<and> (\<forall>t. t \<noteq> w \<longrightarrow> buf s t = [] \<and> loc_of_thr c t = loc_of_thr s t) \<and>
     lag (p w) (cells s) (loc_of_thr c w) (buf s w) (loc_of_thr s w)"

lemma sc_exec_append: "sc_exec p (xs @ ys) c = sc_exec p ys (sc_exec p xs c)"
  by (induction xs arbitrary: c) simp_all

lemma follows_step:
  assumes F: "follows p w s c" and one: "\<And>t l a v k. t \<noteq> w \<Longrightarrow> p t l \<noteq> Store a v k"
  shows "\<exists>ts. follows p w (tso_step p x s) (sc_exec p ts c)"
proof -
  have m: "cells c = cells s" and o: "\<And>t. t \<noteq> w \<Longrightarrow> buf s t = [] \<and> loc_of_thr c t = loc_of_thr s t"
    and l: "lag (p w) (cells s) (loc_of_thr c w) (buf s w) (loc_of_thr s w)"
    using F by (auto simp: follows_def)
  have stay: ?thesis if "follows p w (tso_step p x s) c" using that by (intro exI [of _ "[]"]) simp
  show ?thesis
  proof (cases x)
    case (Exec t)
    show ?thesis
    proof (cases "t = w")
      case True
      show ?thesis
      proof (rule stay, cases "p w (loc_of_thr s w)")
        case (Load a f)
        then show "follows p w (tso_step p x s) c"
          using m o lag_extend(1) [OF l] Exec True by (simp add: follows_def tso_step_def)
      next
        case (Store a v k)
        then show "follows p w (tso_step p x s) c"
          using m o lag_extend(3) [OF l] Exec True by (simp add: follows_def tso_step_def)
      next
        case (Fence b k)
        then show "follows p w (tso_step p x s) c"
          using m o l lag_extend(2) [OF l] Exec True by (simp add: follows_def tso_step_def)
      next
        case Stop
        then show "follows p w (tso_step p x s) c" using F Exec True by (simp add: tso_step_def)
      qed
    next
      case False
      then have "follows p w (tso_step p x s) (sc_exec p [t] c)"
        using m o [of t] o l one [OF False] Exec
        by (cases "p t (loc_of_thr s t)") (auto simp: follows_def tso_step_def sc_step_def passes_def)
      then show ?thesis by blast
    qed
  next
    case (Drain t)
    show ?thesis
    proof (cases "buf s t")
      case Nil
      then show ?thesis using stay F Drain by (simp add: tso_step_def)
    next
      case (Cons e vs)
      then have t: "t = w" using o [of t] by (cases "t = w") simp_all
      obtain a v where e: "e = (a, v)" by force
      have ws: "buf s w = (a, v) # vs" using Cons t e by simp
      obtain k i where k: "lag (p w) ((cells s)(a := v)) k vs (loc_of_thr s w)"
        "sc_exec p (replicate i w) c = c\<lparr>cells := (cells s)(a := v), loc_of_thr := (loc_of_thr c)(w := k)\<rparr>"
        using lag_drain [where p = p and w = w, OF l ws m] unfolding alone_def by blast
      have "follows p w (tso_step p x s) (sc_exec p (replicate i w) c)"
        unfolding k(2) using k(1) o ws Drain t by (simp add: follows_def tso_step_def)
      then show ?thesis by blast
    qed
  qed
qed

lemma follows_exec:
  assumes "follows p w s c" and "\<And>t l a v k. t \<noteq> w \<Longrightarrow> p t l \<noteq> Store a v k"
  shows "\<exists>ts. follows p w (tso_exec p xs s) (sc_exec p ts c)"
  using assms(1)
proof (induction xs arbitrary: s c)
  case Nil
  then show ?case by (intro exI [of _ "[]"]) simp
next
  case (Cons x xs)
  obtain ts where "follows p w (tso_step p x s) (sc_exec p ts c)" using follows_step [OF Cons.prems assms(2)] by blast
  from Cons.IH [OF this] obtain us where "follows p w (tso_exec p xs (tso_step p x s)) (sc_exec p us (sc_exec p ts c))"
    by blast
  then show ?case by (intro exI [of _ "ts @ us"]) (simp add: sc_exec_append)
qed

text \<open>
  With one thread that stores, what the others see on the machine with buffers is what
  they see in some interleaving without; and when the buffer is empty, so is the rest.
\<close>

theorem single_writer:
  assumes one: "\<And>t l a v k. t \<noteq> w \<Longrightarrow> p t l \<noteq> Store a v k" and b: "\<And>t. buf s t = []"
  shows "\<exists>ts. cells (sc_exec p ts (sc.truncate s)) = cells (tso_exec p xs s) \<and>
    (\<forall>t. t \<noteq> w \<or> buf (tso_exec p xs s) w = [] \<longrightarrow>
      loc_of_thr (sc_exec p ts (sc.truncate s)) t = loc_of_thr (tso_exec p xs s) t)"
proof -
  have "follows p w s (sc.truncate s)" using b by (simp add: follows_def sc.truncate_def lag_here)
  from follows_exec [OF this one] obtain ts
    where F: "follows p w (tso_exec p xs s) (sc_exec p ts (sc.truncate s))" by blast
  let ?s = "tso_exec p xs s" and ?c = "sc_exec p ts (sc.truncate s)"
  show ?thesis
  proof (cases "buf ?s w = []")
    case False
    then show ?thesis using F by (intro exI [of _ ts]) (auto simp: follows_def)
  next
    case True
    have "lag (p w) (cells ?s) (loc_of_thr ?c w) [] (loc_of_thr ?s w)" using F True by (simp add: follows_def)
    from lag_end [where p = p and w = w, OF this HOL.refl] obtain i
      where "sc_exec p (replicate i w) ?c = ?c\<lparr>loc_of_thr := (loc_of_thr ?c)(w := loc_of_thr ?s w)\<rparr>"
      using F unfolding alone_def follows_def by blast
    then have "sc_exec p (ts @ replicate i w) (sc.truncate s) =
        ?c\<lparr>loc_of_thr := (loc_of_thr ?c)(w := loc_of_thr ?s w)\<rparr>" by (simp add: sc_exec_append)
    then show ?thesis using F by (intro exI [of _ "ts @ replicate i w"]) (auto simp: follows_def)
  qed
qed

lemma single_writer_others:
  assumes "\<And>u l a v k. u \<noteq> w \<Longrightarrow> p u l \<noteq> Store a v k" and "\<And>u. buf s u = []" and "t \<noteq> w"
  shows "\<exists>ts. loc_of_thr (sc_exec p ts (sc.truncate s)) t = loc_of_thr (tso_exec p xs s) t"
  using single_writer [where p = p and w = w and s = s and xs = xs, OF assms(1,2)] assms(3) by blast

end
