(* ===== verification/Store_Order.thy ===== *)
theory Store_Order imports Store_Buffers begin

text \<open>
  Two fragments of the lists on the machine with store buffers: how \<open>insert\<close> publishes a
  node, which the order of stores makes safe, and how the hazard pointer search announces
  one, which the barriers of the code do not.
\<close>

section \<open>Publishing a node\<close>

text \<open>The link that \<open>prev\<close> points to, and the two fields of the new node.\<close>

datatype pcell = Link | Key_field | Next_field

text \<open>Where a thread is, and what it has loaded from the link, the key and the next field.\<close>

record plocal =
  p_pc :: nat
  p_link :: u64
  p_key :: u64
  p_next :: u64

text \<open>
  Thread 0 runs \<open>new->key = key; new->next = cur; write_write_barrier(); *prev = new\<close>.
  Every other thread loads the link and, where it finds the new node, its fields.
\<close>

definition publish_code :: "u64 \<Rightarrow> u64 \<Rightarrow> u64 \<Rightarrow> (pcell, plocal) code" where
  "publish_code new k c t l =
     (if t = 0 then
        (if p_pc l = 0 then Store Key_field k (l\<lparr>p_pc := 1\<rparr>)
         else if p_pc l = 1 then Store Next_field c (l\<lparr>p_pc := 2\<rparr>)
         else if p_pc l = 2 then Fence write_write_barrier (l\<lparr>p_pc := 3\<rparr>)
         else if p_pc l = 3 then Store Link new (l\<lparr>p_pc := 4\<rparr>)
         else Stop)
      else
        (if p_pc l = 0 then Load Link (\<lambda>v. l\<lparr>p_link := v, p_pc := if v = new then 1 else 4\<rparr>)
         else if p_pc l = 1 then Load Key_field (\<lambda>v. l\<lparr>p_key := v, p_pc := 2\<rparr>)
         else if p_pc l = 2 then Load Next_field (\<lambda>v. l\<lparr>p_next := v, p_pc := 3\<rparr>)
         else Stop))"

definition publish_start :: "(pcell \<Rightarrow> u64) \<Rightarrow> (pcell, plocal) tso" where
  "publish_start m = \<lparr>cells = m, loc_of_thr = (\<lambda>_. \<lparr>p_pc = 0, p_link = 0, p_key = 0, p_next = 0\<rparr>), buf = (\<lambda>_. [])\<rparr>"

text \<open>In an interleaving without buffers.\<close>

definition stored_by :: "u64 \<Rightarrow> u64 \<Rightarrow> u64 \<Rightarrow> nat \<Rightarrow> (pcell \<Rightarrow> u64) \<Rightarrow> bool" where
  "stored_by new k c w m \<longleftrightarrow> (w < 4 \<longrightarrow> m Link \<noteq> new) \<and> (1 \<le> w \<longrightarrow> m Key_field = k) \<and> (2 \<le> w \<longrightarrow> m Next_field = c)"

definition seen_by :: "u64 \<Rightarrow> u64 \<Rightarrow> nat \<Rightarrow> plocal \<Rightarrow> bool" where
  "seen_by k c w l \<longleftrightarrow> (p_pc l \<in> {1, 2, 3} \<longrightarrow> 4 \<le> w) \<and> (p_pc l \<in> {2, 3} \<longrightarrow> p_key l = k) \<and> (p_pc l = 3 \<longrightarrow> p_next l = c)"

definition publish_inv :: "u64 \<Rightarrow> u64 \<Rightarrow> u64 \<Rightarrow> (pcell, plocal) sc \<Rightarrow> bool" where
  "publish_inv new k c s \<longleftrightarrow> stored_by new k c (p_pc (loc_of_thr s 0)) (cells s) \<and>
     (\<forall>t. t \<noteq> 0 \<longrightarrow> seen_by k c (p_pc (loc_of_thr s 0)) (loc_of_thr s t))"

lemma publish_inv_step:
  assumes i: "publish_inv new k c s"
  shows "publish_inv new k c (sc_step (publish_code new k c) t s)"
proof -
  let ?w = "p_pc (loc_of_thr s 0)" and ?s = "sc_step (publish_code new k c) t s"
  have W: "stored_by new k c ?w (cells s)" and R: "\<And>u. u \<noteq> 0 \<Longrightarrow> seen_by k c ?w (loc_of_thr s u)"
    using i by (auto simp: publish_inv_def)
  show ?thesis
  proof (cases "t = 0")
    case True
    have W': "stored_by new k c (p_pc (loc_of_thr ?s 0)) (cells ?s)" "?w \<le> p_pc (loc_of_thr ?s 0)"
      using W True by (auto simp: sc_step_def publish_code_def stored_by_def)
    have same: "loc_of_thr ?s u = loc_of_thr s u" if "u \<noteq> 0" for u
      using True that by (simp add: sc_step_def publish_code_def)
    have up: "seen_by k c w' l" if "seen_by k c w l" "w \<le> w'" for w w' l
      using that by (auto simp: seen_by_def)
    have "seen_by k c (p_pc (loc_of_thr ?s 0)) (loc_of_thr ?s u)" if "u \<noteq> 0" for u
      using up [OF R [OF that] W'(2)] same [OF that] by simp
    then show ?thesis using W'(1) unfolding publish_inv_def by blast
  next
    case False
    have same: "cells ?s = cells s" "loc_of_thr ?s 0 = loc_of_thr s 0"
      "\<And>u. u \<noteq> t \<Longrightarrow> loc_of_thr ?s u = loc_of_thr s u"
      using False by (simp_all add: sc_step_def publish_code_def)
    have "seen_by k c ?w (loc_of_thr ?s t)"
      using R [OF False] W False by (auto simp: sc_step_def publish_code_def seen_by_def stored_by_def)
    then show ?thesis using W R same unfolding publish_inv_def by (metis (no_types))
  qed
qed

lemma publish_inv_exec: "publish_inv new k c s \<Longrightarrow> publish_inv new k c (sc_exec (publish_code new k c) ts s)"
  by (induction ts arbitrary: s) (simp_all add: publish_inv_step)

text \<open>
  C39 (publication): whatever the schedule of instructions and buffers, any number of
  threads that find the new node through the link load the key and the next pointer
  \<open>insert\<close> stored before, never the fields of the recycled node.
\<close>

theorem publish_seen:
  assumes "m Link \<noteq> new" and "s = tso_exec (publish_code new k c) xs (publish_start m)"
    and "t \<noteq> 0" and "p_pc (loc_of_thr s t) = 3"
  shows "p_key (loc_of_thr s t) = k \<and> p_next (loc_of_thr s t) = c"
proof -
  let ?p = "publish_code new k c" and ?s = "publish_start m"
  have "\<exists>ts. loc_of_thr (sc_exec ?p ts (sc.truncate ?s)) t = loc_of_thr (tso_exec ?p xs ?s) t"
    by (rule single_writer_others [where w = 0]) (simp_all add: publish_code_def publish_start_def assms(3))
  then obtain ts where ts: "loc_of_thr (sc_exec ?p ts (sc.truncate ?s)) t = loc_of_thr s t" using assms(2) by blast
  have "publish_inv new k c (sc.truncate ?s)"
    using assms(1) by (simp add: publish_inv_def stored_by_def seen_by_def publish_start_def sc.truncate_def)
  then have "publish_inv new k c (sc_exec ?p ts (sc.truncate ?s))" by (rule publish_inv_exec)
  then have "seen_by k c (p_pc (loc_of_thr (sc_exec ?p ts (sc.truncate ?s)) 0)) (loc_of_thr s t)"
    using assms(3) ts unfolding publish_inv_def by metis
  then show ?thesis using assms(4) by (simp add: seen_by_def)
qed

lemma publish_seen_witness:
  "let s = tso_exec (publish_code 64 5 128)
      [Exec 0, Exec 0, Exec 0, Exec 0, Drain 0, Exec 1, Drain 0, Drain 0, Exec 2, Exec 2, Exec 2]
      (publish_start (\<lambda>_. 7)) in p_pc (loc_of_thr s 2) = 3 \<and> p_key (loc_of_thr s 2) = 5 \<and> p_next (loc_of_thr s 2) = 128"
proof -
  let ?s = "tso_exec (publish_code 64 5 128)
      [Exec 0, Exec 0, Exec 0, Exec 0, Drain 0, Exec 1, Drain 0, Drain 0, Exec 2, Exec 2, Exec 2] (publish_start (\<lambda>_. 7))"
  have pc: "p_pc (loc_of_thr ?s 2) = 3"
    by (simp add: tso_step_def publish_code_def publish_start_def passes_def write_write_barrier_def compiler_barrier_def)
  have "p_key (loc_of_thr ?s 2) = 5 \<and> p_next (loc_of_thr ?s 2) = 128"
    by (rule publish_seen [where m = "\<lambda>_. 7" and new = 64, OF _ HOL.refl _ pc]) simp_all
  then show ?thesis using pc unfolding Let_def by blast
qed

section \<open>Announcing a hazard pointer\<close>

text \<open>
  The search stores \<open>p\<close> in its slot and loads the link again; the updater redirects the
  link to \<open>q\<close> and, in \<open>scan\<close>, loads the slot.  What lies between the store and the load
  is \<open>write_read_barrier\<close> in the search and \<open>write_write_barrier\<close> in \<open>scan\<close>.
\<close>

datatype hcell = Slot | Prev_link

definition search_barrier :: barrier where "search_barrier = write_read_barrier"

definition scan_barrier :: barrier where "scan_barrier = write_write_barrier"

definition announce_code :: "barrier \<Rightarrow> barrier \<Rightarrow> u64 \<Rightarrow> u64 \<Rightarrow> (hcell, nat \<times> u64) code" where
  "announce_code b b' p q t l = (case l of (pc, x) \<Rightarrow>
     if t = 0 then
       (if pc = 0 then Store Slot p (1, x) else if pc = 1 then Fence b (2, x)
        else if pc = 2 then Load Prev_link (\<lambda>v. (3, v)) else Stop)
     else if t = 1 then
       (if pc = 0 then Store Prev_link q (1, x) else if pc = 1 then Fence b' (2, x)
        else if pc = 2 then Load Slot (\<lambda>v. (3, v)) else Stop)
     else Stop)"

definition announce_start :: "u64 \<Rightarrow> (hcell, nat \<times> u64) tso" where
  "announce_start p = \<lparr>cells = (\<lambda>a. case a of Slot \<Rightarrow> NULL | Prev_link \<Rightarrow> p), loc_of_thr = (\<lambda>_. (0, NULL)), buf = (\<lambda>_. [])\<rparr>"

text \<open>The search found its node still linked, and the scan did not find it announced.\<close>

definition missed :: "u64 \<Rightarrow> (hcell, nat \<times> u64) tso \<Rightarrow> bool" where
  "missed p s \<longleftrightarrow> loc_of_thr s 0 = (3, p) \<and> fst (loc_of_thr s 1) = 3 \<and> snd (loc_of_thr s 1) \<noteq> p"

text \<open>With a full barrier on both sides.\<close>

definition side_ok :: "hcell \<Rightarrow> u64 \<Rightarrow> nat \<Rightarrow> (hcell \<times> u64) list \<Rightarrow> (hcell \<Rightarrow> u64) \<Rightarrow> bool" where
  "side_ok a v pc ws m \<longleftrightarrow> (pc = 0 \<longrightarrow> ws = []) \<and> (pc = 1 \<longrightarrow> ws = [(a, v)] \<or> ws = [] \<and> m a = v) \<and>
     (2 \<le> pc \<longrightarrow> ws = [] \<and> m a = v)"

definition announce_inv :: "u64 \<Rightarrow> u64 \<Rightarrow> (hcell, nat \<times> u64) tso \<Rightarrow> bool" where
  "announce_inv p q s \<longleftrightarrow> side_ok Slot p (fst (loc_of_thr s 0)) (buf s 0) (cells s) \<and>
     side_ok Prev_link q (fst (loc_of_thr s 1)) (buf s 1) (cells s) \<and>
     (\<forall>t. t \<noteq> 0 \<and> t \<noteq> 1 \<longrightarrow> buf s t = []) \<and> \<not> missed p s"

lemma side_bufs: "side_ok a v pc ws m \<Longrightarrow> ws = [] \<or> pc = 1 \<and> ws = [(a, v)]"
  by (cases "pc = 0"; cases "pc = 1") (auto simp: side_ok_def)

lemma side_drained: "side_ok a v 1 [(a, v)] m \<Longrightarrow> side_ok a v 1 [] (m(a := v))"
  by (simp add: side_ok_def)

lemma side_other: "side_ok a v pc ws m \<Longrightarrow> a \<noteq> c \<Longrightarrow> side_ok a v pc ws (m(c := x))"
  by (simp add: side_ok_def)

lemma announce_drain:
  assumes i: "announce_inv p q s"
  shows "announce_inv p q (tso_step code (Drain t) s)"
proof -
  have I: "side_ok Slot p (fst (loc_of_thr s 0)) (buf s 0) (cells s)"
    "side_ok Prev_link q (fst (loc_of_thr s 1)) (buf s 1) (cells s)" "\<And>t. t \<noteq> 0 \<Longrightarrow> t \<noteq> 1 \<Longrightarrow> buf s t = []" "\<not> missed p s"
    using i unfolding announce_inv_def by blast+
  consider "buf s t = []" | "t = 0" "fst (loc_of_thr s 0) = 1" "buf s 0 = [(Slot, p)]"
    | "t = 1" "fst (loc_of_thr s 1) = 1" "buf s 1 = [(Prev_link, q)]"
    using side_bufs [OF I(1)] side_bufs [OF I(2)] I(3) [of t] by (cases "t = 0"; cases "t = 1") auto
  then show ?thesis
  proof cases
    case 1
    then show ?thesis using i by (simp add: tso_step_def)
  next
    case 2
    then show ?thesis using I side_drained [of Slot p] side_other [OF I(2), of Slot p]
      by (auto simp: tso_step_def announce_inv_def missed_def)
  next
    case 3
    then show ?thesis using I side_drained [of Prev_link q] side_other [OF I(1), of Prev_link q]
      by (auto simp: tso_step_def announce_inv_def missed_def)
  qed
qed

lemma announce_exec:
  assumes i: "announce_inv p q s" and pq: "p \<noteq> q"
  shows "announce_inv p q (tso_step (announce_code Mfence Mfence p q) (Exec t) s)"
proof -
  obtain r x u y where l: "loc_of_thr s 0 = (r, x)" "loc_of_thr s 1 = (u, y)" by fastforce
  have I: "side_ok Slot p r (buf s 0) (cells s)" "side_ok Prev_link q u (buf s 1) (cells s)"
    "\<And>t. t \<noteq> 0 \<Longrightarrow> t \<noteq> 1 \<Longrightarrow> buf s t = []" "\<not> (r = 3 \<and> x = p \<and> u = 3 \<and> y \<noteq> p)"
    using i l unfolding announce_inv_def missed_def by auto
  note step = tso_step_def announce_code_def passes_def
  consider "t = 0" "r \<in> {0, 1, 2}" | "t = 1" "u \<in> {0, 1, 2}" | "t = 0" "2 < r" | "t = 1" "2 < u" | "t \<noteq> 0" "t \<noteq> 1"
    by force
  then show ?thesis
  proof cases
    case 1
    then show ?thesis
    proof (elim insertE emptyE)
      assume "t = 0" "r = 0"
      then show ?thesis using I l by (simp add: step announce_inv_def missed_def side_ok_def)
    next
      assume "t = 0" "r = 1"
      then show ?thesis using I l by (cases "buf s 0") (simp_all add: step announce_inv_def missed_def side_ok_def)
    next
      assume "t = 0" "r = 2"
      then show ?thesis using I l pq by (auto simp: step announce_inv_def missed_def side_ok_def)
    qed
  next
    case 2
    then show ?thesis
    proof (elim insertE emptyE)
      assume "t = 1" "u = 0"
      then show ?thesis using I l by (simp add: step announce_inv_def missed_def side_ok_def)
    next
      assume "t = 1" "u = 1"
      then show ?thesis using I l by (cases "buf s 1") (simp_all add: step announce_inv_def missed_def side_ok_def)
    next
      assume "t = 1" "u = 2"
      then show ?thesis using I l pq by (auto simp: step announce_inv_def missed_def side_ok_def)
    qed
  qed (use i l in \<open>simp_all add: step split: prod.split\<close>)
qed

lemma announce_inv_step:
  "announce_inv p q s \<Longrightarrow> p \<noteq> q \<Longrightarrow> announce_inv p q (tso_step (announce_code Mfence Mfence p q) x s)"
proof (cases x)
  case (Exec t)
  assume "announce_inv p q s" "p \<noteq> q"
  then show ?thesis unfolding Exec by (rule announce_exec)
next
  case (Drain t)
  assume "announce_inv p q s"
  then show ?thesis unfolding Drain by (rule announce_drain)
qed

lemma announce_inv_exec:
  "announce_inv p q s \<Longrightarrow> p \<noteq> q \<Longrightarrow> announce_inv p q (tso_exec (announce_code Mfence Mfence p q) xs s)"
  by (induction xs arbitrary: s) (simp_all add: announce_inv_step)

lemma announce_late:
  assumes "p \<noteq> NULL"
  shows "b \<noteq> Mfence \<Longrightarrow> missed p (tso_exec (announce_code b b' p q)
      [Exec 0, Exec 0, Exec 0, Exec 1, Drain 1, Exec 1, Exec 1] (announce_start p))"
    and "b' \<noteq> Mfence \<Longrightarrow> missed p (tso_exec (announce_code b b' p q)
      [Exec 1, Exec 1, Exec 1, Exec 0, Drain 0, Exec 0, Exec 0] (announce_start p))"
  using assms by (simp_all add: tso_step_def announce_code_def announce_start_def passes_def missed_def)

text \<open>
  C38 (announcement): the search may validate a node that the scan does not find
  announced, and frees, unless both have a full barrier between their store and their
  load.  In the code neither has: \<open>sfence\<close> and the compiler barrier let the load go first.
\<close>

theorem announce_missed:
  assumes "p \<noteq> NULL" and "p \<noteq> q"
  shows "(\<exists>xs. missed p (tso_exec (announce_code search_barrier scan_barrier p q) xs (announce_start p))) \<and>
    (\<forall>b b'. (\<exists>xs. missed p (tso_exec (announce_code b b' p q) xs (announce_start p))) \<longleftrightarrow>
       b \<noteq> memory_barrier \<or> b' \<noteq> memory_barrier)"
proof -
  have iff: "(\<exists>xs. missed p (tso_exec (announce_code b b' p q) xs (announce_start p))) \<longleftrightarrow>
    b \<noteq> memory_barrier \<or> b' \<noteq> memory_barrier" for b b'
  proof
    assume "b \<noteq> memory_barrier \<or> b' \<noteq> memory_barrier"
    then show "\<exists>xs. missed p (tso_exec (announce_code b b' p q) xs (announce_start p))"
      using announce_late [OF assms(1)] unfolding memory_barrier_def by blast
  next
    have "announce_inv p q (announce_start p)" by (simp add: announce_inv_def side_ok_def announce_start_def missed_def)
    then have "\<not> missed p (tso_exec (announce_code Mfence Mfence p q) xs (announce_start p))" for xs
      using announce_inv_exec [OF _ assms(2)] unfolding announce_inv_def by blast
    then show "\<exists>xs. missed p (tso_exec (announce_code b b' p q) xs (announce_start p)) \<Longrightarrow>
      b \<noteq> memory_barrier \<or> b' \<noteq> memory_barrier" unfolding memory_barrier_def by blast
  qed
  have "search_barrier \<noteq> memory_barrier" by (simp add: search_barrier_def write_read_barrier_def memory_barrier_def)
  then show ?thesis unfolding iff by simp
qed

lemma announce_missed_witness:
  "\<exists>xs. missed 64 (tso_exec (announce_code search_barrier scan_barrier 64 128) xs (announce_start 64))"
  using announce_missed [of 64 128] by simp

end
