(* ===== verification/Placement.thy ===== *)
theory Placement imports Statistics "HOL-Library.Signed_Division" begin

text \<open>
  Where the driver runs and what its clock reads: \<open>d_gettimeofday\<close>, \<open>get_nbcores\<close> and
  \<open>set_affinity\<close> of \<open>util.h\<close>, and the loop of \<open>hash_init\<close> that moves from core to core
  while it fills the table.  Results of system calls are arguments; that a thread runs
  where its mask says is the kernel's part.
\<close>

section \<open>\<open>util.h\<close>\<close>

text \<open>\<open>r\<close> is what \<open>gettimeofday\<close> returns, \<open>sec\<close> and \<open>usec\<close> what it stores; \<open>None\<close> is \<open>exit\<close>.\<close>

definition d_gettimeofday :: "'d fp \<Rightarrow> u32 \<Rightarrow> u64 \<Rightarrow> u64 \<Rightarrow> 'd option" where
  "d_gettimeofday F r sec usec =
     (if r \<noteq> 0 then None else Some (fp_add F (fp_int F (sint (sec * 1000000))) (fp_int F (sint usec))))"

text \<open>\<open>onln\<close> is what \<open>sysconf\<close> returns.\<close>

definition get_nbcores :: "u64 \<Rightarrow> u32" where
  "get_nbcores onln = ucast onln"

text \<open>
  A \<open>cpu_set_t\<close> has 1024 bits; \<open>CPU_SET\<close> ignores others.  \<open>set_affinity\<close> yields the mask
  it passes on, or \<open>None\<close> when it divides by 0.
\<close>

definition CPU_SET :: "u32 \<Rightarrow> nat set \<Rightarrow> nat set" where
  "CPU_SET cpu m = (if unat cpu < 1024 then insert (unat cpu) m else m)"

definition set_affinity :: "u32 \<Rightarrow> u64 \<Rightarrow> nat set option" where
  "set_affinity nbcores tid =
     (if nbcores = 0 then None
      else let cpu = word_of_int (sint tid smod uint nbcores) in Some (CPU_SET cpu {}))"

section \<open>The loop of \<open>hash_init\<close>\<close>

text \<open>
  \<open>cpus\<close> is the mask of the main thread; the result lists, for every key, the mask it
  was inserted under.
\<close>

primrec place_keys :: "conf \<Rightarrow> u32 \<Rightarrow> u32 \<Rightarrow> 's list_op \<Rightarrow> int list \<Rightarrow> u32 \<Rightarrow> nat set \<Rightarrow> 's \<Rightarrow>
    (nat set list \<times> 's) option" where
  "place_keys cf nbcores percorekeys ins [] nextcore cpus s = Some ([], s)"
| "place_keys cf nbcores percorekeys ins (i # is) nextcore cpus s =
     (if percorekeys = 0 then None else do {
        (nextcore, cpus) \<leftarrow>
          (if (word_of_int i :: u32) mod percorekeys = 0 then do {
             m \<leftarrow> set_affinity nbcores (ucast (nextcore mod nbcores));
             Some (nextcore + 1, m)
           } else Some (nextcore, cpus));
        (r, s) \<leftarrow> ins i (bucket_of cf i) s;
        (ms, s) \<leftarrow> place_keys cf nbcores percorekeys ins is nextcore cpus s;
        Some (cpus # ms, s)
      })"

definition populate :: "conf \<Rightarrow> u32 \<Rightarrow> 's list_op \<Rightarrow> nat set \<Rightarrow> 's \<Rightarrow> (nat set list \<times> 's) option" where
  "populate cf nbcores ins cpus s =
     (if nbcores = 0 then None else do {
        let percorekeys = ucast (nbkeys cf div ucast nbcores + 1);
        is \<leftarrow> all_keys cf;
        place_keys cf nbcores percorekeys ins is 1 cpus s
      })"

section \<open>Where threads and keys go\<close>

context ieee begin

lemma gettimeofday_exact:
  assumes "t = sint sec * 1000000" "0 \<le> t" "0 \<le> sint usec" "t + sint usec \<le> 2 ^ 53"
  shows "d_gettimeofday F 0 sec usec = Some (fp_int F (t + sint usec))"
proof -
  have "sint (sec * 1000000) = t"
    using assms by (simp add: sint_word_ariths signed_take_bit_int_eq_self)
  then show ?thesis using add_int [OF assms(2-4)] by (simp add: d_gettimeofday_def)
qed

end

lemma unat_of_nat_small: "k < 2 ^ 32 \<Longrightarrow> unat (of_nat k :: u32) = k"
  by (simp add: unsigned_of_nat take_bit_nat_eq_self_iff)

lemma unat_up: "unat (ucast w :: u64) = unat w" for w :: u32
proof -
  have "unat w < 2 ^ 32" using unsigned_less [of w] by simp
  then show ?thesis by (simp add: unsigned_ucast_eq take_bit_nat_eq_self_iff)
qed

lemma set_affinity_core:
  assumes "0 < nbcores" "unat nbcores \<le> 1024" "unat tid < 2 ^ 63"
  shows "set_affinity nbcores tid = Some {unat tid mod unat nbcores}"
proof -
  have pos: "0 < unat nbcores" using assms(1) by (simp add: word_less_nat_alt)
  have "int (unat tid) < int (2 ^ 63)" by (rule iffD2 [OF of_nat_less_iff assms(3)])
  then have "uint tid < 2 ^ 63" by simp
  moreover have "- (2 ^ 63) \<le> uint tid" by (rule order_trans [OF _ uint_ge_0]) simp
  ultimately have "signed_take_bit 63 (uint tid) = uint tid" by (rule signed_take_bit_int_eq_self [rotated])
  then have t: "sint tid = int (unat tid)" by (simp add: sint_uint)
  have "sint tid smod uint nbcores = int (unat tid mod unat nbcores)"
    unfolding t by (cases "tid = 0") (simp_all add: signed_modulo_int_def zmod_int)
  moreover have "unat tid mod unat nbcores < unat nbcores" using pos by simp
  ultimately have "unat (word_of_int (sint tid smod uint nbcores) :: u32) = unat tid mod unat nbcores"
    using assms(2) by (simp add: unat_of_nat)
  moreover have "unat tid mod unat nbcores < 1024" using pos assms(2) by (meson less_le_trans mod_less_divisor)
  moreover have "nbcores \<noteq> 0" using assms(1) by simp
  ultimately show ?thesis by (simp add: set_affinity_def CPU_SET_def Let_def)
qed

text \<open>Of \<open>n\<close> numbered threads a core runs its share.\<close>

lemma residues_card:
  assumes "0 < c" "x < c"
  shows "card {t. t < n \<and> t mod c = x} = n div c + (if x < n mod c then 1 else 0)"
proof (induction n)
  case 0
  then show ?case by simp
next
  case (Suc n)
  have "{t. t < Suc n \<and> t mod c = x} = (if n mod c = x then insert n {t. t < n \<and> t mod c = x} else {t. t < n \<and> t mod c = x})"
    by (auto simp: less_Suc_eq)
  moreover have "finite {t. t < n \<and> t mod c = x}" by simp
  moreover have "n mod c < c" using assms(1) by simp
  ultimately show ?case using Suc assms by (auto simp: mod_Suc div_Suc)
qed

lemma threads_spread:
  assumes "0 < nbcores" "unat nbcores \<le> 1024" "n \<le> 2 ^ 63" "x < unat nbcores"
  shows "card {t. t < n \<and> set_affinity nbcores (of_nat t) = Some {x}} =
    n div unat nbcores + (if x < n mod unat nbcores then 1 else 0)"
proof -
  have "set_affinity nbcores (of_nat t) = Some {t mod unat nbcores}" if "t < n" for t
  proof -
    have "t < 2 ^ 63" using that assms(3) by (rule less_le_trans)
    then have u: "unat (of_nat t :: u64) = t" by (simp add: unsigned_of_nat take_bit_nat_eq_self_iff)
    show ?thesis using set_affinity_core [OF assms(1,2), of "of_nat t"] \<open>t < 2 ^ 63\<close> unfolding u by blast
  qed
  then have "{t. t < n \<and> set_affinity nbcores (of_nat t) = Some {x}} = {t. t < n \<and> t mod unat nbcores = x}" by auto
  moreover have "0 < unat nbcores" using assms(4) by simp
  ultimately show ?thesis using residues_card [OF _ assms(4)] by simp
qed

text \<open>The core of a key, and the core to move to next.\<close>

definition key_core :: "nat \<Rightarrow> nat \<Rightarrow> nat \<Rightarrow> nat" where
  "key_core c per k = Suc (k div per) mod c"

definition next_core :: "nat \<Rightarrow> nat \<Rightarrow> u32" where
  "next_core per i = of_nat (Suc ((i + per - 1) div per))"

lemma next_core_step:
  assumes "0 < per"
  shows "i mod per = 0 \<Longrightarrow> next_core per (Suc i) = next_core per i + 1"
    and "i mod per \<noteq> 0 \<Longrightarrow> next_core per (Suc i) = next_core per i"
    and "i mod per = 0 \<Longrightarrow> next_core per i = of_nat (Suc (i div per))"
    and "i mod per \<noteq> 0 \<Longrightarrow> (i - 1) div per = i div per"
proof -
  have e: "(Suc i + per - 1) div per = Suc (i div per)" using assms by (simp add: div_add_self2)
  have q: "(q * per + r) div per = q" if "r < per" for q r
    using that assms by simp
  have z: "(i + per - 1) div per = i div per" if "i mod per = 0"
  proof -
    have "i = i div per * per" using that by (metis add_0_right div_mult_mod_eq)
    then have "i + per - 1 = i div per * per + (per - 1)" using assms by linarith
    then show ?thesis using q [of "per - 1" "i div per"] assms by simp
  qed
  have n: "(i + per - 1) div per = Suc (i div per)" "(i - 1) div per = i div per" if "i mod per \<noteq> 0"
  proof -
    have i: "i = i div per * per + i mod per" by simp
    have "i mod per < per" using assms by simp
    have "i - 1 = i div per * per + (i mod per - 1)" "i + per - 1 = Suc (i div per) * per + (i mod per - 1)"
      using i that assms by simp_all
    moreover have "i mod per - 1 < per" using \<open>i mod per < per\<close> by simp
    ultimately show "(i + per - 1) div per = Suc (i div per)" "(i - 1) div per = i div per"
      using q [of "i mod per - 1" "i div per"] q [of "i mod per - 1" "Suc (i div per)"] by simp_all
  qed
  show "i mod per = 0 \<Longrightarrow> next_core per (Suc i) = next_core per i + 1"
    "i mod per \<noteq> 0 \<Longrightarrow> next_core per (Suc i) = next_core per i"
    "i mod per = 0 \<Longrightarrow> next_core per i = of_nat (Suc (i div per))"
    "i mod per \<noteq> 0 \<Longrightarrow> (i - 1) div per = i div per"
    using e z n unfolding next_core_def by simp_all
qed

lemma place_keys_cores:
  assumes c: "0 < nbcores" "unat nbcores \<le> 1024" and per: "0 < per" "per < 2 ^ 32" and n: "n < 2 ^ 31"
  shows "i \<le> n \<Longrightarrow> (i mod per \<noteq> 0 \<Longrightarrow> cpus = {key_core (unat nbcores) per i}) \<Longrightarrow>
    place_keys cf nbcores (of_nat per) ins (map int [i..<n]) (next_core per i) cpus s =
    map_option (Pair (map (\<lambda>k. {key_core (unat nbcores) per k}) [i..<n])) (for_keys cf ins (map int [i..<n]) s)"
proof (induction "n - i" arbitrary: i cpus s)
  case 0
  then show ?case by simp
next
  case (Suc d)
  then have i: "i < n" "d = n - Suc i" by simp_all
  let ?m = "{key_core (unat nbcores) per i}"
  have w: "(of_nat per :: u32) \<noteq> 0" "unat (of_nat per :: u32) = per"
    using per by (simp_all add: unat_of_nat word_unat_eq_iff)
  have div0: "(word_of_int (int i) :: u32) mod of_nat per = 0 \<longleftrightarrow> i mod per = 0"
    using w(2) i(1) n by (simp add: word_unat_eq_iff unat_mod unat_of_nat)
  have pick: "(if (word_of_int (int i) :: u32) mod of_nat per = 0 then do {
       m \<leftarrow> set_affinity nbcores (ucast (next_core per i mod nbcores));
       Some (next_core per i + 1, m)
     } else Some (next_core per i, cpus)) = Some (next_core per (Suc i), ?m)"
  proof (cases "i mod per = 0")
    case True
    have "i div per < 2 ^ 31" using i(1) n by (intro le_less_trans [OF div_le_dividend]) linarith
    then have "Suc (i div per) < 2 ^ 32" by simp
    then have u: "unat (next_core per i) = Suc (i div per)"
      unfolding next_core_step(3) [OF per(1) True] by (simp only: unat_of_nat_small)
    have "unat (ucast (next_core per i mod nbcores) :: u64) = unat (next_core per i) mod unat nbcores"
      by (simp add: unat_mod unat_up)
    moreover have "unat (next_core per i) mod unat nbcores < 2 ^ 63"
    proof (rule less_le_trans)
      show "unat (next_core per i) mod unat nbcores < unat nbcores" using c(1) by (simp add: word_less_nat_alt)
      show "unat nbcores \<le> 2 ^ 63" using c(2) by simp
    qed
    ultimately show ?thesis using True div0 set_affinity_core [OF c] u next_core_step(1) [OF per(1) True]
      by (simp add: key_core_def)
  next
    case False
    then show ?thesis using div0 Suc.prems(2) next_core_step(2) [OF per(1) False] by simp
  qed
  have nxt_home: "Suc i mod per \<noteq> 0 \<Longrightarrow> ?m = {key_core (unat nbcores) per (Suc i)}"
    using next_core_step(4) [OF per(1), of "Suc i"] by (simp add: key_core_def)
  have IH: "place_keys cf nbcores (of_nat per) ins (map int [Suc i..<n]) (next_core per (Suc i)) ?m s' =
    map_option (Pair (map (\<lambda>k. {key_core (unat nbcores) per k}) [Suc i..<n]))
      (for_keys cf ins (map int [Suc i..<n]) s')" for s'
    by (rule Suc.hyps(1)) (use i nxt_home in simp_all)
  show ?case
    unfolding upt_conv_Cons [OF i(1)] list.map place_keys.simps pick using w(1)
    by (cases "ins (int i) (bucket_of cf (int i)) s") (auto simp: IH option.map_comp o_def map_conv_bind_option)
qed

lemma block_card: "card {k. k < (n::nat) \<and> k div per = q} \<le> per" if "0 < per"
proof -
  have "{k. k < n \<and> k div per = q} \<subseteq> {q * per..<q * per + per}"
    using dividend_less_div_times [OF that] by (auto simp: add.commute)
  from card_mono [OF _ this] show ?thesis by simp
qed

text \<open>
  C28 (keys): with a core or more, \<open>hash_init\<close> fills the table as if it stayed where it
  is, and inserts key \<open>k\<close> on core \<open>(1 + k / percorekeys) % nbcores\<close>: no core gets more than
  \<open>nbkeys / nbcores + 1\<close> keys.
\<close>

theorem populate_spread:
  assumes "0 < nbcores" and "unat nbcores \<le> 1024" and "nbkeys cf < 2 ^ 31"
  defines "per \<equiv> unat (nbkeys cf) div unat nbcores + 1"
  defines "homes \<equiv> map (\<lambda>k. {Suc (k div per) mod unat nbcores}) [0..<unat (nbkeys cf)]"
  shows "populate cf nbcores ins cpus s =
      map_option (Pair homes) (for_keys cf ins (map int [0..<unat (nbkeys cf)]) s) \<and>
    (\<forall>x. card {k. k < unat (nbkeys cf) \<and> homes ! k = {x}} \<le> per)"
proof -
  let ?n = "unat (nbkeys cf)" and ?c = "unat nbcores"
  have n: "?n < 2 ^ 31" using assms(3) by (simp add: word_less_nat_alt)
  have c: "0 < ?c" using assms(1) by (simp add: word_less_nat_alt)
  have "?n div ?c < 2 ^ 31" using n by (rule le_less_trans [OF div_le_dividend])
  then have per: "0 < per" "per < 2 ^ 32" unfolding per_def by simp_all
  have "unat (nbkeys cf div ucast nbcores + 1 :: u64) = per"
    using per(2) unfolding per_def by (simp add: unat_word_ariths unat_div unat_up)
  then have w: "ucast (nbkeys cf div ucast nbcores + 1 :: u64) = (of_nat per :: u32)"
    by (intro word_unat_eq_iff [THEN iffD2]) (simp add: unsigned_ucast_eq unsigned_of_nat)
  have "next_core per 0 = 1" using per(1) by (simp add: next_core_def)
  with place_keys_cores [OF assms(1,2) per n, of 0 cpus cf ins s]
  have 1: "populate cf nbcores ins cpus s = map_option (Pair homes) (for_keys cf ins (map int [0..<?n]) s)"
    using assms(1,3) w by (simp add: populate_def all_keys_def homes_def key_core_def)
  have "card {k. k < ?n \<and> homes ! k = {x}} \<le> per" for x
  proof -
    have q: "k div per < ?c" if "k < ?n" for k
    proof -
      have "?n < ?c * per" using c unfolding per_def by (metis add.commute dividend_less_times_div mult_Suc_right plus_1_eq_Suc)
      then show ?thesis using that by (simp add: less_mult_imp_div_less)
    qed
    have inj: "i = j" if "Suc i mod ?c = Suc j mod ?c" "i < ?c" "j < ?c" for i j
      using that by (auto simp: mod_Suc split: if_splits)
    have "j div per = k div per" if "j < ?n" "homes ! j = {x}" "k < ?n" "homes ! k = {x}" for j k
      using inj [OF _ q q, OF _ that(1,3)] that by (simp add: homes_def)
    then obtain y where y: "{k. k < ?n \<and> homes ! k = {x}} \<subseteq> {k. k < ?n \<and> k div per = y}" by blast
    have "card {k. k < ?n \<and> homes ! k = {x}} \<le> card {k. k < ?n \<and> k div per = y}"
      by (rule card_mono [OF _ y]) simp
    also have "\<dots> \<le> per" by (rule block_card [OF per(1)])
    finally show ?thesis .
  qed
  with 1 show ?thesis by blast
qed

lemma populate_spread_witness:
  "populate \<lparr>nbthreads = 3, nbupdaters = 1, nbreaders = 2, nbbuckets = 1, pbnodes = 5, nbkeys = 5\<rparr> 2
     (\<lambda>k b s. Some (1, k # s)) {0} [] = Some ([{1}, {1}, {1}, {0}, {0}], [4, 3, 2, 1, 0])"
  using populate_spread [of 2 "\<lparr>nbthreads = 3, nbupdaters = 1, nbreaders = 2, nbbuckets = 1, pbnodes = 5, nbkeys = 5\<rparr>"
    "\<lambda>k b s. Some (1, k # s)" "{0}" "[]"] by (simp add: word_less_def upt_rec; fail)

end
