(* ===== verification/Spec2Isabelle.thy ===== *)
theory Spec2Isabelle
  imports Allocator_Machine Allocator_Variants Lock_Properties Gecos_Properties Sgecos_Properties List_Lock_Properties
    Lock_Search_Properties Locked_Properties Ref_Count_Properties Ref_Count_Search_Properties Hazard_Search Rcu_Counters Builds Hash_Table_Properties Statistics_Properties
    Test_Machine_Properties Store_Order Placement
begin

text \<open>
  A verification of gecos, a benchmark that compares memory reclamation schemes on
  a hash table of sorted linked lists.  One program per scheme is built from the
  same driver (\<open>mrow.c\<close>), the same allocator (\<open>allocator_malloc.c\<close>) and, except for
  \<open>list_sgecos.c\<close>, the same updater code (\<open>list_writer.c\<close>); the scheme supplies
  \<open>search\<close>, \<open>init_new_node\<close> and \<open>free_node_later\<close>, and \<open>lock.h\<close> the bucket lock.

  \<^bold>\<open>Theories and sources.\<close>

  \<^item> \<open>Prelude\<close>: words, chains of nodes, the option monad.  \<open>Node_Memory\<close>: \<open>struct node\<close>
    and \<open>struct hash\<close> of \<open>test.h\<close>, loads and stores that fail on NULL, well-formed
    buckets and the set a bucket stands for.  \<open>Atomics\<close>: \<open>atomic.h\<close>.

  \<^item> \<open>List_Writer\<close>: \<open>delete\<close> and \<open>insert\<close> of \<open>list_writer.c\<close>, over the locales
    \<open>bucket_lock\<close> (what a lock promises) and \<open>reclaimer\<close> (what a scheme promises);
    in \<open>list_writer\<close>, their combination, both operations are shown to do to the
    bucket what they do to a set.

  \<^item> \<open>Locks\<close>, \<open>Lock_Properties\<close>: every lock of \<open>lock.h\<close>, each an instance of
    \<open>bucket_lock\<close>; the machine of competing writers on one lock word, with
    mutual exclusion, and what a validating reader may conclude.

  \<^item> \<open>Allocator\<close>, \<open>Allocator_Properties\<close>: \<open>allocator_malloc.c\<close>.  The invariant
    \<open>alloc_inv\<close> separates the nodes in use, the private and the shared free list and
    the memory of the system.  \<open>Allocator_Threads\<close> gives every thread its own
    \<open>lfl\<close>, \<open>lfl_tail\<close> and counters: as long as calls do not overlap, no node is given
    out twice.  \<open>Allocator_Machine\<close> takes one access at a time, and has a schedule of two
    threads on which a node in use is given out again.  \<open>Allocator_Variants\<close> shows the
    three allocators to be the same stack in one thread (locale \<open>free_stack\<close>), the
    default one up to a flush, and models \<open>PREALLOCAT\<close>.  \<open>Allocator_Builds\<close> has the calls
    of a thread in the default and in the \<open>SIMPLE_ALLOC\<close> build; in the latter they
    touch the thread's own list only.

  \<^item> \<open>Gecos\<close>, \<open>Gecos_Search\<close>, \<open>Gecos_Properties\<close>: \<open>list_gecos.c\<close>.  \<open>search\<close> is a step
    machine, one memory access per step, in its three versions; the updater is
    another; a schedule interleaves them.  The ghost argument \<open>eras\<close> counts the
    generations a node went through.  A search is linearizable and safe; the updater's
    machine, run on its own, is the sequential code, so its calls end, do to the table
    what they do to a set and bump the generation of the deleted node alone.

  \<^item> \<open>Sgecos\<close>, \<open>Sgecos_Properties\<close>: \<open>list_sgecos.c\<close> in the same way, with one
    generation per bucket.

  \<^item> \<open>List_Lock\<close>, \<open>Ref_Count\<close>, \<open>Hazard\<close> and their properties: \<open>list_lock.c\<close>; \<open>rc.c\<close>
    and \<open>list_rc.c\<close>; \<open>hp.c\<close> and \<open>list_hp.c\<close>.  The lists with locks and with reference
    counts are instances of \<open>list_writer\<close>.  \<open>Lock_Search\<close> and its properties
    interleave the validating search of \<open>list_lock.c\<close> (\<open>GCLOCK\<close> and \<open>SEQLOCK\<close>, one
    writer) with \<open>list_writer.c\<close>; it is linearizable.  \<open>Hazard_Search\<close> is the interleaving of
    \<open>list_hp.c\<close>, with a schedule on which a search misses a key.

  \<^item> \<open>Locked_Table\<close>, \<open>Locked_Sections\<close>, \<open>Locked_Machine\<close>, \<open>Locked_Properties\<close>: the lock based list
    under the locks that searches take too, with any number of threads that search, insert
    and delete.  \<open>section_step\<close> is what a thread does inside, \<open>lt_thread\<close> adds the lock and the
    test in front of it.  The object \<open>aset\<close> performs a call at once; the locale \<open>rw_mutex\<close> is
    what a lock promises, interpreted by the spin, test-and-set and read-write lock, and in it
    every step is simulated by the object.  Sections exclude each other and end.
    A call of the allocator, which no bucket lock covers, is a step that begins it
    (\<open>l_call\<close>) and a step that performs it.  That it can be performed at once is right where
    calls cannot get in each other's way: in a \<open>SIMPLE_ALLOC\<close> build always, with the default
    allocator as long as no two calls overlap.  This is \<open>alloc_apart\<close>, the scope of the
    theorems; beyond it \<open>Allocator_Machine\<close> shows a node handed out twice.
    \<open>Threaded_Writer\<close> has the steps of \<open>list_writer.c\<close> over the allocator with threads,
    shared with the reference counting machine.

  \<^item> \<open>Ref_Count_Machine\<close>: \<open>list_rc.c\<close> and \<open>rc.c\<close> one access at a time, any number of
    searches and the updater; whoever drops the last reference frees.  \<open>Ref_Count_Counts\<close>
    says who holds references (links, links of unlinked nodes, variables) and that the
    counts count them, \<open>Ref_Count_Threads\<close> and \<open>Ref_Count_Updater\<close> that the steps keep
    it, \<open>Ref_Count_System\<close> follows whole executions and what a search knows
    (\<open>Search_Evidence\<close>, shared with RCU).  In \<open>Ref_Count_Search_Properties\<close> the search is
    linearizable, held nodes are never free and counts are exact at rest.

  \<^item> \<open>Rcu\<close>, \<open>Rcu_Properties\<close>, \<open>Rcu_Counters\<close>: \<open>rcu.c\<close> and \<open>list_rcu.c\<close>.  The callbacks
    are actors of the schedule; \<open>grace\<close> says that each waits for the readers inside
    when its node was handed over.  Then a search is linearizable and never stands
    on free memory.  The counters of waiting nodes are taken one access at a time: the
    amortised one, changed by atomic additions, is bounded; the plain one loses updates.

  \<^item> \<open>Hash_Table\<close>, \<open>Builds\<close>, \<open>Hash_Table_Properties\<close>: \<open>mrow.c\<close> and the random numbers of
    \<open>util.h\<close>.  The locales \<open>table_search\<close>, \<open>table_insert\<close> and \<open>list_ops\<close> are what a reader,
    \<open>hash_init\<close> and an updater rely on.  \<open>Builds\<close> proves the first for the search of every
    list, run on its own (\<open>run_alone\<close>), the second for the insertion of every list, and the
    third for the lists under locks, with reference counts and with generations
    per node.  The int counters of \<open>hash_init\<close> overflow at \<open>2 ^ 31\<close> buckets or keys.

  \<^item> \<open>Test_Machine\<close>, \<open>Test_Machine_Properties\<close>: \<open>test\<close> and the loops of \<open>run\<close> as a machine of
    the main thread and the threads: the barrier, \<open>go\<close>, \<open>done\<close> and the joins.  The operation
    of a round takes as many steps as the schedule likes, for ever if it likes; with
    no keys a round crashes.  The order of events holds under every schedule.  If there are
    keys, \<open>test\<close> returns within \<open>nbthreads * (NB_TEST + 7) + 3\<close> blocks of a schedule in each of
    which everybody moves and every operation returns, by a measure that some step always
    decreases; that operations return is a hypothesis, for a search may retry for ever.

  \<^item> \<open>Statistics\<close>, \<open>Statistics_Properties\<close>: sums, averages and extremes of \<open>util.h\<close>, what
    \<open>run\<close> records, \<open>test\<close> computes and \<open>main\<close> hands to \<open>printf\<close>.  Double arithmetic is the record \<open>fp\<close>,
    its laws the locale \<open>ieee\<close>, met by exact arithmetic with infinities and a NaN.  The
    extremes are the ones over all threads and iterations.  \<open>print_line\<close> is the text of a
    line; \<open>%g\<close> is defined on natural numbers and rounds to six digits.

  \<^item> \<open>Placement\<close>: \<open>set_affinity\<close>, \<open>get_nbcores\<close> and \<open>d_gettimeofday\<close>; how \<open>hash_init\<close> spreads
    the keys it inserts over the cores, and \<open>run\<close> the threads.

  \<^item> \<open>Store_Buffers\<close>, \<open>Store_Order\<close>: the barriers of \<open>atomic.h\<close> on a machine whose stores
    wait in buffers (x86).  Where one thread stores and the others load, every execution is a
    sequentially consistent interleaving: so it is for one updater and the searches that do not
    write.  The publication of a node by \<open>insert\<close> is safe; the announcement of a hazard
    pointer, where the search stores too, may be missed by \<open>scan\<close>.

  \<^bold>\<open>Modelling.\<close>  A call is a function from the memory to its result and the new
  memory; \<open>None\<close> is a crash (NULL dereferenced, failed assertion) or a call that never
  returns when undisturbed.  Loops are \<open>partial_function (option)\<close>, so a theorem that
  a call yields \<open>Some\<close> says that it returns.  Generations, reference counts and lock
  words are 64-bit and wrap: the bounds of \<open>2 ^ 64\<close> steps and \<open>2 ^ 63\<close> sections in the
  linearizability and validation theorems are those of the wrap-around.  Memory
  from \<open>calloc\<close> is the list \<open>pool\<close>; when it is empty \<open>calloc\<close> returns NULL.
  Interleavings are sequentially consistent; \<open>Store_Buffers\<close> says when that is no restriction.

  \<^bold>\<open>Not modelled.\<close>  Store buffers in the step machines of whole lists, and the
  read-modify-write instructions (full barriers) on the machine with buffers; reordering by the
  compiler; the signal handler of the driver; \<open>CHECK_CCRT\<close> and the other debugging macros; the
  content of \<open>liburcu\<close> (and its QSBR flavour), \<open>qsort\<close>, \<open>bsearch\<close> and \<open>strtoul\<close>, which are arguments with
  what they document as hypotheses.
\<close>

end
